(* ===== verification/Prelude.thy ===== *)
theory Prelude
  imports Main "HOL-Library.Word"
begin

text \<open>
  Shared vocabulary of the development: the machine types of the C code, the ways a C function
  of the server can fail, the result type that carries a failure, explicit reads and writes of
  a block of memory, C strings, and the generic lemmas and rule collections that the component
  theories build on.
\<close>

unbundle bit_operations_syntax

section \<open>Machine types\<close>

text \<open>
  A C \<open>unsigned char\<close> is a \<open>char\<close> (eight bits), so that string literals and byte buffers have
  one type. A C \<open>unsigned int\<close> is a 32-bit word, whose addition and subtraction wrap around.
\<close>

type_synonym byte = char
type_synonym u32 = "32 word"

abbreviation byte_val :: "byte \<Rightarrow> nat" where
  "byte_val c \<equiv> of_char c"

abbreviation byte_of :: "nat \<Rightarrow> byte" where
  "byte_of n \<equiv> char_of n"

section \<open>Failures and results\<close>

text \<open>
  \<open>Exit\<close> is a call of \<open>dropbear_exit\<close> (the session ends, with the logged message), \<open>Close\<close> a
  call of \<open>dropbear_close\<close>, \<open>Assert_failed\<close> a failed \<open>dropbear_assert\<close> or \<open>assert\<close>, and
  \<open>Mem_fault\<close> an access outside a block of memory or through a NULL pointer: undefined
  behaviour in C, so an operation that can give it is unsafe. \<open>Loops\<close> is a loop that repeats
  forever.
\<close>

datatype fault = Exit string | Close string | Assert_failed | Mem_fault | Loops

type_synonym 'a res = "fault + 'a"

definition bindr :: "'a res \<Rightarrow> ('a \<Rightarrow> 'b res) \<Rightarrow> 'b res" where
  "bindr m f = (case m of Inl e \<Rightarrow> Inl e | Inr x \<Rightarrow> f x)"

definition require :: "bool \<Rightarrow> fault \<Rightarrow> unit res" where
  "require p e = (if p then Inr () else Inl e)"

named_theorems res_simps \<open>computation rules of the result type\<close>

lemma bindr_Inl [simp, res_simps]: "bindr (Inl e) f = Inl e"
  by (simp add: bindr_def)

lemma bindr_Inr [simp, res_simps]: "bindr (Inr x) f = f x"
  by (simp add: bindr_def)

lemma bindr_eq_Inr_iff: "bindr m f = Inr y \<longleftrightarrow> (\<exists>x. m = Inr x \<and> f x = Inr y)"
  by (cases m) auto

lemma bindr_eq_Inl_iff: "bindr m f = Inl e \<longleftrightarrow> m = Inl e \<or> (\<exists>x. m = Inr x \<and> f x = Inl e)"
  by (cases m) auto

lemma bindr_InrE [elim]:
  assumes "bindr m f = Inr y"
  obtains x where "m = Inr x" and "f x = Inr y"
  using assms by (auto simp: bindr_eq_Inr_iff)

lemma bindr_assoc: "bindr (bindr m f) g = bindr m (\<lambda>x. bindr (f x) g)"
  by (cases m) auto

lemma bindr_cong [fundef_cong]:
  "m = m' \<Longrightarrow> (\<And>x. m' = Inr x \<Longrightarrow> f x = g x) \<Longrightarrow> bindr m f = bindr m' g"
  by (cases m') auto

lemma require_Inr_iff [simp]: "require p e = Inr u \<longleftrightarrow> p"
  by (simp add: require_def)

lemma require_Inl_iff [simp]: "require p e = Inl e' \<longleftrightarrow> \<not> p \<and> e' = e"
  by (auto simp: require_def)

lemma require_True [simp]: "require True e = Inr ()"
  by (simp add: require_def)

lemma require_False [simp]: "require False e = Inl e"
  by (simp add: require_def)

text \<open>A computation is memory safe when it does not end in \<open>Mem_fault\<close>.\<close>

definition mem_safe :: "'a res \<Rightarrow> bool" where
  "mem_safe m \<longleftrightarrow> m \<noteq> Inl Mem_fault"

lemma mem_safe_Inr [simp]: "mem_safe (Inr x)"
  by (simp add: mem_safe_def)

lemma mem_safe_Inl [simp]: "mem_safe (Inl e) \<longleftrightarrow> e \<noteq> Mem_fault"
  by (simp add: mem_safe_def)

lemma mem_safe_bindr:
  "mem_safe m \<Longrightarrow> (\<And>x. m = Inr x \<Longrightarrow> mem_safe (f x)) \<Longrightarrow> mem_safe (bindr m f)"
  by (cases m) auto

lemma mem_safe_require [simp]: "e \<noteq> Mem_fault \<Longrightarrow> mem_safe (require p e)"
  by (simp add: require_def)

text \<open>
  A computation is graceful when it succeeds with a result that has a property, or ends the
  session on purpose: no memory fault, no failed assertion.
\<close>

definition graceful :: "'a res \<Rightarrow> ('a \<Rightarrow> bool) \<Rightarrow> bool" where
  "graceful m P = (case m of Inr x \<Rightarrow> P x | Inl (Exit _) \<Rightarrow> True | Inl (Close _) \<Rightarrow> True | Inl _ \<Rightarrow> False)"

lemma graceful_simps [simp]:
  "graceful (Inr x) P \<longleftrightarrow> P x" "graceful (Inl (Exit msg)) P" "graceful (Inl (Close msg)) P"
  "\<not> graceful (Inl Mem_fault) P" "\<not> graceful (Inl Assert_failed) P" "\<not> graceful (Inl Loops) P"
  by (simp_all add: graceful_def)

lemma graceful_bindr:
  "graceful m Q \<Longrightarrow> (\<And>x. m = Inr x \<Longrightarrow> Q x \<Longrightarrow> graceful (f x) P) \<Longrightarrow> graceful (bindr m f) P"
  by (cases m) (auto simp: graceful_def)

lemma graceful_mono: "graceful m Q \<Longrightarrow> (\<And>x. m = Inr x \<Longrightarrow> Q x \<Longrightarrow> P x) \<Longrightarrow> graceful m P"
  by (cases m) (auto simp: graceful_def)

lemma graceful_require [simp]: "graceful (require p (Exit msg)) (\<lambda>_. p)"
  by (simp add: require_def)

lemma graceful_Inr: "graceful m P \<Longrightarrow> m = Inr x \<Longrightarrow> P x"
  by simp

lemma graceful_mem_safe: "graceful m P \<Longrightarrow> mem_safe m"
  by (cases m) (auto simp: graceful_def mem_safe_def)

section \<open>Blocks of memory\<close>

text \<open>
  A block of memory is a list of bytes. A read and a write name the offset and the bytes; both
  fault when they leave the block.
\<close>

definition mem_read :: "'a list \<Rightarrow> nat \<Rightarrow> nat \<Rightarrow> 'a list res" where
  "mem_read m p n = (if p + n \<le> length m then Inr (take n (drop p m)) else Inl Mem_fault)"

definition blit :: "'a list \<Rightarrow> nat \<Rightarrow> 'a list \<Rightarrow> 'a list" where
  "blit m p xs = take p m @ xs @ drop (p + length xs) m"

definition mem_write :: "'a list \<Rightarrow> nat \<Rightarrow> 'a list \<Rightarrow> 'a list res" where
  "mem_write m p xs = (if p + length xs \<le> length m then Inr (blit m p xs) else Inl Mem_fault)"

named_theorems mem_simps \<open>reads and writes of memory blocks\<close>

lemma length_blit [simp]: "p + length xs \<le> length m \<Longrightarrow> length (blit m p xs) = length m"
  by (simp add: blit_def)

lemma blit_Nil [simp]: "blit m p [] = m"
  by (simp add: blit_def)

lemma take_blit_before: "n \<le> p \<Longrightarrow> p \<le> length m \<Longrightarrow> take n (blit m p xs) = take n m"
  by (simp add: blit_def min_absorb1)

lemma take_drop_blit [mem_simps]:
  "p \<le> length m \<Longrightarrow> take (length xs) (drop p (blit m p xs)) = xs"
  by (simp add: blit_def)

lemma take_blit_upto: "p \<le> length m \<Longrightarrow> take (p + length xs) (blit m p xs) = take p m @ xs"
  by (simp add: blit_def)

lemma drop_blit_after:
  "p + length xs \<le> q \<Longrightarrow> p + length xs \<le> length m \<Longrightarrow> drop q (blit m p xs) = drop q m"
  by (simp add: blit_def)

lemma blit_blit_adjacent:
  "p + length xs \<le> length m \<Longrightarrow> blit (blit m p xs) (p + length xs) ys = blit m p (xs @ ys)"
  by (simp add: blit_def ac_simps)

lemma nth_blit:
  assumes "p + length xs \<le> length m" and "i < length m"
  shows "blit m p xs ! i = (if p \<le> i \<and> i < p + length xs then xs ! (i - p) else m ! i)"
  using assms by (auto simp: blit_def nth_append min_def)

lemma mem_read_eq [mem_simps]:
  "p + n \<le> length m \<Longrightarrow> mem_read m p n = Inr (take n (drop p m))"
  by (simp add: mem_read_def)

lemma mem_write_eq [mem_simps]:
  "p + length xs \<le> length m \<Longrightarrow> mem_write m p xs = Inr (blit m p xs)"
  by (simp add: mem_write_def)

lemma take_add_drop: "take (m + n) xs = take m xs @ take n (drop m xs)"
  by (rule take_add)

section \<open>C strings\<close>

text \<open>
  A \<open>char *\<close> that a C string function reads ends at the first NUL byte. \<open>cstr\<close> is the part of a
  byte list in front of it; two byte lists are equal for \<open>strcmp\<close> when their \<open>cstr\<close> are.
\<close>

definition cstr :: "byte list \<Rightarrow> string" where
  "cstr bs = takeWhile (\<lambda>c. c \<noteq> CHR 0x00) bs"

definition strcmp_eq :: "byte list \<Rightarrow> byte list \<Rightarrow> bool" where
  "strcmp_eq a b \<longleftrightarrow> cstr a = cstr b"

lemma cstr_no_nul [simp]: "CHR 0x00 \<notin> set bs \<Longrightarrow> cstr bs = bs"
  by (auto simp: cstr_def takeWhile_eq_all_conv)

lemma cstr_has_no_nul: "CHR 0x00 \<notin> set (cstr bs)"
  by (auto simp: cstr_def dest: set_takeWhileD)

lemma cstr_cstr [simp]: "cstr (cstr bs) = cstr bs"
  by (rule cstr_no_nul) (rule cstr_has_no_nul)

lemma length_cstr_le [simp]: "length (cstr bs) \<le> length bs"
  by (simp add: cstr_def length_takeWhile_le)

lemma cstr_full_length: "length (cstr bs) = length bs \<longleftrightarrow> CHR 0x00 \<notin> set bs"
proof
  assume "length (cstr bs) = length bs"
  then have "cstr bs = bs"
    unfolding cstr_def by (metis append_take_drop_id takeWhile_eq_take take_all_iff order_refl)
  then show "CHR 0x00 \<notin> set bs" using cstr_has_no_nul [of bs] by simp
next
  assume "CHR 0x00 \<notin> set bs"
  then show "length (cstr bs) = length bs" by simp
qed

section \<open>Unsigned arithmetic below the wrap-around\<close>

named_theorems nat_of_u32 \<open>moving comparisons and sums of words to natural numbers\<close>

lemmas [nat_of_u32] = word_le_nat_alt word_less_nat_alt

lemma unat_add_small:
  "unat (a::u32) \<le> 1000000000 \<Longrightarrow> unat b \<le> 3000000000 \<Longrightarrow> unat (a + b) = unat a + unat b"
  by (simp add: unat_word_ariths)

lemma unat_add_below:
  "unat (a::u32) + unat b < 4294967296 \<Longrightarrow> unat (a + b) = unat a + unat b"
  by (simp add: unat_word_ariths)

lemma unat_sub_below: "unat (b::u32) \<le> unat a \<Longrightarrow> unat (a - b) = unat a - unat b"
  by (simp add: unat_sub word_le_nat_alt)

lemma unat_of_nat_u32: "n < 4294967296 \<Longrightarrow> unat (of_nat n :: u32) = n"
  by (simp add: unat_of_nat take_bit_eq_mod)

lemma unat_min_u32: "unat (min (a::u32) b) = min (unat a) (unat b)"
  by (simp add: min_def word_le_nat_alt)

lemma u32_bound: "unat (a::u32) < 4294967296"
proof -
  have "unat a < 2 ^ LENGTH(32)" by (rule unsigned_less)
  then show ?thesis by simp
qed

section \<open>Runs that keep an invariant\<close>

text \<open>
  A component is a step function over its inputs that may fail. What one step keeps, every run
  of steps keeps: proved once here and used by each component through an interpretation.
\<close>

fun run :: "('s \<Rightarrow> 'i \<Rightarrow> 's res) \<Rightarrow> 's \<Rightarrow> 'i list \<Rightarrow> 's res" where
  "run step s [] = Inr s"
| "run step s (i # is) = bindr (step s i) (\<lambda>s'. run step s' is)"

lemma run_append: "run step s (is @ js) = bindr (run step s is) (\<lambda>s'. run step s' js)"
  by (induction "is" arbitrary: s) (auto simp: bindr_assoc)

locale invariant_machine =
  fixes step :: "'s \<Rightarrow> 'i \<Rightarrow> 's res"
    and inv :: "'s \<Rightarrow> bool"
  assumes step_inv: "inv s \<Longrightarrow> step s i = Inr s' \<Longrightarrow> inv s'"
begin

lemma run_inv: "inv s \<Longrightarrow> run step s is = Inr s' \<Longrightarrow> inv s'"
  by (induction "is" arbitrary: s) (auto simp: bindr_eq_Inr_iff intro: step_inv)

end

locale safe_machine = invariant_machine +
  assumes step_safe: "inv s \<Longrightarrow> mem_safe (step s i)"
begin

lemma run_safe: "inv s \<Longrightarrow> mem_safe (run step s is)"
  by (induction "is" arbitrary: s) (auto intro!: mem_safe_bindr step_safe intro: step_inv)

end

end
