(* ===== verification/Buffer.thy ===== *)
theory Buffer
  imports Prelude
begin

text \<open>
  The byte buffers of \<open>dropbear/src/buffer.c\<close>: every packet is built and parsed through them.
  All operations are here, on 32-bit positions that wrap around as in C, with every memory
  access checked against the allocated block. The theory shows that well-formedness is kept,
  that no operation leaves the block (the \<open>BUF_MAX_INCR\<close> guards make the additions exact),
  and that the SSH encodings of integers, strings and bignums read back what was written.
\<close>

section \<open>State and operations\<close>

record buffer =
  bdata :: "byte list"
  blen :: u32
  bpos :: u32
  bsize :: u32

definition BUF_MAX_INCR :: u32 where
  "BUF_MAX_INCR = 1000000000"

definition BUF_MAX_SIZE :: u32 where
  "BUF_MAX_SIZE = 1000000000"

definition BUF_MAX_MPINT :: u32 where
  "BUF_MAX_MPINT = 8240 div 8"

definition MAX_STRING_LEN :: u32 where
  "MAX_STRING_LEN = max 9000 2400"

definition buf_new :: "u32 \<Rightarrow> buffer res" where
  "buf_new sz =
     (if sz > BUF_MAX_SIZE then Inl (Exit ''buf->size too big'')
      else Inr \<lparr>bdata = replicate (unat sz) (CHR 0x00), blen = 0, bpos = 0, bsize = sz\<rparr>)"

text \<open>The block handed to \<open>free\<close> has been overwritten.\<close>

definition buf_burn_free :: "buffer \<Rightarrow> byte list res" where
  "buf_burn_free b = mem_write (bdata b) 0 (replicate (unat (bsize b)) (CHR 0x00))"

text \<open>\<open>realloc\<close> leaves the new part of the block indeterminate: \<open>junk\<close> gives its bytes.\<close>

definition buf_resize :: "(nat \<Rightarrow> byte) \<Rightarrow> buffer \<Rightarrow> u32 \<Rightarrow> buffer res" where
  "buf_resize junk b newsize =
     (if newsize > BUF_MAX_SIZE then Inl (Exit ''buf->size too big'')
      else Inr (b\<lparr>bdata := take (unat newsize) (bdata b)
                           @ map junk [length (bdata b)..<unat newsize],
                  bsize := newsize,
                  blen := min newsize (blen b),
                  bpos := min newsize (bpos b)\<rparr>))"

definition buf_newcopy :: "buffer \<Rightarrow> buffer res" where
  "buf_newcopy b =
     bindr (buf_new (blen b)) (\<lambda>ret.
     let ret = ret\<lparr>blen := blen b\<rparr> in
     if blen b > 0 then
       bindr (mem_read (bdata b) 0 (unat (blen b))) (\<lambda>bs.
       bindr (mem_write (bdata ret) 0 bs) (\<lambda>d.
       Inr (ret\<lparr>bdata := d\<rparr>)))
     else Inr ret)"

definition buf_setlen :: "buffer \<Rightarrow> u32 \<Rightarrow> buffer res" where
  "buf_setlen b l =
     (if l > bsize b then Inl (Exit ''Bad buf_setlen'')
      else Inr (b\<lparr>blen := l, bpos := min (bpos b) l\<rparr>))"

definition buf_incrlen :: "buffer \<Rightarrow> u32 \<Rightarrow> buffer res" where
  "buf_incrlen b incr =
     (if incr > BUF_MAX_INCR \<or> blen b + incr > bsize b then Inl (Exit ''Bad buf_incrlen'')
      else Inr (b\<lparr>blen := blen b + incr\<rparr>))"

definition buf_setpos :: "buffer \<Rightarrow> u32 \<Rightarrow> buffer res" where
  "buf_setpos b p =
     (if p > blen b then Inl (Exit ''Bad buf_setpos'') else Inr (b\<lparr>bpos := p\<rparr>))"

definition buf_incrwritepos :: "buffer \<Rightarrow> u32 \<Rightarrow> buffer res" where
  "buf_incrwritepos b incr =
     (if incr > BUF_MAX_INCR \<or> bpos b + incr > bsize b then Inl (Exit ''Bad buf_incrwritepos'')
      else let p = bpos b + incr in
        Inr (b\<lparr>bpos := p, blen := (if p > blen b then p else blen b)\<rparr>))"

definition buf_incrpos :: "buffer \<Rightarrow> u32 \<Rightarrow> buffer res" where
  "buf_incrpos b incr =
     (if incr > BUF_MAX_INCR \<or> bpos b + incr > blen b then Inl (Exit ''Bad buf_incrpos'')
      else Inr (b\<lparr>bpos := bpos b + incr\<rparr>))"

definition buf_decrpos :: "buffer \<Rightarrow> u32 \<Rightarrow> buffer res" where
  "buf_decrpos b decr =
     (if decr > bpos b then Inl (Exit ''Bad buf_decrpos'')
      else Inr (b\<lparr>bpos := bpos b - decr\<rparr>))"

definition buf_getbyte :: "buffer \<Rightarrow> (byte \<times> buffer) res" where
  "buf_getbyte b =
     (if bpos b \<ge> blen b then Inl (Exit ''Bad buf_getbyte'')
      else bindr (mem_read (bdata b) (unat (bpos b)) 1) (\<lambda>bs.
           Inr (hd bs, b\<lparr>bpos := bpos b + 1\<rparr>)))"

definition buf_getbool :: "buffer \<Rightarrow> (bool \<times> buffer) res" where
  "buf_getbool b = bindr (buf_getbyte b) (\<lambda>(c, b). Inr (c \<noteq> CHR 0x00, b))"

definition buf_putbyte :: "buffer \<Rightarrow> byte \<Rightarrow> buffer res" where
  "buf_putbyte b v =
     bindr (if bpos b \<ge> blen b then buf_incrlen b 1 else Inr b) (\<lambda>b.
     bindr (mem_write (bdata b) (unat (bpos b)) [v]) (\<lambda>d.
     Inr (b\<lparr>bdata := d, bpos := bpos b + 1\<rparr>)))"

text \<open>\<open>buf_getptr\<close> and \<open>buf_getwriteptr\<close> give an offset into the block.\<close>

definition buf_getptr :: "buffer \<Rightarrow> u32 \<Rightarrow> nat res" where
  "buf_getptr b l =
     (if l > BUF_MAX_INCR \<or> bpos b + l > blen b then Inl (Exit ''Bad buf_getptr'')
      else Inr (unat (bpos b)))"

definition buf_getwriteptr :: "buffer \<Rightarrow> u32 \<Rightarrow> nat res" where
  "buf_getwriteptr b l =
     (if l > BUF_MAX_INCR \<or> bpos b + l > bsize b then Inl (Exit ''Bad buf_getwriteptr'')
      else Inr (unat (bpos b)))"

text \<open>Reading \<open>l\<close> bytes through \<open>buf_getptr\<close>, and copying bytes through \<open>buf_getwriteptr\<close>.\<close>

definition buf_peek :: "buffer \<Rightarrow> u32 \<Rightarrow> byte list res" where
  "buf_peek b l = bindr (buf_getptr b l) (\<lambda>p. mem_read (bdata b) p (unat l))"

definition buf_poke :: "buffer \<Rightarrow> byte list \<Rightarrow> buffer res" where
  "buf_poke b bs =
     bindr (buf_getwriteptr b (of_nat (length bs))) (\<lambda>p.
     bindr (mem_write (bdata b) p bs) (\<lambda>d. Inr (b\<lparr>bdata := d\<rparr>)))"

definition STORE32H :: "u32 \<Rightarrow> byte list" where
  "STORE32H x = map (\<lambda>k. byte_of (unat (drop_bit k x AND 255))) [24, 16, 8, 0]"

definition LOAD32H :: "byte list \<Rightarrow> u32" where
  "LOAD32H y = push_bit 24 (of_char (y ! 0)) OR push_bit 16 (of_char (y ! 1))
               OR push_bit 8 (of_char (y ! 2)) OR of_char (y ! 3)"

definition buf_getint :: "buffer \<Rightarrow> (u32 \<times> buffer) res" where
  "buf_getint b =
     bindr (buf_peek b 4) (\<lambda>bs.
     bindr (buf_incrpos b 4) (\<lambda>b. Inr (LOAD32H bs, b)))"

definition buf_putint :: "buffer \<Rightarrow> u32 \<Rightarrow> buffer res" where
  "buf_putint b v = bindr (buf_poke b (STORE32H v)) (\<lambda>b. buf_incrwritepos b 4)"

text \<open>
  The C caller passes a pointer and a length; \<open>bytes\<close> is the memory behind the pointer, and
  \<open>memcpy\<close> faults when it is shorter than the length.
\<close>

definition buf_putbytes :: "buffer \<Rightarrow> byte list \<Rightarrow> u32 \<Rightarrow> buffer res" where
  "buf_putbytes b bytes l =
     bindr (buf_getwriteptr b l) (\<lambda>p.
     bindr (mem_read bytes 0 (unat l)) (\<lambda>bs.
     bindr (mem_write (bdata b) p bs) (\<lambda>d.
     buf_incrwritepos (b\<lparr>bdata := d\<rparr>) l)))"

definition buf_putstring :: "buffer \<Rightarrow> byte list \<Rightarrow> u32 \<Rightarrow> buffer res" where
  "buf_putstring b str l = bindr (buf_putint b l) (\<lambda>b. buf_putbytes b str l)"

definition buf_putbufstring :: "buffer \<Rightarrow> buffer \<Rightarrow> buffer res" where
  "buf_putbufstring b bstr = buf_putstring b (bdata bstr) (blen bstr)"

text \<open>The returned string is the \<open>len\<close> bytes; the NUL the code appends is not part of them.\<close>

definition buf_getstring :: "buffer \<Rightarrow> (byte list \<times> buffer) res" where
  "buf_getstring b =
     bindr (buf_getint b) (\<lambda>(l, b).
     if l > MAX_STRING_LEN then Inl (Exit ''String too long'')
     else bindr (buf_peek b l) (\<lambda>ret.
          bindr (buf_incrpos b l) (\<lambda>b. Inr (ret, b))))"

definition buf_getstringbuf_int :: "buffer \<Rightarrow> bool \<Rightarrow> (buffer \<times> buffer) res" where
  "buf_getstringbuf_int b incllen =
     bindr (buf_getint b) (\<lambda>(l, b).
     if l > MAX_STRING_LEN then Inl (Exit ''String too long'')
     else
       bindr (buf_new (l + (if incllen then 4 else 0))) (\<lambda>ret.
       bindr (if incllen then buf_putint ret l else Inr ret) (\<lambda>ret.
       bindr (buf_getwriteptr ret l) (\<lambda>p.
       bindr (buf_peek b l) (\<lambda>bs.
       bindr (mem_write (bdata ret) p bs) (\<lambda>d.
       bindr (buf_incrpos b l) (\<lambda>b.
       bindr (buf_incrlen (ret\<lparr>bdata := d\<rparr>) l) (\<lambda>ret.
       bindr (buf_setpos ret 0) (\<lambda>ret. Inr (ret, b))))))))))"

definition buf_getstringbuf :: "buffer \<Rightarrow> (buffer \<times> buffer) res" where
  "buf_getstringbuf b = buf_getstringbuf_int b False"

definition buf_getbuf :: "buffer \<Rightarrow> (buffer \<times> buffer) res" where
  "buf_getbuf b = buf_getstringbuf_int b True"

definition buf_getptrcopy :: "buffer \<Rightarrow> u32 \<Rightarrow> buffer res" where
  "buf_getptrcopy b l =
     bindr (buf_peek b l) (\<lambda>src.
     bindr (buf_new l) (\<lambda>ret.
     bindr (buf_putbytes ret src l) (\<lambda>ret. buf_setpos ret 0)))"

definition buf_eatstring :: "buffer \<Rightarrow> buffer res" where
  "buf_eatstring b = bindr (buf_getint b) (\<lambda>(l, b). buf_incrpos b l)"

text \<open>
  Bignums of \<open>libtommath\<close> are integers. The three functions the buffer code calls are written
  out from \<open>bn_mp_count_bits.c\<close>, \<open>bn_mp_to_ubin.c\<close> and \<open>bn_mp_from_ubin.c\<close>.
\<close>

fun count_bits :: "nat \<Rightarrow> nat" where
  "count_bits n = (if n = 0 then 0 else Suc (count_bits (n div 2)))"

declare count_bits.simps [simp del]

definition mp_count_bits :: "int \<Rightarrow> nat" where
  "mp_count_bits mp = count_bits (nat \<bar>mp\<bar>)"

definition mp_ubin_size :: "int \<Rightarrow> nat" where
  "mp_ubin_size mp = mp_count_bits mp div 8 + (if mp_count_bits mp mod 8 \<noteq> 0 then 1 else 0)"

fun ubin :: "nat \<Rightarrow> nat \<Rightarrow> byte list" where
  "ubin 0 n = []"
| "ubin (Suc k) n = ubin k (n div 256) @ [byte_of (n mod 256)]"

definition mp_to_ubin :: "int \<Rightarrow> nat \<Rightarrow> byte list option" where
  "mp_to_ubin mp maxlen =
     (if mp_ubin_size mp > maxlen then None else Some (ubin (mp_ubin_size mp) (nat \<bar>mp\<bar>)))"

definition mp_from_ubin :: "byte list \<Rightarrow> int" where
  "mp_from_ubin bs = foldl (\<lambda>a c. a * 256 + of_char c) 0 bs"

definition buf_putmpint :: "buffer \<Rightarrow> int \<Rightarrow> buffer res" where
  "buf_putmpint b mp =
     (if mp < 0 then Inl (Exit ''negative bignum'')
      else
        let bits = (of_nat (mp_count_bits mp) :: u32);
            l = (if mp = 0 then 0 else bits div 8 + 1);
            pad = (if mp \<noteq> 0 \<and> bits mod 8 = 0 then 1 else 0) in
        bindr (buf_putint b l) (\<lambda>b.
        if l > 0 then
          bindr (if pad = 1 then buf_putbyte b (CHR 0x00) else Inr b) (\<lambda>b.
          bindr (buf_getwriteptr b (l - pad)) (\<lambda>p.
          case mp_to_ubin mp (unat (l - pad)) of
            None \<Rightarrow> Inl (Exit ''mpint error'')
          | Some bs \<Rightarrow>
              bindr (mem_write (bdata b) p bs) (\<lambda>d.
              buf_incrwritepos (b\<lparr>bdata := d\<rparr>) (of_nat (length bs)))))
        else Inr b))"

text \<open>\<open>None\<close> is the result \<open>DROPBEAR_FAILURE\<close>; the position is then as the code leaves it.\<close>

definition buf_getmpint :: "buffer \<Rightarrow> (int option \<times> buffer) res" where
  "buf_getmpint b =
     bindr (buf_getint b) (\<lambda>(l, b).
     if l = 0 then Inr (Some 0, b)
     else if l > BUF_MAX_MPINT then Inr (None, b)
     else bindr (buf_peek b 1) (\<lambda>c.
       if byte_val (hd c) AND 128 \<noteq> 0 then Inr (None, b)
       else bindr (buf_peek b l) (\<lambda>bs.
         bindr (buf_incrpos b l) (\<lambda>b. Inr (Some (mp_from_ubin bs), b)))))"

section \<open>Well-formed buffers\<close>

definition buf_ok :: "buffer \<Rightarrow> bool" where
  "buf_ok b \<longleftrightarrow> length (bdata b) = unat (bsize b) \<and> bsize b \<le> BUF_MAX_SIZE
     \<and> blen b \<le> bsize b \<and> bpos b \<le> blen b"

text \<open>What is left to read, the used contents, and the room for writing.\<close>

definition buf_rest :: "buffer \<Rightarrow> byte list" where
  "buf_rest b = take (unat (blen b) - unat (bpos b)) (drop (unat (bpos b)) (bdata b))"

definition buf_content :: "buffer \<Rightarrow> byte list" where
  "buf_content b = take (unat (blen b)) (bdata b)"

definition buf_room :: "buffer \<Rightarrow> nat" where
  "buf_room b = unat (bsize b) - unat (bpos b)"

text \<open>The effect of reading \<open>n\<close> bytes and of writing the bytes \<open>bs\<close>.\<close>

definition buf_skip :: "buffer \<Rightarrow> nat \<Rightarrow> buffer" where
  "buf_skip b n = b\<lparr>bpos := bpos b + of_nat n\<rparr>"

definition buf_wrote :: "buffer \<Rightarrow> byte list \<Rightarrow> buffer" where
  "buf_wrote b bs =
     b\<lparr>bdata := blit (bdata b) (unat (bpos b)) bs,
       bpos := bpos b + of_nat (length bs),
       blen := max (blen b) (bpos b + of_nat (length bs))\<rparr>"

named_theorems buf_simps \<open>effects of the buffer operations on well-formed buffers\<close>

lemmas buf_consts = BUF_MAX_INCR_def BUF_MAX_SIZE_def

lemma buf_ok_nat:
  assumes "buf_ok b"
  shows "unat (bpos b) \<le> unat (blen b)" "unat (blen b) \<le> unat (bsize b)"
    "unat (bsize b) \<le> 1000000000" "length (bdata b) = unat (bsize b)"
  using assms by (simp_all add: buf_ok_def buf_consts word_le_nat_alt)

lemma buf_okI:
  "\<lbrakk>length (bdata b) = unat (bsize b); unat (bsize b) \<le> 1000000000;
    unat (blen b) \<le> unat (bsize b); unat (bpos b) \<le> unat (blen b)\<rbrakk> \<Longrightarrow> buf_ok b"
  by (simp add: buf_ok_def buf_consts word_le_nat_alt)

lemma length_buf_rest: "buf_ok b \<Longrightarrow> length (buf_rest b) = unat (blen b) - unat (bpos b)"
  using buf_ok_nat [of b] by (simp add: buf_rest_def)

lemma length_buf_content: "buf_ok b \<Longrightarrow> length (buf_content b) = unat (blen b)"
  using buf_ok_nat [of b] by (simp add: buf_content_def)

lemma length_buf_rest_le: "buf_ok b \<Longrightarrow> length (buf_rest b) \<le> 1000000000"
  using buf_ok_nat [of b] by (simp add: length_buf_rest)

lemma unat_pos_plus:
  assumes "buf_ok b" and "n \<le> 2000000000"
  shows "unat (bpos b + of_nat n) = unat (bpos b) + n"
proof -
  have "unat (of_nat n :: u32) = n" using assms(2) by (intro unat_of_nat_u32) simp
  then show ?thesis using buf_ok_nat [OF assms(1)] assms(2)
    by (subst unat_add_below) simp_all
qed

section \<open>Reading\<close>

lemma buf_skip_ok [buf_simps]:
  assumes "buf_ok b" and "n \<le> length (buf_rest b)"
  shows "buf_ok (buf_skip b n)"
proof -
  note bn = buf_ok_nat [OF assms(1)]
  have n: "n \<le> unat (blen b) - unat (bpos b)" using assms by (simp add: length_buf_rest)
  have "unat (bpos b + of_nat n) = unat (bpos b) + n"
    using assms(1) by (rule unat_pos_plus) (use n bn in linarith)
  with bn n show ?thesis by (intro buf_okI) (simp_all add: buf_skip_def)
qed

lemma buf_rest_skip [buf_simps]:
  assumes "buf_ok b" and "n \<le> length (buf_rest b)"
  shows "buf_rest (buf_skip b n) = drop n (buf_rest b)"
proof -
  note bn = buf_ok_nat [OF assms(1)]
  have n: "n \<le> unat (blen b) - unat (bpos b)" using assms by (simp add: length_buf_rest)
  have p: "unat (bpos b + of_nat n) = unat (bpos b) + n"
    using assms(1) by (rule unat_pos_plus) (use n bn in linarith)
  show ?thesis by (simp add: buf_rest_def buf_skip_def p drop_take add.commute)
qed

lemma buf_skip_simps [simp]:
  "bdata (buf_skip b n) = bdata b" "blen (buf_skip b n) = blen b" "bsize (buf_skip b n) = bsize b"
  by (simp_all add: buf_skip_def)

lemma buf_skip_skip [simp]: "buf_skip (buf_skip b m) n = buf_skip b (m + n)"
  by (simp add: buf_skip_def add.assoc)

lemma in_range_iff:
  assumes "buf_ok b"
  shows "(l > BUF_MAX_INCR \<or> bpos b + l > blen b) \<longleftrightarrow> length (buf_rest b) < unat l"
proof (cases "unat l \<le> 1000000000")
  case True
  have "unat (bpos b + l) = unat (bpos b) + unat l"
    using unat_pos_plus [OF assms, of "unat l"] True by simp
  then show ?thesis using True buf_ok_nat [OF assms] assms
    by (auto simp: buf_consts word_less_nat_alt length_buf_rest)
next
  case False
  then show ?thesis using length_buf_rest_le [OF assms]
    by (auto simp: buf_consts word_less_nat_alt)
qed

lemma buf_incrpos_eq [buf_simps]:
  assumes "buf_ok b"
  shows "buf_incrpos b l =
    (if unat l \<le> length (buf_rest b) then Inr (buf_skip b (unat l)) else Inl (Exit ''Bad buf_incrpos''))"
  using in_range_iff [OF assms, of l] by (auto simp: buf_incrpos_def buf_skip_def)

lemma buf_peek_eq [buf_simps]:
  assumes "buf_ok b"
  shows "buf_peek b l =
    (if unat l \<le> length (buf_rest b) then Inr (take (unat l) (buf_rest b))
     else Inl (Exit ''Bad buf_getptr''))"
proof (cases "unat l \<le> length (buf_rest b)")
  case True
  then have "unat (bpos b) + unat l \<le> length (bdata b)"
    using buf_ok_nat [OF assms] assms by (simp add: length_buf_rest)
  moreover have "take (unat l) (buf_rest b) = take (unat l) (drop (unat (bpos b)) (bdata b))"
    using True assms by (simp add: buf_rest_def length_buf_rest min_absorb1)
  ultimately show ?thesis using True in_range_iff [OF assms, of l]
    by (auto simp: buf_peek_def buf_getptr_def mem_read_eq)
next
  case False
  then show ?thesis using in_range_iff [OF assms, of l]
    by (auto simp: buf_peek_def buf_getptr_def)
qed

lemma buf_getbyte_eq [buf_simps]:
  assumes "buf_ok b"
  shows "buf_getbyte b =
    (case buf_rest b of [] \<Rightarrow> Inl (Exit ''Bad buf_getbyte'') | c # _ \<Rightarrow> Inr (c, buf_skip b 1))"
proof (cases "bpos b \<ge> blen b")
  case True
  then have "buf_rest b = []" by (simp add: buf_rest_def word_le_nat_alt)
  with True show ?thesis by (simp add: buf_getbyte_def)
next
  case False
  then have lt: "unat (bpos b) < unat (blen b)" by (simp add: word_le_nat_alt)
  then have inb: "unat (bpos b) + 1 \<le> length (bdata b)" using buf_ok_nat [OF assms] by simp
  from lt inb have "buf_rest b = bdata b ! unat (bpos b) # tl (buf_rest b)"
    by (simp add: buf_rest_def Cons_nth_drop_Suc [symmetric] take_Cons')
  then obtain cs where "buf_rest b = bdata b ! unat (bpos b) # cs" by blast
  with False inb show ?thesis
    by (simp add: buf_getbyte_def mem_read_eq buf_skip_def take_Suc_conv_app_nth hd_drop_conv_nth)
qed

lemma buf_getbool_eq [buf_simps]:
  assumes "buf_ok b"
  shows "buf_getbool b =
    (case buf_rest b of [] \<Rightarrow> Inl (Exit ''Bad buf_getbyte'')
     | c # _ \<Rightarrow> Inr (c \<noteq> CHR 0x00, buf_skip b 1))"
  by (simp add: buf_getbool_def buf_getbyte_eq [OF assms] split: list.split)

lemma buf_getint_eq [buf_simps]:
  assumes "buf_ok b"
  shows "buf_getint b =
    (if 4 \<le> length (buf_rest b) then Inr (LOAD32H (take 4 (buf_rest b)), buf_skip b 4)
     else Inl (Exit ''Bad buf_getptr''))"
  by (simp add: buf_getint_def buf_peek_eq [OF assms] buf_incrpos_eq [OF assms])

section \<open>Writing\<close>

lemma room_iff:
  assumes "buf_ok b"
  shows "(l > BUF_MAX_INCR \<or> bpos b + l > bsize b) \<longleftrightarrow> buf_room b < unat l"
proof (cases "unat l \<le> 1000000000")
  case True
  have "unat (bpos b + l) = unat (bpos b) + unat l"
    using unat_pos_plus [OF assms, of "unat l"] True by simp
  then show ?thesis using True buf_ok_nat [OF assms]
    by (auto simp: buf_consts word_less_nat_alt buf_room_def)
next
  case False
  then show ?thesis using buf_ok_nat [OF assms]
    by (auto simp: buf_consts word_less_nat_alt buf_room_def)
qed

lemma buf_room_le: "buf_ok b \<Longrightarrow> buf_room b \<le> 1000000000"
  using buf_ok_nat [of b] by (simp add: buf_room_def)

lemma buf_wrote_pos:
  assumes "buf_ok b" and "length bs \<le> buf_room b"
  shows "unat (bpos (buf_wrote b bs)) = unat (bpos b) + length bs"
  unfolding buf_wrote_def using unat_pos_plus [OF assms(1), of "length bs"] buf_room_le [OF assms(1)] assms(2)
  by simp

lemma unat_max_u32: "unat (max (a::u32) b) = max (unat a) (unat b)"
  by (simp add: max_def word_le_nat_alt)

lemma buf_wrote_len:
  assumes "buf_ok b" and "length bs \<le> buf_room b"
  shows "unat (blen (buf_wrote b bs)) = max (unat (blen b)) (unat (bpos b) + length bs)"
  using buf_wrote_pos [OF assms] by (simp add: buf_wrote_def unat_max_u32)

lemma buf_wrote_size [simp]: "bsize (buf_wrote b bs) = bsize b"
  by (simp add: buf_wrote_def)

lemma buf_wrote_ok [buf_simps]:
  assumes "buf_ok b" and "length bs \<le> buf_room b"
  shows "buf_ok (buf_wrote b bs)"
proof -
  note bn = buf_ok_nat [OF assms(1)]
  have "length (bdata (buf_wrote b bs)) = unat (bsize b)"
    using assms bn by (simp add: buf_wrote_def buf_room_def)
  then show ?thesis
    using bn assms(2) buf_wrote_pos [OF assms] buf_wrote_len [OF assms]
    by (intro buf_okI) (simp_all add: buf_room_def)
qed

lemma buf_room_wrote [buf_simps]:
  assumes "buf_ok b" and "length bs \<le> buf_room b"
  shows "buf_room (buf_wrote b bs) = buf_room b - length bs"
  unfolding buf_room_def buf_wrote_pos [OF assms] buf_wrote_size by simp

lemma buf_wrote_Nil [simp]: "buf_ok b \<Longrightarrow> buf_wrote b [] = b"
  by (cases b) (auto simp: buf_wrote_def buf_ok_def max_def)

lemma buf_wrote_wrote [buf_simps]:
  assumes "buf_ok b" and "length xs + length ys \<le> buf_room b"
  shows "buf_wrote (buf_wrote b xs) ys = buf_wrote b (xs @ ys)"
proof -
  note bn = buf_ok_nat [OF assms(1)]
  have p: "unat (bpos b + of_nat (length xs)) = unat (bpos b) + length xs"
    using assms buf_room_le [OF assms(1)] by (intro unat_pos_plus) auto
  have q: "unat (bpos b + of_nat (length xs + length ys)) = unat (bpos b) + (length xs + length ys)"
    using assms buf_room_le [OF assms(1)] by (intro unat_pos_plus) auto
  have d: "blit (blit (bdata b) (unat (bpos b)) xs) (unat (bpos b) + length xs) ys
      = blit (bdata b) (unat (bpos b)) (xs @ ys)"
    using assms(2) bn by (intro blit_blit_adjacent) (simp add: buf_room_def)
  have m: "max (max (blen b) (bpos b + of_nat (length xs))) (bpos b + of_nat (length xs + length ys))
      = max (blen b) (bpos b + of_nat (length xs + length ys))"
    using p q by (simp add: max_def word_le_nat_alt)
  show ?thesis using d m by (simp add: buf_wrote_def p add.assoc)
qed

lemma buf_incrwritepos_blit:
  assumes "buf_ok b" and "length bs \<le> buf_room b"
  shows "buf_incrwritepos (b\<lparr>bdata := blit (bdata b) (unat (bpos b)) bs\<rparr>) (of_nat (length bs))
    = Inr (buf_wrote b bs)"
proof -
  have "unat (of_nat (length bs) :: u32) = length bs"
    using assms(2) buf_room_le [OF assms(1)] by (intro unat_of_nat_u32) simp
  then have "\<not> (of_nat (length bs) > BUF_MAX_INCR \<or> bpos b + of_nat (length bs) > bsize b)"
    using room_iff [OF assms(1), of "of_nat (length bs)"] assms(2) by simp
  then show ?thesis by (auto simp: buf_incrwritepos_def buf_wrote_def Let_def max_def)
qed

lemma mem_write_room:
  assumes "buf_ok b" and "length bs \<le> buf_room b"
  shows "mem_write (bdata b) (unat (bpos b)) bs = Inr (blit (bdata b) (unat (bpos b)) bs)"
  using assms buf_ok_nat [OF assms(1)] by (intro mem_write_eq) (simp add: buf_room_def)

lemma buf_getwriteptr_eq [buf_simps]:
  assumes "buf_ok b"
  shows "buf_getwriteptr b l =
    (if unat l \<le> buf_room b then Inr (unat (bpos b)) else Inl (Exit ''Bad buf_getwriteptr''))"
  using room_iff [OF assms, of l] by (auto simp: buf_getwriteptr_def)

lemma buf_putbytes_eq [buf_simps]:
  assumes "buf_ok b" and "unat l \<le> length bytes"
  shows "buf_putbytes b bytes l =
    (if unat l \<le> buf_room b then Inr (buf_wrote b (take (unat l) bytes))
     else Inl (Exit ''Bad buf_getwriteptr''))"
proof (cases "unat l \<le> buf_room b")
  case True
  let ?bs = "take (unat l) bytes"
  have len: "length ?bs = unat l" using assms(2) by simp
  have r: "length ?bs \<le> buf_room b" using len True by simp
  have "of_nat (length ?bs) = l" unfolding len by simp
  with buf_incrwritepos_blit [OF assms(1) r] mem_write_room [OF assms(1) r] True show ?thesis
    by (simp add: buf_putbytes_def buf_getwriteptr_eq [OF assms(1)] mem_read_eq assms(2))
next
  case False
  then show ?thesis by (simp add: buf_putbytes_def buf_getwriteptr_eq [OF assms(1)])
qed

lemma length_STORE32H [simp]: "length (STORE32H v) = 4"
  by (simp add: STORE32H_def)

lemma buf_putint_eq [buf_simps]:
  assumes "buf_ok b"
  shows "buf_putint b v =
    (if 4 \<le> buf_room b then Inr (buf_wrote b (STORE32H v)) else Inl (Exit ''Bad buf_getwriteptr''))"
proof (cases "4 \<le> buf_room b")
  case True
  then have r: "length (STORE32H v) \<le> buf_room b" by simp
  from buf_incrwritepos_blit [OF assms r] mem_write_room [OF assms r] True show ?thesis
    by (simp add: buf_putint_def buf_poke_def buf_getwriteptr_eq [OF assms])
next
  case False
  then show ?thesis by (simp add: buf_putint_def buf_poke_def buf_getwriteptr_eq [OF assms])
qed

lemma buf_putstring_eq [buf_simps]:
  assumes "buf_ok b" and "unat l \<le> length str" and "4 + unat l \<le> buf_room b"
  shows "buf_putstring b str l = Inr (buf_wrote b (STORE32H l @ take (unat l) str))"
  using assms
  by (simp add: buf_putstring_def buf_putint_eq buf_putbytes_eq buf_wrote_ok buf_room_wrote
      buf_wrote_wrote)

lemma buf_putstring_full:
  assumes "buf_ok b" and "buf_room b < 4 + unat l" and "unat l \<le> length str"
  shows "buf_putstring b str l = Inl (Exit ''Bad buf_getwriteptr'')"
  using assms by (auto simp: buf_putstring_def buf_putint_eq buf_putbytes_eq buf_wrote_ok buf_room_wrote)

lemma buf_putbyte_eq [buf_simps]:
  assumes "buf_ok b"
  shows "buf_putbyte b v =
    (if 1 \<le> buf_room b then Inr (buf_wrote b [v]) else Inl (Exit ''Bad buf_incrlen''))"
proof (cases "bpos b \<ge> blen b")
  case True
  then have eq: "bpos b = blen b" using assms by (simp add: buf_ok_def)
  have iff: "(1 > BUF_MAX_INCR \<or> blen b + 1 > bsize b) \<longleftrightarrow> buf_room b < 1"
    using room_iff [OF assms, of 1] eq by simp
  show ?thesis
  proof (cases "1 \<le> buf_room b")
    case r: True
    then have "length [v] \<le> buf_room b" by simp
    from mem_write_room [OF assms this] iff r eq show ?thesis
      using buf_wrote_pos [OF assms \<open>length [v] \<le> buf_room b\<close>]
      by (auto simp: buf_putbyte_def buf_incrlen_def buf_wrote_def max_def word_le_nat_alt)
  next
    case False
    with iff True show ?thesis by (auto simp: buf_putbyte_def buf_incrlen_def)
  qed
next
  case False
  then have lt: "unat (bpos b) < unat (blen b)" by (simp add: word_le_nat_alt)
  then have r: "length [v] \<le> buf_room b" using buf_ok_nat [OF assms] by (simp add: buf_room_def)
  have "unat (bpos b + 1) = unat (bpos b) + 1"
    using buf_wrote_pos [OF assms r] by (simp add: buf_wrote_def)
  then have "max (blen b) (bpos b + 1) = blen b"
    using lt by (auto simp: max_def word_le_nat_alt word_unat_eq_iff)
  with False r mem_write_room [OF assms r] show ?thesis
    by (simp add: buf_putbyte_def buf_wrote_def)
qed

lemma buf_new_ok: "buf_new sz = Inr b \<Longrightarrow> buf_ok b"
  by (auto simp: buf_new_def buf_ok_def split: if_splits)

lemma buf_new_Inr: "unat sz \<le> 1000000000 \<Longrightarrow>
  buf_new sz = Inr \<lparr>bdata = replicate (unat sz) (CHR 0x00), blen = 0, bpos = 0, bsize = sz\<rparr>"
  by (auto simp: buf_new_def buf_consts word_less_nat_alt)

text \<open>A buffer in append mode has its position at the end of its contents.\<close>

definition at_end :: "buffer \<Rightarrow> bool" where
  "at_end b \<longleftrightarrow> buf_ok b \<and> bpos b = blen b"

lemma at_end_wrote:
  assumes "at_end b" and "length bs \<le> buf_room b"
  shows "at_end (buf_wrote b bs)" and "buf_content (buf_wrote b bs) = buf_content b @ bs"
proof -
  have ok: "buf_ok b" and eq: "bpos b = blen b" using assms(1) by (simp_all add: at_end_def)
  have len: "unat (blen (buf_wrote b bs)) = unat (blen b) + length bs"
    using buf_wrote_len [OF ok assms(2)] eq by simp
  have "bpos (buf_wrote b bs) = blen (buf_wrote b bs)"
    using len buf_wrote_pos [OF ok assms(2)] eq by (simp add: word_unat_eq_iff)
  then show "at_end (buf_wrote b bs)" using buf_wrote_ok [OF ok assms(2)] by (simp add: at_end_def)
  have "unat (blen b) \<le> length (bdata b)" using buf_ok_nat [OF ok] by simp
  then have "take (unat (blen b) + length bs) (blit (bdata b) (unat (blen b)) bs)
      = take (unat (blen b)) (bdata b) @ bs" by (rule take_blit_upto)
  moreover have "bdata (buf_wrote b bs) = blit (bdata b) (unat (blen b)) bs"
    using eq by (simp add: buf_wrote_def)
  ultimately show "buf_content (buf_wrote b bs) = buf_content b @ bs"
    unfolding buf_content_def len by simp
qed

section \<open>Encodings read back what was written\<close>

lemma of_char_byte_of_u32: "n < 256 \<Longrightarrow> (of_char (byte_of n) :: u32) = of_nat n"
proof -
  assume "n < 256"
  have "(of_char (byte_of n) :: u32) = of_nat (of_char (byte_of n))"
    by (simp only: of_nat_of_char)
  also have "(of_char (byte_of n) :: nat) = n" using \<open>n < 256\<close> by (simp add: of_char_of)
  finally show ?thesis .
qed

lemma u32_byte_part: "(of_char (byte_of (unat (w AND 255 :: u32))) :: u32) = w AND 255"
proof -
  have "w AND 255 \<le> (255::u32)" by (rule word_and_le1)
  then have "unat (w AND 255) \<le> 255" by (simp add: word_le_nat_alt)
  then show ?thesis by (subst of_char_byte_of_u32) simp_all
qed

lemma LOAD32H_STORE32H [simp]: "LOAD32H (STORE32H v) = v"
proof -
  have m: "(255::u32) = mask 8" by (simp add: mask_eq_exp_minus_1)
  have "LOAD32H (STORE32H v) = push_bit 24 (drop_bit 24 v AND 255) OR push_bit 16 (drop_bit 16 v AND 255)
      OR push_bit 8 (drop_bit 8 v AND 255) OR (v AND 255)"
    by (simp add: LOAD32H_def STORE32H_def u32_byte_part)
  also have "\<dots> = v"
  proof (rule bit_word_eqI)
    fix n assume "n < LENGTH(32)"
    then consider "n < 8" | "8 \<le> n" "n < 16" | "16 \<le> n" "n < 24" | "24 \<le> n" "n < 32"
      by fastforce
    then show "bit (push_bit 24 (drop_bit 24 v AND 255) OR push_bit 16 (drop_bit 16 v AND 255)
      OR push_bit 8 (drop_bit 8 v AND 255) OR (v AND 255)) n = bit v n"
      unfolding m by cases (auto simp: bit_simps)
  qed
  finally show ?thesis .
qed

lemma LOAD32H_append [simp]: "LOAD32H (take 4 (STORE32H v @ r)) = v"
  by simp

text \<open>
  An encoding: what \<open>put\<close> appends, and that \<open>get\<close> reads it back from the front of what is left.
  Every client that writes a value and reads it again rests on these two laws only.
\<close>

locale buf_codec =
  fixes put :: "buffer \<Rightarrow> 'a \<Rightarrow> buffer res"
    and get :: "buffer \<Rightarrow> ('r \<times> buffer) res"
    and enc :: "'a \<Rightarrow> byte list"
    and val :: "'a \<Rightarrow> 'r"
    and ok :: "'a \<Rightarrow> bool"
  assumes put_enc: "\<lbrakk>buf_ok b; ok v; length (enc v) \<le> buf_room b\<rbrakk> \<Longrightarrow>
      put b v = Inr (buf_wrote b (enc v))"
    and get_enc: "\<lbrakk>buf_ok b; ok v; buf_rest b = enc v @ r\<rbrakk> \<Longrightarrow>
      get b = Inr (val v, buf_skip b (length (enc v)))"
begin

lemma put_then_get:
  assumes "at_end b" and "ok v" and "length (enc v) \<le> buf_room b"
  shows "\<exists>b1 b2. put b v = Inr b1 \<and> buf_setpos b1 (bpos b) = Inr b2 \<and> get b2 = Inr (val v, b1)"
proof -
  have ok: "buf_ok b" and eq: "bpos b = blen b" using assms(1) by (simp_all add: at_end_def)
  let ?b1 = "buf_wrote b (enc v)" and ?b2 = "(buf_wrote b (enc v))\<lparr>bpos := bpos b\<rparr>"
  note bn = buf_ok_nat [OF ok]
  note l1 = buf_wrote_len [OF ok assms(3)] and p1 = buf_wrote_pos [OF ok assms(3)]
  have ok1: "buf_ok ?b1" using ok assms(3) by (rule buf_wrote_ok)
  have set: "buf_setpos ?b1 (bpos b) = Inr ?b2"
    using l1 eq by (simp add: buf_setpos_def word_less_nat_alt)
  have ok2: "buf_ok ?b2"
    using buf_ok_nat [OF ok1] l1 eq by (intro buf_okI) simp_all
  have "bdata ?b2 = blit (bdata b) (unat (bpos b)) (enc v)" by (simp add: buf_wrote_def)
  moreover have "unat (bpos b) \<le> length (bdata b)" using bn by simp
  ultimately have "buf_rest ?b2 = enc v @ []"
    using l1 eq by (simp add: buf_rest_def take_drop_blit)
  from get_enc [OF ok2 assms(2) this] have "get ?b2 = Inr (val v, buf_skip ?b2 (length (enc v)))" .
  moreover have "buf_skip ?b2 (length (enc v)) = ?b1" by (simp add: buf_skip_def buf_wrote_def)
  ultimately show ?thesis using put_enc [OF ok assms(2,3)] set by auto
qed

end

interpretation int_codec: buf_codec buf_putint buf_getint STORE32H "\<lambda>v. v" "\<lambda>_. True"
  by unfold_locales (simp_all add: buf_putint_eq buf_getint_eq)

interpretation byte_codec: buf_codec buf_putbyte buf_getbyte "\<lambda>c. [c]" "\<lambda>c. c" "\<lambda>_. True"
  by unfold_locales (simp_all add: buf_putbyte_eq buf_getbyte_eq)

definition enc_string :: "byte list \<Rightarrow> byte list" where
  "enc_string s = STORE32H (of_nat (length s)) @ s"

definition string_ok :: "byte list \<Rightarrow> bool" where
  "string_ok s \<longleftrightarrow> length s \<le> unat MAX_STRING_LEN"

lemma unat_MAX_STRING_LEN [simp]: "unat MAX_STRING_LEN = 9000"
  by (simp add: MAX_STRING_LEN_def)

lemma unat_length_string: "string_ok s \<Longrightarrow> unat (of_nat (length s) :: u32) = length s"
  by (rule unat_of_nat_u32) (simp add: string_ok_def)

lemma length_enc_string [simp]: "length (enc_string s) = 4 + length s"
  by (simp add: enc_string_def)

lemma buf_getstring_enc:
  assumes "buf_ok b" and "string_ok s" and "buf_rest b = enc_string s @ r"
  shows "buf_getstring b = Inr (s, buf_skip b (length (enc_string s)))"
proof -
  have u: "unat (of_nat (length s) :: u32) = length s" using assms(2) by (rule unat_length_string)
  have "\<not> (of_nat (length s) :: u32) > MAX_STRING_LEN"
    using assms(2) by (simp add: word_less_nat_alt u string_ok_def)
  moreover have "buf_getint b = Inr (of_nat (length s), buf_skip b 4)"
    using assms(1,3) by (simp add: buf_getint_eq enc_string_def)
  moreover have ok4: "buf_ok (buf_skip b 4)"
    using assms(1,3) by (intro buf_skip_ok) (simp_all add: enc_string_def)
  moreover have "buf_rest (buf_skip b 4) = s @ r"
    using assms(1,3) by (subst buf_rest_skip) (simp_all add: enc_string_def)
  ultimately show ?thesis using u
    by (simp add: buf_getstring_def buf_peek_eq buf_incrpos_eq)
qed

interpretation string_codec:
  buf_codec "\<lambda>b s. buf_putstring b s (of_nat (length s))" buf_getstring enc_string "\<lambda>s. s" string_ok
proof
  fix b :: buffer and s :: "byte list"
  assume "buf_ok b" "string_ok s" "length (enc_string s) \<le> buf_room b"
  then show "buf_putstring b s (of_nat (length s)) = Inr (buf_wrote b (enc_string s))"
    by (subst buf_putstring_eq) (simp_all add: unat_length_string enc_string_def)
qed (rule buf_getstring_enc)

subsection \<open>Bignums\<close>

lemma count_bits_0 [simp]: "count_bits 0 = 0"
  by (simp add: count_bits.simps)

lemma less_exp_count_bits: "n < 2 ^ count_bits n"
proof (induction n rule: count_bits.induct)
  case (1 n)
  show ?case
  proof (cases "n = 0")
    case False
    with 1 have "n div 2 < 2 ^ count_bits (n div 2)" by simp
    then have "n < 2 * 2 ^ count_bits (n div 2)" by linarith
    with False show ?thesis by (simp add: count_bits.simps [of n])
  qed simp
qed

lemma count_bits_le: "n < 2 ^ m \<Longrightarrow> count_bits n \<le> m"
proof (induction n arbitrary: m rule: count_bits.induct)
  case (1 n)
  show ?case
  proof (cases "n = 0")
    case False
    with "1.prems" obtain k where k: "m = Suc k" by (cases m) auto
    with "1.prems" have "n div 2 < 2 ^ k" by auto
    with 1 False have "count_bits (n div 2) \<le> k" by simp
    with False k show ?thesis by (simp add: count_bits.simps [of n])
  qed simp
qed

lemma length_ubin [simp]: "length (ubin k n) = k"
  by (induction k arbitrary: n) auto

lemma mp_from_ubin_snoc: "mp_from_ubin (bs @ [c]) = mp_from_ubin bs * 256 + of_char c"
  by (simp add: mp_from_ubin_def)

lemma of_char_byte_of_int: "n < 256 \<Longrightarrow> (of_char (byte_of n) :: int) = int n"
  by (metis of_char_of of_nat_of_char mod_less)

lemma mp_from_ubin_ubin: "n < 256 ^ k \<Longrightarrow> mp_from_ubin (ubin k n) = int n"
proof (induction k arbitrary: n)
  case 0
  then show ?case by (simp add: mp_from_ubin_def)
next
  case (Suc k)
  then have "n div 256 < 256 ^ k" by (simp add: less_mult_imp_div_less mult.commute)
  then have "mp_from_ubin (ubin k (n div 256)) = int (n div 256)" by (rule Suc.IH)
  moreover have "(of_char (byte_of (n mod 256)) :: int) = int (n mod 256)"
    by (rule of_char_byte_of_int) simp
  moreover have "int (n div 256) * 256 + int (n mod 256) = int n"
    by (metis mult_div_mod_eq mult.commute of_nat_add of_nat_mult of_nat_numeral)
  ultimately show ?case by (simp only: ubin.simps mp_from_ubin_snoc)
qed

lemma hd_ubin: "byte_val (hd (ubin (Suc k) n)) = n div 256 ^ k mod 256"
proof (induction k arbitrary: n)
  case 0
  then show ?case by (simp add: of_char_of)
next
  case (Suc k)
  have "hd (ubin (Suc (Suc k)) n) = hd (ubin (Suc k) (n div 256))"
    by (simp add: hd_append)
  then show ?case using Suc [of "n div 256"] by (simp add: div_mult2_eq)
qed

definition mpint_body :: "int \<Rightarrow> byte list" where
  "mpint_body mp =
     (if mp = 0 then []
      else (if mp_count_bits mp mod 8 = 0 then [CHR 0x00] else []) @ ubin (mp_ubin_size mp) (nat mp))"

definition enc_mpint :: "int \<Rightarrow> byte list" where
  "enc_mpint mp = STORE32H (of_nat (length (mpint_body mp))) @ mpint_body mp"

definition mpint_ok :: "int \<Rightarrow> bool" where
  "mpint_ok mp \<longleftrightarrow> 0 \<le> mp \<and> length (mpint_body mp) \<le> unat BUF_MAX_MPINT"

lemma unat_BUF_MAX_MPINT [simp]: "unat BUF_MAX_MPINT = 1030"
  by (simp add: BUF_MAX_MPINT_def)

lemma length_mpint_body:
  "length (mpint_body mp) = (if mp = 0 then 0 else mp_count_bits mp div 8 + 1)"
  by (simp add: mpint_body_def mp_ubin_size_def)

lemma mp_less_ubin_size: "0 \<le> mp \<Longrightarrow> nat mp < 256 ^ mp_ubin_size mp"
proof -
  assume "0 \<le> mp"
  let ?c = "mp_count_bits mp"
  have "?c \<le> 8 * mp_ubin_size mp" by (simp add: mp_ubin_size_def) presburger
  then have "(2::nat) ^ ?c \<le> 2 ^ (8 * mp_ubin_size mp)" by (intro power_increasing) simp_all
  moreover have "(2::nat) ^ (8 * mp_ubin_size mp) = 256 ^ mp_ubin_size mp" by (simp add: power_mult)
  moreover have "nat mp < 2 ^ ?c" using less_exp_count_bits [of "nat mp"] \<open>0 \<le> mp\<close>
    by (simp add: mp_count_bits_def)
  ultimately show ?thesis by linarith
qed

lemma mp_from_mpint_body: "0 \<le> mp \<Longrightarrow> mp_from_ubin (mpint_body mp) = mp"
proof -
  assume "0 \<le> mp"
  have z: "mp_from_ubin (CHR 0x00 # bs) = mp_from_ubin bs" for bs
    by (simp add: mp_from_ubin_def)
  have "mp_from_ubin (ubin (mp_ubin_size mp) (nat mp)) = mp"
    using mp_from_ubin_ubin [OF mp_less_ubin_size [OF \<open>0 \<le> mp\<close>]] \<open>0 \<le> mp\<close> by simp
  with z show ?thesis by (simp add: mpint_body_def mp_from_ubin_def)
qed

text \<open>The top bit of the first byte is clear: the padding byte is there exactly when needed.\<close>

lemma hd_mpint_body:
  assumes "0 < mp"
  shows "byte_val (hd (mpint_body mp)) < 128"
proof (cases "mp_count_bits mp mod 8 = 0")
  case True
  with assms show ?thesis by (simp add: mpint_body_def)
next
  case False
  let ?c = "mp_count_bits mp"
  obtain k where k: "mp_ubin_size mp = Suc k" "?c div 8 = k"
    using False by (simp add: mp_ubin_size_def)
  have "nat mp < 2 ^ ?c" using less_exp_count_bits [of "nat mp"] assms
    by (simp add: mp_count_bits_def)
  also have "(2::nat) ^ ?c = 2 ^ (?c mod 8) * 256 ^ k"
  proof -
    have "?c = ?c mod 8 + 8 * k" using k(2) by (metis mod_div_mult_eq mult.commute)
    then have "(2::nat) ^ ?c = 2 ^ (?c mod 8 + 8 * k)" by (rule arg_cong)
    then show ?thesis by (simp add: power_add power_mult)
  qed
  finally have "nat mp div 256 ^ k < 2 ^ (?c mod 8)"
    by (simp add: less_mult_imp_div_less)
  also have "(2::nat) ^ (?c mod 8) \<le> 2 ^ 7" by (intro power_increasing) presburger+
  finally have "nat mp div 256 ^ k < 128" by simp
  then have "byte_val (hd (ubin (Suc k) (nat mp))) < 128" unfolding hd_ubin by simp
  with False assms k show ?thesis by (simp add: mpint_body_def)
qed

lemma byte_and_128: "(n::nat) < 128 \<Longrightarrow> n AND 128 = 0"
proof -
  assume "n < 128"
  then have "take_bit 7 n = n" by (simp add: take_bit_nat_eq_self)
  then have "n AND 128 = take_bit 7 n AND 128" by simp
  also have "\<dots> = 0"
  proof (rule bit_eqI)
    fix i
    have "bit (128::nat) i \<longleftrightarrow> i = 7" using bit_exp_iff [where ?'a = nat, of 7 i] by auto
    then show "bit (take_bit 7 n AND 128) i = bit 0 i" by (simp add: bit_simps)
  qed
  finally show ?thesis .
qed

lemma mpint_body_Nil [simp]: "mpint_body mp = [] \<longleftrightarrow> mp = 0"
  using length_mpint_body [of mp] by (auto split: if_splits)

lemma buf_getmpint_enc:
  assumes "buf_ok b" and "mpint_ok mp" and "buf_rest b = enc_mpint mp @ r"
  shows "buf_getmpint b = Inr (Some mp, buf_skip b (length (enc_mpint mp)))"
proof -
  let ?l = "length (mpint_body mp)"
  have l: "?l \<le> 1030" and nn: "0 \<le> mp" using assms(2) by (simp_all add: mpint_ok_def)
  have u: "unat (of_nat ?l :: u32) = ?l" using l by (intro unat_of_nat_u32) simp
  have gi: "buf_getint b = Inr (of_nat ?l, buf_skip b 4)"
    using assms(1,3) by (simp add: buf_getint_eq enc_mpint_def)
  have ok4: "buf_ok (buf_skip b 4)"
    using assms(1,3) by (intro buf_skip_ok) (simp_all add: enc_mpint_def)
  have r4: "buf_rest (buf_skip b 4) = mpint_body mp @ r"
    using assms(1,3) by (subst buf_rest_skip) (simp_all add: enc_mpint_def)
  show ?thesis
  proof (cases "mp = 0")
    case True
    with gi show ?thesis by (simp add: buf_getmpint_def enc_mpint_def mpint_body_def)
  next
    case False
    then have "mpint_body mp \<noteq> []" by simp
    then obtain c cs where cs: "mpint_body mp = c # cs" by (cases "mpint_body mp") auto
    have "byte_val c AND 128 = 0"
      using hd_mpint_body [of mp] False nn cs by (intro byte_and_128) simp
    moreover have "of_nat ?l \<noteq> (0::u32)" using u cs by (metis length_0_conv list.distinct(1) unat_0)
    moreover have "\<not> (of_nat ?l :: u32) > BUF_MAX_MPINT" using l by (simp add: word_less_nat_alt u)
    moreover have "buf_peek (buf_skip b 4) 1 = Inr [c]"
      using r4 cs by (simp add: buf_peek_eq [OF ok4])
    moreover have "buf_peek (buf_skip b 4) (of_nat ?l) = Inr (mpint_body mp)"
      using r4 by (simp add: buf_peek_eq [OF ok4] u)
    ultimately show ?thesis using gi r4 nn
      by (simp add: buf_getmpint_def buf_incrpos_eq [OF ok4] u mp_from_mpint_body enc_mpint_def)
  qed
qed

lemma buf_putmpint_enc:
  assumes "buf_ok b" and "mpint_ok mp" and "length (enc_mpint mp) \<le> buf_room b"
  shows "buf_putmpint b mp = Inr (buf_wrote b (enc_mpint mp))"
proof (cases "mp = 0")
  case True
  with assms show ?thesis
    by (simp add: buf_putmpint_def buf_putint_eq enc_mpint_def mpint_body_def)
next
  case False
  define sz where "sz = mp_ubin_size mp"
  define pad where "pad \<longleftrightarrow> mp_count_bits mp mod 8 = 0"
  define pre where "pre = STORE32H (of_nat (mp_count_bits mp div 8 + 1)) @ (if pad then [CHR 0x00] else [])"
  define b1 where "b1 = buf_wrote b pre"
  have nn: "0 \<le> mp" and l: "length (mpint_body mp) \<le> 1030" using assms(2) by (simp_all add: mpint_ok_def)
  have enc: "enc_mpint mp = pre @ ubin sz (nat mp)"
    unfolding enc_mpint_def length_mpint_body pre_def pad_def sz_def
    using False by (simp add: mpint_body_def)
  have sz: "mp_count_bits mp div 8 + 1 - (if pad then 1 else 0) = sz"
    by (simp add: mp_ubin_size_def sz_def pad_def)
  have szl: "sz \<le> 1030" using l False by (simp add: mpint_body_def sz_def)
  have room: "length pre + sz \<le> buf_room b" using assms(3) enc by simp
  then have pre: "length pre \<le> buf_room b" by linarith
  have ok1: "buf_ok b1" unfolding b1_def using assms(1) pre by (rule buf_wrote_ok)
  have r1: "length (ubin sz (nat mp)) \<le> buf_room b1"
    unfolding b1_def using room buf_room_wrote [OF assms(1) pre] by simp
  have hd: "bindr (buf_putint b (of_nat (mp_count_bits mp div 8 + 1))) (\<lambda>b.
      if pad then buf_putbyte b (CHR 0x00) else Inr b) = Inr b1"
    unfolding b1_def using assms(1) room unfolding pre_def
    by (cases pad) (auto simp: buf_putint_eq buf_putbyte_eq buf_wrote_ok buf_room_wrote buf_wrote_wrote)
  have bits: "mp_count_bits mp \<le> 8240" using l False by (simp add: length_mpint_body)
  then have c: "unat (of_nat (mp_count_bits mp) :: u32) = mp_count_bits mp"
    by (intro unat_of_nat_u32) simp
  have l32: "(of_nat (mp_count_bits mp) :: u32) div 8 + 1 = of_nat (mp_count_bits mp div 8 + 1)"
    using bits by (simp add: word_unat_eq_iff unat_word_ariths unat_div c unat_of_nat_u32)
  have m32: "(of_nat (mp_count_bits mp) :: u32) mod 8 = 0 \<longleftrightarrow> pad"
    by (simp add: word_unat_eq_iff unat_mod c pad_def)
  have pos: "(0::u32) < of_nat (mp_count_bits mp div 8 + 1)"
    using bits by (simp add: word_less_nat_alt unat_of_nat_u32 del: of_nat_Suc of_nat_add)
  have sz32: "of_nat (mp_count_bits mp div 8 + 1) - (if pad then 1 else 0 :: u32) = of_nat sz"
    unfolding sz [symmetric] by simp
  have "buf_putmpint b mp = bindr (Inr b1) (\<lambda>b1. bindr (buf_getwriteptr b1 (of_nat sz)) (\<lambda>p.
      bindr (mem_write (bdata b1) p (ubin sz (nat mp))) (\<lambda>d.
      buf_incrwritepos (b1\<lparr>bdata := d\<rparr>) (of_nat sz))))"
    unfolding hd [symmetric] bindr_assoc using False nn sz32 pos szl
    by (simp add: buf_putmpint_def mp_to_ubin_def Let_def l32 m32 sz_def [symmetric] unat_of_nat_u32
        del: of_nat_Suc of_nat_add)
  also have "\<dots> = Inr (buf_wrote b1 (ubin sz (nat mp)))"
    using r1 szl mem_write_room [OF ok1 r1] buf_incrwritepos_blit [OF ok1 r1]
    by (simp add: buf_getwriteptr_eq [OF ok1] unat_of_nat_u32)
  also have "buf_wrote b1 (ubin sz (nat mp)) = buf_wrote b (enc_mpint mp)"
    unfolding enc b1_def using assms(1) room by (subst buf_wrote_wrote) simp_all
  finally show ?thesis .
qed

interpretation mpint_codec: buf_codec buf_putmpint buf_getmpint enc_mpint Some mpint_ok
  by unfold_locales (rule buf_putmpint_enc buf_getmpint_enc; assumption)+

section \<open>Every operation keeps the buffer well formed and inside its block\<close>

text \<open>
  The operations as a step function, results discarded. A C caller passes a source pointer with
  the length of what it points to, so the source of a write is a byte list of that length.
\<close>

datatype buf_op =
    Resize "nat \<Rightarrow> byte" u32 | Setlen u32 | Incrlen u32 | Setpos u32 | Incrwritepos u32
  | Incrpos u32 | Decrpos u32 | Getbyte | Getbool | Putbyte byte | Getint | Putint u32
  | Putbytes "byte list" | Putstring "byte list" | Getstring | Getstringbuf bool
  | Getptrcopy u32 | Eatstring | Putmpint int | Getmpint | Newcopy

fun buf_step :: "buffer \<Rightarrow> buf_op \<Rightarrow> buffer res" where
  "buf_step b (Resize junk n) = buf_resize junk b n"
| "buf_step b (Setlen n) = buf_setlen b n"
| "buf_step b (Incrlen n) = buf_incrlen b n"
| "buf_step b (Setpos n) = buf_setpos b n"
| "buf_step b (Incrwritepos n) = buf_incrwritepos b n"
| "buf_step b (Incrpos n) = buf_incrpos b n"
| "buf_step b (Decrpos n) = buf_decrpos b n"
| "buf_step b Getbyte = bindr (buf_getbyte b) (\<lambda>(_, b). Inr b)"
| "buf_step b Getbool = bindr (buf_getbool b) (\<lambda>(_, b). Inr b)"
| "buf_step b (Putbyte v) = buf_putbyte b v"
| "buf_step b Getint = bindr (buf_getint b) (\<lambda>(_, b). Inr b)"
| "buf_step b (Putint v) = buf_putint b v"
| "buf_step b (Putbytes bs) = buf_putbytes b bs (of_nat (length bs))"
| "buf_step b (Putstring bs) = buf_putstring b bs (of_nat (length bs))"
| "buf_step b Getstring = bindr (buf_getstring b) (\<lambda>(_, b). Inr b)"
| "buf_step b (Getstringbuf incl) = bindr (buf_getstringbuf_int b incl) (\<lambda>(_, b). Inr b)"
| "buf_step b (Getptrcopy n) = buf_getptrcopy b n"
| "buf_step b Eatstring = buf_eatstring b"
| "buf_step b (Putmpint mp) = buf_putmpint b mp"
| "buf_step b Getmpint = bindr (buf_getmpint b) (\<lambda>(_, b). Inr b)"
| "buf_step b Newcopy = buf_newcopy b"

definition good :: "buffer res \<Rightarrow> bool" where
  "good r \<longleftrightarrow> mem_safe r \<and> (\<forall>b. r = Inr b \<longrightarrow> buf_ok b)"

named_theorems good_intros \<open>operations that keep well-formedness and stay inside the block\<close>

lemma good_Inr [simp]: "good (Inr b) \<longleftrightarrow> buf_ok b"
  by (simp add: good_def)

lemma good_Exit [simp]: "good (Inl (Exit m))"
  by (simp add: good_def)

lemma good_bindr:
  "good m \<Longrightarrow> (\<And>b. m = Inr b \<Longrightarrow> buf_ok b \<Longrightarrow> good (f b)) \<Longrightarrow> good (bindr m f)"
  by (cases m) (auto simp: good_def)

lemma unat_le_of_nat: "unat (of_nat n :: u32) \<le> n"
  by (simp add: unat_of_nat take_bit_eq_mod)

lemma good_resize [good_intros]: "buf_ok b \<Longrightarrow> good (buf_resize junk b n)"
proof -
  assume ok: "buf_ok b"
  show ?thesis
  proof (cases "n > BUF_MAX_SIZE")
    case False
    then have "unat n \<le> 1000000000" by (simp add: buf_consts word_less_nat_alt)
    with False buf_ok_nat [OF ok] show ?thesis
      by (simp add: buf_resize_def) (intro buf_okI, auto simp: unat_min_u32)
  qed (simp add: buf_resize_def)
qed

lemma good_setlen [good_intros]: "buf_ok b \<Longrightarrow> good (buf_setlen b n)"
  by (auto simp: buf_setlen_def buf_ok_def)

lemma good_incrlen [good_intros]:
  assumes "buf_ok b"
  shows "good (buf_incrlen b n)"
proof (cases "unat n \<le> 1000000000")
  case True
  note bn = buf_ok_nat [OF assms]
  have "unat (blen b + n) = unat (blen b) + unat n" using bn True by (intro unat_add_below) simp
  then show ?thesis using bn
    by (auto simp: buf_incrlen_def word_less_nat_alt intro!: buf_okI)
next
  case False
  then show ?thesis by (simp add: buf_incrlen_def buf_consts word_less_nat_alt)
qed

lemma good_setpos [good_intros]: "buf_ok b \<Longrightarrow> good (buf_setpos b n)"
  by (auto simp: buf_setpos_def buf_ok_def)

lemma good_incrwritepos [good_intros]:
  assumes "buf_ok b"
  shows "good (buf_incrwritepos b n)"
proof (cases "unat n \<le> buf_room b")
  case True
  note bn = buf_ok_nat [OF assms]
  have "unat (bpos b + n) = unat (bpos b) + unat n"
    using unat_pos_plus [OF assms, of "unat n"] True buf_room_le [OF assms] by simp
  then show ?thesis using True bn
    by (auto simp: buf_incrwritepos_def Let_def word_less_nat_alt buf_room_def intro!: buf_okI)
next
  case False
  then show ?thesis using room_iff [OF assms, of n] by (auto simp: buf_incrwritepos_def)
qed

lemma good_incrpos [good_intros]: "buf_ok b \<Longrightarrow> good (buf_incrpos b n)"
  by (simp add: buf_incrpos_eq buf_skip_ok)

lemma good_decrpos [good_intros]: "buf_ok b \<Longrightarrow> good (buf_decrpos b n)"
  using buf_ok_nat [of b]
  by (auto simp: buf_decrpos_def word_less_nat_alt unat_sub_below intro!: buf_okI)

lemma good_putbyte [good_intros]: "buf_ok b \<Longrightarrow> good (buf_putbyte b v)"
  by (simp add: buf_putbyte_eq buf_wrote_ok)

lemma good_putint [good_intros]: "buf_ok b \<Longrightarrow> good (buf_putint b v)"
  by (simp add: buf_putint_eq buf_wrote_ok)

lemma good_putbytes [good_intros]:
  "buf_ok b \<Longrightarrow> unat l \<le> length bs \<Longrightarrow> good (buf_putbytes b bs l)"
  by (simp add: buf_putbytes_eq buf_wrote_ok)

lemma good_putstring [good_intros]:
  "buf_ok b \<Longrightarrow> unat l \<le> length bs \<Longrightarrow> good (buf_putstring b bs l)"
  unfolding buf_putstring_def by (intro good_bindr good_intros)

lemma good_getbyte: "buf_ok b \<Longrightarrow> good (bindr (buf_getbyte b) (\<lambda>(_, b). Inr b))"
  by (auto simp: buf_getbyte_eq buf_skip_ok split: list.split)

lemma good_getint_then:
  "buf_ok b \<Longrightarrow> (\<And>l b'. buf_ok b' \<Longrightarrow> good (f l b')) \<Longrightarrow>
   good (bindr (buf_getint b) (\<lambda>(l, b'). f l b'))"
  by (simp add: buf_getint_eq buf_skip_ok)

lemma good_peek_then:
  "buf_ok b \<Longrightarrow> (\<And>bs. length bs = unat l \<Longrightarrow> unat l \<le> length (buf_rest b) \<Longrightarrow> good (f bs)) \<Longrightarrow>
   good (bindr (buf_peek b l) f)"
  by (simp add: buf_peek_eq)

lemma buf_new_then: "(\<And>ret. buf_ok ret \<Longrightarrow> bpos ret = 0 \<Longrightarrow> blen ret = 0 \<Longrightarrow> bsize ret = n \<Longrightarrow> good (f ret))
  \<Longrightarrow> good (bindr (buf_new n) f)"
  using buf_new_ok [of n] by (auto simp: buf_new_def)

lemma good_getstring: "buf_ok b \<Longrightarrow> good (bindr (buf_getstring b) (\<lambda>(_, b). Inr b))"
  by (auto simp: buf_getstring_def buf_getint_eq buf_skip_ok buf_peek_eq buf_incrpos_eq buf_rest_skip)

lemma good_getstringbuf: "buf_ok b \<Longrightarrow> good (bindr (buf_getstringbuf_int b incl) (\<lambda>(_, b). Inr b))"
proof -
  assume ok: "buf_ok b"
  have body: "good (bindr (buf_getwriteptr ret l) (\<lambda>p.
       bindr (buf_peek b l) (\<lambda>bs.
       bindr (mem_write (bdata ret) p bs) (\<lambda>d.
       bindr (buf_incrpos b l) (\<lambda>b.
       bindr (buf_incrlen (ret\<lparr>bdata := d\<rparr>) l) (\<lambda>ret.
       bindr (buf_setpos ret 0) (\<lambda>ret. Inr b)))))))"
    if "buf_ok b" "buf_ok ret" for b ret l
  proof (cases "unat l \<le> buf_room ret \<and> unat l \<le> length (buf_rest b)")
    case True
    let ?bs = "take (unat l) (buf_rest b)"
    have "length ?bs \<le> buf_room ret" using True by simp
    note w = mem_write_room [OF that(2) this]
    have "length ?bs = unat l" using True by simp
    then have "unat (bpos ret) + length ?bs \<le> length (bdata ret)"
      using True buf_ok_nat [OF that(2)] unfolding buf_room_def by linarith
    then have "length (blit (bdata ret) (unat (bpos ret)) ?bs) = length (bdata ret)"
      by (rule length_blit)
    then have "buf_ok (ret\<lparr>bdata := blit (bdata ret) (unat (bpos ret)) ?bs\<rparr>)"
      using that(2) by (simp add: buf_ok_def)
    note g = good_incrlen [OF this, of l]
    show ?thesis using True w that
      by (auto simp: buf_getwriteptr_eq buf_peek_eq buf_incrpos_eq buf_setpos_def buf_skip_ok
          buf_incrlen_def)
  next
    case False
    then show ?thesis using that by (auto simp: buf_getwriteptr_eq buf_peek_eq)
  qed
  show ?thesis unfolding buf_getstringbuf_int_def
    by (auto simp: buf_getint_eq [OF ok] bindr_assoc buf_putint_eq intro!: buf_new_then good_bindr
        good_intros body buf_skip_ok ok buf_wrote_ok)
qed

lemma good_getptrcopy [good_intros]: "buf_ok b \<Longrightarrow> good (buf_getptrcopy b n)"
  unfolding buf_getptrcopy_def
  by (auto intro!: good_peek_then buf_new_then good_bindr good_intros)

lemma good_eatstring [good_intros]: "buf_ok b \<Longrightarrow> good (buf_eatstring b)"
  unfolding buf_eatstring_def by (intro good_getint_then good_intros)

lemma good_getmpint: "buf_ok b \<Longrightarrow> good (bindr (buf_getmpint b) (\<lambda>(_, b). Inr b))"
  by (auto simp: buf_getmpint_def buf_getint_eq buf_skip_ok buf_peek_eq buf_incrpos_eq buf_rest_skip)

lemma good_newcopy [good_intros]:
  assumes "buf_ok b"
  shows "good (buf_newcopy b)"
proof -
  note bn = buf_ok_nat [OF assms]
  have "unat (blen b) \<le> 1000000000" using bn by simp
  then show ?thesis using bn
    by (auto simp: buf_newcopy_def buf_new_Inr Let_def mem_read_eq mem_write_eq intro!: buf_okI)
qed

lemma good_write_ubin:
  assumes "buf_ok b"
  shows "good (bindr (buf_getwriteptr b l) (\<lambda>p. case mp_to_ubin mp (unat l) of
      None \<Rightarrow> Inl (Exit ''mpint error'')
    | Some bs \<Rightarrow> bindr (mem_write (bdata b) p bs) (\<lambda>d.
        buf_incrwritepos (b\<lparr>bdata := d\<rparr>) (of_nat (length bs)))))"
proof (cases "unat l \<le> buf_room b")
  case True
  show ?thesis
  proof (cases "mp_ubin_size mp > unat l")
    case False
    let ?bs = "ubin (mp_ubin_size mp) (nat \<bar>mp\<bar>)"
    have r: "length ?bs \<le> buf_room b" using False True by simp
    show ?thesis using True False mem_write_room [OF assms r] buf_incrwritepos_blit [OF assms r]
      buf_wrote_ok [OF assms r] by (simp add: buf_getwriteptr_eq [OF assms] mp_to_ubin_def)
  qed (simp add: buf_getwriteptr_eq [OF assms] mp_to_ubin_def)
qed (simp add: buf_getwriteptr_eq [OF assms])

lemma good_putmpint [good_intros]: "buf_ok b \<Longrightarrow> good (buf_putmpint b mp)"
  by (auto simp: buf_putmpint_def Let_def intro!: good_bindr good_putint good_putbyte good_write_ubin)

lemma buf_step_good: "buf_ok b \<Longrightarrow> good (buf_step b i)"
  by (cases i) (auto intro: good_intros good_getbyte good_getstring good_getstringbuf good_getmpint
      good_getint_then unat_le_of_nat simp: buf_getbool_eq buf_skip_ok split: list.split)

interpretation buf_machine: safe_machine buf_step buf_ok
  by unfold_locales (use buf_step_good in \<open>auto simp: good_def\<close>)

section \<open>Buffers by their contents\<close>

text \<open>
  \<open>buf_is b c p n\<close>: a well-formed buffer with contents \<open>c\<close>, position \<open>p\<close> and size \<open>n\<close>. The rules below
  carry such a description through the operations, with their results.
\<close>

definition buf_is :: "buffer \<Rightarrow> byte list \<Rightarrow> nat \<Rightarrow> nat \<Rightarrow> bool" where
  "buf_is b c p n \<longleftrightarrow> buf_ok b \<and> buf_content b = c \<and> unat (bpos b) = p \<and> unat (bsize b) = n"

lemma buf_isD:
  assumes "buf_is b c p n"
  shows "buf_ok b" "buf_content b = c" "unat (bpos b) = p" "unat (bsize b) = n" "unat (blen b) = length c"
    "p \<le> length c" "length c \<le> n" "n \<le> 1000000000" "take (length c) (bdata b) = c"
proof -
  show *: "buf_ok b" "buf_content b = c" "unat (bpos b) = p" "unat (bsize b) = n"
    using assms by (simp_all add: buf_is_def)
  show l: "unat (blen b) = length c" using *(1,2) length_buf_content by metis
  show "p \<le> length c" "length c \<le> n" "n \<le> 1000000000" using buf_ok_nat [OF *(1)] * l by simp_all
  show "take (length c) (bdata b) = c" using *(2) l by (simp add: buf_content_def)
qed

lemma buf_is_words:
  assumes "buf_is b c p n"
  shows "blen b = of_nat (length c)" "bpos b = of_nat p" "bsize b = of_nat n"
  using buf_isD(3,4,5) [OF assms] by (metis of_nat_unat ucast_id)+

lemma buf_is_rest: "buf_is b c p n \<Longrightarrow> buf_rest b = drop p c"
  using buf_isD [of b c p n] drop_take [of p "length c" "bdata b"] by (simp add: buf_rest_def)

lemma buf_is_room: "buf_is b c p n \<Longrightarrow> buf_room b = n - p"
  by (simp add: buf_room_def buf_is_def)

lemma buf_is_new: "unat sz \<le> 1000000000 \<Longrightarrow> \<exists>b. buf_new sz = Inr b \<and> buf_is b [] 0 (unat sz)"
  by (auto simp: buf_new_Inr buf_is_def buf_content_def intro!: buf_okI)

lemma buf_is_setpos:
  assumes "buf_is b c p n" and "unat q \<le> length c"
  shows "\<exists>b'. buf_setpos b q = Inr b' \<and> buf_is b' c (unat q) n"
proof -
  note d = buf_isD [OF assms(1)] and k = buf_ok_nat [OF buf_isD(1) [OF assms(1)]]
  have "buf_setpos b q = Inr (b\<lparr>bpos := q\<rparr>)" using d(5) assms(2) by (simp add: buf_setpos_def word_less_nat_alt)
  moreover have "buf_ok (b\<lparr>bpos := q\<rparr>)" using k d(5) assms(2) by (intro buf_okI) simp_all
  ultimately show ?thesis using d by (simp add: buf_is_def buf_content_def)
qed

lemma buf_is_setlen:
  assumes "buf_is b c p n" and "unat l \<le> length c"
  shows "\<exists>b'. buf_setlen b l = Inr b' \<and> buf_is b' (take (unat l) c) (min p (unat l)) n"
proof -
  note d = buf_isD [OF assms(1)] and k = buf_ok_nat [OF buf_isD(1) [OF assms(1)]]
  let ?b = "b\<lparr>blen := l, bpos := min (bpos b) l\<rparr>"
  have "buf_setlen b l = Inr ?b" using d assms(2) by (simp add: buf_setlen_def word_less_nat_alt)
  moreover have "buf_ok ?b" using k d assms(2) by (intro buf_okI) (simp_all add: unat_min_u32)
  moreover have "buf_content ?b = take (unat l) c"
    using d(9) assms(2) take_take [of "unat l" "length c" "bdata b"] by (simp add: buf_content_def min_absorb1)
  ultimately show ?thesis using d by (auto simp: buf_is_def unat_min_u32)
qed

text \<open>Growing the length exposes bytes of the block; their values are unknown.\<close>

lemma buf_is_grow:
  assumes "buf_is b c p n" and "length c \<le> unat l" and "unat l \<le> n"
  shows "\<exists>junk. length junk = unat l - length c \<and> buf_is (b\<lparr>blen := l\<rparr>) (c @ junk) p n"
proof -
  note d = buf_isD [OF assms(1)] and k = buf_ok_nat [OF buf_isD(1) [OF assms(1)]]
  let ?j = "take (unat l - length c) (drop (length c) (bdata b))"
  have "buf_ok (b\<lparr>blen := l\<rparr>)" using k d assms(2,3) by (intro buf_okI) simp_all
  moreover have "buf_content (b\<lparr>blen := l\<rparr>) = c @ ?j"
  proof -
    have "take (unat l) (bdata b) = take (length c) (bdata b) @ ?j"
      using assms(2) by (metis add_diff_inverse_nat linorder_not_less take_add)
    moreover have "take (length c) (bdata b) = c" using d(2,5) by (simp add: buf_content_def)
    ultimately show ?thesis by (simp add: buf_content_def)
  qed
  moreover have "length ?j = unat l - length c" using k d assms by simp
  ultimately show ?thesis using d by (auto simp: buf_is_def)
qed

lemma buf_is_setlen_grow:
  assumes "buf_is b c p n" and "length c \<le> unat l" and "unat l \<le> n"
  shows "\<exists>b' junk. buf_setlen b l = Inr b' \<and> length junk = unat l - length c \<and> buf_is b' (c @ junk) p n"
proof -
  note d = buf_isD [OF assms(1)]
  have "min (bpos b) l = bpos b" using d assms(2) by (simp add: min_def word_le_nat_alt)
  then have "buf_setlen b l = Inr (b\<lparr>blen := l\<rparr>)"
    using d assms(3) by (cases b) (simp add: buf_setlen_def word_less_nat_alt)
  then show ?thesis using buf_is_grow [OF assms] by auto
qed

lemma buf_is_incrlen:
  assumes "buf_is b c p n" and "length c + unat k \<le> n"
  shows "\<exists>b' junk. buf_incrlen b k = Inr b' \<and> length junk = unat k \<and> buf_is b' (c @ junk) p n"
proof -
  note d = buf_isD [OF assms(1)]
  have u: "unat (blen b + k) = length c + unat k" using d assms(2) by (subst unat_add_below) simp_all
  then have "buf_incrlen b k = Inr (b\<lparr>blen := blen b + k\<rparr>)"
    using d assms(2) by (simp add: buf_incrlen_def buf_consts word_less_nat_alt)
  moreover obtain junk where "length junk = unat (blen b + k) - length c" "buf_is (b\<lparr>blen := blen b + k\<rparr>) (c @ junk) p n"
    using buf_is_grow [OF assms(1), of "blen b + k"] u assms(2) by auto
  ultimately show ?thesis using u by auto
qed

lemma buf_is_wrote:
  assumes "buf_is b c p n" and "p + length bs \<le> n"
  shows "buf_is (buf_wrote b bs) (blit c p bs) (p + length bs) n"
proof -
  note d = buf_isD [OF assms(1)] and k = buf_ok_nat [OF buf_isD(1) [OF assms(1)]]
  have r: "length bs \<le> buf_room b" using assms(2) buf_is_room [OF assms(1)] d by simp
  have l: "unat (blen (buf_wrote b bs)) = max (length c) (p + length bs)"
    using buf_wrote_len [OF d(1) r] d by simp
  have "take (max (length c) (p + length bs)) (blit (bdata b) p bs) = blit c p bs"
  proof (rule nth_equalityI)
    show "length (take (max (length c) (p + length bs)) (blit (bdata b) p bs)) = length (blit c p bs)"
      using d k assms(2) by (auto simp: blit_def)
    fix i assume "i < length (take (max (length c) (p + length bs)) (blit (bdata b) p bs))"
    then have i: "i < max (length c) (p + length bs)" "i < length (bdata b)"
      using d k assms(2) by auto
    have "bdata b ! i = c ! i" if "i < length c" using that d(9) nth_take [of i "length c" "bdata b"] by simp
    then show "take (max (length c) (p + length bs)) (blit (bdata b) p bs) ! i = blit c p bs ! i"
      using i d k assms(2) by (auto simp: blit_def nth_append min_def)
  qed
  then have "buf_content (buf_wrote b bs) = blit c p bs"
    unfolding buf_content_def l by (simp add: buf_wrote_def d(3))
  then show ?thesis using buf_wrote_ok [OF d(1) r] buf_wrote_pos [OF d(1) r] d by (simp add: buf_is_def)
qed

lemma buf_is_putbytes:
  assumes "buf_is b c p n" and "p + unat l \<le> n" and "unat l \<le> length bs"
  shows "\<exists>b'. buf_putbytes b bs l = Inr b' \<and> buf_is b' (blit c p (take (unat l) bs)) (p + unat l) n"
  using buf_is_wrote [OF assms(1), of "take (unat l) bs"] assms buf_is_room [OF assms(1)] buf_isD [OF assms(1)]
  by (auto simp: buf_putbytes_eq)

lemma buf_is_putbyte:
  assumes "buf_is b c p n" and "p + 1 \<le> n"
  shows "\<exists>b'. buf_putbyte b v = Inr b' \<and> buf_is b' (blit c p [v]) (p + 1) n"
  using buf_is_wrote [OF assms(1), of "[v]"] assms buf_is_room [OF assms(1)] buf_isD [OF assms(1)]
  by (auto simp: buf_putbyte_eq)

lemma buf_is_putint:
  assumes "buf_is b c p n" and "p + 4 \<le> n"
  shows "\<exists>b'. buf_putint b v = Inr b' \<and> buf_is b' (blit c p (STORE32H v)) (p + 4) n"
  using buf_is_wrote [OF assms(1), of "STORE32H v"] assms buf_is_room [OF assms(1)] buf_isD [OF assms(1)]
  by (auto simp: buf_putint_eq)

lemma buf_is_putstring:
  assumes "buf_is b c p n" and "p + 4 + unat l \<le> n" and "unat l \<le> length str"
  shows "\<exists>b'. buf_putstring b str l = Inr b'
    \<and> buf_is b' (blit c p (STORE32H l @ take (unat l) str)) (p + 4 + unat l) n"
  using buf_is_wrote [OF assms(1), of "STORE32H l @ take (unat l) str"] assms buf_is_room [OF assms(1)]
    buf_isD [OF assms(1)]
  by (auto simp: buf_putstring_eq add.assoc)

lemma buf_is_peek:
  assumes "buf_is b c p n" and "p + unat l \<le> length c"
  shows "buf_peek b l = Inr (take (unat l) (drop p c))"
  using buf_isD [OF assms(1)] assms(2) buf_is_rest [OF assms(1)] by (simp add: buf_peek_eq)

lemma buf_is_getptr:
  assumes "buf_is b c p n" and "p + unat l \<le> length c"
  shows "buf_getptr b l = Inr p"
  using buf_isD [OF assms(1)] assms(2) buf_is_rest [OF assms(1)] in_range_iff [OF buf_isD(1) [OF assms(1)], of l]
  by (auto simp: buf_getptr_def)

lemma buf_is_getwriteptr:
  assumes "buf_is b c p n" and "p + unat l \<le> n"
  shows "buf_getwriteptr b l = Inr p"
  using buf_isD [OF assms(1)] assms(2) buf_is_room [OF assms(1)] by (simp add: buf_getwriteptr_eq)

lemma buf_is_incrpos:
  assumes "buf_is b c p n" and "p + unat l \<le> length c"
  shows "\<exists>b'. buf_incrpos b l = Inr b' \<and> buf_is b' c (p + unat l) n"
proof -
  note d = buf_isD [OF assms(1)]
  have fit: "unat l \<le> length (buf_rest b)" using buf_is_rest [OF assms(1)] assms(2) by simp
  have "unat (bpos b + l) = p + unat l" using d assms(2) by (subst unat_add_below) simp_all
  then show ?thesis using fit buf_skip_ok [OF d(1) fit] d
    by (simp add: buf_incrpos_eq buf_is_def buf_content_def buf_skip_def)
qed

text \<open>Overwriting bytes inside the contents.\<close>

lemma buf_is_mem_write:
  assumes "buf_is b c p n" and "q + length bs \<le> length c"
  shows "\<exists>d. mem_write (bdata b) q bs = Inr d \<and> buf_is (b\<lparr>bdata := d\<rparr>) (blit c q bs) p n"
proof -
  note d = buf_isD [OF assms(1)] and k = buf_ok_nat [OF buf_isD(1) [OF assms(1)]]
  have m: "mem_write (bdata b) q bs = Inr (blit (bdata b) q bs)"
    using assms(2) d k by (intro mem_write_eq) simp
  have "buf_ok (b\<lparr>bdata := blit (bdata b) q bs\<rparr>)"
    using k d assms(2) by (intro buf_okI) simp_all
  moreover have "take (length c) (blit (bdata b) q bs) = blit (take (length c) (bdata b)) q bs"
    using assms(2) d(4,7) k(4) by (simp add: blit_def min_absorb1 min_absorb2 drop_take)
  ultimately show ?thesis using m d by (auto simp: buf_is_def buf_content_def)
qed

lemma buf_is_getbyte:
  assumes "buf_is b c p n" and "p < length c"
  shows "\<exists>b'. buf_getbyte b = Inr (c ! p, b') \<and> buf_is b' c (p + 1) n"
proof -
  note d = buf_isD [OF assms(1)]
  have r: "buf_rest b = c ! p # drop (Suc p) c" using buf_is_rest [OF assms(1)] assms(2) by (simp add: Cons_nth_drop_Suc)
  have "1 \<le> length (buf_rest b)" using r by simp
  note ok = buf_skip_ok [OF d(1) this]
  have "unat (bpos b + 1) = p + 1" using d assms(2) by (subst unat_add_below) simp_all
  then show ?thesis using r ok d by (simp add: buf_getbyte_eq buf_is_def buf_content_def buf_skip_def)
qed

lemma buf_is_getint:
  assumes "buf_is b c p n" and "p + 4 \<le> length c"
  shows "\<exists>v b'. buf_getint b = Inr (v, b') \<and> v = LOAD32H (take 4 (drop p c)) \<and> buf_is b' c (p + 4) n"
proof -
  note d = buf_isD [OF assms(1)]
  have l: "4 \<le> length (buf_rest b)" using buf_is_rest [OF assms(1)] assms(2) by simp
  note ok = buf_skip_ok [OF d(1) l]
  have "unat (bpos b + 4) = p + 4" using d assms(2) by (subst unat_add_below) simp_all
  then show ?thesis using l ok d buf_is_rest [OF assms(1)]
    by (simp add: buf_getint_eq buf_is_def buf_content_def buf_skip_def)
qed

lemma buf_is_resize_grow:
  assumes "buf_is b c p n" and "n \<le> unat l" and "unat l \<le> 1000000000"
  shows "\<exists>b'. buf_resize junk b l = Inr b' \<and> buf_is b' c p (unat l)"
proof -
  note d = buf_isD [OF assms(1)] and k = buf_ok_nat [OF buf_isD(1) [OF assms(1)]]
  have "min l (blen b) = blen b" "min l (bpos b) = bpos b" using d assms(2) by (simp_all add: min_absorb2 word_le_nat_alt)
  then show ?thesis using d k assms
    by (auto simp: buf_resize_def buf_consts word_less_nat_alt buf_is_def buf_content_def intro!: buf_okI)
qed

lemma blit_at_end: "p = length c \<Longrightarrow> blit c p bs = c @ bs"
  by (simp add: blit_def)

section \<open>Properties\<close>

text \<open>
  C28. Memory safety of the buffer layer: from a freshly allocated buffer of any size, every
  sequence of operations, whatever their arguments, either stays inside the allocated block and
  leaves a well-formed buffer, or ends the session with a clean \<open>dropbear_exit\<close>.
\<close>

theorem buffer_memory_safe:
  assumes "buf_new n = Inr b"
  shows "mem_safe (run buf_step b is) \<and> (\<forall>b'. run buf_step b is = Inr b' \<longrightarrow> buf_ok b')"
  using buf_machine.run_safe [OF buf_new_ok [OF assms]] buf_machine.run_inv [OF buf_new_ok [OF assms]]
  by blast

theorem buffer_memory_safe_witness:
  "mem_safe (run buf_step \<lparr>bdata = replicate 4 (CHR 0x00), blen = 0, bpos = 0, bsize = 4\<rparr>
     [Putint 7, Setpos 0, Incrpos 3, Getbyte])"
  using buffer_memory_safe [of 4 "\<lparr>bdata = replicate 4 (CHR 0x00), blen = 0, bpos = 0, bsize = 4\<rparr>"
      "[Putint 7, Setpos 0, Incrpos 3, Getbyte]"]
  by (simp add: buf_new_Inr)

text \<open>
  C29. String round trip: a string of at most MAX_STRING_LEN bytes (any bytes, NUL included),
  appended with \<open>buf_putstring\<close> to a buffer with room for it, is read back by \<open>buf_getstring\<close> as
  it was, and the buffer is then exactly the one the writer left.
\<close>

theorem string_roundtrip:
  assumes "at_end b" and "string_ok s" and "4 + length s \<le> buf_room b"
  shows "\<exists>b1 b2. buf_putstring b s (of_nat (length s)) = Inr b1 \<and> buf_setpos b1 (bpos b) = Inr b2
    \<and> buf_getstring b2 = Inr (s, b1)"
  using string_codec.put_then_get [OF assms(1,2)] assms(3) by simp

theorem string_roundtrip_witness:
  "\<exists>b1 b2. buf_putstring \<lparr>bdata = replicate 8 (CHR 0x00), blen = 0, bpos = 0, bsize = 8\<rparr> ''ssh'' 3 = Inr b1
    \<and> buf_setpos b1 0 = Inr b2 \<and> buf_getstring b2 = Inr (''ssh'', b1)"
  using string_roundtrip [of "\<lparr>bdata = replicate 8 (CHR 0x00), blen = 0, bpos = 0, bsize = 8\<rparr>" "''ssh''"]
  by (simp add: at_end_def buf_ok_def buf_consts string_ok_def buf_room_def)

text \<open>
  C30. Bignum round trip: a non-negative multiple precision integer whose encoding fits the
  BUF_MAX_MPINT bytes the reader accepts is written in the sign-safe form of RFC 4251 (a zero
  byte in front when the top bit is set) and read back as the same number.
\<close>

theorem mpint_roundtrip:
  assumes "at_end b" and "mpint_ok mp" and "length (enc_mpint mp) \<le> buf_room b"
  shows "\<exists>b1 b2. buf_putmpint b mp = Inr b1 \<and> buf_setpos b1 (bpos b) = Inr b2
    \<and> buf_getmpint b2 = Inr (Some mp, b1)"
  using assms by (rule mpint_codec.put_then_get)

theorem mpint_roundtrip_witness:
  "\<exists>b1 b2. buf_putmpint \<lparr>bdata = replicate 8 (CHR 0x00), blen = 0, bpos = 0, bsize = 8\<rparr> 255 = Inr b1
    \<and> buf_setpos b1 0 = Inr b2 \<and> buf_getmpint b2 = Inr (Some 255, b1)"
proof -
  have "count_bits 255 = 8" by code_simp
  then have "length (mpint_body 255) = 2" by (simp add: length_mpint_body mp_count_bits_def)
  then show ?thesis
    using mpint_roundtrip [of "\<lparr>bdata = replicate 8 (CHR 0x00), blen = 0, bpos = 0, bsize = 8\<rparr>" 255]
    by (simp add: at_end_def buf_ok_def buf_consts mpint_ok_def enc_mpint_def buf_room_def)
qed

end
