(* ===== verification/Circbuffer.thy ===== *)
theory Circbuffer
  imports Prelude
begin

text \<open>
  The circular buffers of \<open>dropbear/src/circbuffer.c\<close>, which hold channel data on its way to the
  local side. The operations are as in C: 32-bit positions, the assertions of \<open>cbuf_writelen\<close>,
  the block allocated at the first write. The theory shows that the assertions never fail on a
  well-formed buffer and that the buffer is a FIFO of bytes: what is written at the write
  position is appended, what is read is taken from the front, across the wrap-around.
\<close>

section \<open>State and operations\<close>

record circbuffer =
  csize :: u32
  creadpos :: u32
  cwritepos :: u32
  cused :: u32
  cdata :: "byte list option"

definition MAX_CBUF_SIZE :: u32 where
  "MAX_CBUF_SIZE = 100000000"

definition cbuf_new :: "u32 \<Rightarrow> circbuffer res" where
  "cbuf_new sz =
     (if sz > MAX_CBUF_SIZE then Inl (Exit ''Bad cbuf size'')
      else Inr \<lparr>csize = sz, creadpos = 0, cwritepos = 0, cused = 0, cdata = None\<rparr>)"

text \<open>The block handed to \<open>free\<close>, if one was allocated, has been overwritten.\<close>

definition cbuf_free :: "circbuffer \<Rightarrow> byte list option res" where
  "cbuf_free c =
     (case cdata c of
        None \<Rightarrow> Inr None
      | Some d \<Rightarrow> bindr (mem_write d 0 (replicate (unat (csize c)) (CHR 0x00))) (\<lambda>d. Inr (Some d)))"

definition cbuf_getused :: "circbuffer \<Rightarrow> u32" where
  "cbuf_getused c = cused c"

definition cbuf_getavail :: "circbuffer \<Rightarrow> u32" where
  "cbuf_getavail c = csize c - cused c"

text \<open>The remainder of a division by zero is undefined in C.\<close>

definition umod :: "u32 \<Rightarrow> u32 \<Rightarrow> u32 res" where
  "umod a b = (if b = 0 then Inl Mem_fault else Inr (a mod b))"

definition cbuf_writelen :: "circbuffer \<Rightarrow> u32 res" where
  "cbuf_writelen c =
     bindr (require (cused c \<le> csize c) Assert_failed) (\<lambda>_.
     bindr (umod (2 * csize c + cwritepos c - creadpos c) (csize c)) (\<lambda>x.
     bindr (umod (cused c) (csize c)) (\<lambda>y.
     bindr (require (x = y) Assert_failed) (\<lambda>_.
     bindr (umod (2 * csize c + creadpos c - cwritepos c) (csize c)) (\<lambda>x.
     bindr (umod (csize c - cused c) (csize c)) (\<lambda>y.
     bindr (require (x = y) Assert_failed) (\<lambda>_.
     if cused c = csize c then Inr 0
     else if cwritepos c < creadpos c then Inr (creadpos c - cwritepos c)
     else Inr (csize c - cwritepos c))))))))"

text \<open>The two readable portions as offsets and lengths; the second pointer may be NULL.\<close>

definition cbuf_readptrs :: "circbuffer \<Rightarrow> nat \<times> u32 \<times> nat option \<times> u32" where
  "cbuf_readptrs c =
     (let len1 = min (cused c) (csize c - creadpos c) in
      if len1 < cused c then (unat (creadpos c), len1, Some 0, cused c - len1)
      else (unat (creadpos c), len1, None, 0))"

text \<open>\<open>cbuf_writeptr\<close> gives an offset into the block, which it allocates at the first call.\<close>

definition cbuf_writeptr :: "circbuffer \<Rightarrow> u32 \<Rightarrow> (nat \<times> circbuffer) res" where
  "cbuf_writeptr c l =
     bindr (cbuf_writelen c) (\<lambda>wl.
     if l > wl then Inl (Exit ''Bad cbuf write'')
     else
       let c = (case cdata c of
                  None \<Rightarrow> c\<lparr>cdata := Some (replicate (unat (csize c)) (CHR 0x00))\<rparr>
                | Some _ \<Rightarrow> c) in
       Inr (unat (cwritepos c), c))"

definition cbuf_incrwrite :: "circbuffer \<Rightarrow> u32 \<Rightarrow> circbuffer res" where
  "cbuf_incrwrite c l =
     bindr (cbuf_writelen c) (\<lambda>wl.
     if l > wl then Inl (Exit ''Bad cbuf write'')
     else
       let u = cused c + l in
       bindr (require (u \<le> csize c) Assert_failed) (\<lambda>_.
       bindr (umod (cwritepos c + l) (csize c)) (\<lambda>w.
       Inr (c\<lparr>cused := u, cwritepos := w\<rparr>))))"

definition cbuf_incrread :: "circbuffer \<Rightarrow> u32 \<Rightarrow> circbuffer res" where
  "cbuf_incrread c l =
     bindr (require (cused c \<ge> l) Assert_failed) (\<lambda>_.
     bindr (umod (creadpos c + l) (csize c)) (\<lambda>r.
     Inr (c\<lparr>cused := cused c - l, creadpos := r\<rparr>)))"

text \<open>A caller's write: ask for the pointer, copy, advance (\<open>common-channel.c\<close>, lines 844-846).\<close>

definition cbuf_write :: "circbuffer \<Rightarrow> byte list \<Rightarrow> circbuffer res" where
  "cbuf_write c bs =
     bindr (cbuf_writeptr c (of_nat (length bs))) (\<lambda>(p, c).
     case cdata c of
       None \<Rightarrow> Inl Mem_fault
     | Some d \<Rightarrow>
         bindr (mem_write d p bs) (\<lambda>d.
         cbuf_incrwrite (c\<lparr>cdata := Some d\<rparr>) (of_nat (length bs))))"

text \<open>A caller's read of everything: the two portions one after the other.\<close>

definition cbuf_readall :: "circbuffer \<Rightarrow> byte list res" where
  "cbuf_readall c =
     (let (p1, len1, p2, len2) = cbuf_readptrs c;
          d = (case cdata c of None \<Rightarrow> [] | Some d \<Rightarrow> d) in
      bindr (if len1 > 0 then mem_read d p1 (unat len1) else Inr []) (\<lambda>a.
      bindr (case p2 of None \<Rightarrow> Inr [] | Some q \<Rightarrow> mem_read d q (unat len2)) (\<lambda>b.
      Inr (a @ b))))"

section \<open>Well-formed circular buffers\<close>

definition cb_ok :: "circbuffer \<Rightarrow> bool" where
  "cb_ok c \<longleftrightarrow> 0 < csize c \<and> csize c \<le> MAX_CBUF_SIZE \<and> cused c \<le> csize c
     \<and> creadpos c < csize c
     \<and> unat (cwritepos c) = (unat (creadpos c) + unat (cused c)) mod unat (csize c)
     \<and> (case cdata c of None \<Rightarrow> cused c = 0 | Some d \<Rightarrow> length d = unat (csize c))"

text \<open>The bytes stored, oldest first.\<close>

definition cb_list :: "circbuffer \<Rightarrow> byte list" where
  "cb_list c = (case cdata c of None \<Rightarrow> []
     | Some d \<Rightarrow> map (\<lambda>i. d ! ((unat (creadpos c) + i) mod unat (csize c))) [0..<unat (cused c)])"

named_theorems cb_simps \<open>effects of the circular buffer operations on well-formed buffers\<close>

lemma cb_ok_nat:
  assumes "cb_ok c"
  shows "0 < unat (csize c)" "unat (csize c) \<le> 100000000" "unat (cused c) \<le> unat (csize c)"
    "unat (creadpos c) < unat (csize c)" "unat (cwritepos c) < unat (csize c)"
    "unat (cwritepos c) = (unat (creadpos c) + unat (cused c)) mod unat (csize c)"
proof -
  show "0 < unat (csize c)" "unat (csize c) \<le> 100000000" "unat (cused c) \<le> unat (csize c)"
    "unat (creadpos c) < unat (csize c)"
    "unat (cwritepos c) = (unat (creadpos c) + unat (cused c)) mod unat (csize c)"
    using assms by (simp_all add: cb_ok_def MAX_CBUF_SIZE_def word_le_nat_alt word_less_nat_alt)
  then show "unat (cwritepos c) < unat (csize c)" by simp
qed

lemma length_cb_list: "cb_ok c \<Longrightarrow> length (cb_list c) = unat (cused c)"
  by (auto simp: cb_list_def cb_ok_def split: option.splits)

lemma unat_getavail: "cb_ok c \<Longrightarrow> unat (cbuf_getavail c) = unat (csize c) - unat (cused c)"
  using cb_ok_nat [of c] by (simp add: cbuf_getavail_def unat_sub_below)

lemma umod_eq [cb_simps]: "b \<noteq> 0 \<Longrightarrow> umod a b = Inr (a mod b)"
  by (simp add: umod_def)

lemma csize_nonzero [cb_simps]: "cb_ok c \<Longrightarrow> csize c \<noteq> 0"
  by (auto simp: cb_ok_def)

text \<open>Where the write position lies, without the remainder.\<close>

lemma writepos_cases:
  assumes "cb_ok c"
  shows "unat (cwritepos c) = (if unat (creadpos c) + unat (cused c) < unat (csize c)
      then unat (creadpos c) + unat (cused c) else unat (creadpos c) + unat (cused c) - unat (csize c))"
  using cb_ok_nat [OF assms] by (simp add: mod_if)

text \<open>The assertions of \<open>cbuf_writelen\<close> hold on every well-formed buffer.\<close>

lemma writelen_asserts:
  assumes "cb_ok c"
  shows "(2 * csize c + cwritepos c - creadpos c) mod csize c = cused c mod csize c"
    and "(2 * csize c + creadpos c - cwritepos c) mod csize c = (csize c - cused c) mod csize c"
proof -
  note n = cb_ok_nat [OF assms] and w = writepos_cases [OF assms]
  let ?S = "unat (csize c)" and ?W = "unat (cwritepos c)" and ?R = "unat (creadpos c)" and ?U = "unat (cused c)"
  have s2: "unat (2 * csize c) = 2 * ?S" using n by (simp add: unat_word_ariths)
  have aw: "unat (2 * csize c + cwritepos c) = 2 * ?S + ?W"
    using n(1-5) s2 by (subst unat_add_below) auto
  have br: "unat (2 * csize c + creadpos c) = 2 * ?S + ?R"
    using n(1-5) s2 by (subst unat_add_below) auto
  have a: "unat (2 * csize c + cwritepos c - creadpos c) = 2 * ?S + ?W - ?R"
    using n(1-5) aw by (subst unat_sub_below) auto
  have b: "unat (2 * csize c + creadpos c - cwritepos c) = 2 * ?S + ?R - ?W"
    using n(1-5) br by (subst unat_sub_below) auto
  have "2 * ?S + ?W - ?R = ?U + 2 * ?S \<or> 2 * ?S + ?W - ?R = ?U + ?S" using n(1-5) w by (auto split: if_splits)
  then have "(2 * ?S + ?W - ?R) mod ?S = ?U mod ?S" by auto
  then show "(2 * csize c + cwritepos c - creadpos c) mod csize c = cused c mod csize c"
    by (simp add: word_unat_eq_iff unat_mod a)
  have "2 * ?S + ?R - ?W = (?S - ?U) + ?S \<or> 2 * ?S + ?R - ?W = (?S - ?U) + 2 * ?S" using n(1-5) w by (auto split: if_splits)
  then have "(2 * ?S + ?R - ?W) mod ?S = (?S - ?U) mod ?S" by auto
  then show "(2 * csize c + creadpos c - cwritepos c) mod csize c = (csize c - cused c) mod csize c"
    using n by (simp add: word_unat_eq_iff unat_mod b unat_sub_below)
qed

definition writelen_nat :: "circbuffer \<Rightarrow> nat" where
  "writelen_nat c = (if unat (creadpos c) + unat (cused c) < unat (csize c)
     then unat (csize c) - (unat (creadpos c) + unat (cused c))
     else unat (csize c) - unat (cused c))"

lemma cbuf_writelen_eq [cb_simps]:
  assumes "cb_ok c"
  shows "cbuf_writelen c = Inr (of_nat (writelen_nat c))"
proof -
  note n = cb_ok_nat [OF assms] and w = writepos_cases [OF assms]
  have z: "csize c \<noteq> 0" using assms by (rule csize_nonzero)
  have u: "cused c \<le> csize c" using assms by (simp add: cb_ok_def)
  define r where "r = (if cused c = csize c then 0
     else if cwritepos c < creadpos c then creadpos c - cwritepos c else csize c - cwritepos c)"
  have "unat r = writelen_nat c" using n(1-5) w
    by (auto simp: r_def writelen_nat_def word_unat_eq_iff word_less_nat_alt unat_sub_below split: if_splits)
  then have "r = of_nat (writelen_nat c)" by (auto dest: sym)
  moreover have "cbuf_writelen c = Inr r" using writelen_asserts [OF assms] z u
    by (auto simp: cbuf_writelen_def umod_eq r_def)
  ultimately show ?thesis by simp
qed

lemma writelen_nat_bounds:
  assumes "cb_ok c"
  shows "writelen_nat c \<le> unat (cbuf_getavail c)"
    and "unat (cwritepos c) + writelen_nat c \<le> unat (csize c)"
    and "0 < unat (cbuf_getavail c) \<Longrightarrow> 0 < writelen_nat c"
    and "writelen_nat c \<le> 100000000"
  using cb_ok_nat(1-5) [OF assms] writepos_cases [OF assms] unat_getavail [OF assms]
  by (auto simp: writelen_nat_def split: if_splits)

section \<open>A FIFO of bytes\<close>

text \<open>
  The contract of a byte queue with bounded capacity: \<open>put\<close> appends a chunk that fits the
  linear room \<open>lin\<close>, \<open>skip\<close> drops bytes from the front, \<open>all\<close> reads everything.
\<close>

locale byte_fifo =
  fixes inv :: "'q \<Rightarrow> bool"
    and contents :: "'q \<Rightarrow> byte list"
    and cap :: "'q \<Rightarrow> nat"
    and lin :: "'q \<Rightarrow> nat"
    and put :: "'q \<Rightarrow> byte list \<Rightarrow> 'q res"
    and skip :: "'q \<Rightarrow> u32 \<Rightarrow> 'q res"
    and all :: "'q \<Rightarrow> byte list res"
  assumes capacity: "inv q \<Longrightarrow> length (contents q) \<le> cap q"
    and cap_bound: "inv q \<Longrightarrow> cap q < 4294967296"
    and lin_fits: "inv q \<Longrightarrow> lin q \<le> cap q - length (contents q)"
    and lin_pos: "inv q \<Longrightarrow> length (contents q) < cap q \<Longrightarrow> 0 < lin q"
    and put_ok: "inv q \<Longrightarrow> length bs \<le> lin q \<Longrightarrow>
      \<exists>q'. put q bs = Inr q' \<and> inv q' \<and> cap q' = cap q \<and> contents q' = contents q @ bs"
    and skip_ok: "inv q \<Longrightarrow> unat n \<le> length (contents q) \<Longrightarrow>
      \<exists>q'. skip q n = Inr q' \<and> inv q' \<and> cap q' = cap q \<and> contents q' = drop (unat n) (contents q)"
    and all_ok: "inv q \<Longrightarrow> all q = Inr (contents q)"
begin

lemma put_then_all: "inv q \<Longrightarrow> length bs \<le> lin q \<Longrightarrow> bindr (put q bs) all = Inr (contents q @ bs)"
  using put_ok [of q bs] all_ok by fastforce

lemma put_then_skip:
  assumes "inv q" and "length bs \<le> lin q"
  shows "\<exists>q'. bindr (put q bs) (\<lambda>q'. skip q' (of_nat (length (contents q)))) = Inr q' \<and> contents q' = bs"
proof -
  obtain q1 where q1: "put q bs = Inr q1" "inv q1" "contents q1 = contents q @ bs"
    using put_ok [OF assms] by blast
  have u: "unat (of_nat (length (contents q)) :: u32) = length (contents q)"
    using capacity [OF assms(1)] cap_bound [OF assms(1)] by (intro unat_of_nat_u32) linarith
  then obtain q2 where "skip q1 (of_nat (length (contents q))) = Inr q2"
      "contents q2 = drop (length (contents q)) (contents q1)"
    using skip_ok [OF q1(2), of "of_nat (length (contents q))"] q1(3) by (metis length_append le_add1)
  with q1 show ?thesis by simp
qed

end

lemma cb_list_write:
  assumes "cb_ok c" and "cdata c = Some d" and "length bs \<le> writelen_nat c"
    and "unat u' = unat (cused c) + length bs"
  shows "cb_list (c\<lparr>cdata := Some (blit d (unat (cwritepos c)) bs), cused := u', cwritepos := w\<rparr>)
      = cb_list c @ bs"
proof (rule nth_equalityI)
  note n = cb_ok_nat(1-5) [OF assms(1)] and w = writepos_cases [OF assms(1)]
  have ld: "length d = unat (csize c)" using assms(1,2) by (simp add: cb_ok_def)
  have room: "unat (cwritepos c) + length bs \<le> length d"
    using writelen_nat_bounds(2) [OF assms(1)] assms(3) ld by simp
  have free: "unat (cused c) + length bs \<le> unat (csize c)"
    using writelen_nat_bounds(1) [OF assms(1)] assms(3) unat_getavail [OF assms(1)] n by simp
  show "length (cb_list (c\<lparr>cdata := Some (blit d (unat (cwritepos c)) bs), cused := u', cwritepos := w\<rparr>))
      = length (cb_list c @ bs)"
    using assms(2,4) by (simp add: cb_list_def)
  fix i assume "i < length (cb_list (c\<lparr>cdata := Some (blit d (unat (cwritepos c)) bs), cused := u', cwritepos := w\<rparr>))"
  then have i: "i < unat (cused c) + length bs" using assms(4) by (simp add: cb_list_def)
  let ?j = "(unat (creadpos c) + i) mod unat (csize c)"
  have jl: "?j < length d" using n ld by simp
  have j: "?j = (if unat (creadpos c) + i < unat (csize c) then unat (creadpos c) + i
      else unat (creadpos c) + i - unat (csize c))"
    using i free n by (simp add: mod_if)
  have "blit d (unat (cwritepos c)) bs ! ?j = (cb_list c @ bs) ! i"
  proof (cases "i < unat (cused c)")
    case True
    then have "\<not> (unat (cwritepos c) \<le> ?j \<and> ?j < unat (cwritepos c) + length bs)"
      using j w n free assms(3) by (auto simp: writelen_nat_def split: if_splits)
    then have "blit d (unat (cwritepos c)) bs ! ?j = d ! ?j"
      using nth_blit [OF room jl] by argo
    then show ?thesis using True assms(2) by (simp add: nth_append cb_list_def)
  next
    case False
    then have "?j = unat (cwritepos c) + (i - unat (cused c))"
      using j w n i free assms(3) by (auto simp: writelen_nat_def split: if_splits)
    moreover have "i - unat (cused c) < length bs" using False i by linarith
    ultimately have "blit d (unat (cwritepos c)) bs ! ?j = bs ! (i - unat (cused c))"
      using nth_blit [OF room jl] by (metis add_diff_cancel_left' le_add1 nat_add_left_cancel_less)
    then show ?thesis using False assms(1) by (simp add: nth_append length_cb_list)
  qed
  then show "cb_list (c\<lparr>cdata := Some (blit d (unat (cwritepos c)) bs), cused := u', cwritepos := w\<rparr>) ! i
      = (cb_list c @ bs) ! i"
    using i assms(4) by (simp add: cb_list_def)
qed

lemma cbuf_write_eq:
  assumes "cb_ok c" and "length bs \<le> writelen_nat c"
  shows "\<exists>c'. cbuf_write c bs = Inr c' \<and> cb_ok c' \<and> csize c' = csize c \<and> cb_list c' = cb_list c @ bs"
proof -
  note n = cb_ok_nat(1-5) [OF assms(1)]
  define d where "d = (case cdata c of None \<Rightarrow> replicate (unat (csize c)) (CHR 0x00) | Some d \<Rightarrow> d)"
  define c1 where "c1 = c\<lparr>cdata := Some d\<rparr>"
  have ok1: "cb_ok c1" using assms(1) by (auto simp: c1_def d_def cb_ok_def split: option.splits)
  have l1: "cb_list c1 = cb_list c" using assms(1)
    by (auto simp: c1_def d_def cb_list_def cb_ok_def split: option.splits)
  have wl1: "writelen_nat c1 = writelen_nat c" by (simp add: writelen_nat_def c1_def)
  have ld: "length d = unat (csize c)" using assms(1) by (auto simp: d_def cb_ok_def split: option.splits)
  let ?n = "of_nat (length bs) :: u32"
  have un: "unat ?n = length bs" using assms(2) writelen_nat_bounds(4) [OF assms(1)]
    by (intro unat_of_nat_u32) simp
  have fits: "\<not> of_nat (writelen_nat c) < ?n"
    using assms(2) writelen_nat_bounds(4) [OF assms(1)] by (simp add: word_less_nat_alt un unat_of_nat_u32)
  have "cbuf_writeptr c ?n = Inr (unat (cwritepos c), c1)"
    using fits by (auto simp: cbuf_writeptr_def cbuf_writelen_eq [OF assms(1)] c1_def d_def Let_def
        split: option.split)
  moreover have room: "unat (cwritepos c) + length bs \<le> length d"
    using writelen_nat_bounds(2) [OF assms(1)] assms(2) ld by simp
  moreover define d2 where "d2 = blit d (unat (cwritepos c)) bs"
  moreover define c2 where "c2 = c1\<lparr>cdata := Some d2\<rparr>"
  ultimately have wr: "cbuf_write c bs = cbuf_incrwrite c2 ?n"
    by (simp add: cbuf_write_def mem_write_eq c1_def)
  have ld2: "length d2 = unat (csize c)" using room ld by (simp add: d2_def)
  then have ok2: "cb_ok c2" using ok1 by (simp add: c2_def c1_def cb_ok_def)
  have free: "unat (cused c) + length bs \<le> unat (csize c)"
    using writelen_nat_bounds(1) [OF assms(1)] assms(2) unat_getavail [OF assms(1)] n by simp
  have uu: "unat (cused c + ?n) = unat (cused c) + length bs"
    using free n un by (subst unat_add_below) auto
  have ww: "unat (cwritepos c + ?n) = unat (cwritepos c) + length bs"
    using room ld n un by (subst unat_add_below) auto
  define c3 where "c3 = c2\<lparr>cused := cused c + ?n, cwritepos := (cwritepos c + ?n) mod csize c\<rparr>"
  have z: "csize c \<noteq> 0" using assms(1) by (rule csize_nonzero)
  have f2: "csize c2 = csize c" "cused c2 = cused c" "cwritepos c2 = cwritepos c" "creadpos c2 = creadpos c"
    by (simp_all add: c2_def c1_def)
  have wl2: "cbuf_writelen c2 = Inr (of_nat (writelen_nat c))"
    using cbuf_writelen_eq [OF ok2] by (simp add: writelen_nat_def f2 cbuf_getavail_def)
  have "cbuf_incrwrite c2 ?n = Inr c3"
    using fits uu free z
    by (simp add: cbuf_incrwrite_def wl2 f2 c3_def Let_def umod_eq word_le_nat_alt)
  moreover have "cb_ok c3"
  proof -
    have "unat ((cwritepos c + ?n) mod csize c) = (unat (creadpos c) + (unat (cused c) + length bs)) mod unat (csize c)"
      using cb_ok_nat(6) [OF assms(1)] by (simp add: unat_mod ww mod_add_left_eq add.assoc)
    then show ?thesis using ok2 uu free ld2
      by (simp add: c3_def c2_def c1_def cb_ok_def word_le_nat_alt)
  qed
  moreover have "cb_list c3 = cb_list c @ bs"
  proof -
    have "cdata c1 = Some d" by (simp add: c1_def)
    from cb_list_write [OF ok1 this, of bs "cused c + ?n" "(cwritepos c + ?n) mod csize c"]
    show ?thesis using assms(2) wl1 uu l1 by (simp add: c3_def c2_def d2_def c1_def)
  qed
  ultimately show ?thesis using wr by (simp add: c3_def c2_def c1_def)
qed

lemma cbuf_incrread_eq:
  assumes "cb_ok c" and "unat n \<le> length (cb_list c)"
  shows "\<exists>c'. cbuf_incrread c n = Inr c' \<and> cb_ok c' \<and> csize c' = csize c \<and> cb_list c' = drop (unat n) (cb_list c)"
proof -
  note b = cb_ok_nat(1-5) [OF assms(1)]
  have n: "unat n \<le> unat (cused c)" using assms by (simp add: length_cb_list)
  have uu: "unat (cused c - n) = unat (cused c) - unat n" using n by (rule unat_sub_below)
  have rr: "unat (creadpos c + n) = unat (creadpos c) + unat n" using n b by (subst unat_add_below) auto
  have z: "csize c \<noteq> 0" using assms(1) by (rule csize_nonzero)
  define c' where "c' = c\<lparr>cused := cused c - n, creadpos := (creadpos c + n) mod csize c\<rparr>"
  have r': "unat (creadpos c') = (unat (creadpos c) + unat n) mod unat (csize c)"
    by (simp add: c'_def unat_mod rr)
  have "cbuf_incrread c n = Inr c'" using n z
    by (simp add: cbuf_incrread_def umod_eq c'_def word_le_nat_alt)
  moreover have "cb_ok c'"
  proof -
    have "((unat (creadpos c) + unat n) mod unat (csize c) + (unat (cused c) - unat n)) mod unat (csize c)
        = (unat (creadpos c) + unat (cused c)) mod unat (csize c)"
    proof -
      have "((unat (creadpos c) + unat n) mod unat (csize c) + (unat (cused c) - unat n)) mod unat (csize c)
          = (unat (creadpos c) + unat n + (unat (cused c) - unat n)) mod unat (csize c)"
        by (rule mod_add_left_eq)
      with n show ?thesis by (simp only: add.assoc le_add_diff_inverse)
    qed
    then have pos: "unat (cwritepos c') = (unat (creadpos c') + unat (cused c')) mod unat (csize c')"
      using r' uu cb_ok_nat(6) [OF assms(1)] by (simp add: c'_def)
    have rd: "creadpos c' < csize c'" using r' b by (simp add: word_less_nat_alt c'_def)
    have us: "cused c' \<le> csize c'" using uu n b by (simp add: word_le_nat_alt c'_def)
    have z: "cdata c = None \<Longrightarrow> cused c - n = 0"
      using assms(1) n uu by (simp add: cb_ok_def unat_eq_zero)
    show ?thesis using assms(1) pos rd us z unfolding cb_ok_def
      by (auto simp: c'_def split: option.splits)
  qed
  moreover have "cb_list c' = drop (unat n) (cb_list c)"
  proof (cases "cdata c")
    case None
    then show ?thesis by (simp add: cb_list_def c'_def)
  next
    case (Some d)
    have "((unat (creadpos c) + unat n) mod unat (csize c) + i) mod unat (csize c)
        = (unat (creadpos c) + (unat n + i)) mod unat (csize c)" for i
      by (simp add: mod_add_left_eq add.assoc)
    then show ?thesis using Some uu r'
      by (auto simp: cb_list_def c'_def add.commute intro!: nth_equalityI)
  qed
  ultimately show ?thesis by (auto simp: c'_def)
qed

lemma cbuf_readall_eq:
  assumes "cb_ok c"
  shows "cbuf_readall c = Inr (cb_list c)"
proof (cases "cdata c")
  case None
  then have "cused c = 0" using assms by (simp add: cb_ok_def)
  then show ?thesis using None by (simp add: cbuf_readall_def cbuf_readptrs_def cb_list_def)
next
  case (Some d)
  note n = cb_ok_nat(1-5) [OF assms]
  let ?R = "unat (creadpos c)" and ?U = "unat (cused c)" and ?S = "unat (csize c)"
  have ld: "length d = ?S" using assms Some by (simp add: cb_ok_def)
  have sr: "unat (csize c - creadpos c) = ?S - ?R" using n by (intro unat_sub_below) simp
  have l1: "unat (min (cused c) (csize c - creadpos c)) = min ?U (?S - ?R)"
    by (simp only: unat_min_u32 sr)
  show ?thesis
  proof (cases "?U \<le> ?S - ?R")
    case True
    then have "\<not> min (cused c) (csize c - creadpos c) < cused c" using l1 by (simp add: word_less_nat_alt)
    moreover have "take ?U (drop ?R d) = cb_list c"
      using Some True n ld by (intro nth_equalityI) (auto simp: cb_list_def)
    moreover have "?R + ?U \<le> length d" using True n ld by simp
    moreover have "cused c = 0 \<Longrightarrow> cb_list c = []" using Some by (simp add: cb_list_def)
    ultimately show ?thesis using l1 True Some
      by (auto simp: cbuf_readall_def cbuf_readptrs_def mem_read_eq word_less_nat_alt)
  next
    case False
    then have lt: "min (cused c) (csize c - creadpos c) < cused c" using l1 by (simp add: word_less_nat_alt)
    have m: "min (cused c) (csize c - creadpos c) = csize c - creadpos c"
      using False sr by (simp add: min_def word_le_nat_alt)
    have l2: "unat (cused c - (csize c - creadpos c)) = ?U - (?S - ?R)"
      using False sr by (subst unat_sub_below) simp_all
    have pos: "0 < csize c - creadpos c" using n sr by (simp add: word_less_nat_alt)
    have "take (?S - ?R) (drop ?R d) @ take (?U - (?S - ?R)) d = cb_list c"
      using Some False n ld by (intro nth_equalityI) (auto simp: cb_list_def nth_append mod_if add.commute)
    moreover have "?R + (?S - ?R) \<le> length d" "?U - (?S - ?R) \<le> length d" using n ld by simp_all
    ultimately show ?thesis using lt m l2 pos Some sr
      by (simp add: cbuf_readall_def cbuf_readptrs_def mem_read_eq Let_def)
  qed
qed

interpretation cb: byte_fifo cb_ok cb_list "\<lambda>c. unat (csize c)" writelen_nat cbuf_write cbuf_incrread cbuf_readall
proof
  fix c n bs assume ok: "cb_ok c"
  show "length (cb_list c) \<le> unat (csize c)" "unat (csize c) < 4294967296"
    using cb_ok_nat [OF ok] by (simp_all add: length_cb_list ok)
  show "writelen_nat c \<le> unat (csize c) - length (cb_list c)"
    using writelen_nat_bounds(1) [OF ok] by (simp add: length_cb_list unat_getavail ok)
  show "length (cb_list c) < unat (csize c) \<Longrightarrow> 0 < writelen_nat c"
    using writelen_nat_bounds(3) [OF ok] by (simp add: length_cb_list unat_getavail ok)
  show "cbuf_readall c = Inr (cb_list c)" using ok by (rule cbuf_readall_eq)
qed (metis cbuf_write_eq, metis cbuf_incrread_eq)

lemma cbuf_new_ok: "0 < sz \<Longrightarrow> cbuf_new sz = Inr c \<Longrightarrow> cb_ok c \<and> cb_list c = [] \<and> csize c = sz"
  by (auto simp: cbuf_new_def cb_ok_def cb_list_def split: if_splits)

section \<open>Runs of a circular buffer\<close>

text \<open>
  A caller's operations one after the other, against the list of bytes they stand for. The bytes
  of a write are counted by a C \<open>unsigned int\<close>.
\<close>

datatype cb_op = CbWrite "byte list" | CbRead u32

fun cb_step :: "circbuffer \<Rightarrow> cb_op \<Rightarrow> circbuffer res" where
  "cb_step c (CbWrite bs) = cbuf_write c bs"
| "cb_step c (CbRead n) = cbuf_incrread c n"

fun fifo_step :: "byte list \<Rightarrow> cb_op \<Rightarrow> byte list" where
  "fifo_step l (CbWrite bs) = l @ bs"
| "fifo_step l (CbRead n) = drop (unat n) l"

fun cb_op_fits :: "cb_op \<Rightarrow> bool" where
  "cb_op_fits (CbWrite bs) = (length bs < 4294967296)"
| "cb_op_fits (CbRead n) = True"

lemma cbuf_write_full:
  assumes "cb_ok c" and "writelen_nat c < length bs" and "length bs < 4294967296"
  shows "cbuf_write c bs = Inl (Exit ''Bad cbuf write'')"
proof -
  have "of_nat (writelen_nat c) < (of_nat (length bs) :: u32)"
    using assms writelen_nat_bounds(4) [OF assms(1)] by (simp add: word_less_nat_alt unat_of_nat_u32)
  then show ?thesis using assms(1) by (simp add: cbuf_write_def cbuf_writeptr_def cbuf_writelen_eq)
qed

lemma cbuf_incrread_empty:
  assumes "cb_ok c" and "length (cb_list c) < unat n"
  shows "cbuf_incrread c n = Inl Assert_failed"
  using assms by (simp add: cbuf_incrread_def length_cb_list word_le_nat_alt)

lemma cb_step_cases:
  assumes "cb_ok c" and "cb_op_fits i"
  obtains (failed) f where "cb_step c i = Inl f" "f = Exit ''Bad cbuf write'' \<or> f = Assert_failed"
  | (stepped) c' where "cb_step c i = Inr c'" "cb_ok c'" "csize c' = csize c"
      "cb_list c' = fifo_step (cb_list c) i"
proof (cases i)
  case (CbWrite bs)
  show thesis
  proof (cases "length bs \<le> writelen_nat c")
    case True
    show thesis using cbuf_write_eq [OF assms(1) True] stepped CbWrite by auto
  next
    case False
    then show thesis using cbuf_write_full [OF assms(1)] assms(2) failed CbWrite by simp
  qed
next
  case (CbRead n)
  show thesis
  proof (cases "unat n \<le> length (cb_list c)")
    case True
    show thesis using cbuf_incrread_eq [OF assms(1) True] stepped CbRead by auto
  next
    case False
    then show thesis using cbuf_incrread_empty [OF assms(1)] failed CbRead by simp
  qed
qed

lemma cb_run_refines:
  assumes "cb_ok c" and "list_all cb_op_fits ops"
  shows "(case run cb_step c ops of
      Inl f \<Rightarrow> f = Exit ''Bad cbuf write'' \<or> f = Assert_failed
    | Inr c' \<Rightarrow> cb_ok c' \<and> csize c' = csize c \<and> cb_list c' = foldl fifo_step (cb_list c) ops)"
  using assms
proof (induction ops arbitrary: c)
  case (Cons i ops)
  show ?case
  proof (rule cb_step_cases [of c i])
    fix c' assume s: "cb_step c i = Inr c'" "cb_ok c'" "csize c' = csize c" "cb_list c' = fifo_step (cb_list c) i"
    show ?thesis using Cons.IH [OF s(2)] Cons.prems(2) s by (simp split: sum.splits)
  qed (use Cons.prems in auto)
qed simp



text \<open>
  Progress: whenever a byte of room is left, the contiguous room is positive, so that a
  write of at least one byte succeeds and is appended, and a loop of such writes advances.
\<close>

theorem circbuffer_progress:
  assumes "cb_ok c" and "cbuf_getavail c \<noteq> 0"
  shows "\<exists>n. cbuf_writelen c = Inr n \<and> 0 < n \<and> n \<le> cbuf_getavail c
    \<and> (\<forall>bs. length bs \<le> unat n \<longrightarrow>
        (\<exists>c'. cbuf_write c bs = Inr c' \<and> cb_ok c' \<and> cb_list c' = cb_list c @ bs))"
proof -
  note w = writelen_nat_bounds [OF assms(1)]
  have a: "0 < unat (cbuf_getavail c)" using assms(2) by (simp add: unat_gt_0)
  have u: "unat (of_nat (writelen_nat c) :: u32) = writelen_nat c"
    using w(4) by (intro unat_of_nat_u32) simp
  have "cbuf_writelen c = Inr (of_nat (writelen_nat c))" using assms(1) by (rule cbuf_writelen_eq)
  moreover have "(0::u32) < of_nat (writelen_nat c)"
    using w(3) a by (simp add: word_less_nat_alt u)
  moreover have "of_nat (writelen_nat c) \<le> cbuf_getavail c"
    using w(1) by (simp add: word_le_nat_alt u)
  moreover have "\<forall>bs. length bs \<le> unat (of_nat (writelen_nat c) :: u32) \<longrightarrow>
      (\<exists>c'. cbuf_write c bs = Inr c' \<and> cb_ok c' \<and> cb_list c' = cb_list c @ bs)"
    using cbuf_write_eq [OF assms(1)] u by auto
  ultimately show ?thesis by blast
qed

theorem circbuffer_progress_witness:
  "\<exists>n. cbuf_writelen \<lparr>csize = 4, creadpos = 2, cwritepos = 1, cused = 3, cdata = Some ''cxab''\<rparr> = Inr n \<and> 0 < n"
  using circbuffer_progress [of "\<lparr>csize = 4, creadpos = 2, cwritepos = 1, cused = 3, cdata = Some ''cxab''\<rparr>"]
  by (auto simp: cb_ok_def MAX_CBUF_SIZE_def cbuf_getavail_def)

end
