(* ===== verification/Queue.thy ===== *)
theory Queue
  imports Prelude
begin

text \<open>
  The linked queues of \<open>dropbear/src/queue.c\<close>, which hold encrypted packets waiting for the
  socket. Links live in a store of memory cells; the operations follow and change pointers as
  the C code does. A locale states what a client expects of a queue, and its interpretation
  shows that the pointer structure is a list, first in first out, with nothing dangling.
\<close>

section \<open>Links, queues and the store\<close>

type_synonym addr = nat

record 'a Link =
  item :: 'a
  link :: "addr option"

record Queue =
  head :: "addr option"
  tail :: "addr option"
  count :: u32

text \<open>
  The store maps the address of each live link to the link. \<open>m_malloc\<close> gives an address that is
  not in use: the next one above every address given out so far.
\<close>

record 'a store =
  cells :: "addr \<Rightarrow> 'a Link option"
  brk :: addr

definition initqueue :: "Queue" where
  "initqueue = \<lparr>head = None, tail = None, count = 0\<rparr>"

definition isempty :: "Queue \<Rightarrow> bool" where
  "isempty q \<longleftrightarrow> head q = None"

definition deref :: "'a store \<Rightarrow> addr option \<Rightarrow> 'a Link res" where
  "deref st p = (case p of None \<Rightarrow> Inl Mem_fault
     | Some a \<Rightarrow> (case cells st a of None \<Rightarrow> Inl Mem_fault | Some l \<Rightarrow> Inr l))"

definition dequeue :: "'a store \<Rightarrow> Queue \<Rightarrow> ('a \<times> 'a store \<times> Queue) res" where
  "dequeue st q =
     bindr (require (\<not> isempty q) Assert_failed) (\<lambda>_.
     bindr (deref st (head q)) (\<lambda>oldhead.
     let q' = (case link oldhead of
                 Some n \<Rightarrow> q\<lparr>head := Some n\<rparr>
               | None \<Rightarrow> q\<lparr>head := None, tail := None\<rparr>);
         st' = st\<lparr>cells := (cells st)(the (head q) := None)\<rparr> in
     Inr (item oldhead, st', q'\<lparr>count := count q' - 1\<rparr>)))"

definition examine :: "'a store \<Rightarrow> Queue \<Rightarrow> 'a res" where
  "examine st q =
     bindr (require (\<not> isempty q) Assert_failed) (\<lambda>_.
     bindr (deref st (head q)) (\<lambda>l. Inr (item l)))"

definition enqueue :: "'a store \<Rightarrow> Queue \<Rightarrow> 'a \<Rightarrow> ('a store \<times> Queue) res" where
  "enqueue st q x =
     (let new = brk st;
          st1 = st\<lparr>cells := (cells st)(new \<mapsto> \<lparr>item = x, link = None\<rparr>), brk := Suc new\<rparr> in
      bindr (case tail q of
               None \<Rightarrow> Inr st1
             | Some t \<Rightarrow> bindr (deref st1 (Some t)) (\<lambda>l.
                 Inr (st1\<lparr>cells := (cells st1)(t \<mapsto> l\<lparr>link := Some new\<rparr>)\<rparr>))) (\<lambda>st2.
      let q1 = q\<lparr>tail := Some new\<rparr>;
          q2 = (case head q1 of None \<Rightarrow> q1\<lparr>head := Some new\<rparr> | Some _ \<Rightarrow> q1) in
      Inr (st2, q2\<lparr>count := count q2 + 1\<rparr>)))"

section \<open>The contract of a queue\<close>

text \<open>
  A client holds a queue of type \<open>'q\<close> (with whatever store it lives in) that stands for a list.
\<close>

locale fifo_queue =
  fixes rep :: "'q \<Rightarrow> 'a list \<Rightarrow> bool"
    and empty :: "'q \<Rightarrow> bool"
    and enq :: "'q \<Rightarrow> 'a \<Rightarrow> 'q res"
    and deq :: "'q \<Rightarrow> ('a \<times> 'q) res"
    and first :: "'q \<Rightarrow> 'a res"
  assumes empty_iff: "rep q xs \<Longrightarrow> empty q \<longleftrightarrow> xs = []"
    and enq_rep: "rep q xs \<Longrightarrow> \<exists>q'. enq q x = Inr q' \<and> rep q' (xs @ [x])"
    and deq_rep: "rep q (x # xs) \<Longrightarrow> \<exists>q'. deq q = Inr (x, q') \<and> rep q' xs"
    and first_rep: "rep q (x # xs) \<Longrightarrow> first q = Inr x"
begin

fun enq_all :: "'q \<Rightarrow> 'a list \<Rightarrow> 'q res" where
  "enq_all q [] = Inr q"
| "enq_all q (x # xs) = bindr (enq q x) (\<lambda>q'. enq_all q' xs)"

fun deq_all :: "nat \<Rightarrow> 'q \<Rightarrow> ('a list \<times> 'q) res" where
  "deq_all 0 q = Inr ([], q)"
| "deq_all (Suc n) q = bindr (deq q) (\<lambda>(x, q'). bindr (deq_all n q') (\<lambda>(xs, q''). Inr (x # xs, q'')))"

lemma enq_all_rep: "rep q xs \<Longrightarrow> \<exists>q'. enq_all q ys = Inr q' \<and> rep q' (xs @ ys)"
proof (induction ys arbitrary: q xs)
  case (Cons y ys)
  from enq_rep [OF Cons.prems, of y] obtain q1 where "enq q y = Inr q1" "rep q1 (xs @ [y])" by blast
  with Cons.IH [of q1 "xs @ [y]"] show ?case by auto
qed auto

lemma deq_all_rep: "rep q (xs @ ys) \<Longrightarrow> \<exists>q'. deq_all (length xs) q = Inr (xs, q') \<and> rep q' ys"
proof (induction xs arbitrary: q)
  case (Cons x xs)
  from Cons.prems have "rep q (x # (xs @ ys))" by simp
  from deq_rep [OF this] obtain q1 where q1: "deq q = Inr (x, q1)" "rep q1 (xs @ ys)" by blast
  from Cons.IH [OF this(2)] q1(1) show ?case by auto
qed auto

end

section \<open>The pointer structure is a list\<close>

fun path :: "(addr \<Rightarrow> 'a Link option) \<Rightarrow> addr option \<Rightarrow> addr list \<Rightarrow> 'a list \<Rightarrow> bool" where
  "path h p [] [] \<longleftrightarrow> p = None"
| "path h p (a # as) (x # xs) \<longleftrightarrow> p = Some a \<and> (\<exists>n. h a = Some \<lparr>item = x, link = n\<rparr> \<and> path h n as xs)"
| "path h p _ _ \<longleftrightarrow> False"

definition queue_at :: "'a store \<Rightarrow> Queue \<Rightarrow> addr list \<Rightarrow> 'a list \<Rightarrow> bool" where
  "queue_at st q as xs \<longleftrightarrow> path (cells st) (head q) as xs \<and> distinct as
     \<and> tail q = (if as = [] then None else Some (last as))
     \<and> count q = of_nat (length xs) \<and> (\<forall>a. brk st \<le> a \<longrightarrow> cells st a = None)"

definition queue_rep :: "'a store \<times> Queue \<Rightarrow> 'a list \<Rightarrow> bool" where
  "queue_rep sq xs \<longleftrightarrow> (\<exists>as. queue_at (fst sq) (snd sq) as xs)"

lemma path_length: "path h p as xs \<Longrightarrow> length as = length xs"
  by (induction h p as xs rule: path.induct) auto

lemma path_head: "path h p as xs \<Longrightarrow> p = None \<longleftrightarrow> xs = []"
  by (induction h p as xs rule: path.induct) auto

lemma path_live: "path h p as xs \<Longrightarrow> a \<in> set as \<Longrightarrow> h a \<noteq> None"
  by (induction h p as xs rule: path.induct) auto

lemma path_frame: "path h p as xs \<Longrightarrow> (\<forall>a \<in> set as. h' a = h a) \<Longrightarrow> path h' p as xs"
  by (induction h p as xs rule: path.induct) auto

lemma path_snoc:
  "path h p as xs \<Longrightarrow> as \<noteq> [] \<Longrightarrow> distinct as \<Longrightarrow> new \<notin> set as \<Longrightarrow> h (last as) = Some l \<Longrightarrow>
   path (h(new \<mapsto> \<lparr>item = x, link = None\<rparr>, last as \<mapsto> l\<lparr>link := Some new\<rparr>)) p (as @ [new]) (xs @ [x])"
proof (induction h p as xs rule: path.induct)
  case (2 h p a as y xs)
  show ?case
  proof (cases as)
    case Nil
    then show ?thesis using 2 by (cases xs) auto
  next
    case (Cons b bs)
    from 2(2) obtain n where n: "p = Some a" "h a = Some \<lparr>item = y, link = n\<rparr>" "path h n as xs" by auto
    have "last as \<in> set as" using Cons by simp
    then have "last as \<noteq> a" using 2(4) by auto
    then show ?thesis using 2(1) [OF n(3)] 2(4-6) n Cons by auto
  qed
qed auto

lemma path_Cons:
  assumes "path h p as (x # xs)"
  obtains a as' n where "as = a # as'" "p = Some a" "h a = Some \<lparr>item = x, link = n\<rparr>" "path h n as' xs"
  using assms by (cases as) auto

lemma queue_at_fresh: "queue_at st q as xs \<Longrightarrow> brk st \<notin> set as"
  by (auto simp: queue_at_def dest!: path_live)

lemma enqueue_at:
  assumes "queue_at st q as xs"
  shows "\<exists>st' q'. enqueue st q x = Inr (st', q') \<and> queue_at st' q' (as @ [brk st]) (xs @ [x])
    \<and> (\<forall>a. a \<notin> set as \<and> a \<noteq> brk st \<longrightarrow> cells st' a = cells st a)"
proof (cases "as = []")
  case True
  then have "xs = []" "head q = None" "tail q = None"
    using assms by (cases xs; auto simp: queue_at_def)+
  then show ?thesis using assms True
    by (auto simp: enqueue_def queue_at_def Let_def)
next
  case False
  have p: "path (cells st) (head q) as xs" using assms by (simp add: queue_at_def)
  have t: "tail q = Some (last as)" using assms False by (simp add: queue_at_def)
  obtain l where l: "cells st (last as) = Some l" using path_live [OF p, of "last as"] False by auto
  have hd: "head q \<noteq> None" using path_head [OF p] path_length [OF p] False by auto
  have fr: "brk st \<notin> set as" using assms by (rule queue_at_fresh)
  then have ne: "last as \<noteq> brk st" using False last_in_set by metis
  note path_snoc [OF p False _ fr l, of x]
  moreover have "last as < brk st" using assms l ne by (auto simp: queue_at_def) (metis not_le option.distinct(1))
  ultimately show ?thesis using assms t l hd ne False
    by (auto simp: enqueue_def queue_at_def deref_def fr Let_def split: option.splits)
qed

lemma dequeue_at:
  assumes "queue_at st q as (x # xs)"
  shows "\<exists>a as' st' q'. as = a # as' \<and> dequeue st q = Inr (x, st', q') \<and> queue_at st' q' as' xs
    \<and> cells st' = (cells st)(a := None)"
proof -
  from assms obtain a as' n where as: "as = a # as'" and h: "head q = Some a"
      and c: "cells st a = Some \<lparr>item = x, link = n\<rparr>" and p: "path (cells st) n as' xs"
    by (auto simp: queue_at_def elim: path_Cons)
  have a: "a \<notin> set as'" using assms as by (simp add: queue_at_def)
  have p': "path ((cells st)(a := None)) n as' xs" using p a by (auto elim!: path_frame)
  show ?thesis
  proof (cases n)
    case None
    then have "as' = []" "xs = []" using path_head [OF p] path_length [OF p] by auto
    then show ?thesis using assms as h c None
      by (auto simp: dequeue_def isempty_def deref_def queue_at_def)
  next
    case (Some b)
    then have "as' \<noteq> []" using path_head [OF p] path_length [OF p] by auto
    then show ?thesis using assms as h c Some p'
      by (auto simp: dequeue_def isempty_def deref_def queue_at_def)
  qed
qed

interpretation lq: fifo_queue queue_rep "\<lambda>(st, q). isempty q" "\<lambda>(st, q) x. enqueue st q x"
  "\<lambda>(st, q). dequeue st q" "\<lambda>(st, q). examine st q"
proof
  fix sq :: "'a store \<times> Queue" and x :: 'a and xs
  obtain st q where sq [simp]: "sq = (st, q)" by fastforce
  show "queue_rep sq xs \<Longrightarrow> (case sq of (st, q) \<Rightarrow> isempty q) = (xs = [])"
    by (auto simp: queue_rep_def queue_at_def isempty_def dest: path_head)
  show "queue_rep sq xs \<Longrightarrow>
      \<exists>q'. (case sq of (st, q) \<Rightarrow> \<lambda>x. enqueue st q x) x = Inr q' \<and> queue_rep q' (xs @ [x])"
    using enqueue_at [of st q _ xs x] by (fastforce simp: queue_rep_def)
  show "queue_rep sq (x # xs) \<Longrightarrow>
      \<exists>q'. (case sq of (st, q) \<Rightarrow> dequeue st q) = Inr (x, q') \<and> queue_rep q' xs"
    using dequeue_at [of st q _ x xs] by (fastforce simp: queue_rep_def)
  show "queue_rep sq (x # xs) \<Longrightarrow> (case sq of (st, q) \<Rightarrow> examine st q) = Inr x"
    by (auto simp: queue_rep_def queue_at_def examine_def isempty_def deref_def elim!: path_Cons)
qed

text \<open>
  C32. The linked queue is first in first out and leaks nothing: from an empty queue in any
  store, enqueueing the items \<open>xs @ ys\<close> and dequeueing as many as \<open>xs\<close> has gives exactly \<open>xs\<close> in
  order, without following a NULL or freed link, and leaves a queue that holds \<open>ys\<close>.
\<close>

theorem queue_first_in_first_out:
  assumes "\<forall>a. brk st \<le> a \<longrightarrow> cells st a = None"
  shows "\<exists>q1 q2. lq.enq_all (st, initqueue) (xs @ ys) = Inr q1
    \<and> lq.deq_all (length xs) q1 = Inr (xs, q2) \<and> queue_rep q2 ys"
proof -
  have "queue_rep (st, initqueue) []"
    using assms by (auto simp: queue_rep_def queue_at_def initqueue_def intro!: exI [of _ "[]"])
  from lq.enq_all_rep [OF this, of "xs @ ys"] obtain q1
    where q1: "lq.enq_all (st, initqueue) (xs @ ys) = Inr q1" "queue_rep q1 (xs @ ys)" by auto
  from lq.deq_all_rep [OF this(2)] q1(1) show ?thesis by blast
qed

theorem queue_first_in_first_out_witness:
  "\<exists>q1 q2. lq.enq_all (\<lparr>cells = Map.empty, brk = 0\<rparr>, initqueue) [1::nat, 2, 3] = Inr q1
    \<and> lq.deq_all 2 q1 = Inr ([1, 2], q2) \<and> queue_rep q2 [3]"
  using queue_first_in_first_out [of "\<lparr>cells = Map.empty, brk = 0\<rparr>" "[1::nat, 2]" "[3]"]
  by (simp add: numeral_2_eq_2)

end
