(* ===== verification/Algo.thy ===== *)
theory Algo
  imports Buffer
begin

text \<open>
  Algorithm negotiation, \<open>dropbear/src/common-algo.c\<close>: the tables of algorithms, writing the list
  of the usable ones, taking a peer's list apart and finding the first match. The theory shows
  that what one side writes the other reads back as the same names, and that the algorithm
  chosen is the first of the client's list that the server can use.
\<close>

section \<open>Tables and operations\<close>

text \<open>
  A table of \<open>struct Algo_Type\<close> ends at the entry whose name is NULL: here it ends where the list
  ends. \<open>adata\<close> and \<open>amode\<close> are what the two untyped pointers point to.
\<close>

record ('d, 'm) algo_type =
  aname :: string
  aval :: int
  adata :: "'d option"
  ausable :: bool
  amode :: "'m option"

definition MAX_PROPOSED_ALGO :: nat where
  "MAX_PROPOSED_ALGO = 50"

definition MAX_NAME_LEN :: nat where
  "MAX_NAME_LEN = 64"

fun put_algos :: "bool \<Rightarrow> bool \<Rightarrow> ('d, 'm) algo_type list \<Rightarrow> buffer \<Rightarrow> buffer res" where
  "put_algos useall donefirst [] b = Inr b"
| "put_algos useall donefirst (a # as) b =
     (if ausable a \<or> useall then
        bindr (if donefirst then buf_putbyte b (CHR '','') else Inr b) (\<lambda>b.
        bindr (buf_putbytes b (aname a) (of_nat (length (aname a)))) (\<lambda>b.
        put_algos useall True as b))
      else put_algos useall donefirst as b)"

definition buf_put_algolist_all :: "buffer \<Rightarrow> ('d, 'm) algo_type list \<Rightarrow> bool \<Rightarrow> buffer res" where
  "buf_put_algolist_all b localalgos useall =
     (let startpos = bpos b in
      bindr (buf_putint b 0) (\<lambda>b.
      bindr (put_algos useall False localalgos b) (\<lambda>b.
      let l = bpos b - startpos - 4 in
      bindr (buf_setpos b startpos) (\<lambda>b.
      bindr (buf_putint b l) (\<lambda>b.
      buf_incrwritepos b l)))))"

definition buf_put_algolist :: "buffer \<Rightarrow> ('d, 'm) algo_type list \<Rightarrow> buffer res" where
  "buf_put_algolist b localalgos = buf_put_algolist_all b localalgos False"

text \<open>
  The loop of \<open>get_algolist\<close>: the names before the last comma, the name being read, the bytes
  still to read. The check against \<open>MAX_PROPOSED_ALGO * (MAX_NAME_LEN + 1)\<close> sets the count to
  zero, but the two assignments behind it run in any case, so that it has no effect.
\<close>

fun algolist_loop :: "nat \<Rightarrow> string list \<Rightarrow> string \<Rightarrow> byte list \<Rightarrow> string list res" where
  "algolist_loop max_count names cur [] = Inr (names @ [cur])"
| "algolist_loop max_count names cur (c # cs) =
     (if c = CHR 0x00 then Inr []
      else if c = CHR '','' then
        (if Suc (length names) \<ge> max_count then Inl (Exit ''Too many remote algorithms'')
         else algolist_loop max_count (names @ [cur]) [] cs)
      else algolist_loop max_count names (cur @ [c]) cs)"

definition get_algolist :: "byte list \<Rightarrow> nat \<Rightarrow> string list res" where
  "get_algolist algolist ret_count =
     (if ret_count = 0 then Inr []
      else
        let max_count = ret_count;
            ret_count = (if length algolist > MAX_PROPOSED_ALGO * (MAX_NAME_LEN + 1) then 0 else ret_count);
            ret_count = (1 :: nat) in
        algolist_loop max_count [] [] algolist)"

text \<open>The result \<open>True\<close> is \<open>DROPBEAR_SUCCESS\<close>.\<close>

definition buf_has_algo :: "buffer \<Rightarrow> string \<Rightarrow> (bool \<times> buffer) res" where
  "buf_has_algo b algo =
     (let orig_pos = bpos b in
      bindr (buf_getstring b) (\<lambda>(algolist, b).
      bindr (get_algolist algolist MAX_PROPOSED_ALGO) (\<lambda>remotenames.
      bindr (buf_setpos b orig_pos) (\<lambda>b.
      Inr (algo \<in> set remotenames, b)))))"

fun first_usable_algo :: "('d, 'm) algo_type list \<Rightarrow> ('d, 'm) algo_type option" where
  "first_usable_algo [] = None"
| "first_usable_algo (a # as) = (if ausable a then Some a else first_usable_algo as)"

text \<open>
  The two nested loops of \<open>buf_match_algo\<close>: the indices of the first client name that a server
  name equals. An unusable local algorithm is a NULL in its array, here \<open>None\<close>.
\<close>

fun match_inner :: "string option \<Rightarrow> string option list \<Rightarrow> nat \<Rightarrow> nat option" where
  "match_inner cli [] j = None"
| "match_inner cli (srv # srvs) j =
     (if srv \<noteq> None \<and> cli \<noteq> None \<and> srv = cli then Some j else match_inner cli srvs (Suc j))"

fun match_outer :: "string option list \<Rightarrow> string option list \<Rightarrow> nat \<Rightarrow> (nat \<times> nat) option" where
  "match_outer [] srvs i = None"
| "match_outer (cli # clis) srvs i =
     (case match_inner cli srvs 0 of Some j \<Rightarrow> Some (i, j) | None \<Rightarrow> match_outer clis srvs (Suc i))"

text \<open>The local names fill an array of \<open>MAX_PROPOSED_ALGO\<close> pointers without a check.\<close>

definition local_names :: "('d, 'm) algo_type list \<Rightarrow> string option list res" where
  "local_names localalgos =
     (if length localalgos > MAX_PROPOSED_ALGO then Inl Mem_fault
      else Inr (map (\<lambda>a. if ausable a then Some (aname a) else None) localalgos))"

definition buf_match_algo ::
  "bool \<Rightarrow> buffer \<Rightarrow> ('d, 'm) algo_type list \<Rightarrow> bool \<Rightarrow> (('d, 'm) algo_type option \<times> bool \<times> buffer) res" where
  "buf_match_algo isserver b localalgos kexguess2 =
     bindr (buf_getstring b) (\<lambda>(algolist, b).
     bindr (get_algolist algolist MAX_PROPOSED_ALGO) (\<lambda>remote.
     let remotenames = map Some remote in
     bindr (local_names localalgos) (\<lambda>localnames.
     let clinames = (if isserver then remotenames else localnames);
         servnames = (if isserver then localnames else remotenames) in
     case match_outer clinames servnames 0 of
       None \<Rightarrow> Inr (None, False, b)
     | Some (i, j) \<Rightarrow>
         let goodguess = (if kexguess2 then i = 0 else i = 0 \<and> j = 0) in
         Inr (Some (localalgos ! (if isserver then j else i)), goodguess, b))))"

section \<open>Lists of names\<close>

fun join_names :: "string list \<Rightarrow> byte list" where
  "join_names [] = []"
| "join_names [n] = n"
| "join_names (n # m # ns) = n @ CHR '','' # join_names (m # ns)"

definition name_ok :: "string \<Rightarrow> bool" where
  "name_ok n \<longleftrightarrow> CHR 0x00 \<notin> set n \<and> CHR '','' \<notin> set n"

abbreviation usable_names :: "bool \<Rightarrow> ('d, 'm) algo_type list \<Rightarrow> string list" where
  "usable_names useall as \<equiv> map aname (filter (\<lambda>a. ausable a \<or> useall) as)"

lemma algolist_loop_word:
  "name_ok n \<Longrightarrow> algolist_loop m names cur (n @ cs) = algolist_loop m names (cur @ n) cs"
  by (induction n arbitrary: cur) (auto simp: name_ok_def)

lemma algolist_loop_join:
  assumes "list_all name_ok (n # ns)" and "length names + length (n # ns) \<le> m"
  shows "algolist_loop m names cur (join_names (n # ns)) = Inr (names @ (cur @ n) # ns)"
  using assms
proof (induction ns arbitrary: n names cur)
  case Nil
  then show ?case using algolist_loop_word [of n m names cur "[]"] by simp
next
  case (Cons a ns)
  then have "algolist_loop m (names @ [cur @ n]) [] (join_names (a # ns)) = Inr ((names @ [cur @ n]) @ ([] @ a) # ns)"
    by (intro Cons.IH) auto
  then show ?case using Cons.prems algolist_loop_word [of n m names cur] by simp
qed

lemma get_algolist_join:
  assumes "list_all name_ok ns" and "ns \<noteq> []" and "length ns \<le> MAX_PROPOSED_ALGO"
  shows "get_algolist (join_names ns) MAX_PROPOSED_ALGO = Inr ns"
  using assms algolist_loop_join [of _ _ "[]" MAX_PROPOSED_ALGO "[]"]
  by (cases ns) (auto simp: get_algolist_def MAX_PROPOSED_ALGO_def)

lemma join_names_Cons: "join_names (n # ns) = n @ (if ns = [] then [] else CHR '','' # join_names ns)"
  by (cases ns) auto

text \<open>What the loop over a table appends.\<close>

definition put_text :: "bool \<Rightarrow> string list \<Rightarrow> byte list" where
  "put_text donefirst ns = (if ns = [] then [] else (if donefirst then [CHR '',''] else []) @ join_names ns)"

lemma put_algos_eq:
  assumes "buf_ok b" and "length (put_text d (usable_names ua as)) \<le> buf_room b"
  shows "put_algos ua d as b = Inr (buf_wrote b (put_text d (usable_names ua as)))"
  using assms
proof (induction as arbitrary: b d)
  case Nil
  then show ?case by (simp add: put_text_def)
next
  case (Cons a as)
  show ?case
  proof (cases "ausable a \<or> ua")
    case False
    then show ?thesis using Cons by simp
  next
    case True
    let ?ns = "usable_names ua as"
    let ?c = "if d then [CHR '',''] else []"
    have split: "put_text d (usable_names ua (a # as)) = (?c @ aname a) @ put_text True ?ns"
      using True by (auto simp: put_text_def join_names_Cons)
    have room: "length (?c @ aname a) + length (put_text True ?ns) \<le> buf_room b"
      using Cons.prems(2) unfolding split by simp
    define b1 where "b1 = buf_wrote b ?c"
    have ok1: "buf_ok b1" unfolding b1_def using Cons.prems(1) room by (intro buf_wrote_ok) auto
    have room1: "buf_room b1 = buf_room b - length ?c" unfolding b1_def
      using Cons.prems(1) room by (intro buf_room_wrote) auto
    have step1: "(if d then buf_putbyte b (CHR '','') else Inr b) = Inr b1"
      using Cons.prems(1) room by (auto simp: b1_def buf_putbyte_eq)
    have fit: "length (aname a) \<le> buf_room b1" using room room1 by simp
    have "length (aname a) \<le> 1000000000" using fit buf_room_le [OF ok1] by simp
    then have un: "unat (of_nat (length (aname a)) :: u32) = length (aname a)" by (intro unat_of_nat_u32) simp
    have step2: "buf_putbytes b1 (aname a) (of_nat (length (aname a))) = Inr (buf_wrote b1 (aname a))"
      using buf_putbytes_eq [OF ok1] un fit by simp
    define b2 where "b2 = buf_wrote b1 (aname a)"
    have b2: "b2 = buf_wrote b (?c @ aname a)" unfolding b2_def b1_def
      using Cons.prems(1) room by (intro buf_wrote_wrote) auto
    have ok2: "buf_ok b2" unfolding b2 using Cons.prems(1) room by (intro buf_wrote_ok) auto
    have room2: "buf_room b2 = buf_room b - length (?c @ aname a)" unfolding b2
      using Cons.prems(1) room by (intro buf_room_wrote) auto
    have "put_algos ua True as b2 = Inr (buf_wrote b2 (put_text True ?ns))"
      using ok2 room2 room by (intro Cons.IH) auto
    moreover have "buf_wrote b2 (put_text True ?ns) = buf_wrote b ((?c @ aname a) @ put_text True ?ns)"
      unfolding b2 using Cons.prems(1) room by (intro buf_wrote_wrote) auto
    ultimately show ?thesis using True step1 step2 unfolding split by (simp add: b2_def)
  qed
qed

lemma put_text_False: "put_text False ns = join_names ns"
  by (simp add: put_text_def)

lemma blit_same_start:
  assumes "p + length xs + length zs \<le> length m" and "length ys = length xs"
  shows "blit (blit m p (xs @ zs)) p ys = blit m p (ys @ zs)"
  using assms by (simp add: blit_def min_absorb2)

lemma buf_rewrite_front:
  assumes "buf_ok b" and "length xs + length zs \<le> buf_room b" and "length ys = length xs"
    and "buf_setpos (buf_wrote b (xs @ zs)) (bpos b) = Inr b1"
  shows "buf_ok b1" and "buf_room b1 = buf_room b"
    and "buf_incrwritepos (buf_wrote b1 ys) (of_nat (length zs)) = Inr (buf_wrote b (ys @ zs))"
proof -
  note bn = buf_ok_nat [OF assms(1)]
  have fit: "length (xs @ zs) \<le> buf_room b" using assms(2) by simp
  note l = buf_wrote_len [OF assms(1) fit] and okw = buf_wrote_ok [OF assms(1) fit]
  have b1: "b1 = (buf_wrote b (xs @ zs))\<lparr>bpos := bpos b\<rparr>"
    using assms(4) by (auto simp: buf_setpos_def split: if_splits)
  show ok1: "buf_ok b1" using buf_ok_nat [OF okw] l unfolding b1 by (intro buf_okI) auto
  show room1: "buf_room b1 = buf_room b" by (simp add: b1 buf_room_def)
  have fit1: "length ys \<le> buf_room b1" using room1 assms(2,3) by simp
  define b2 where "b2 = buf_wrote b1 ys"
  have ok2: "buf_ok b2" unfolding b2_def using ok1 fit1 by (rule buf_wrote_ok)
  have room2: "buf_room b2 = buf_room b - length ys" unfolding b2_def
    using buf_room_wrote [OF ok1 fit1] room1 by simp
  have z: "length zs \<le> 1000000000" using assms(2) buf_room_le [OF assms(1)] by simp
  have uz: "unat (of_nat (length zs) :: u32) = length zs" using z by (intro unat_of_nat_u32) simp
  have cond: "\<not> (of_nat (length zs) > BUF_MAX_INCR \<or> bpos b2 + of_nat (length zs) > bsize b2)"
    using room_iff [OF ok2, of "of_nat (length zs)"] uz room2 assms(2,3) by simp
  have p2: "bpos b2 = bpos b + of_nat (length xs)" by (simp add: b2_def b1 buf_wrote_def assms(3))
  have e: "bpos b2 + of_nat (length zs) = bpos b + of_nat (length (ys @ zs))"
    using p2 assms(3) by (simp add: add.assoc)
  have ux: "unat (bpos b + of_nat (length xs)) = unat (bpos b) + length xs"
    using assms(2) buf_room_le [OF assms(1)] by (intro unat_pos_plus [OF assms(1)]) auto
  have ue: "unat (bpos b + of_nat (length xs + length zs)) = unat (bpos b) + (length xs + length zs)"
    using assms(2) buf_room_le [OF assms(1)] by (intro unat_pos_plus [OF assms(1)]) auto
  have len2: "blen b2 = max (blen b) (bpos b + of_nat (length xs + length zs))"
    unfolding b2_def b1 buf_wrote_def using ux ue assms(3)
    by (simp add: max_def word_le_nat_alt)
  have d2: "bdata b2 = blit (bdata b) (unat (bpos b)) (ys @ zs)"
    unfolding b2_def b1 using assms(2,3) bn
    by (simp add: buf_wrote_def blit_same_start buf_room_def)
  have s2: "bsize b2 = bsize b" by (simp add: b2_def b1)
  have "buf_incrwritepos b2 (of_nat (length zs)) = Inr (buf_wrote b (ys @ zs))"
  proof -
    have "(if bpos b2 + of_nat (length zs) > blen b2 then bpos b2 + of_nat (length zs) else blen b2) = blen b2"
      using e len2 assms(3) by (auto simp: max_def add.assoc)
    then have "buf_incrwritepos b2 (of_nat (length zs)) = Inr (b2\<lparr>bpos := bpos b2 + of_nat (length zs)\<rparr>)"
      using cond by (simp add: buf_incrwritepos_def Let_def)
    also have "b2\<lparr>bpos := bpos b2 + of_nat (length zs)\<rparr> = buf_wrote b (ys @ zs)"
      using e len2 d2 s2 assms(3) by (cases b2) (simp add: buf_wrote_def)
    finally show ?thesis .
  qed
  then show "buf_incrwritepos (buf_wrote b1 ys) (of_nat (length zs)) = Inr (buf_wrote b (ys @ zs))"
    by (simp add: b2_def)
qed

lemma buf_put_algolist_all_eq:
  assumes "buf_ok b" and "4 + length (join_names (usable_names ua as)) \<le> buf_room b"
  shows "buf_put_algolist_all b as ua = Inr (buf_wrote b (enc_string (join_names (usable_names ua as))))"
proof -
  let ?t = "join_names (usable_names ua as)"
  have fit0: "length (STORE32H 0) \<le> buf_room b" using assms(2) by simp
  define b0 where "b0 = buf_wrote b (STORE32H 0)"
  have ok0: "buf_ok b0" unfolding b0_def using assms(1) fit0 by (rule buf_wrote_ok)
  have room0: "buf_room b0 = buf_room b - 4" unfolding b0_def using buf_room_wrote [OF assms(1) fit0] by simp
  have put0: "buf_putint b 0 = Inr b0" using assms by (simp add: buf_putint_eq b0_def)
  define bw where "bw = buf_wrote b (STORE32H 0 @ ?t)"
  have loop: "put_algos ua False as b0 = Inr bw"
    using put_algos_eq [OF ok0, of False ua as] room0 assms
    by (simp add: put_text_False b0_def bw_def buf_wrote_wrote)
  have fitw: "length (STORE32H 0 @ ?t) \<le> buf_room b" using assms(2) by simp
  note pw = buf_wrote_pos [OF assms(1) fitw] and lw = buf_wrote_len [OF assms(1) fitw]
  have l: "bpos bw - bpos b - 4 = of_nat (length ?t)" by (simp add: bw_def buf_wrote_def)
  have sp: "buf_setpos bw (bpos b) = Inr (bw\<lparr>bpos := bpos b\<rparr>)"
    using lw by (simp add: buf_setpos_def bw_def word_less_nat_alt)
  note fr = buf_rewrite_front [OF assms(1), of "STORE32H 0" ?t "STORE32H (of_nat (length ?t))"]
  have "length (STORE32H 0) + length ?t \<le> buf_room b" using assms(2) by simp
  note fr = fr [OF this _ sp [unfolded bw_def]]
  have put: "buf_putint (bw\<lparr>bpos := bpos b\<rparr>) (of_nat (length ?t))
      = Inr (buf_wrote (bw\<lparr>bpos := bpos b\<rparr>) (STORE32H (of_nat (length ?t))))"
    using fr(1,2) assms(2) by (simp add: buf_putint_eq bw_def)
  show ?thesis using put0 loop l sp put fr(3)
    by (simp add: buf_put_algolist_all_def enc_string_def bw_def)
qed

lemma buf_put_algolist_eq:
  assumes "buf_ok b" and "4 + length (join_names (usable_names False as)) \<le> buf_room b"
  shows "buf_put_algolist b as = Inr (buf_wrote b (enc_string (join_names (usable_names False as))))"
  using buf_put_algolist_all_eq [OF assms] by (simp add: buf_put_algolist_def)

text \<open>A list of usable algorithms as a codec of the buffer layer.\<close>

definition algos_ok :: "('d, 'm) algo_type list \<Rightarrow> bool" where
  "algos_ok as \<longleftrightarrow> list_all name_ok (usable_names False as) \<and> usable_names False as \<noteq> []
     \<and> length as \<le> MAX_PROPOSED_ALGO \<and> length (join_names (usable_names False as)) \<le> unat MAX_STRING_LEN"

definition buf_get_algolist :: "buffer \<Rightarrow> (string list \<times> buffer) res" where
  "buf_get_algolist b = bindr (buf_getstring b) (\<lambda>(s, b).
     bindr (get_algolist s MAX_PROPOSED_ALGO) (\<lambda>ns. Inr (ns, b)))"

lemma algos_ok_get: "algos_ok as \<Longrightarrow>
    get_algolist (join_names (usable_names False as)) MAX_PROPOSED_ALGO = Inr (usable_names False as)"
  by (intro get_algolist_join) (auto simp: algos_ok_def intro: order_trans [OF length_filter_le])

interpretation algo_codec: buf_codec buf_put_algolist buf_get_algolist
  "\<lambda>as. enc_string (join_names (usable_names False as))" "usable_names False" algos_ok
proof
  fix b :: buffer and as :: "('d, 'm) algo_type list" and r
  assume "buf_ok b" "algos_ok as" "length (enc_string (join_names (usable_names False as))) \<le> buf_room b"
  then show "buf_put_algolist b as = Inr (buf_wrote b (enc_string (join_names (usable_names False as))))"
    by (intro buf_put_algolist_eq) auto
next
  fix b :: buffer and as :: "('d, 'm) algo_type list" and r
  assume a: "buf_ok b" "algos_ok as" "buf_rest b = enc_string (join_names (usable_names False as)) @ r"
  then have "buf_getstring b = Inr (join_names (usable_names False as),
      buf_skip b (length (enc_string (join_names (usable_names False as)))))"
    by (intro string_codec.get_enc [where r = r]) (auto simp: algos_ok_def string_ok_def)
  then show "buf_get_algolist b = Inr (usable_names False as,
      buf_skip b (length (enc_string (join_names (usable_names False as)))))"
    using algos_ok_get [OF a(2)] by (simp add: buf_get_algolist_def)
qed

section \<open>The first match\<close>

lemma match_inner_eq:
  "match_inner (Some n) srvs j =
     (if Some n \<in> set srvs then Some (j + length (takeWhile (\<lambda>x. x \<noteq> Some n) srvs)) else None)"
  by (induction srvs arbitrary: j) auto

lemma match_inner_Some:
  "match_inner (Some n) srvs j0 = Some j \<Longrightarrow>
     j0 \<le> j \<and> j - j0 < length srvs \<and> srvs ! (j - j0) = Some n \<and> (\<forall>k < j - j0. srvs ! k \<noteq> Some n)"
proof (induction srvs arbitrary: j0)
  case (Cons s srvs)
  show ?case
  proof (cases "s = Some n")
    case True
    then show ?thesis using Cons.prems by simp
  next
    case False
    then have "match_inner (Some n) srvs (Suc j0) = Some j" using Cons.prems by simp
    from Cons.IH [OF this] have "Suc j0 \<le> j" and ih: "j - Suc j0 < length srvs"
      "srvs ! (j - Suc j0) = Some n" "\<forall>k < j - Suc j0. srvs ! k \<noteq> Some n" by auto
    moreover from this(1) have "j - j0 = Suc (j - Suc j0)" by simp
    ultimately show ?thesis using False by (auto simp: nth_Cons' less_Suc_eq_0_disj)
  qed
qed simp

lemma match_outer_None: "match_outer (map Some rs) srvs i = None \<longleftrightarrow> (\<forall>n \<in> set rs. Some n \<notin> set srvs)"
  by (induction rs arbitrary: i) (auto simp: match_inner_eq split: option.splits)

lemma match_outer_Some:
  "match_outer (map Some rs) srvs i0 = Some (i, j) \<Longrightarrow>
     i0 \<le> i \<and> i - i0 < length rs \<and> (\<forall>k < i - i0. Some (rs ! k) \<notin> set srvs)
     \<and> j < length srvs \<and> srvs ! j = Some (rs ! (i - i0)) \<and> (\<forall>k < j. srvs ! k \<noteq> Some (rs ! (i - i0)))"
proof (induction rs arbitrary: i0)
  case (Cons r rs)
  show ?case
  proof (cases "match_inner (Some r) srvs 0")
    case None
    then have r: "Some r \<notin> set srvs" by (simp add: match_inner_eq split: if_splits)
    from None Cons.prems have "match_outer (map Some rs) srvs (Suc i0) = Some (i, j)" by simp
    from Cons.IH [OF this] have "Suc i0 \<le> i" and ih: "i - Suc i0 < length rs"
      "\<forall>k < i - Suc i0. Some (rs ! k) \<notin> set srvs" "j < length srvs"
      "srvs ! j = Some (rs ! (i - Suc i0))" "\<forall>k < j. srvs ! k \<noteq> Some (rs ! (i - Suc i0))" by auto
    moreover from this(1) have "i - i0 = Suc (i - Suc i0)" by simp
    ultimately show ?thesis using r by (auto simp: nth_Cons' less_Suc_eq_0_disj)
  next
    case (Some j')
    then show ?thesis using Cons.prems match_inner_Some [OF Some] by auto
  qed
qed simp

text \<open>
  The specification of negotiation on a server: the first name of the peer's list that a usable
  local algorithm has, and the local algorithm of that name.
\<close>

definition negotiated :: "('d, 'm) algo_type list \<Rightarrow> string list \<Rightarrow> ('d, 'm) algo_type option" where
  "negotiated as remote =
     (case find (\<lambda>n. n \<in> set (usable_names False as)) remote of
        None \<Rightarrow> None
      | Some n \<Rightarrow> find (\<lambda>a. ausable a \<and> aname a = n) as)"

abbreviation local_array :: "('d, 'm) algo_type list \<Rightarrow> string option list" where
  "local_array as \<equiv> map (\<lambda>a. if ausable a then Some (aname a) else None) as"

lemma local_array_mem: "Some n \<in> set (local_array as) \<longleftrightarrow> n \<in> set (usable_names False as)"
  by (auto simp: image_iff)

lemma nth_local_array:
  "j < length as \<Longrightarrow> local_array as ! j = Some n \<longleftrightarrow> ausable (as ! j) \<and> aname (as ! j) = n"
  by simp

lemma match_outer_negotiated:
  "case match_outer (map Some remote) (local_array as) 0 of
     None \<Rightarrow> negotiated as remote = None
   | Some (i, j) \<Rightarrow> negotiated as remote = Some (as ! j) \<and> i < length remote \<and> j < length as
       \<and> aname (as ! j) = remote ! i"
proof (cases "match_outer (map Some remote) (local_array as) 0")
  case None
  then have "\<forall>n \<in> set remote. n \<notin> set (usable_names False as)"
    unfolding match_outer_None local_array_mem .
  then have "find (\<lambda>n. n \<in> set (usable_names False as)) remote = None"
    by (simp only: find_None_iff) blast
  then show ?thesis using None by (simp add: negotiated_def)
next
  case (Some ij)
  obtain i j where ij: "ij = (i, j)" by fastforce
  from match_outer_Some [OF Some [unfolded ij]] have
    i: "i < length remote" "\<forall>k < i. Some (remote ! k) \<notin> set (local_array as)" and
    j: "j < length as" "local_array as ! j = Some (remote ! i)" "\<forall>k < j. local_array as ! k \<noteq> Some (remote ! i)"
    by auto
  have "remote ! i \<in> set (usable_names False as)"
    using j(1,2) nth_mem [of j "local_array as"] unfolding local_array_mem [symmetric] by simp
  with i have f1: "find (\<lambda>n. n \<in> set (usable_names False as)) remote = Some (remote ! i)"
    unfolding find_Some_iff local_array_mem by blast
  have "ausable (as ! j) \<and> aname (as ! j) = remote ! i" using j(1,2) by (simp split: if_splits)
  moreover have "\<not> (ausable (as ! k) \<and> aname (as ! k) = remote ! i)" if "k < j" for k
    using j(1,3) that nth_local_array [of k as "remote ! i"] by simp
  ultimately have f2: "find (\<lambda>a. ausable a \<and> aname a = remote ! i) as = Some (as ! j)"
    unfolding find_Some_iff using j(1) by blast
  show ?thesis using Some ij i(1) j(1) f1 f2 \<open>ausable (as ! j) \<and> aname (as ! j) = remote ! i\<close>
    by (simp add: negotiated_def)
qed

section \<open>Properties\<close>

text \<open>
  C33. Algorithm lists round trip: the list of usable algorithms that one side writes with
  \<open>buf_put_algolist\<close> is read by the other, through \<open>buf_getstring\<close> and \<open>get_algolist\<close>, as exactly
  those names in the same order.
\<close>

theorem algolist_roundtrip:
  assumes "at_end b" and "algos_ok as" and "4 + length (join_names (usable_names False as)) \<le> buf_room b"
  shows "\<exists>b1 b2. buf_put_algolist b as = Inr b1 \<and> buf_setpos b1 (bpos b) = Inr b2
    \<and> bindr (buf_getstring b2) (\<lambda>(s, b). bindr (get_algolist s MAX_PROPOSED_ALGO) (\<lambda>ns. Inr (ns, b)))
      = Inr (map aname (filter ausable as), b1)"
  using algo_codec.put_then_get [OF assms(1,2)] assms(3) by (simp add: buf_get_algolist_def)

theorem algolist_roundtrip_witness:
  "\<exists>b1 b2. buf_put_algolist \<lparr>bdata = replicate 32 (CHR 0x00), blen = 0, bpos = 0, bsize = 32\<rparr>
      [\<lparr>aname = ''none'', aval = 0, adata = None, ausable = True, amode = None\<rparr>,
       \<lparr>aname = ''zlib'', aval = 1, adata = Some (), ausable = False, amode = Some ()\<rparr>] = Inr b1
    \<and> buf_setpos b1 0 = Inr b2
    \<and> bindr (buf_getstring b2) (\<lambda>(s, b). bindr (get_algolist s MAX_PROPOSED_ALGO) (\<lambda>ns. Inr (ns, b)))
      = Inr ([''none''], b1)"
  using algolist_roundtrip [of "\<lparr>bdata = replicate 32 (CHR 0x00), blen = 0, bpos = 0, bsize = 32\<rparr>"
      "[\<lparr>aname = ''none'', aval = 0, adata = None, ausable = True, amode = None\<rparr>,
       \<lparr>aname = ''zlib'', aval = 1, adata = Some (), ausable = False, amode = Some ()\<rparr>]"]
  by (simp add: at_end_def buf_ok_def buf_consts algos_ok_def name_ok_def MAX_PROPOSED_ALGO_def buf_room_def)

lemma negotiation_good_guess:
  assumes "match_outer (map Some remote) (local_array as) 0 = Some (i, j)" and "remote \<noteq> []"
  shows "i = 0 \<longleftrightarrow> hd remote \<in> set (usable_names False as)"
    and "i = 0 \<and> j = 0 \<longleftrightarrow> ausable (hd as) \<and> aname (hd as) = hd remote"
proof -
  from match_outer_Some [OF assms(1)] have
    i: "\<forall>k < i. Some (remote ! k) \<notin> set (local_array as)" and j: "j < length as"
      "local_array as ! j = Some (remote ! i)" "\<forall>k < j. local_array as ! k \<noteq> Some (remote ! i)" by auto
  have hr: "hd remote = remote ! 0" using assms(2) by (simp add: hd_conv_nth)
  have ha: "hd as = as ! 0" using j(1) by (intro hd_conv_nth) auto
  have mem: "remote ! i \<in> set (usable_names False as)"
    using j(1,2) nth_mem [of j "local_array as"] unfolding local_array_mem [symmetric] by simp
  show i0: "i = 0 \<longleftrightarrow> hd remote \<in> set (usable_names False as)"
    using i mem unfolding hr local_array_mem by (metis gr0I)
  have l0: "local_array as ! 0 = Some n \<longleftrightarrow> ausable (as ! 0) \<and> aname (as ! 0) = n" for n
    using j(1) by (intro nth_local_array) (cases as; simp)
  show "i = 0 \<and> j = 0 \<longleftrightarrow> ausable (hd as) \<and> aname (hd as) = hd remote"
  proof
    assume "i = 0 \<and> j = 0"
    then show "ausable (hd as) \<and> aname (hd as) = hd remote"
      using j(2) unfolding hr ha l0 [symmetric] by simp
  next
    assume "ausable (hd as) \<and> aname (hd as) = hd remote"
    then have l: "local_array as ! 0 = Some (remote ! 0)" unfolding hr ha l0 .
    have "local_array as ! 0 \<in> set (local_array as)" using j(1) by (intro nth_mem) auto
    then have "i = 0" unfolding i0 hr l local_array_mem .
    moreover have "j = 0" using j(3) l \<open>i = 0\<close> by (cases j) auto
    ultimately show "i = 0 \<and> j = 0" by simp
  qed
qed

text \<open>
  C34. What the server negotiates: for a well-formed list from the client, \<open>buf_match_algo\<close>
  chooses the first name of the client's list that a usable local algorithm has (the client's
  preference wins, an unusable algorithm is never chosen), none when there is none, and reports
  a good guess exactly when the client's first choice is usable and, without kexguess2, is also
  the server's first.
\<close>

theorem negotiation_first_match:
  assumes "buf_getstring b = Inr (join_names remote, b')"
    and "list_all name_ok remote" and "remote \<noteq> []" and "length remote \<le> MAX_PROPOSED_ALGO"
    and "length as \<le> MAX_PROPOSED_ALGO"
  shows "buf_match_algo True b as kexguess2 = Inr (negotiated as remote,
    hd remote \<in> set (usable_names False as) \<and> (kexguess2 \<or> ausable (hd as) \<and> aname (hd as) = hd remote), b')"
proof -
  have g: "get_algolist (join_names remote) MAX_PROPOSED_ALGO = Inr remote"
    using assms(2-4) by (rule get_algolist_join)
  show ?thesis
  proof (cases "match_outer (map Some remote) (local_array as) 0")
    case None
    then have "hd remote \<notin> set (usable_names False as)"
      using assms(3) unfolding match_outer_None local_array_mem by simp
    then show ?thesis using match_outer_negotiated [of as remote] None assms g
      by (simp add: buf_match_algo_def local_names_def)
  next
    case (Some ij)
    obtain i j where ij: "ij = (i, j)" by fastforce
    note m = Some [unfolded ij]
    show ?thesis using match_outer_negotiated [of as remote] m assms(1,5) g negotiation_good_guess [OF m assms(3)]
      by (auto simp: buf_match_algo_def local_names_def Let_def)
  qed
qed

theorem negotiation_first_match_witness:
  "\<exists>b b'. buf_match_algo True b
      [\<lparr>aname = ''a'', aval = 0, adata = Some (), ausable = True, amode = Some ()\<rparr>,
       \<lparr>aname = ''b'', aval = 1, adata = None, ausable = True, amode = None\<rparr>] False
    = Inr (Some \<lparr>aname = ''b'', aval = 1, adata = None, ausable = True, amode = None\<rparr>, False, b')"
proof -
  let ?b = "\<lparr>bdata = STORE32H 3 @ ''c,b'', blen = 7, bpos = 0, bsize = 7\<rparr>"
  let ?as = "[\<lparr>aname = ''a'', aval = 0, adata = Some (), ausable = True, amode = Some ()\<rparr>,
       \<lparr>aname = ''b'', aval = 1, adata = None, ausable = True, amode = None\<rparr>]"
  have "buf_rest ?b = enc_string ''c,b'' @ []" by (simp add: buf_rest_def enc_string_def)
  then have "buf_getstring ?b = Inr (join_names [''c'', ''b''], buf_skip ?b 7)"
    using string_codec.get_enc [of ?b "''c,b''" "[]"]
    by (simp add: buf_ok_def buf_consts string_ok_def)
  from negotiation_first_match [OF this, of ?as False] show ?thesis
    by (auto simp: name_ok_def MAX_PROPOSED_ALGO_def negotiated_def)
qed

lemma algolist_loop_bound:
  "algolist_loop m names cur cs = Inr ns \<Longrightarrow> length names < m \<Longrightarrow> length ns \<le> m"
  by (induction m names cur cs rule: algolist_loop.induct) (auto split: if_splits)

lemma algolist_loop_safe: "mem_safe (algolist_loop m names cur cs)"
  by (induction m names cur cs rule: algolist_loop.induct) (auto split: if_splits)

text \<open>
  Memory safety of negotiation: whatever bytes the peer sends, \<open>get_algolist\<close> never fills more
  than the \<open>max_count\<close> entries of its array, and \<open>buf_match_algo\<close> reads and writes inside its
  buffers for every table of at most MAX_PROPOSED_ALGO algorithms.
\<close>

theorem negotiation_memory_safe:
  assumes "buf_ok b" and "length as \<le> MAX_PROPOSED_ALGO"
  shows "mem_safe (buf_match_algo isserver b as kexguess2)
    \<and> (\<forall>algolist max_count ns. get_algolist algolist max_count = Inr ns \<longrightarrow> length ns \<le> max_count)"
proof
  have get: "mem_safe (get_algolist l m)" for l m
    by (simp add: get_algolist_def algolist_loop_safe)
  have "good (bindr (buf_getstring b) (\<lambda>(_, b). Inr b))" using assms(1) by (rule good_getstring)
  then have "mem_safe (buf_getstring b)"
    by (cases "buf_getstring b") (auto simp: good_def)
  then show "mem_safe (buf_match_algo isserver b as kexguess2)"
    unfolding buf_match_algo_def using assms(2) get
    by (auto intro!: mem_safe_bindr simp: local_names_def Let_def split: prod.splits option.splits)
  show "\<forall>algolist max_count ns. get_algolist algolist max_count = Inr ns \<longrightarrow> length ns \<le> max_count"
    using algolist_loop_bound [of _ "[]" "[]"] by (auto simp: get_algolist_def split: if_splits)
qed

theorem negotiation_memory_safe_witness:
  "mem_safe (buf_match_algo True \<lparr>bdata = ''abcd'', blen = 4, bpos = 0, bsize = 4\<rparr>
     [\<lparr>aname = ''a'', aval = 0, adata = Some (), ausable = True, amode = Some ()\<rparr>] False)"
  using negotiation_memory_safe [of "\<lparr>bdata = ''abcd'', blen = 4, bpos = 0, bsize = 4\<rparr>"
      "[\<lparr>aname = ''a'', aval = 0, adata = Some (), ausable = True, amode = Some ()\<rparr>]" True False]
  by (simp add: buf_ok_def buf_consts MAX_PROPOSED_ALGO_def)

text \<open>
  The length limit of \<open>get_algolist\<close> has no effect: a name list longer than
  \<open>MAX_PROPOSED_ALGO * (MAX_NAME_LEN + 1)\<close> bytes, for which the code sets the count to zero, is
  parsed and returned all the same.
\<close>

theorem algolist_limit_ineffective:
  "length (replicate 4000 (CHR ''a'')) > MAX_PROPOSED_ALGO * (MAX_NAME_LEN + 1)
   \<and> get_algolist (replicate 4000 (CHR ''a'')) MAX_PROPOSED_ALGO = Inr [replicate 4000 (CHR ''a'')]"
proof -
  have "list_all name_ok [replicate 4000 (CHR ''a'')]" by (simp add: name_ok_def)
  from get_algolist_join [OF this] show ?thesis by (simp add: MAX_PROPOSED_ALGO_def MAX_NAME_LEN_def)
qed

end
