(* ===== verification/Session.thy ===== *)
theory Session
  imports Buffer Circbuffer Algo
begin

text \<open>
  The state of a server session: \<open>struct sshsession\<close> of \<open>dropbear/src/session.h\<close> with the structures
  it contains (keys, key exchange state, authentication state, channels), the options the code
  reads, and the world outside the process (clock, random bytes, results of system calls).

  Function pointers in structures are functions in records. The cipher, MAC and compression
  code is reached only through such pointers and a few library calls: it is a parameter of the
  model, held in the fields \<open>libtom\<close> and \<open>libz\<close> of the session and in the cipher modes.
\<close>

section \<open>Ciphers, MACs, compression\<close>

text \<open>
  The cipher state is whatever the cipher keeps between calls. A cipher function gives the output
  bytes and the new state, \<open>None\<close> when it does not return \<open>CRYPT_OK\<close>.
\<close>

type_synonym cipher_state = "byte list"

record dropbear_hash =
  hash_desc :: "string option"
  hkeysize :: nat
  hashsize :: nat

record dropbear_cipher =
  cipherdesc :: "string option option"
  keysize :: nat
  blocksize :: nat

text \<open>
  \<open>aead_crypt\<close> is NULL for the modes without authentication; otherwise it takes the sequence
  number, the input, the length, the length of the tag, the state, and whether it encrypts.
\<close>

record dropbear_cipher_mode =
  cm_start :: "int \<Rightarrow> byte list \<Rightarrow> byte list \<Rightarrow> nat \<Rightarrow> cipher_state option"
  cm_encrypt :: "byte list \<Rightarrow> cipher_state \<Rightarrow> (byte list \<times> cipher_state) option"
  cm_decrypt :: "byte list \<Rightarrow> cipher_state \<Rightarrow> (byte list \<times> cipher_state) option"
  aead_crypt :: "(u32 \<Rightarrow> byte list \<Rightarrow> nat \<Rightarrow> nat \<Rightarrow> cipher_state \<Rightarrow> bool \<Rightarrow> (byte list \<times> cipher_state) option) option"
  aead_getlength :: "u32 \<Rightarrow> byte list \<Rightarrow> nat \<Rightarrow> cipher_state \<Rightarrow> u32 option"
  aead_mac :: "dropbear_hash option"

definition void_cipher :: "byte list \<Rightarrow> cipher_state \<Rightarrow> (byte list \<times> cipher_state) option" where
  "void_cipher inp st = Some (inp, st)"

text \<open>\<open>void_start\<close> leaves the state of the structure as it is, all zero.\<close>

definition void_start :: "int \<Rightarrow> byte list \<Rightarrow> byte list \<Rightarrow> nat \<Rightarrow> cipher_state option" where
  "void_start cipher IV key keylen = Some []"

definition dropbear_nocipher :: dropbear_cipher where
  "dropbear_nocipher = \<lparr>cipherdesc = None, keysize = 16, blocksize = 8\<rparr>"

definition dropbear_mode_none :: dropbear_cipher_mode where
  "dropbear_mode_none = \<lparr>cm_start = void_start, cm_encrypt = void_cipher, cm_decrypt = void_cipher,
     aead_crypt = None, aead_getlength = (\<lambda>seq inp len st. None), aead_mac = None\<rparr>"

definition dropbear_nohash :: dropbear_hash where
  "dropbear_nohash = \<lparr>hash_desc = None, hkeysize = 16, hashsize = 0\<rparr>"

text \<open>
  The key exchange method: its mode, its hash as a function from the bytes processed to the digest,
  the prime of a Diffie-Hellman group, and the key encapsulation a hybrid method points to. The
  functions of the latter are the post-quantum code; the ones that need random bytes take the stream
  of them and give what is left.
\<close>

datatype dropbear_kex_mode =
  DROPBEAR_KEX_NORMAL_DH | DROPBEAR_KEX_ECDH | DROPBEAR_KEX_CURVE25519 | DROPBEAR_KEX_PQHYBRID

record dropbear_kem_desc =
  public_len :: nat
  secret_len :: nat
  ciphertext_len :: nat
  output_len :: nat
  kem_gen :: "(nat \<Rightarrow> byte) \<Rightarrow> byte list \<times> byte list \<times> (nat \<Rightarrow> byte)"
  kem_enc :: "byte list \<Rightarrow> (nat \<Rightarrow> byte) \<Rightarrow> byte list \<times> byte list \<times> (nat \<Rightarrow> byte)"
  kem_dec :: "byte list \<Rightarrow> byte list \<Rightarrow> byte list"

record dropbear_kex =
  kex_mode :: dropbear_kex_mode
  kex_hash :: "byte list \<Rightarrow> byte list"
  kex_hashsize :: nat
  dh_p_bytes :: "byte list"
  kem_details :: "dropbear_kem_desc option"

text \<open>
  The calls into the libraries: HMAC over a registered hash, the registries, SHA-512, base64, \<open>deflate\<close> and
  \<open>inflate\<close> with \<open>Z_SYNC_FLUSH\<close> (state, input, room; whether \<open>Z_OK\<close>, new state, output, input left).
\<close>

record libtomcrypt =
  hmac :: "int \<Rightarrow> byte list \<Rightarrow> byte list \<Rightarrow> byte list option"
  find_cipher :: "string \<Rightarrow> int"
  find_hash :: "string \<Rightarrow> int"
  sha512 :: "byte list \<Rightarrow> byte list"
  base64_encode :: "byte list \<Rightarrow> byte list"
  base64_decode :: "byte list \<Rightarrow> byte list option"

record zlib =
  deflate :: "byte list \<Rightarrow> byte list \<Rightarrow> nat \<Rightarrow> bool \<times> byte list \<times> byte list \<times> nat"
  inflate :: "byte list \<Rightarrow> byte list \<Rightarrow> nat \<Rightarrow> bool \<times> byte list \<times> byte list \<times> nat"
  deflateInit2 :: "byte list option"
  inflateInit :: "byte list option"
  zEnd_ok :: "byte list \<Rightarrow> bool"

datatype comp = DROPBEAR_COMP_NONE | DROPBEAR_COMP_ZLIB | DROPBEAR_COMP_ZLIB_DELAY

section \<open>Keys and key exchange\<close>

record key_context_directional =
  algo_crypt :: dropbear_cipher
  crypt_mode :: dropbear_cipher_mode
  algo_mac :: dropbear_hash
  hash_index :: int
  algo_comp :: comp
  zstream :: "byte list option"
  cipher_state :: cipher_state
  mackey :: "byte list"
  valid :: bool

record key_context =
  recv :: key_context_directional
  trans :: key_context_directional
  algo_kex :: "dropbear_kex option"
  algo_hostkey :: int
  algo_signature :: int

record KEXState =
  sentkexinit :: bool
  recvkexinit :: bool
  them_firstfollows :: bool
  sentnewkeys :: bool
  recvnewkeys :: bool
  donefirstkex :: bool
  donesecondkex :: bool
  recvfirstnewkeys :: bool
  our_first_follows_matches :: bool
  strict_kex :: bool
  lastkextime :: int
  needrekey :: bool
  datatrans :: u32
  datarecv :: u32

section \<open>Authentication\<close>

text \<open>A list pointer that is NULL is \<open>None\<close>; the elements of the list are in order.\<close>

record PermitTCPFwdEntry =
  host :: "string option"
  port :: u32

record PubKeyOptions =
  no_port_forwarding_flag :: bool
  no_agent_forwarding_flag :: bool
  no_x11_forwarding_flag :: bool
  no_pty_flag :: bool
  forced_command :: "string option"
  permit_open_destinations :: "PermitTCPFwdEntry list option"
  permit_listens :: "PermitTCPFwdEntry list option"
  no_touch_required_flag :: bool
  verify_required_flag :: bool
  info_env :: "string option"

record AuthState =
  username :: "string option"
  authtypes :: "8 word"
  failcount :: u32
  authdone :: bool
  perm_warn :: bool
  checkusername_failed :: bool
  auth_starttime :: "int \<times> int"
  serv_pubkey_query_count :: u32
  pw_uid :: nat
  pw_gid :: nat
  pw_dir :: "string option"
  pw_shell :: "string option"
  pw_name :: "string option"
  pw_passwd :: "string option"
  pubkey_options :: "PubKeyOptions option"

definition AUTH_TYPE_PUBKEY :: "8 word" where
  "AUTH_TYPE_PUBKEY = 2"

definition AUTH_TYPE_PASSWORD :: "8 word" where
  "AUTH_TYPE_PASSWORD = 4"

section \<open>Channels\<close>

datatype dropbear_prio = DROPBEAR_PRIO_NORMAL | DROPBEAR_PRIO_LOWDELAY

text \<open>
  A channel type is known by its name; which of its function pointers are set are flags, and
  the functions themselves are an argument of the channel code that calls them.
\<close>

record ChanType =
  ct_name :: string
  has_inithandler :: bool
  has_check_close :: bool
  has_reqhandler :: bool
  has_closehandler :: bool
  has_cleanup :: bool

record Channel =
  index :: u32
  remotechan :: u32
  recvwindow :: u32
  transwindow :: u32
  recvdonelen :: u32
  recvmaxpacket :: u32
  transmaxpacket :: u32
  writefd :: int
  readfd :: int
  errfd :: int
  bidir_fd :: bool
  writebuf :: "circbuffer option"
  extrabuf :: "circbuffer option"
  sent_close :: bool
  recv_close :: bool
  recv_eof :: bool
  sent_eof :: bool
  flushing :: bool
  conn_pending :: bool
  initconn :: bool
  await_open :: bool
  chan_type :: ChanType
  prio :: dropbear_prio

text \<open>
  A listener has sockets and functions that are called when a connection comes in and when it is
  removed, which are an argument of the code that calls them.
\<close>

datatype ListenerType = LISTENER_TYPE_DEFAULT | LISTENER_TYPE_TCPFORWARDED | LISTENER_TYPE_STREAMFORWARDED

record Listener =
  l_socks :: "int list"
  l_index :: int
  l_has_cleanup :: bool
  l_type :: ListenerType
  l_typedata :: nat

section \<open>Options and the world\<close>

record svr_runopts =
  noauthpass :: bool
  norootpass :: bool
  allowblankpass :: bool
  multiauthmethod :: bool
  maxauthtries :: u32
  banner :: "buffer option"

record runopts =
  recv_window :: u32
  keepalive_secs :: int
  idle_timeout_secs :: int
  max_duration_secs :: int
  compression :: bool

text \<open>
  What the process sees of the outside: the clock, the random bytes to come, the answers of
  \<open>writev\<close> and \<open>read\<close> to come, the configuration files, the bytes of freshly reallocated memory,
  the descriptors that were closed, last first, the answers of \<open>clock_gettime\<close> to come (seconds and
  nanoseconds) and the delays given to \<open>nanosleep\<close>, the calls of \<open>shutdown\<close>, last first, the answers of
  \<open>select\<close> to a question about one descriptor, and the bytes written to each local descriptor. A call never writes more than it was given
  nor reads more than it was asked for, which \<open>sys_writev\<close> and \<open>sys_read\<close> make explicit. Reading
  no bytes is the end of the file.
\<close>

datatype write_answer = Wrote nat | Write_again | Write_error

datatype read_answer = Got "byte list" | Read_again | Read_error

record world =
  monotonic_now :: int
  entropy :: "nat \<Rightarrow> byte"
  write_answers :: "write_answer list"
  read_answers :: "read_answer list"
  realloc_junk :: "nat \<Rightarrow> byte"
  conf_files :: "string \<Rightarrow> byte list option"
  closed_fds :: "int list"
  gettimes :: "nat \<Rightarrow> int \<times> int"
  slept :: "(int \<times> int) list"
  shutdowns :: "(int \<times> int) list"
  select_answers :: "bool list"
  fd_out :: "int \<Rightarrow> byte list"

definition genrandom :: "nat \<Rightarrow> world \<Rightarrow> byte list \<times> world" where
  "genrandom n w = (map (entropy w) [0..<n], w\<lparr>entropy := (\<lambda>i. entropy w (i + n))\<rparr>)"

definition gettime_wrapper :: "world \<Rightarrow> (int \<times> int) \<times> world" where
  "gettime_wrapper w = (gettimes w 0, w\<lparr>gettimes := (\<lambda>i. gettimes w (i + 1))\<rparr>)"

definition sys_writev :: "byte list \<Rightarrow> world \<Rightarrow> write_answer \<times> world" where
  "sys_writev bytes w =
     (case write_answers w of
        [] \<Rightarrow> (Write_again, w)
      | Wrote n # rest \<Rightarrow> (Wrote (min n (length bytes)), w\<lparr>write_answers := rest\<rparr>)
      | a # rest \<Rightarrow> (a, w\<lparr>write_answers := rest\<rparr>))"

definition sys_read :: "nat \<Rightarrow> world \<Rightarrow> read_answer \<times> world" where
  "sys_read n w =
     (case read_answers w of
        [] \<Rightarrow> (Read_again, w)
      | Got bytes # rest \<Rightarrow> (Got (take n bytes), w\<lparr>read_answers := rest\<rparr>)
      | a # rest \<Rightarrow> (a, w\<lparr>read_answers := rest\<rparr>))"

text \<open>\<open>m_close\<close> ignores a negative descriptor.\<close>

definition m_close :: "int \<Rightarrow> world \<Rightarrow> world" where
  "m_close fd w = (if fd < 0 then w else w\<lparr>closed_fds := fd # closed_fds w\<rparr>)"

section \<open>The session\<close>

type_synonym comp_algo = "(unit, unit) algo_type"

record sshsession =
  isserver :: bool
  connect_time :: int
  sock_in :: int
  sock_out :: int
  maxfd :: int
  remoteident :: "string option"
  writepayload :: buffer
  writequeue :: "buffer list"
  writequeue_len :: u32
  readbuf :: "buffer option"
  payload :: "buffer option"
  payload_beginning :: u32
  transseq :: u32
  recvseq :: u32
  dataallowed :: bool
  requirenext :: nat
  ignorenext :: bool
  lastpacket :: nat
  channel_signal_pending :: bool
  last_packet_time_keepalive_sent :: int
  last_packet_time_keepalive_recv :: int
  last_packet_time_any_sent :: int
  last_packet_time_idle :: int
  kexstate :: KEXState
  keys :: key_context
  newkeys :: "key_context option"
  session_id :: "buffer option"
  dh_K :: "int option"
  dh_K_bytes :: "buffer option"
  ses_hash :: "buffer option"
  kexhashbuf :: "buffer option"
  transkexinit :: "buffer option"
  compress_algos_c2s :: "comp_algo list"
  compress_algos_s2c :: "comp_algo list"
  allow_ext_info :: bool
  reply_queue :: "buffer list"
  reply_queue_len :: nat
  authstate :: AuthState
  channels :: "Channel option list"
  chancount :: u32
  chantypes :: "ChanType list"
  listeners :: "Listener option list"
  socket_prio :: dropbear_prio
  allowprivport :: bool
  childpipe :: int
  sshkex :: "(dropbear_kex, unit) algo_type list"
  sigalgs :: "(unit, unit) algo_type list"
  sshciphers :: "(dropbear_cipher, dropbear_cipher_mode) algo_type list"
  sshhashes :: "(dropbear_hash, unit) algo_type list"
  svr_opts :: svr_runopts
  opts :: runopts
  libtom :: libtomcrypt
  libz :: zlib
  world :: world

section \<open>Shared pieces of the session code\<close>

text \<open>The functions that update one part of the session, and how they commute with the others.\<close>

definition upd_kex :: "(KEXState \<Rightarrow> KEXState) \<Rightarrow> sshsession \<Rightarrow> sshsession" where
  "upd_kex f s = s\<lparr>kexstate := f (kexstate s)\<rparr>"

definition upd_auth :: "(AuthState \<Rightarrow> AuthState) \<Rightarrow> sshsession \<Rightarrow> sshsession" where
  "upd_auth f s = s\<lparr>authstate := f (authstate s)\<rparr>"

definition upd_recv :: "(key_context_directional \<Rightarrow> key_context_directional) \<Rightarrow> sshsession \<Rightarrow> sshsession" where
  "upd_recv f s = s\<lparr>keys := (keys s)\<lparr>recv := f (recv (keys s))\<rparr>\<rparr>"

definition upd_trans :: "(key_context_directional \<Rightarrow> key_context_directional) \<Rightarrow> sshsession \<Rightarrow> sshsession" where
  "upd_trans f s = s\<lparr>keys := (keys s)\<lparr>trans := f (trans (keys s))\<rparr>\<rparr>"

definition upd_world :: "(world \<Rightarrow> world) \<Rightarrow> sshsession \<Rightarrow> sshsession" where
  "upd_world f s = s\<lparr>world := f (world s)\<rparr>"

lemmas upd_defs = upd_kex_def upd_auth_def upd_recv_def upd_trans_def upd_world_def

text \<open>
  A handler fills \<open>ses.writepayload\<close>; \<open>on_write\<close> applies a buffer operation to it, \<open>on_read\<close> one that
  reads from \<open>ses.payload\<close>, which is a NULL pointer when no packet is being handled.
\<close>

definition on_write :: "(buffer \<Rightarrow> buffer res) \<Rightarrow> sshsession \<Rightarrow> sshsession res" where
  "on_write f s = bindr (f (writepayload s)) (\<lambda>b. Inr (s\<lparr>writepayload := b\<rparr>))"

definition put_byte :: "nat \<Rightarrow> sshsession \<Rightarrow> sshsession res" where
  "put_byte n = on_write (\<lambda>b. buf_putbyte b (byte_of n))"

definition put_int :: "u32 \<Rightarrow> sshsession \<Rightarrow> sshsession res" where
  "put_int v = on_write (\<lambda>b. buf_putint b v)"

definition put_string :: "byte list \<Rightarrow> sshsession \<Rightarrow> sshsession res" where
  "put_string str = on_write (\<lambda>b. buf_putstring b str (of_nat (length str)))"

definition on_read :: "(buffer \<Rightarrow> ('a \<times> buffer) res) \<Rightarrow> sshsession \<Rightarrow> ('a \<times> sshsession) res" where
  "on_read f s =
     (case payload s of
        None \<Rightarrow> Inl Mem_fault
      | Some b \<Rightarrow> bindr (f b) (\<lambda>(x, b). Inr (x, s\<lparr>payload := Some b\<rparr>)))"

section \<open>The session before anything happened\<close>

text \<open>
  \<open>struct sshsession ses\<close> is a global, so all its bytes are zero before \<open>common_session_init\<close>. The
  keys that function installs first are the ones without any algorithm. The arguments are what
  the process starts with: world, libraries, options.
\<close>

definition no_algos :: key_context_directional where
  "no_algos = \<lparr>algo_crypt = dropbear_nocipher, crypt_mode = dropbear_mode_none, algo_mac = dropbear_nohash,
     hash_index = 0, algo_comp = DROPBEAR_COMP_NONE, zstream = None, cipher_state = [],
     mackey = replicate 64 (CHR 0x00), valid = False\<rparr>"

definition no_keys :: key_context where
  "no_keys = \<lparr>recv = no_algos, trans = no_algos, algo_kex = None, algo_hostkey = -1, algo_signature = 0\<rparr>"

definition zero_kexstate :: KEXState where
  "zero_kexstate = \<lparr>sentkexinit = False, recvkexinit = False, them_firstfollows = False, sentnewkeys = False,
     recvnewkeys = False, donefirstkex = False, donesecondkex = False, recvfirstnewkeys = False,
     our_first_follows_matches = False, strict_kex = False, lastkextime = 0, needrekey = False,
     datatrans = 0, datarecv = 0\<rparr>"

definition zero_authstate :: AuthState where
  "zero_authstate = \<lparr>username = None, authtypes = 0, failcount = 0, authdone = False, perm_warn = False,
     checkusername_failed = False, auth_starttime = (0, 0), serv_pubkey_query_count = 0, pw_uid = 0, pw_gid = 0,
     pw_dir = None, pw_shell = None, pw_name = None, pw_passwd = None, pubkey_options = None\<rparr>"

definition zero_session :: "world \<Rightarrow> libtomcrypt \<Rightarrow> zlib \<Rightarrow> svr_runopts \<Rightarrow> runopts \<Rightarrow> sshsession" where
  "zero_session w lt lz so ro = \<lparr>isserver = False, connect_time = 0, sock_in = 0, sock_out = 0, maxfd = 0, remoteident = None,
     writepayload = \<lparr>bdata = [], blen = 0, bpos = 0, bsize = 0\<rparr>, writequeue = [], writequeue_len = 0,
     readbuf = None, payload = None, payload_beginning = 0, transseq = 0, recvseq = 0, dataallowed = False,
     requirenext = 0, ignorenext = False, lastpacket = 0, channel_signal_pending = False,
     last_packet_time_keepalive_sent = 0, last_packet_time_keepalive_recv = 0, last_packet_time_any_sent = 0,
     last_packet_time_idle = 0, kexstate = zero_kexstate, keys = no_keys, newkeys = None, session_id = None,
     dh_K = None, dh_K_bytes = None, ses_hash = None, kexhashbuf = None, transkexinit = None,
     compress_algos_c2s = [], compress_algos_s2c = [], allow_ext_info = False, reply_queue = [],
     reply_queue_len = 0, authstate = zero_authstate, channels = [], chancount = 0, chantypes = [], listeners = [],
     socket_prio = DROPBEAR_PRIO_NORMAL, allowprivport = False, childpipe = 0, sshkex = [], sigalgs = [],
     sshciphers = [], sshhashes = [], svr_opts = so, opts = ro, libtom = lt, libz = lz, world = w\<rparr>"

text \<open>
  Values for evaluations: a world with nothing in it, libraries that refuse, the default options,
  and a session with a payload buffer, all of them plain data.
\<close>

definition still_world :: world where
  "still_world = \<lparr>monotonic_now = 100, entropy = (\<lambda>_. CHR 0x00), write_answers = [], read_answers = [],
     realloc_junk = (\<lambda>_. CHR 0x00), conf_files = (\<lambda>_. None), closed_fds = [],
     gettimes = (\<lambda>_. (100, 0)), slept = [], shutdowns = [], select_answers = [], fd_out = (\<lambda>_. [])\<rparr>"

definition bare_libtom :: libtomcrypt where
  "bare_libtom = \<lparr>hmac = (\<lambda>_ _ _. None), find_cipher = (\<lambda>_. -1), find_hash = (\<lambda>_. -1),
     sha512 = (\<lambda>_. replicate 64 (CHR 0x00)), base64_encode = (\<lambda>bs. bs), base64_decode = Some\<rparr>"

definition bare_libz :: zlib where
  "bare_libz = \<lparr>deflate = (\<lambda>z _ _. (False, z, [], 0)), inflate = (\<lambda>z _ _. (False, z, [], 0)),
     deflateInit2 = None, inflateInit = None, zEnd_ok = (\<lambda>_. True)\<rparr>"

definition plain_svr_opts :: svr_runopts where
  "plain_svr_opts = \<lparr>noauthpass = False, norootpass = False, allowblankpass = False, multiauthmethod = False,
     maxauthtries = 10, banner = None\<rparr>"

definition plain_opts :: runopts where
  "plain_opts = \<lparr>recv_window = 524288, keepalive_secs = 0, idle_timeout_secs = 0, max_duration_secs = 0,
     compression = True\<rparr>"

definition plain_session :: sshsession where
  "plain_session = (zero_session still_world bare_libtom bare_libz plain_svr_opts plain_opts)
     \<lparr>isserver := True, dataallowed := True,
      writepayload := \<lparr>bdata = replicate 16384 (CHR 0x00), blen = 0, bpos = 0, bsize = 16384\<rparr>\<rparr>"

end
