(* ===== verification/Packet.thy ===== *)
theory Packet
  imports Session
begin

text \<open>
  The packet layer, \<open>dropbear/src/packet.c\<close> and the write queue part of \<open>netio.c\<close>: building, padding,
  authenticating and encrypting outgoing packets, reading and decrypting incoming ones, and the
  queue of replies held back during a key exchange.
\<close>

section \<open>Constants\<close>

abbreviation (input) "SSH_MSG_DISCONNECT \<equiv> 1 :: nat"
abbreviation (input) "SSH_MSG_IGNORE \<equiv> 2 :: nat"
abbreviation (input) "SSH_MSG_UNIMPLEMENTED \<equiv> 3 :: nat"
abbreviation (input) "SSH_MSG_DEBUG \<equiv> 4 :: nat"
abbreviation (input) "SSH_MSG_SERVICE_REQUEST \<equiv> 5 :: nat"
abbreviation (input) "SSH_MSG_SERVICE_ACCEPT \<equiv> 6 :: nat"
abbreviation (input) "SSH_MSG_EXT_INFO \<equiv> 7 :: nat"
abbreviation (input) "SSH_MSG_KEXINIT \<equiv> 20 :: nat"
abbreviation (input) "SSH_MSG_NEWKEYS \<equiv> 21 :: nat"
abbreviation (input) "SSH_MSG_KEXDH_INIT \<equiv> 30 :: nat"
abbreviation (input) "SSH_MSG_KEXDH_REPLY \<equiv> 31 :: nat"
abbreviation (input) "SSH_MSG_USERAUTH_REQUEST \<equiv> 50 :: nat"
abbreviation (input) "SSH_MSG_USERAUTH_FAILURE \<equiv> 51 :: nat"
abbreviation (input) "SSH_MSG_USERAUTH_SUCCESS \<equiv> 52 :: nat"
abbreviation (input) "SSH_MSG_USERAUTH_BANNER \<equiv> 53 :: nat"
abbreviation (input) "SSH_MSG_USERAUTH_PK_OK \<equiv> 60 :: nat"
abbreviation (input) "SSH_MSG_GLOBAL_REQUEST \<equiv> 80 :: nat"
abbreviation (input) "SSH_MSG_REQUEST_SUCCESS \<equiv> 81 :: nat"
abbreviation (input) "SSH_MSG_REQUEST_FAILURE \<equiv> 82 :: nat"
abbreviation (input) "SSH_MSG_CHANNEL_OPEN \<equiv> 90 :: nat"
abbreviation (input) "SSH_MSG_CHANNEL_OPEN_CONFIRMATION \<equiv> 91 :: nat"
abbreviation (input) "SSH_MSG_CHANNEL_OPEN_FAILURE \<equiv> 92 :: nat"
abbreviation (input) "SSH_MSG_CHANNEL_WINDOW_ADJUST \<equiv> 93 :: nat"
abbreviation (input) "SSH_MSG_CHANNEL_DATA \<equiv> 94 :: nat"
abbreviation (input) "SSH_MSG_CHANNEL_EXTENDED_DATA \<equiv> 95 :: nat"
abbreviation (input) "SSH_MSG_CHANNEL_EOF \<equiv> 96 :: nat"
abbreviation (input) "SSH_MSG_CHANNEL_CLOSE \<equiv> 97 :: nat"
abbreviation (input) "SSH_MSG_CHANNEL_REQUEST \<equiv> 98 :: nat"
abbreviation (input) "SSH_MSG_CHANNEL_SUCCESS \<equiv> 99 :: nat"
abbreviation (input) "SSH_MSG_CHANNEL_FAILURE \<equiv> 100 :: nat"

definition RECV_MAX_PAYLOAD_LEN :: u32 where
  "RECV_MAX_PAYLOAD_LEN = 131072"

definition TRANS_MAX_PAYLOAD_LEN :: u32 where
  "TRANS_MAX_PAYLOAD_LEN = 16384"

definition RECV_MAX_PACKET_LEN :: u32 where
  "RECV_MAX_PACKET_LEN = max 35000 (RECV_MAX_PAYLOAD_LEN + 100)"

definition ZLIB_COMPRESS_EXPANSION :: u32 where
  "ZLIB_COMPRESS_EXPANSION = (RECV_MAX_PAYLOAD_LEN div 16384 + 1) * 5 + 6"

definition MIN_PACKET_LEN :: nat where
  "MIN_PACKET_LEN = 16"

definition MAX_MAC_LEN :: nat where
  "MAX_MAC_LEN = 64"

definition MAX_DEFER_REPLY_QUEUE :: nat where
  "MAX_DEFER_REPLY_QUEUE = 1000"

definition INIT_READBUF :: u32 where
  "INIT_READBUF = 128"

lemmas packet_consts = RECV_MAX_PAYLOAD_LEN_def TRANS_MAX_PAYLOAD_LEN_def RECV_MAX_PACKET_LEN_def
  ZLIB_COMPRESS_EXPANSION_def MIN_PACKET_LEN_def MAX_MAC_LEN_def MAX_DEFER_REPLY_QUEUE_def INIT_READBUF_def

section \<open>Compression\<close>

definition is_compress_trans :: "sshsession \<Rightarrow> bool" where
  "is_compress_trans s \<longleftrightarrow> algo_comp (trans (keys s)) = DROPBEAR_COMP_ZLIB
     \<or> (authdone (authstate s) \<and> algo_comp (trans (keys s)) = DROPBEAR_COMP_ZLIB_DELAY)"

definition is_compress_recv :: "sshsession \<Rightarrow> bool" where
  "is_compress_recv s \<longleftrightarrow> algo_comp (recv (keys s)) = DROPBEAR_COMP_ZLIB
     \<or> (authdone (authstate s) \<and> algo_comp (recv (keys s)) = DROPBEAR_COMP_ZLIB_DELAY)"

text \<open>
  \<open>buf_compress\<close> gives the destination, the source and the session with the new stream state; a
  stream that was not set up is a NULL pointer.
\<close>

definition buf_compress :: "sshsession \<Rightarrow> buffer \<Rightarrow> buffer \<Rightarrow> u32 \<Rightarrow> (buffer \<times> buffer \<times> sshsession) res" where
  "buf_compress s dest src len =
     (let endpos = bpos src + len in
      bindr (require (bsize dest - bpos dest \<ge> len + ZLIB_COMPRESS_EXPANSION) Assert_failed) (\<lambda>_.
      case zstream (trans (keys s)) of
        None \<Rightarrow> Inl Mem_fault
      | Some z \<Rightarrow>
          let avail_in = endpos - bpos src; avail_out = bsize dest - bpos dest in
          bindr (buf_peek src avail_in) (\<lambda>inp.
          bindr (buf_getwriteptr dest avail_out) (\<lambda>p.
          case deflate (libz s) z inp (unat avail_out) of (ok, z', out, left) \<Rightarrow>
          bindr (mem_write (bdata dest) p out) (\<lambda>d.
          bindr (buf_setpos src (endpos - of_nat left)) (\<lambda>src.
          bindr (buf_setlen (dest\<lparr>bdata := d\<rparr>) (bsize dest - (avail_out - of_nat (length out)))) (\<lambda>dest.
          bindr (buf_setpos dest (blen dest)) (\<lambda>dest.
          bindr (require ok (Exit ''zlib error'')) (\<lambda>_.
          bindr (require (left = 0) Assert_failed) (\<lambda>_.
          Inr (dest, src, upd_trans (\<lambda>k. k\<lparr>zstream := Some z'\<rparr>) s)))))))))))"

definition buf_decompress :: "sshsession \<Rightarrow> buffer \<Rightarrow> u32 \<Rightarrow> (buffer \<times> sshsession) res" where
  "buf_decompress s b len =
     bindr (buf_new (RECV_MAX_PAYLOAD_LEN + 1)) (\<lambda>ret.
     case zstream (recv (keys s)) of
       None \<Rightarrow> Inl Mem_fault
     | Some z \<Rightarrow>
         bindr (buf_peek b len) (\<lambda>inp.
         case inflate (libz s) z inp (unat (bsize ret)) of (ok, z', out, left) \<Rightarrow>
         bindr (mem_write (bdata ret) 0 out) (\<lambda>d.
         bindr (require ok (Exit ''zlib error'')) (\<lambda>_.
         bindr (buf_setlen (ret\<lparr>bdata := d\<rparr>) (bsize ret - (bsize ret - of_nat (length out)))) (\<lambda>ret.
         bindr (require (\<not> (left > 0 \<or> blen ret > RECV_MAX_PAYLOAD_LEN))
                  (Exit ''bad packet, oversized decompressed'')) (\<lambda>_.
         Inr (ret, upd_recv (\<lambda>k. k\<lparr>zstream := Some z'\<rparr>) s)))))))"

section \<open>Outgoing packets\<close>

text \<open>The result of a packet that is allowed during a key exchange, RFC 4253 section 7.1.\<close>

definition packet_is_okay_kex :: "nat \<Rightarrow> bool" where
  "packet_is_okay_kex type =
     (if type \<ge> SSH_MSG_USERAUTH_REQUEST then False
      else if type = SSH_MSG_SERVICE_REQUEST \<or> type = SSH_MSG_SERVICE_ACCEPT then False
      else if type = SSH_MSG_KEXINIT then False
      else True)"

definition enqueue_reply_packet :: "sshsession \<Rightarrow> sshsession res" where
  "enqueue_reply_packet s =
     (if reply_queue_len s > MAX_DEFER_REPLY_QUEUE then Inl (Exit ''Full reply queue'')
      else
        bindr (buf_newcopy (writepayload s)) (\<lambda>p.
        bindr (buf_setpos (writepayload s) 0) (\<lambda>wp.
        bindr (buf_setlen wp 0) (\<lambda>wp.
        Inr (s\<lparr>writepayload := wp, reply_queue := reply_queue s @ [p],
               reply_queue_len := reply_queue_len s + 1\<rparr>)))))"

text \<open>
  The MAC of the sequence number and the clear packet, in an array of MAX_MAC_LEN bytes; bytes
  that the library did not fill are zero here.
\<close>

definition make_mac :: "sshsession \<Rightarrow> u32 \<Rightarrow> key_context_directional \<Rightarrow> buffer \<Rightarrow> u32 \<Rightarrow> (byte list \<times> buffer) res" where
  "make_mac s seqno ks clear_buf clear_len =
     (if hashsize (algo_mac ks) > 0 then
        bindr (mem_read (mackey ks) 0 (hkeysize (algo_mac ks))) (\<lambda>key.
        bindr (buf_setpos clear_buf 0) (\<lambda>clear_buf.
        bindr (buf_peek clear_buf clear_len) (\<lambda>bytes.
        case hmac (libtom s) (hash_index ks) key (STORE32H seqno @ bytes) of
          None \<Rightarrow> Inl (Exit ''HMAC error'')
        | Some out \<Rightarrow>
            bindr (mem_write (replicate MAX_MAC_LEN (CHR 0x00)) 0 out) (\<lambda>mac. Inr (mac, clear_buf)))))
      else Inr (replicate MAX_MAC_LEN (CHR 0x00), clear_buf))"

text \<open>
  The length of the padding; \<open>unsigned char\<close> arithmetic wraps at 256. In AEAD mode the four bytes of
  the packet length are not counted for the block size.
\<close>

definition pad_length :: "nat \<Rightarrow> bool \<Rightarrow> nat \<Rightarrow> nat" where
  "pad_length bs aead writelen =
     (let len = (if aead then writelen - 4 else writelen);
          padlen = (bs - len mod bs) mod 256;
          padlen = (if padlen < 4 then (padlen + bs) mod 256 else padlen) in
      if writelen + padlen < MIN_PACKET_LEN then (padlen + bs) mod 256 else padlen)"

definition encrypt_buf_size :: "sshsession \<Rightarrow> u32" where
  "encrypt_buf_size s =
     (blen (writepayload s) + 4 + 1)
     + of_nat (max MIN_PACKET_LEN (blocksize (algo_crypt (trans (keys s))))) + 3
     + of_nat (hashsize (algo_mac (trans (keys s))))
     + ZLIB_COMPRESS_EXPANSION
     + 1"

text \<open>The payload goes behind the room for the two length fields, compressed if it has to be.\<close>

definition put_payload :: "sshsession \<Rightarrow> (buffer \<times> sshsession) res" where
  "put_payload s =
     bindr (buf_new (encrypt_buf_size s)) (\<lambda>wb.
     bindr (buf_setlen wb 5) (\<lambda>wb.
     bindr (buf_setpos wb 5) (\<lambda>wb.
     bindr (if is_compress_trans s then buf_compress s wb (writepayload s) (blen (writepayload s))
            else
              bindr (buf_getwriteptr wb (blen (writepayload s))) (\<lambda>p.
              bindr (buf_peek (writepayload s) (blen (writepayload s))) (\<lambda>bytes.
              bindr (mem_write (bdata wb) p bytes) (\<lambda>d.
              bindr (buf_incrwritepos (wb\<lparr>bdata := d\<rparr>) (blen (writepayload s))) (\<lambda>wb.
              Inr (wb, writepayload s, s)))))) (\<lambda>(wb, wp, s).
     bindr (buf_setpos wp 0) (\<lambda>wp.
     bindr (buf_setlen wp 0) (\<lambda>wp.
     Inr (wb, s\<lparr>writepayload := wp\<rparr>)))))))"

text \<open>Both length fields and the random padding.\<close>

definition put_padding :: "buffer \<Rightarrow> sshsession \<Rightarrow> (buffer \<times> sshsession) res" where
  "put_padding wb s =
     (let bs = blocksize (algo_crypt (trans (keys s)));
          aead = (aead_crypt (crypt_mode (trans (keys s))) \<noteq> None) in
      bindr (require (bs \<noteq> 0) Mem_fault) (\<lambda>_.
      let padlen = pad_length bs aead (unat (blen wb)) in
      bindr (buf_setpos wb 0) (\<lambda>wb.
      bindr (buf_putint wb (blen wb + of_nat padlen - 4)) (\<lambda>wb.
      bindr (buf_putbyte wb (byte_of padlen)) (\<lambda>wb.
      bindr (buf_setpos wb (blen wb)) (\<lambda>wb.
      bindr (buf_incrlen wb (of_nat padlen)) (\<lambda>wb.
      bindr (buf_getptr wb (of_nat padlen)) (\<lambda>p.
      case genrandom padlen (world s) of (rnd, w) \<Rightarrow>
      bindr (mem_write (bdata wb) p rnd) (\<lambda>d.
      Inr (wb\<lparr>bdata := d\<rparr>, s\<lparr>world := w\<rparr>))))))))))"

definition seal_packet :: "buffer \<Rightarrow> sshsession \<Rightarrow> (buffer \<times> sshsession) res" where
  "seal_packet wb s =
     (let k = trans (keys s); mac_size = hashsize (algo_mac k) in
      case aead_crypt (crypt_mode k) of
        Some crypt \<Rightarrow>
          bindr (buf_setpos wb 0) (\<lambda>wb.
          let len = blen wb in
          bindr (buf_incrlen wb (of_nat mac_size)) (\<lambda>wb.
          bindr (buf_peek wb len) (\<lambda>inp.
          bindr (buf_getwriteptr wb (len + of_nat mac_size)) (\<lambda>p.
          case crypt (transseq s) inp (unat len) mac_size (cipher_state k) True of
            None \<Rightarrow> Inl (Exit ''Error encrypting'')
          | Some (out, st) \<Rightarrow>
              bindr (mem_write (bdata wb) p out) (\<lambda>d.
              bindr (buf_incrpos (wb\<lparr>bdata := d\<rparr>) (len + of_nat mac_size)) (\<lambda>wb.
              Inr (wb, upd_trans (\<lambda>k. k\<lparr>cipher_state := st\<rparr>) s)))))))
      | None \<Rightarrow>
          bindr (make_mac s (transseq s) k wb (blen wb)) (\<lambda>(mac_bytes, wb).
          bindr (buf_setpos wb 0) (\<lambda>wb.
          let len = blen wb in
          bindr (buf_peek wb len) (\<lambda>inp.
          bindr (buf_getwriteptr wb len) (\<lambda>p.
          case cm_encrypt (crypt_mode k) inp (cipher_state k) of
            None \<Rightarrow> Inl (Exit ''Error encrypting'')
          | Some (out, st) \<Rightarrow>
              bindr (mem_write (bdata wb) p out) (\<lambda>d.
              bindr (buf_incrpos (wb\<lparr>bdata := d\<rparr>) len) (\<lambda>wb.
              bindr (buf_putbytes wb mac_bytes (of_nat mac_size)) (\<lambda>wb.
              Inr (wb, upd_trans (\<lambda>k. k\<lparr>cipher_state := st\<rparr>) s)))))))))"

definition writebuf_enqueue :: "buffer \<Rightarrow> sshsession \<Rightarrow> sshsession res" where
  "writebuf_enqueue wb s =
     bindr (buf_setpos wb 0) (\<lambda>wb.
     Inr (s\<lparr>writequeue := writequeue s @ [wb], writequeue_len := writequeue_len s + blen wb\<rparr>))"

text \<open>
  The part of \<open>encrypt_packet\<close> behind the test for a key exchange in progress, ending with the
  counters and times.
\<close>

definition count_sent :: "nat \<Rightarrow> sshsession \<Rightarrow> sshsession" where
  "count_sent packet_type s =
     (let now = monotonic_now (world s);
          s = s\<lparr>transseq := transseq s + 1, last_packet_time_any_sent := now\<rparr> in
      if packet_type \<noteq> SSH_MSG_REQUEST_FAILURE \<and> packet_type \<noteq> SSH_MSG_UNIMPLEMENTED
         \<and> packet_type \<noteq> SSH_MSG_IGNORE
      then s\<lparr>last_packet_time_idle := now\<rparr> else s)"

definition send_now :: "nat \<Rightarrow> sshsession \<Rightarrow> sshsession res" where
  "send_now packet_type s =
     bindr (put_payload s) (\<lambda>(wb, s).
     bindr (put_padding wb s) (\<lambda>(wb, s).
     bindr (seal_packet wb s) (\<lambda>(wb, s).
     bindr (writebuf_enqueue wb (upd_kex (\<lambda>k. k\<lparr>datatrans := datatrans k + blen wb\<rparr>) s)) (\<lambda>s.
     Inr (count_sent packet_type s)))))"

definition encrypt_packet :: "sshsession \<Rightarrow> sshsession res" where
  "encrypt_packet s =
     bindr (buf_setpos (writepayload s) 0) (\<lambda>wp.
     bindr (buf_getbyte wp) (\<lambda>(c, wp).
     bindr (buf_setpos wp 0) (\<lambda>wp.
     let packet_type = byte_val c; s = s\<lparr>writepayload := wp\<rparr> in
     if \<not> dataallowed s \<and> \<not> packet_is_okay_kex packet_type then enqueue_reply_packet s
     else send_now packet_type s)))"

fun flush_replies :: "buffer list \<Rightarrow> sshsession \<Rightarrow> sshsession res" where
  "flush_replies [] s = Inr s"
| "flush_replies (p # ps) s =
     bindr (on_write (\<lambda>b. buf_putbytes b (bdata p) (blen p)) s) (\<lambda>s.
     bindr (encrypt_packet s) (\<lambda>s. flush_replies ps s))"

definition maybe_flush_reply_queue :: "sshsession \<Rightarrow> sshsession res" where
  "maybe_flush_reply_queue s =
     (if \<not> dataallowed s then Inr s
      else bindr (flush_replies (reply_queue s) s) (\<lambda>s.
        Inr (s\<lparr>reply_queue := [], reply_queue_len := 0\<rparr>)))"

text \<open>
  Writing to the socket: at most 50 packets of the queue in one \<open>writev\<close>. \<open>IOV_MAX\<close> is larger than
  50 on every platform.
\<close>

fun packet_queue_to_iovec :: "nat \<Rightarrow> buffer list \<Rightarrow> byte list res" where
  "packet_queue_to_iovec 0 q = Inr []"
| "packet_queue_to_iovec (Suc n) [] = Inr []"
| "packet_queue_to_iovec (Suc n) (b # q) =
     (let len = blen b - bpos b in
      bindr (require (sint len > 0) Assert_failed) (\<lambda>_.
      bindr (buf_peek b len) (\<lambda>bytes.
      bindr (packet_queue_to_iovec n q) (\<lambda>rest. Inr (bytes @ rest)))))"

fun packet_queue_consume :: "buffer list \<Rightarrow> nat \<Rightarrow> buffer list res" where
  "packet_queue_consume q 0 = Inr q"
| "packet_queue_consume [] (Suc n) = Inl Assert_failed"
| "packet_queue_consume (b # q) (Suc n) =
     (let len = unat (blen b - bpos b) in
      if len > Suc n then bindr (buf_incrpos b (of_nat (Suc n))) (\<lambda>b. Inr (b # q))
      else packet_queue_consume q (Suc n - len))"

definition write_packet :: "sshsession \<Rightarrow> sshsession res" where
  "write_packet s =
     bindr (require (writequeue s \<noteq> []) Assert_failed) (\<lambda>_.
     bindr (packet_queue_to_iovec 50 (writequeue s)) (\<lambda>bytes.
     case sys_writev bytes (world s) of
       (Write_again, w) \<Rightarrow> Inr (s\<lparr>world := w\<rparr>)
     | (Write_error, w) \<Rightarrow> Inl (Exit ''Error writing'')
     | (Wrote n, w) \<Rightarrow>
         bindr (packet_queue_consume (writequeue s) n) (\<lambda>q.
         let s = s\<lparr>writequeue := q, writequeue_len := writequeue_len s - of_nat n, world := w\<rparr> in
         if n = 0 then Inl (Close ''Exited normally'') else Inr s)))"

section \<open>Incoming packets\<close>

definition checkmac :: "buffer \<Rightarrow> sshsession \<Rightarrow> (bool \<times> buffer) res" where
  "checkmac rb s =
     (let mac_size = hashsize (algo_mac (recv (keys s)));
          contents_len = blen rb - of_nat mac_size in
      bindr (buf_setpos rb 0) (\<lambda>rb.
      bindr (make_mac s (recvseq s) (recv (keys s)) rb contents_len) (\<lambda>(mac_bytes, rb).
      bindr (buf_setpos rb contents_len) (\<lambda>rb.
      bindr (buf_peek rb (of_nat mac_size)) (\<lambda>got.
      bindr (mem_read mac_bytes 0 mac_size) (\<lambda>mac.
      Inr (mac = got, rb)))))))"

text \<open>
  The part of \<open>read_packet_init\<close> behind the read, when the first block is there: the checks on the
  length it announces, and the rest of the buffer.
\<close>

definition size_readbuf :: "u32 \<Rightarrow> u32 \<Rightarrow> buffer \<Rightarrow> sshsession \<Rightarrow> sshsession res" where
  "size_readbuf plen len rb s =
     (let bs = of_nat (blocksize (algo_crypt (recv (keys s)))) :: u32 in
      bindr (require (bs \<noteq> 0) Mem_fault) (\<lambda>_.
      if len > RECV_MAX_PACKET_LEN \<or> plen > RECV_MAX_PACKET_LEN \<or> plen < bs \<or> plen mod bs \<noteq> 0
      then Inl (Exit ''Integrity error (bad packet size)'')
      else
        bindr (if len > bsize rb then buf_resize (realloc_junk (world s)) rb len else Inr rb) (\<lambda>rb.
        bindr (buf_setlen rb len) (\<lambda>rb.
        bindr (buf_setpos rb bs) (\<lambda>rb.
        Inr (s\<lparr>readbuf := Some rb\<rparr>))))))"

definition first_block :: "buffer \<Rightarrow> sshsession \<Rightarrow> sshsession res" where
  "first_block rb s =
     (let k = recv (keys s); bs = of_nat (blocksize (algo_crypt k)) :: u32;
          macsize = of_nat (hashsize (algo_mac k)) :: u32 in
      bindr (buf_setpos rb 0) (\<lambda>rb.
      case aead_crypt (crypt_mode k) of
        Some _ \<Rightarrow>
          bindr (buf_peek rb bs) (\<lambda>blk.
          case aead_getlength (crypt_mode k) (recvseq s) blk (unat bs) (cipher_state k) of
            None \<Rightarrow> Inl (Exit ''Error decrypting'')
          | Some plen \<Rightarrow> size_readbuf plen (plen + 4 + macsize) rb s)
      | None \<Rightarrow>
          bindr (buf_peek rb bs) (\<lambda>blk.
          bindr (buf_getwriteptr rb bs) (\<lambda>p.
          case cm_decrypt (crypt_mode k) blk (cipher_state k) of
            None \<Rightarrow> Inl (Exit ''Error decrypting'')
          | Some (out, st) \<Rightarrow>
              bindr (mem_write (bdata rb) p out) (\<lambda>d.
              bindr (buf_getint (rb\<lparr>bdata := d\<rparr>)) (\<lambda>(v, rb).
              let plen = v + 4 in
              size_readbuf plen (plen + macsize) rb (upd_recv (\<lambda>k. k\<lparr>cipher_state := st\<rparr>) s)))))))"

definition read_packet_init :: "sshsession \<Rightarrow> (bool \<times> sshsession) res" where
  "read_packet_init s =
     (let bs = of_nat (blocksize (algo_crypt (recv (keys s)))) :: u32 in
      bindr (case readbuf s of None \<Rightarrow> buf_new INIT_READBUF | Some rb \<Rightarrow> Inr rb) (\<lambda>rb.
      let maxlen = bs - bpos rb in
      bindr (buf_getwriteptr rb maxlen) (\<lambda>p.
      case sys_read (unat maxlen) (world s) of
        (Read_again, w) \<Rightarrow> Inr (False, s\<lparr>readbuf := Some rb, world := w\<rparr>)
      | (Read_error, w) \<Rightarrow> Inl (Exit ''Error reading'')
      | (Got bytes, w) \<Rightarrow>
          if bytes = [] then Inl (Close ''Exited normally'')
          else
            bindr (mem_write (bdata rb) p bytes) (\<lambda>d.
            bindr (buf_incrwritepos (rb\<lparr>bdata := d\<rparr>) (of_nat (length bytes))) (\<lambda>rb.
            let s = s\<lparr>readbuf := Some rb, world := w\<rparr> in
            if of_nat (length bytes) \<noteq> maxlen then Inr (False, s)
            else bindr (first_block rb s) (\<lambda>s. Inr (True, s)))))))"

text \<open>\<open>decrypt_packet\<close>: decryption and the check of the MAC, then the payload.\<close>

definition open_packet :: "buffer \<Rightarrow> sshsession \<Rightarrow> (buffer \<times> sshsession) res" where
  "open_packet rb s =
     (let k = recv (keys s); bs = of_nat (blocksize (algo_crypt k)) :: u32; macsize = hashsize (algo_mac k) in
      case aead_crypt (crypt_mode k) of
        Some crypt \<Rightarrow>
          bindr (buf_setpos rb 0) (\<lambda>rb.
          let len = blen rb - of_nat macsize - bpos rb in
          bindr (buf_peek rb (len + of_nat macsize)) (\<lambda>inp.
          bindr (buf_getwriteptr rb len) (\<lambda>p.
          case crypt (recvseq s) inp (unat len) macsize (cipher_state k) False of
            None \<Rightarrow> Inl (Exit ''Error decrypting'')
          | Some (out, st) \<Rightarrow>
              bindr (mem_write (bdata rb) p out) (\<lambda>d.
              bindr (buf_incrpos (rb\<lparr>bdata := d\<rparr>) len) (\<lambda>rb.
              Inr (rb, upd_recv (\<lambda>k. k\<lparr>cipher_state := st\<rparr>) s))))))
      | None \<Rightarrow>
          bindr (buf_setpos rb bs) (\<lambda>rb.
          let len = blen rb - of_nat macsize - bpos rb in
          bindr (buf_peek rb len) (\<lambda>inp.
          bindr (buf_getwriteptr rb len) (\<lambda>p.
          case cm_decrypt (crypt_mode k) inp (cipher_state k) of
            None \<Rightarrow> Inl (Exit ''Error decrypting'')
          | Some (out, st) \<Rightarrow>
              bindr (mem_write (bdata rb) p out) (\<lambda>d.
              bindr (buf_incrpos (rb\<lparr>bdata := d\<rparr>) len) (\<lambda>rb.
              bindr (checkmac rb s) (\<lambda>(ok, rb).
              bindr (require ok (Exit ''Integrity error'')) (\<lambda>_.
              Inr (rb, upd_recv (\<lambda>k. k\<lparr>cipher_state := st\<rparr>) s)))))))))"

definition take_payload :: "buffer \<Rightarrow> sshsession \<Rightarrow> sshsession res" where
  "take_payload rb s =
     bindr (buf_setpos rb 4) (\<lambda>rb.
     bindr (buf_getbyte rb) (\<lambda>(c, rb).
     let padlen = of_nat (byte_val c) :: u32;
         len = blen rb - padlen - 4 - 1 - of_nat (hashsize (algo_mac (recv (keys s)))) in
     if len > RECV_MAX_PAYLOAD_LEN + ZLIB_COMPRESS_EXPANSION \<or> len < 1
     then Inl (Exit ''Bad packet size'')
     else
       bindr (buf_setpos rb 5) (\<lambda>rb.
       bindr (if is_compress_recv s then
                bindr (buf_decompress s rb len) (\<lambda>(p, s).
                bindr (buf_setpos p 0) (\<lambda>p.
                Inr (s\<lparr>payload := Some p, payload_beginning := 0\<rparr>)))
              else
                bindr (buf_setlen rb (bpos rb + len)) (\<lambda>p.
                Inr (s\<lparr>payload := Some p, payload_beginning := bpos rb\<rparr>))) (\<lambda>s.
       Inr (s\<lparr>readbuf := None, recvseq := recvseq s + 1\<rparr>)))))"

definition decrypt_packet :: "sshsession \<Rightarrow> sshsession res" where
  "decrypt_packet s =
     (case readbuf s of
        None \<Rightarrow> Inl Mem_fault
      | Some rb \<Rightarrow>
          bindr (open_packet rb (upd_kex (\<lambda>x. x\<lparr>datarecv := datarecv x + blen rb\<rparr>) s)) (\<lambda>(rb, s).
          take_payload rb s))"

definition read_packet :: "sshsession \<Rightarrow> sshsession res" where
  "read_packet s =
     (let bs = of_nat (blocksize (algo_crypt (recv (keys s)))) :: u32 in
      bindr (case readbuf s of
               None \<Rightarrow> read_packet_init s
             | Some rb \<Rightarrow> if blen rb < bs then read_packet_init s else Inr (True, s)) (\<lambda>(go, s).
      if \<not> go then Inr s
      else case readbuf s of
        None \<Rightarrow> Inl Mem_fault
      | Some rb \<Rightarrow>
          let maxlen = blen rb - bpos rb in
          if maxlen = 0 then decrypt_packet s
          else
            bindr (buf_getptr rb maxlen) (\<lambda>p.
            case sys_read (unat maxlen) (world s) of
              (Read_again, w) \<Rightarrow> Inr (s\<lparr>world := w\<rparr>)
            | (Read_error, w) \<Rightarrow> Inl (Exit ''Error reading'')
            | (Got bytes, w) \<Rightarrow>
                if bytes = [] then Inl (Close ''Exited normally'')
                else
                  bindr (mem_write (bdata rb) p bytes) (\<lambda>d.
                  bindr (buf_incrpos (rb\<lparr>bdata := d\<rparr>) (of_nat (length bytes))) (\<lambda>rb.
                  let s = s\<lparr>readbuf := Some rb, world := w\<rparr> in
                  if of_nat (length bytes) = maxlen then decrypt_packet s else Inr s)))))"

section \<open>Sending a packet changes only the wire\<close>

text \<open>
  \<open>unwired\<close> blanks the fields that \<open>encrypt_packet\<close> may change: the buffers, queues and counters of
  the sending side. Two sessions with the same \<open>unwired\<close> agree on everything else.
\<close>

definition unwired :: "sshsession \<Rightarrow> sshsession" where
  "unwired s = s\<lparr>
     writepayload := \<lparr>bdata = [], blen = 0, bpos = 0, bsize = 0\<rparr>,
     writequeue := [], writequeue_len := 0, transseq := 0,
     last_packet_time_any_sent := 0, last_packet_time_idle := 0,
     reply_queue := [], reply_queue_len := 0,
     kexstate := (kexstate s)\<lparr>datatrans := 0\<rparr>,
     keys := (keys s)\<lparr>trans := (trans (keys s))\<lparr>cipher_state := [], zstream := None\<rparr>\<rparr>,
     world := (world s)\<lparr>entropy := (\<lambda>_. CHR 0x00)\<rparr>\<rparr>"

named_theorems wire_simps \<open>updates that \<open>unwired\<close> does not see\<close>

lemma unwired_idem_updates [wire_simps]:
  "unwired (s\<lparr>writepayload := b\<rparr>) = unwired s"
  "unwired (s\<lparr>writequeue := q\<rparr>) = unwired s"
  "unwired (s\<lparr>writequeue_len := n\<rparr>) = unwired s"
  "unwired (s\<lparr>transseq := n\<rparr>) = unwired s"
  "unwired (s\<lparr>last_packet_time_any_sent := t\<rparr>) = unwired s"
  "unwired (s\<lparr>last_packet_time_idle := t\<rparr>) = unwired s"
  "unwired (s\<lparr>reply_queue := r\<rparr>) = unwired s"
  "unwired (s\<lparr>reply_queue_len := m\<rparr>) = unwired s"
  "unwired (upd_kex (\<lambda>k. k\<lparr>datatrans := f k\<rparr>) s) = unwired s"
  "unwired (upd_trans (\<lambda>k. k\<lparr>cipher_state := c\<rparr>) s) = unwired s"
  "unwired (upd_trans (\<lambda>k. k\<lparr>zstream := z\<rparr>) s) = unwired s"
  by (simp_all add: unwired_def upd_defs)

lemma unwired_genrandom: "genrandom n (world s) = (bs, w) \<Longrightarrow> unwired (s\<lparr>world := w\<rparr>) = unwired s"
  by (auto simp: genrandom_def unwired_def)

lemma buf_compress_wire:
  assumes "buf_compress s dest src len = Inr (dest', src', s')"
  shows "unwired s' = unwired s"
  using assms unfolding buf_compress_def Let_def
  by (elim bindr_InrE) (auto simp: wire_simps split: option.splits prod.splits elim!: bindr_InrE)

lemma put_payload_wire: "put_payload s = Inr (wb, s') \<Longrightarrow> unwired s' = unwired s"
  unfolding put_payload_def
  by (elim bindr_InrE) (auto simp: wire_simps split: if_splits elim!: bindr_InrE dest!: buf_compress_wire)

lemma put_padding_wire: "put_padding wb s = Inr (wb', s') \<Longrightarrow> unwired s' = unwired s"
  by (auto simp: put_padding_def bindr_eq_Inr_iff Let_def genrandom_def unwired_def)

lemma seal_packet_wire: "seal_packet wb s = Inr (wb', s') \<Longrightarrow> unwired s' = unwired s"
  by (auto simp: seal_packet_def bindr_eq_Inr_iff Let_def wire_simps split: option.splits prod.splits)

lemma writebuf_enqueue_wire: "writebuf_enqueue wb s = Inr s' \<Longrightarrow> unwired s' = unwired s"
  by (auto simp: writebuf_enqueue_def bindr_eq_Inr_iff wire_simps)

lemma enqueue_reply_packet_wire: "enqueue_reply_packet s = Inr s' \<Longrightarrow> unwired s' = unwired s"
  by (auto simp: enqueue_reply_packet_def bindr_eq_Inr_iff wire_simps split: if_splits)

lemma count_sent_wire [wire_simps]: "unwired (count_sent pt s) = unwired s"
  by (simp add: count_sent_def Let_def wire_simps)

lemma send_now_stages:
  assumes "send_now pt s = Inr s'"
  obtains wb1 s1 wb2 s2 wb3 s3 s4 where "put_payload s = Inr (wb1, s1)"
    "put_padding wb1 s1 = Inr (wb2, s2)" "seal_packet wb2 s2 = Inr (wb3, s3)"
    "writebuf_enqueue wb3 (upd_kex (\<lambda>k. k\<lparr>datatrans := datatrans k + blen wb3\<rparr>) s3) = Inr s4"
    "s' = count_sent pt s4"
  using assms unfolding send_now_def by (auto elim!: bindr_InrE)

lemma send_now_wire:
  assumes "send_now pt s = Inr s'"
  shows "unwired s' = unwired s"
  using assms
  by (elim send_now_stages)
    (auto simp: wire_simps dest!: put_payload_wire put_padding_wire seal_packet_wire writebuf_enqueue_wire)

lemma encrypt_packet_wire:
  assumes "encrypt_packet s = Inr s'"
  shows "unwired s' = unwired s"
  using assms unfolding encrypt_packet_def
  by (auto simp: bindr_eq_Inr_iff Let_def wire_simps split: if_splits
      dest!: enqueue_reply_packet_wire send_now_wire)

lemma on_write_wire: "on_write f s = Inr s' \<Longrightarrow> unwired s' = unwired s"
  by (auto simp: on_write_def bindr_eq_Inr_iff wire_simps)

lemma put_wire:
  "put_byte n s = Inr s' \<Longrightarrow> unwired s' = unwired s"
  "put_int v s = Inr s' \<Longrightarrow> unwired s' = unwired s"
  "put_string str s = Inr s' \<Longrightarrow> unwired s' = unwired s"
  by (auto simp: put_byte_def put_int_def put_string_def dest: on_write_wire)

lemma unwiredD:
  assumes "unwired s' = unwired s"
  shows "isserver s' = isserver s"
    and "authstate s' = authstate s"
    and "channels s' = channels s"
    and "chancount s' = chancount s"
    and "payload s' = payload s"
    and "payload_beginning s' = payload_beginning s"
    and "recvseq s' = recvseq s"
    and "dataallowed s' = dataallowed s"
    and "requirenext s' = requirenext s"
    and "ignorenext s' = ignorenext s"
    and "lastpacket s' = lastpacket s"
    and "newkeys s' = newkeys s"
    and "session_id s' = session_id s"
    and "svr_opts s' = svr_opts s"
    and "opts s' = opts s"
    and "chantypes s' = chantypes s"
    and "libtom s' = libtom s"
    and "libz s' = libz s"
    and "readbuf s' = readbuf s"
    and "connect_time s' = connect_time s"
    and "remoteident s' = remoteident s"
    and "allow_ext_info s' = allow_ext_info s"
    and "dh_K s' = dh_K s"
    and "dh_K_bytes s' = dh_K_bytes s"
    and "ses_hash s' = ses_hash s"
    and "kexhashbuf s' = kexhashbuf s"
    and "transkexinit s' = transkexinit s"
    and "sock_in s' = sock_in s"
    and "sock_out s' = sock_out s"
    and "socket_prio s' = socket_prio s"
    and "allowprivport s' = allowprivport s"
    and "childpipe s' = childpipe s"
    and "sshkex s' = sshkex s"
    and "sigalgs s' = sigalgs s"
    and "sshciphers s' = sshciphers s"
    and "sshhashes s' = sshhashes s"
    and "compress_algos_c2s s' = compress_algos_c2s s"
    and "compress_algos_s2c s' = compress_algos_s2c s"
    and "recv (keys s') = recv (keys s)"
    and "conf_files (world s') = conf_files (world s)"
    and "write_answers (world s') = write_answers (world s)"
    and "monotonic_now (world s') = monotonic_now (world s)"
    and "closed_fds (world s') = closed_fds (world s)"
    and "sentkexinit (kexstate s') = sentkexinit (kexstate s)"
    and "recvkexinit (kexstate s') = recvkexinit (kexstate s)"
    and "them_firstfollows (kexstate s') = them_firstfollows (kexstate s)"
    and "sentnewkeys (kexstate s') = sentnewkeys (kexstate s)"
    and "recvnewkeys (kexstate s') = recvnewkeys (kexstate s)"
    and "donefirstkex (kexstate s') = donefirstkex (kexstate s)"
    and "donesecondkex (kexstate s') = donesecondkex (kexstate s)"
    and "recvfirstnewkeys (kexstate s') = recvfirstnewkeys (kexstate s)"
    and "strict_kex (kexstate s') = strict_kex (kexstate s)"
    and "algo_crypt (trans (keys s')) = algo_crypt (trans (keys s))"
    and "crypt_mode (trans (keys s')) = crypt_mode (trans (keys s))"
    and "algo_mac (trans (keys s')) = algo_mac (trans (keys s))"
    and "hash_index (trans (keys s')) = hash_index (trans (keys s))"
    and "algo_comp (trans (keys s')) = algo_comp (trans (keys s))"
    and "mackey (trans (keys s')) = mackey (trans (keys s))"
proof -
  show "isserver s' = isserver s" using arg_cong [OF assms, of isserver] by (simp add: unwired_def)
  show "authstate s' = authstate s" using arg_cong [OF assms, of authstate] by (simp add: unwired_def)
  show "channels s' = channels s" using arg_cong [OF assms, of channels] by (simp add: unwired_def)
  show "chancount s' = chancount s" using arg_cong [OF assms, of chancount] by (simp add: unwired_def)
  show "payload s' = payload s" using arg_cong [OF assms, of payload] by (simp add: unwired_def)
  show "payload_beginning s' = payload_beginning s" using arg_cong [OF assms, of payload_beginning] by (simp add: unwired_def)
  show "recvseq s' = recvseq s" using arg_cong [OF assms, of recvseq] by (simp add: unwired_def)
  show "dataallowed s' = dataallowed s" using arg_cong [OF assms, of dataallowed] by (simp add: unwired_def)
  show "requirenext s' = requirenext s" using arg_cong [OF assms, of requirenext] by (simp add: unwired_def)
  show "ignorenext s' = ignorenext s" using arg_cong [OF assms, of ignorenext] by (simp add: unwired_def)
  show "lastpacket s' = lastpacket s" using arg_cong [OF assms, of lastpacket] by (simp add: unwired_def)
  show "newkeys s' = newkeys s" using arg_cong [OF assms, of newkeys] by (simp add: unwired_def)
  show "session_id s' = session_id s" using arg_cong [OF assms, of session_id] by (simp add: unwired_def)
  show "svr_opts s' = svr_opts s" using arg_cong [OF assms, of svr_opts] by (simp add: unwired_def)
  show "opts s' = opts s" using arg_cong [OF assms, of opts] by (simp add: unwired_def)
  show "chantypes s' = chantypes s" using arg_cong [OF assms, of chantypes] by (simp add: unwired_def)
  show "libtom s' = libtom s" using arg_cong [OF assms, of libtom] by (simp add: unwired_def)
  show "libz s' = libz s" using arg_cong [OF assms, of libz] by (simp add: unwired_def)
  show "readbuf s' = readbuf s" using arg_cong [OF assms, of readbuf] by (simp add: unwired_def)
  show "connect_time s' = connect_time s" using arg_cong [OF assms, of connect_time] by (simp add: unwired_def)
  show "remoteident s' = remoteident s" using arg_cong [OF assms, of remoteident] by (simp add: unwired_def)
  show "allow_ext_info s' = allow_ext_info s" using arg_cong [OF assms, of allow_ext_info] by (simp add: unwired_def)
  show "dh_K s' = dh_K s" using arg_cong [OF assms, of dh_K] by (simp add: unwired_def)
  show "dh_K_bytes s' = dh_K_bytes s" using arg_cong [OF assms, of dh_K_bytes] by (simp add: unwired_def)
  show "ses_hash s' = ses_hash s" using arg_cong [OF assms, of ses_hash] by (simp add: unwired_def)
  show "kexhashbuf s' = kexhashbuf s" using arg_cong [OF assms, of kexhashbuf] by (simp add: unwired_def)
  show "transkexinit s' = transkexinit s" using arg_cong [OF assms, of transkexinit] by (simp add: unwired_def)
  show "sock_in s' = sock_in s" using arg_cong [OF assms, of sock_in] by (simp add: unwired_def)
  show "sock_out s' = sock_out s" using arg_cong [OF assms, of sock_out] by (simp add: unwired_def)
  show "socket_prio s' = socket_prio s" using arg_cong [OF assms, of socket_prio] by (simp add: unwired_def)
  show "allowprivport s' = allowprivport s" using arg_cong [OF assms, of allowprivport] by (simp add: unwired_def)
  show "childpipe s' = childpipe s" using arg_cong [OF assms, of childpipe] by (simp add: unwired_def)
  show "sshkex s' = sshkex s" using arg_cong [OF assms, of sshkex] by (simp add: unwired_def)
  show "sigalgs s' = sigalgs s" using arg_cong [OF assms, of sigalgs] by (simp add: unwired_def)
  show "sshciphers s' = sshciphers s" using arg_cong [OF assms, of sshciphers] by (simp add: unwired_def)
  show "sshhashes s' = sshhashes s" using arg_cong [OF assms, of sshhashes] by (simp add: unwired_def)
  show "compress_algos_c2s s' = compress_algos_c2s s" using arg_cong [OF assms, of compress_algos_c2s] by (simp add: unwired_def)
  show "compress_algos_s2c s' = compress_algos_s2c s" using arg_cong [OF assms, of compress_algos_s2c] by (simp add: unwired_def)
  show "recv (keys s') = recv (keys s)" using arg_cong [OF assms, of "\<lambda>s. recv (keys s)"] by (simp add: unwired_def)
  show "conf_files (world s') = conf_files (world s)" using arg_cong [OF assms, of "\<lambda>s. conf_files (world s)"] by (simp add: unwired_def)
  show "write_answers (world s') = write_answers (world s)" using arg_cong [OF assms, of "\<lambda>s. write_answers (world s)"] by (simp add: unwired_def)
  show "monotonic_now (world s') = monotonic_now (world s)" using arg_cong [OF assms, of "\<lambda>s. monotonic_now (world s)"] by (simp add: unwired_def)
  show "closed_fds (world s') = closed_fds (world s)" using arg_cong [OF assms, of "\<lambda>s. closed_fds (world s)"] by (simp add: unwired_def)
  show "sentkexinit (kexstate s') = sentkexinit (kexstate s)" using arg_cong [OF assms, of "\<lambda>s. sentkexinit (kexstate s)"] by (simp add: unwired_def)
  show "recvkexinit (kexstate s') = recvkexinit (kexstate s)" using arg_cong [OF assms, of "\<lambda>s. recvkexinit (kexstate s)"] by (simp add: unwired_def)
  show "them_firstfollows (kexstate s') = them_firstfollows (kexstate s)" using arg_cong [OF assms, of "\<lambda>s. them_firstfollows (kexstate s)"] by (simp add: unwired_def)
  show "sentnewkeys (kexstate s') = sentnewkeys (kexstate s)" using arg_cong [OF assms, of "\<lambda>s. sentnewkeys (kexstate s)"] by (simp add: unwired_def)
  show "recvnewkeys (kexstate s') = recvnewkeys (kexstate s)" using arg_cong [OF assms, of "\<lambda>s. recvnewkeys (kexstate s)"] by (simp add: unwired_def)
  show "donefirstkex (kexstate s') = donefirstkex (kexstate s)" using arg_cong [OF assms, of "\<lambda>s. donefirstkex (kexstate s)"] by (simp add: unwired_def)
  show "donesecondkex (kexstate s') = donesecondkex (kexstate s)" using arg_cong [OF assms, of "\<lambda>s. donesecondkex (kexstate s)"] by (simp add: unwired_def)
  show "recvfirstnewkeys (kexstate s') = recvfirstnewkeys (kexstate s)" using arg_cong [OF assms, of "\<lambda>s. recvfirstnewkeys (kexstate s)"] by (simp add: unwired_def)
  show "strict_kex (kexstate s') = strict_kex (kexstate s)" using arg_cong [OF assms, of "\<lambda>s. strict_kex (kexstate s)"] by (simp add: unwired_def)
  show "algo_crypt (trans (keys s')) = algo_crypt (trans (keys s))" using arg_cong [OF assms, of "\<lambda>s. algo_crypt (trans (keys s))"] by (simp add: unwired_def)
  show "crypt_mode (trans (keys s')) = crypt_mode (trans (keys s))" using arg_cong [OF assms, of "\<lambda>s. crypt_mode (trans (keys s))"] by (simp add: unwired_def)
  show "algo_mac (trans (keys s')) = algo_mac (trans (keys s))" using arg_cong [OF assms, of "\<lambda>s. algo_mac (trans (keys s))"] by (simp add: unwired_def)
  show "hash_index (trans (keys s')) = hash_index (trans (keys s))" using arg_cong [OF assms, of "\<lambda>s. hash_index (trans (keys s))"] by (simp add: unwired_def)
  show "algo_comp (trans (keys s')) = algo_comp (trans (keys s))" using arg_cong [OF assms, of "\<lambda>s. algo_comp (trans (keys s))"] by (simp add: unwired_def)
  show "mackey (trans (keys s')) = mackey (trans (keys s))" using arg_cong [OF assms, of "\<lambda>s. mackey (trans (keys s))"] by (simp add: unwired_def)
qed

section \<open>What the libraries promise\<close>

text \<open>
  The contract of the sending side's keys: block sizes are those of the ciphers the server has,
  the MAC fits the array, a cipher keeps the length (an AEAD one adds the tag), HMAC gives a
  digest at least as long as the MAC, and \<open>deflate\<close> consumes its input when there is room for the
  expansion that zlib documents.
\<close>

definition block_ok :: "nat \<Rightarrow> bool" where
  "block_ok bs \<longleftrightarrow> bs = 8 \<or> bs = 16"

definition cipher_ok :: "(byte list \<Rightarrow> cipher_state \<Rightarrow> (byte list \<times> cipher_state) option) \<Rightarrow> bool" where
  "cipher_ok f \<longleftrightarrow> (\<forall>inp st. \<exists>out st'. f inp st = Some (out, st') \<and> length out = length inp)"

definition mac_ok :: "libtomcrypt \<Rightarrow> key_context_directional \<Rightarrow> bool" where
  "mac_ok lib k \<longleftrightarrow> hashsize (algo_mac k) \<le> MAX_MAC_LEN
     \<and> (hashsize (algo_mac k) > 0 \<longrightarrow> length (mackey k) = MAX_MAC_LEN \<and> hkeysize (algo_mac k) \<le> MAX_MAC_LEN
        \<and> (\<forall>key bytes. \<exists>out. hmac lib (hash_index k) key bytes = Some out
             \<and> hashsize (algo_mac k) \<le> length out \<and> length out \<le> MAX_MAC_LEN))"

definition trans_key_ok :: "libtomcrypt \<Rightarrow> zlib \<Rightarrow> key_context_directional \<Rightarrow> bool" where
  "trans_key_ok lt lz k \<longleftrightarrow>
     block_ok (blocksize (algo_crypt k)) \<and> mac_ok lt k
     \<and> (case aead_crypt (crypt_mode k) of
          None \<Rightarrow> cipher_ok (cm_encrypt (crypt_mode k))
        | Some f \<Rightarrow> (\<forall>seq inp tag st. \<exists>out st'. f seq inp (length inp) tag st True = Some (out, st')
                      \<and> length out = length inp + tag))
     \<and> (algo_comp k \<noteq> DROPBEAR_COMP_NONE \<longrightarrow> zstream k \<noteq> None
        \<and> (\<forall>z inp room. length inp + unat ZLIB_COMPRESS_EXPANSION \<le> room \<longrightarrow>
             (\<exists>z' out. deflate lz z inp room = (True, z', out, 0) \<and> 0 < length out
                \<and> length out \<le> length inp + unat ZLIB_COMPRESS_EXPANSION)))"

definition trans_ok :: "sshsession \<Rightarrow> bool" where
  "trans_ok s \<longleftrightarrow> trans_key_ok (libtom s) (libz s) (trans (keys s))"

section \<open>The padding\<close>

lemma pad_length_facts:
  assumes "block_ok bs" and "6 \<le> n"
  shows "4 \<le> pad_length bs aead n" and "pad_length bs aead n \<le> 19"
    and "16 \<le> n + pad_length bs aead n"
    and "((if aead then n - 4 else n) + pad_length bs aead n) mod bs = 0"
proof -
  let ?l = "if aead then n - 4 else n"
  have bs: "bs = 8 \<or> bs = 16" using assms(1) by (simp add: block_ok_def)
  define r where "r = ?l mod bs"
  have r: "r < bs" using bs by (auto simp: r_def)
  have l: "?l = bs * (?l div bs) + r" by (simp add: r_def)
  define q where "q = ?l div bs"
  have n: "n = (if aead then bs * q + r + 4 else bs * q + r)"
    using l assms(2) by (auto simp: q_def split: if_splits)
  have pad: "pad_length bs aead n = (let p = (if bs - r < 4 then bs - r + bs else bs - r) in
      if n + p < 16 then p + bs else p)"
    using bs r by (auto simp: pad_length_def Let_def r_def [symmetric] MIN_PACKET_LEN_def)
  show "4 \<le> pad_length bs aead n" "16 \<le> n + pad_length bs aead n"
    unfolding pad Let_def using bs r assms(2) by auto
  show "pad_length bs aead n \<le> 19"
    unfolding pad Let_def using bs r n assms(2) by (cases q) (auto split: if_splits)
  show "(?l + pad_length bs aead n) mod bs = 0"
  proof -
    have "\<exists>m. r + pad_length bs aead n = m * bs"
      unfolding pad Let_def using r
      by (auto intro: exI [of _ 1] exI [of _ 2] exI [of _ 3])
    then obtain m where "r + pad_length bs aead n = m * bs" by blast
    then have "?l + pad_length bs aead n = (?l div bs + m) * bs"
      using l by (simp add: algebra_simps)
    then show ?thesis by simp
  qed
qed

section \<open>Building a packet succeeds\<close>

definition payload_ready :: "sshsession \<Rightarrow> byte list \<Rightarrow> bool" where
  "payload_ready s c \<longleftrightarrow> (\<exists>p. buf_is (writepayload s) c p (unat TRANS_MAX_PAYLOAD_LEN))"

lemma unat_packet_consts [simp]:
  "unat TRANS_MAX_PAYLOAD_LEN = 16384" "unat ZLIB_COMPRESS_EXPANSION = 51" "unat RECV_MAX_PAYLOAD_LEN = 131072"
  "unat RECV_MAX_PACKET_LEN = 131172" "unat INIT_READBUF = 128"
  by (simp_all add: packet_consts)

lemma trans_okD:
  assumes "trans_ok s"
  shows "block_ok (blocksize (algo_crypt (trans (keys s))))" and "mac_ok (libtom s) (trans (keys s))"
    and "blocksize (algo_crypt (trans (keys s))) \<le> 16" and "hashsize (algo_mac (trans (keys s))) \<le> 64"
  using assms by (auto simp: trans_ok_def trans_key_ok_def block_ok_def mac_ok_def MAX_MAC_LEN_def)

lemma unat_encrypt_buf_size:
  assumes "trans_ok s" and "unat (blen (writepayload s)) \<le> 16384"
  shows "unat (encrypt_buf_size s) = unat (blen (writepayload s)) + 76 + hashsize (algo_mac (trans (keys s)))"
proof -
  have b: "max MIN_PACKET_LEN (blocksize (algo_crypt (trans (keys s)))) = 16"
    using trans_okD(3) [OF assms(1)] by (simp add: MIN_PACKET_LEN_def)
  have m: "hashsize (algo_mac (trans (keys s))) \<le> 64" using assms(1) by (rule trans_okD)
  have "encrypt_buf_size s = blen (writepayload s) + 76 + of_nat (hashsize (algo_mac (trans (keys s))))"
    unfolding encrypt_buf_size_def b by (simp add: packet_consts)
  moreover have "unat (blen (writepayload s) + 76) = unat (blen (writepayload s)) + 76"
    using assms(2) by (subst unat_add_below) simp_all
  moreover have "unat (of_nat (hashsize (algo_mac (trans (keys s)))) :: u32) = hashsize (algo_mac (trans (keys s)))"
    using m by (intro unat_of_nat_u32) simp
  ultimately show ?thesis using assms(2) m by (simp add: unat_add_below)
qed

lemma put_plain:
  assumes "buf_is wb w 5 n" and "length w = 5" and "buf_is wp c 0 m" and "5 + length c \<le> n"
  shows "\<exists>wb'. bindr (buf_getwriteptr wb (blen wp)) (\<lambda>p.
      bindr (buf_peek wp (blen wp)) (\<lambda>bytes.
      bindr (mem_write (bdata wb) p bytes) (\<lambda>d.
      bindr (buf_incrwritepos (wb\<lparr>bdata := d\<rparr>) (blen wp)) (\<lambda>wb. Inr (wb, wp, s))))) = Inr (wb', wp, s)
    \<and> buf_is wb' (w @ c) (5 + length c) n"
proof -
  have l: "unat (blen wp) = length c" using buf_isD [OF assms(3)] by simp
  note d = buf_isD [OF assms(1)] and wd = buf_is_words [OF assms(1)]
  have r: "length c \<le> buf_room wb" using buf_is_room [OF assms(1)] assms(4) by simp
  have "mem_write (bdata wb) 5 c = Inr (blit (bdata wb) (unat (bpos wb)) c)"
    using mem_write_room [OF d(1) r] d(3) by simp
  moreover have "buf_incrwritepos (wb\<lparr>bdata := blit (bdata wb) (unat (bpos wb)) c\<rparr>) (blen wp) = Inr (buf_wrote wb c)"
    using buf_incrwritepos_blit [OF d(1) r] buf_is_words(1) [OF assms(3)] by simp
  moreover have "buf_getwriteptr wb (blen wp) = Inr 5" using assms(1,4) l by (simp add: buf_is_getwriteptr)
  moreover have "buf_peek wp (blen wp) = Inr c" using assms(3) l by (simp add: buf_is_peek)
  moreover have "buf_is (buf_wrote wb c) (w @ c) (5 + length c) n"
    using buf_is_wrote [OF assms(1), of c] assms(2,4) by (simp add: blit_at_end)
  ultimately show ?thesis by simp
qed

lemma buf_compress_ok:
  assumes "buf_is wb w 5 n" and "length w = 5" and "buf_is wp c 0 m" and "length c + 61 \<le> n"
    and "zstream (trans (keys s)) = Some z"
    and "deflate (libz s) z c (n - 5) = (True, z', out, 0)" and "length out \<le> length c + 51"
  shows "\<exists>wb' wp'. buf_compress s wb wp (blen wp) = Inr (wb', wp', upd_trans (\<lambda>k. k\<lparr>zstream := Some z'\<rparr>) s)
    \<and> buf_is wb' (w @ out) (5 + length out) n \<and> buf_is wp' c (length c) m"
proof -
  note d = buf_isD [OF assms(1)] and dp = buf_isD [OF assms(3)]
  have avail: "unat (bsize wb - bpos wb) = n - 5" using d by (subst unat_sub_below) simp_all
  have need: "unat (blen wp + ZLIB_COMPRESS_EXPANSION) = length c + 51"
    using dp by (subst unat_add_below) simp_all
  have asrt: "blen wp + ZLIB_COMPRESS_EXPANSION \<le> bsize wb - bpos wb"
    using avail need assms(4) by (simp add: word_le_nat_alt)
  have peek: "buf_peek wp (blen wp) = Inr c" using assms(3) dp by (simp add: buf_is_peek)
  have gw: "buf_getwriteptr wb (bsize wb - bpos wb) = Inr 5"
    using buf_is_getwriteptr [OF assms(1), of "bsize wb - bpos wb"] avail d assms(4) by simp
  have u: "unat (of_nat (length out) :: u32) = length out" using assms(7) dp d assms(4) by (intro unat_of_nat_u32) simp
  have fit: "5 + length out \<le> n" using assms(4,7) by simp
  have k: "length (bdata wb) = n" using buf_ok_nat [OF d(1)] d by simp
  let ?d = "blit (bdata wb) 5 out"
  have mw: "mem_write (bdata wb) 5 out = Inr ?d" using fit k by (intro mem_write_eq) simp
  obtain wp' where sp: "buf_setpos wp (bpos wp + blen wp - of_nat 0) = Inr wp'" "buf_is wp' c (length c) m"
    using buf_is_setpos [OF assms(3), of "blen wp"] dp buf_is_words(2) [OF assms(3)] by auto
  have len: "bsize wb - (bsize wb - bpos wb - of_nat (length out)) = of_nat (5 + length out)"
    using buf_is_words(2) [OF assms(1)] by simp
  have ul: "unat (of_nat (5 + length out) :: u32) = 5 + length out" using fit d by (intro unat_of_nat_u32) simp
  let ?wb1 = "wb\<lparr>bdata := ?d, blen := of_nat (5 + length out), bpos := of_nat 5\<rparr>"
  have mn: "min (bpos wb) (of_nat (5 + length out)) = bpos wb" using d ul by (simp add: min_def word_le_nat_alt)
  have sl: "buf_setlen (wb\<lparr>bdata := ?d\<rparr>) (of_nat (5 + length out)) = Inr ?wb1"
    using ul d fit mn buf_is_words(2) [OF assms(1)] by (simp add: buf_setlen_def word_less_nat_alt)
  have is1: "buf_is ?wb1 (w @ out) 5 n"
  proof -
    have "take 5 (bdata wb) = w" using d(9) assms(2) by simp
    then have "take (5 + length out) ?d = w @ out" using k fit by (simp add: take_blit_upto)
    moreover have "buf_ok ?wb1" using ul k d fit by (intro buf_okI) simp_all
    ultimately show ?thesis using ul d by (simp add: buf_is_def buf_content_def)
  qed
  obtain wb2 where s2: "buf_setpos ?wb1 (blen ?wb1) = Inr wb2" "buf_is wb2 (w @ out) (5 + length out) n"
    using buf_is_setpos [OF is1, of "blen ?wb1"] ul assms(2) by auto
  show ?thesis using asrt peek gw mw sp s2 sl assms(5,6) avail len
    by (simp add: buf_compress_def Let_def)
qed

lemma upd_trans_same: "upd_trans (\<lambda>k. k\<lparr>zstream := zstream (trans (keys s))\<rparr>) s = s"
  by (simp add: upd_trans_def)

lemma buf_is_clear:
  assumes "buf_is wp c p n"
  obtains wp1 wp2 where "buf_setpos wp 0 = Inr wp1" "buf_setlen wp1 0 = Inr wp2" "buf_is wp2 [] 0 n"
proof -
  obtain wp1 where w: "buf_setpos wp 0 = Inr wp1" "buf_is wp1 c 0 n"
    using buf_is_setpos [OF assms, of 0] by auto
  moreover obtain wp2 where "buf_setlen wp1 0 = Inr wp2" "buf_is wp2 [] 0 n"
    using buf_is_setlen [OF w(2), of 0] by auto
  ultimately show thesis using that by blast
qed

lemma put_payload_ok:
  assumes "trans_ok s" and "buf_is (writepayload s) c 0 16384" and "c \<noteq> []"
  obtains wb w body wp z where
    "put_payload s = Inr (wb, (upd_trans (\<lambda>k. k\<lparr>zstream := z\<rparr>) s)\<lparr>writepayload := wp\<rparr>)"
    "buf_is wp [] 0 16384" "length w = 5" "body \<noteq> []" "length body \<le> length c + 51"
    "\<not> is_compress_trans s \<Longrightarrow> body = c" "zstream (trans (keys s)) \<noteq> None \<Longrightarrow> z \<noteq> None"
    "buf_is wb (w @ body) (5 + length body) (length c + 76 + hashsize (algo_mac (trans (keys s))))"
proof -
  let ?n = "length c + 76 + hashsize (algo_mac (trans (keys s)))"
  note d = buf_isD [OF assms(2)]
  have n: "unat (encrypt_buf_size s) = ?n" using unat_encrypt_buf_size [OF assms(1)] d by simp
  have m: "hashsize (algo_mac (trans (keys s))) \<le> 64" using assms(1) by (rule trans_okD)
  obtain wb0 where w0: "buf_new (encrypt_buf_size s) = Inr wb0" "buf_is wb0 [] 0 ?n"
    using buf_is_new [of "encrypt_buf_size s"] n m d by auto
  obtain wb1 w where w1: "buf_setlen wb0 5 = Inr wb1" "length w = 5" "buf_is wb1 w 0 ?n"
    using buf_is_setlen_grow [OF w0(2), of 5] by auto
  obtain wb2 where w2: "buf_setpos wb1 5 = Inr wb2" "buf_is wb2 w 5 ?n"
    using buf_is_setpos [OF w1(3), of 5] w1(2) by auto
  show thesis
  proof (cases "is_compress_trans s")
    case False
    obtain wb3 where w3: "bindr (buf_getwriteptr wb2 (blen (writepayload s))) (\<lambda>p.
        bindr (buf_peek (writepayload s) (blen (writepayload s))) (\<lambda>bytes.
        bindr (mem_write (bdata wb2) p bytes) (\<lambda>d.
        bindr (buf_incrwritepos (wb2\<lparr>bdata := d\<rparr>) (blen (writepayload s))) (\<lambda>wb. Inr (wb, writepayload s, s)))))
        = Inr (wb3, writepayload s, s)" "buf_is wb3 (w @ c) (5 + length c) ?n"
      using put_plain [OF w2(2) w1(2) assms(2), of s] by auto
    obtain wp1 wp2 where c: "buf_setpos (writepayload s) 0 = Inr wp1" "buf_setlen wp1 0 = Inr wp2" "buf_is wp2 [] 0 16384"
      using assms(2) by (rule buf_is_clear)
    have "put_payload s = Inr (wb3, s\<lparr>writepayload := wp2\<rparr>)"
      using w0(1) w1(1) w2(1) w3(1) c(1,2) False by (simp add: put_payload_def)
    then show thesis using that [of wb3 wp2 "zstream (trans (keys s))" w c] c(3) w1(2) w3(2) assms(3)
      by (simp add: upd_trans_same)
  next
    case True
    then have comp: "algo_comp (trans (keys s)) \<noteq> DROPBEAR_COMP_NONE" by (auto simp: is_compress_trans_def)
    then obtain z where z: "zstream (trans (keys s)) = Some z" using assms(1) by (auto simp: trans_ok_def trans_key_ok_def)
    have "\<exists>z' out. deflate (libz s) z c (?n - 5) = (True, z', out, 0) \<and> 0 < length out \<and> length out \<le> length c + 51"
      using assms(1) comp unfolding trans_ok_def trans_key_ok_def by simp
    then obtain z' out where df: "deflate (libz s) z c (?n - 5) = (True, z', out, 0)" "0 < length out"
      "length out \<le> length c + 51" by blast
    obtain wb3 wp1 where w3: "buf_compress s wb2 (writepayload s) (blen (writepayload s))
        = Inr (wb3, wp1, upd_trans (\<lambda>k. k\<lparr>zstream := Some z'\<rparr>) s)"
      "buf_is wb3 (w @ out) (5 + length out) ?n" "buf_is wp1 c (length c) 16384"
      using buf_compress_ok [OF w2(2) w1(2) assms(2) _ z df(1,3)] by auto
    obtain wp2 wp3 where c: "buf_setpos wp1 0 = Inr wp2" "buf_setlen wp2 0 = Inr wp3" "buf_is wp3 [] 0 16384"
      using w3(3) by (rule buf_is_clear)
    have "put_payload s = Inr (wb3, (upd_trans (\<lambda>k. k\<lparr>zstream := Some z'\<rparr>) s)\<lparr>writepayload := wp3\<rparr>)"
      using w0(1) w1(1) w2(1) w3(1) c(1,2) True by (simp add: put_payload_def)
    then show thesis using that [of wb3 wp3 "Some z'" w out] c(3) w1(2) w3(2) df True by simp
  qed
qed

text \<open>The clear packet: lengths, payload, padding.\<close>

definition clear_packet :: "byte list \<Rightarrow> byte list \<Rightarrow> byte list" where
  "clear_packet body rnd =
     STORE32H (of_nat (1 + length body + length rnd)) @ [byte_of (length rnd)] @ body @ rnd"

lemma length_clear_packet [simp]: "length (clear_packet body rnd) = 5 + length body + length rnd"
  by (simp add: clear_packet_def)

lemma put_padding_ok:
  fixes s :: sshsession and body :: "byte list"
  defines "bs \<equiv> blocksize (algo_crypt (trans (keys s)))"
    and "aead \<equiv> aead_crypt (crypt_mode (trans (keys s))) \<noteq> None"
  defines "pad \<equiv> pad_length bs aead (5 + length body)"
  assumes "block_ok bs" and "buf_is wb (w @ body) p n" and "length w = 5" and "body \<noteq> []"
    and "5 + length body + 19 \<le> n"
  obtains wb' w' where "put_padding wb s = Inr (wb', s\<lparr>world := w'\<rparr>)"
    "genrandom pad (world s) = (map (entropy (world s)) [0..<pad], w')"
    "buf_is wb' (clear_packet body (map (entropy (world s)) [0..<pad])) (5 + length body) n"
proof -
  have six: "6 \<le> 5 + length body" using assms(7) by (cases body) auto
  note pf = pad_length_facts [OF assms(4) six, of aead, folded pad_def]
  let ?rnd = "map (entropy (world s)) [0..<pad]"
  define w' where "w' = snd (genrandom pad (world s))"
  have gr: "genrandom pad (world s) = (?rnd, w')" by (simp add: genrandom_def w'_def)
  note d = buf_isD [OF assms(5)]
  have bw: "blen wb = of_nat (5 + length body)" using buf_is_words(1) [OF assms(5)] assms(6) by simp
  have ul: "unat (blen wb) = 5 + length body" using d assms(6) by simp
  have up: "unat (of_nat pad :: u32) = pad" using pf(2) by (intro unat_of_nat_u32) simp
  have lenfield: "blen wb + of_nat pad - 4 = of_nat (1 + length body + pad)" using bw by simp
  obtain wb1 where w1: "buf_setpos wb 0 = Inr wb1" "buf_is wb1 (w @ body) 0 n"
    using buf_is_setpos [OF assms(5), of 0] by auto
  have bl1: "blen wb1 = blen wb" using w1(1) by (auto simp: buf_setpos_def)
  obtain wb2 where w2: "buf_putint wb1 (of_nat (1 + length body + pad)) = Inr wb2"
    "buf_is wb2 (blit (w @ body) 0 (STORE32H (of_nat (1 + length body + pad)))) 4 n"
    using buf_is_putint [OF w1(2)] d assms(6) by fastforce
  obtain wb3 where w3: "buf_putbyte wb2 (byte_of pad) = Inr wb3"
    "buf_is wb3 (blit (blit (w @ body) 0 (STORE32H (of_nat (1 + length body + pad)))) 4 [byte_of pad]) 5 n"
    using buf_is_putbyte [OF w2(2)] d assms(6) by fastforce
  have c3: "blit (blit (w @ body) 0 (STORE32H v)) 4 [x] = STORE32H v @ [x] @ body" for v x
    using assms(6) by (simp add: blit_def)
  note i3 = w3(2) [unfolded c3]
  have l3: "unat (blen wb3) = 5 + length body" using buf_isD(5) [OF i3] by simp
  obtain wb4 where w4: "buf_setpos wb3 (blen wb3) = Inr wb4"
    "buf_is wb4 (STORE32H (of_nat (1 + length body + pad)) @ [byte_of pad] @ body) (5 + length body) n"
    using buf_is_setpos [OF i3, of "blen wb3"] l3 by auto
  obtain wb5 junk where w5: "buf_incrlen wb4 (of_nat pad) = Inr wb5" "length junk = pad"
    "buf_is wb5 ((STORE32H (of_nat (1 + length body + pad)) @ [byte_of pad] @ body) @ junk) (5 + length body) n"
    using buf_is_incrlen [OF w4(2), of "of_nat pad"] up pf(2) assms(8) by auto
  have gp: "buf_getptr wb5 (of_nat pad) = Inr (5 + length body)"
    using buf_is_getptr [OF w5(3), of "of_nat pad"] up w5(2) by simp
  obtain dd where w6: "mem_write (bdata wb5) (5 + length body) ?rnd = Inr dd"
    "buf_is (wb5\<lparr>bdata := dd\<rparr>) (blit ((STORE32H (of_nat (1 + length body + pad)) @ [byte_of pad] @ body) @ junk)
       (5 + length body) ?rnd) (5 + length body) n"
    using buf_is_mem_write [OF w5(3), of "5 + length body" ?rnd] w5(2) by auto
  have "blit ((STORE32H (of_nat (1 + length body + pad)) @ [byte_of pad] @ body) @ junk) (5 + length body) ?rnd
      = clear_packet body ?rnd"
    using w5(2) by (simp add: blit_def clear_packet_def)
  then have i6: "buf_is (wb5\<lparr>bdata := dd\<rparr>) (clear_packet body ?rnd) (5 + length body) n" using w6(2) by simp
  have "bs \<noteq> 0" using assms(4) by (auto simp: block_ok_def)
  then have "put_padding wb s = Inr (wb5\<lparr>bdata := dd\<rparr>, s\<lparr>world := w'\<rparr>)"
    using w1(1) w2(1) w3(1) w4(1) w5(1) w6(1) gp gr ul lenfield bl1
    unfolding put_padding_def Let_def bs_def [symmetric] aead_def [symmetric]
    by (simp add: pad_def [symmetric])
  then show thesis using that gr i6 by blast
qed

text \<open>The MAC that goes on the wire.\<close>

definition packet_mac :: "libtomcrypt \<Rightarrow> key_context_directional \<Rightarrow> u32 \<Rightarrow> byte list \<Rightarrow> byte list" where
  "packet_mac lib k seqno bytes =
     (if hashsize (algo_mac k) > 0
      then take (hashsize (algo_mac k)) (the (hmac lib (hash_index k) (take (hkeysize (algo_mac k)) (mackey k)) (STORE32H seqno @ bytes)))
      else [])"

lemma length_packet_mac: "mac_ok lib k \<Longrightarrow> length (packet_mac lib k seqno bytes) = hashsize (algo_mac k)"
proof -
  assume ok: "mac_ok lib k"
  have "hashsize (algo_mac k) > 0 \<Longrightarrow> \<exists>out. hmac lib (hash_index k) (take (hkeysize (algo_mac k)) (mackey k))
      (STORE32H seqno @ bytes) = Some out \<and> hashsize (algo_mac k) \<le> length out"
    using ok unfolding mac_ok_def by blast
  then show ?thesis by (auto simp: packet_mac_def)
qed

lemma make_mac_ok:
  assumes "mac_ok (libtom s) k" and "buf_is b c p n" and "unat l \<le> length c"
  obtains mac b' where "make_mac s seqno k b l = Inr (mac, b')" "length mac = 64"
    "take (hashsize (algo_mac k)) mac = packet_mac (libtom s) k seqno (take (unat l) c)"
    "\<exists>q. buf_is b' c q n"
proof (cases "hashsize (algo_mac k) > 0")
  case False
  then show thesis using that [of "replicate 64 (CHR 0x00)" b] assms(2)
    by (auto simp: make_mac_def packet_mac_def MAX_MAC_LEN_def)
next
  case True
  let ?key = "take (hkeysize (algo_mac k)) (mackey k)" and ?bytes = "STORE32H seqno @ take (unat l) c"
  obtain out where out: "hmac (libtom s) (hash_index k) ?key ?bytes = Some out"
    "hashsize (algo_mac k) \<le> length out" "length out \<le> 64"
    using assms(1) True unfolding mac_ok_def MAX_MAC_LEN_def by blast
  have key: "mem_read (mackey k) 0 (hkeysize (algo_mac k)) = Inr ?key"
    using assms(1) True by (simp add: mac_ok_def mem_read_def)
  obtain b1 where b1: "buf_setpos b 0 = Inr b1" "buf_is b1 c 0 n"
    using buf_is_setpos [OF assms(2), of 0] by auto
  have peek: "buf_peek b1 l = Inr (take (unat l) c)" using buf_is_peek [OF b1(2), of l] assms(3) by simp
  let ?mac = "blit (replicate 64 (CHR 0x00)) 0 out"
  have mw: "mem_write (replicate 64 (CHR 0x00)) 0 out = Inr ?mac" using out(3) by (intro mem_write_eq) simp
  have "make_mac s seqno k b l = Inr (?mac, b1)"
    using True key b1(1) peek out(1) mw by (simp add: make_mac_def MAX_MAC_LEN_def)
  moreover have "take (hashsize (algo_mac k)) ?mac = packet_mac (libtom s) k seqno (take (unat l) c)"
    using True out by (simp add: packet_mac_def blit_def)
  ultimately show thesis using that [of ?mac b1] b1(2) out(3) by auto
qed

lemma seal_packet_ok:
  fixes s :: sshsession
  defines "k \<equiv> trans (keys s)"
  assumes "trans_ok s" and "buf_is wb c p n" and "length c + hashsize (algo_mac k) \<le> n"
  obtains wb' ct st where "seal_packet wb s = Inr (wb', upd_trans (\<lambda>k. k\<lparr>cipher_state := st\<rparr>) s)"
    "buf_is wb' ct (length ct) n" "length ct = length c + hashsize (algo_mac k)"
    "aead_crypt (crypt_mode k) = None \<Longrightarrow> \<exists>e. cm_encrypt (crypt_mode k) c (cipher_state k) = Some (e, st)
       \<and> ct = e @ packet_mac (libtom s) k (transseq s) c"
    "\<And>f. aead_crypt (crypt_mode k) = Some f \<Longrightarrow>
       f (transseq s) c (length c) (hashsize (algo_mac k)) (cipher_state k) True = Some (ct, st)"
proof -
  let ?m = "hashsize (algo_mac k)"
  have mok: "mac_ok (libtom s) k" using trans_okD(2) [OF assms(2)] by (simp add: k_def)
  have m: "?m \<le> 64" using trans_okD(4) [OF assms(2)] by (simp add: k_def)
  have um: "unat (of_nat ?m :: u32) = ?m" using m by (intro unat_of_nat_u32) simp
  note d = buf_isD [OF assms(3)]
  show thesis
  proof (cases "aead_crypt (crypt_mode k)")
    case (Some f)
    obtain out st where f: "f (transseq s) c (length c) ?m (cipher_state k) True = Some (out, st)"
      "length out = length c + ?m"
    proof -
      have "\<forall>seq inp tag st. \<exists>out st'. f seq inp (length inp) tag st True = Some (out, st') \<and> length out = length inp + tag"
        using assms(2) Some by (simp add: trans_ok_def trans_key_ok_def k_def)
      then show thesis using that by blast
    qed
    obtain wb1 where w1: "buf_setpos wb 0 = Inr wb1" "buf_is wb1 c 0 n" using buf_is_setpos [OF assms(3), of 0] by auto
    note d1 = buf_isD [OF w1(2)]
    obtain wb2 junk where w2: "buf_incrlen wb1 (of_nat ?m) = Inr wb2" "length junk = ?m" "buf_is wb2 (c @ junk) 0 n"
      using buf_is_incrlen [OF w1(2), of "of_nat ?m"] um assms(4) by auto
    have ul: "unat (blen wb1 + of_nat ?m) = length c + ?m"
      using d1 um assms(4) by (subst unat_add_below) simp_all
    have peek: "buf_peek wb2 (blen wb1) = Inr c" using buf_is_peek [OF w2(3), of "blen wb1"] d1 by simp
    have gw: "buf_getwriteptr wb2 (blen wb1 + of_nat ?m) = Inr 0"
      using buf_is_getwriteptr [OF w2(3), of "blen wb1 + of_nat ?m"] ul assms(4) by simp
    obtain dd where mw: "mem_write (bdata wb2) 0 out = Inr dd" "buf_is (wb2\<lparr>bdata := dd\<rparr>) (blit (c @ junk) 0 out) 0 n"
      using buf_is_mem_write [OF w2(3), of 0 out] f(2) w2(2) by auto
    have "blit (c @ junk) 0 out = out" using f(2) w2(2) by (simp add: blit_def)
    then obtain wb3 where w3: "buf_incrpos (wb2\<lparr>bdata := dd\<rparr>) (blen wb1 + of_nat ?m) = Inr wb3" "buf_is wb3 out (length out) n"
      using buf_is_incrpos [OF mw(2), of "blen wb1 + of_nat ?m"] ul f(2) by auto
    have "seal_packet wb s = Inr (wb3, upd_trans (\<lambda>k. k\<lparr>cipher_state := st\<rparr>) s)"
      using Some w1(1) w2(1) peek gw f(1) mw(1) w3(1) d1(5) unfolding seal_packet_def Let_def k_def [symmetric]
      by simp
    then show thesis using that [of wb3 st out] w3(2) f Some by simp
  next
    case None
    obtain out st where f: "cm_encrypt (crypt_mode k) c (cipher_state k) = Some (out, st)" "length out = length c"
    proof -
      have "cipher_ok (cm_encrypt (crypt_mode k))" using assms(2) None by (simp add: trans_ok_def trans_key_ok_def k_def)
      then show thesis using that unfolding cipher_ok_def by blast
    qed
    obtain mac wb0 q where mm: "make_mac s (transseq s) k wb (blen wb) = Inr (mac, wb0)" "length mac = 64"
      "take ?m mac = packet_mac (libtom s) k (transseq s) c" "buf_is wb0 c q n"
      using make_mac_ok [OF mok assms(3), of "blen wb" "transseq s"] d(5) by (metis take_all_iff order_refl)
    obtain wb1 where w1: "buf_setpos wb0 0 = Inr wb1" "buf_is wb1 c 0 n" using buf_is_setpos [OF mm(4), of 0] by auto
    note d1 = buf_isD [OF w1(2)]
    have peek: "buf_peek wb1 (blen wb1) = Inr c" using buf_is_peek [OF w1(2), of "blen wb1"] d1 by simp
    have gw: "buf_getwriteptr wb1 (blen wb1) = Inr 0"
      using buf_is_getwriteptr [OF w1(2), of "blen wb1"] d1 by simp
    obtain dd where mw: "mem_write (bdata wb1) 0 out = Inr dd" "buf_is (wb1\<lparr>bdata := dd\<rparr>) (blit c 0 out) 0 n"
      using buf_is_mem_write [OF w1(2), of 0 out] f(2) by auto
    have "blit c 0 out = out" using f(2) by (simp add: blit_def)
    then obtain wb2 where w2: "buf_incrpos (wb1\<lparr>bdata := dd\<rparr>) (blen wb1) = Inr wb2" "buf_is wb2 out (length out) n"
      using buf_is_incrpos [OF mw(2), of "blen wb1"] d1 f(2) by auto
    obtain wb3 where w3: "buf_putbytes wb2 mac (of_nat ?m) = Inr wb3"
      "buf_is wb3 (blit out (length out) (take ?m mac)) (length out + ?m) n"
      using buf_is_putbytes [OF w2(2), of "of_nat ?m" mac] um assms(4) f(2) mm(2) m by auto
    have ct: "blit out (length out) (take ?m mac) = out @ packet_mac (libtom s) k (transseq s) c"
      using mm(3) by (simp add: blit_at_end)
    have "seal_packet wb s = Inr (wb3, upd_trans (\<lambda>k. k\<lparr>cipher_state := st\<rparr>) s)"
      using None mm(1) w1(1) peek gw f(1) mw(1) w2(1) w3(1) unfolding seal_packet_def Let_def k_def [symmetric]
      by simp
    then show thesis using that [of wb3 st "out @ packet_mac (libtom s) k (transseq s) c"] w3(2) ct f None
        length_packet_mac [OF mok] by simp
  qed
qed

section \<open>Encrypting a packet succeeds\<close>

lemma trans_key_ok_stable:
  "trans_key_ok lt lz (k\<lparr>cipher_state := st\<rparr>) = trans_key_ok lt lz k"
  "trans_key_ok lt lz k \<Longrightarrow> (zstream k \<noteq> None \<Longrightarrow> z \<noteq> None) \<Longrightarrow> trans_key_ok lt lz (k\<lparr>zstream := z\<rparr>)"
  by (auto simp: trans_key_ok_def mac_ok_def cong: option.case_cong)

lemma upd_trans_simps [simp]:
  "writequeue (upd_trans f s) = writequeue s" "writequeue_len (upd_trans f s) = writequeue_len s"
  "transseq (upd_trans f s) = transseq s" "reply_queue (upd_trans f s) = reply_queue s"
  "reply_queue_len (upd_trans f s) = reply_queue_len s" "world (upd_trans f s) = world s"
  "writepayload (upd_trans f s) = writepayload s" "libtom (upd_trans f s) = libtom s"
  "trans (keys (upd_trans f s)) = f (trans (keys s))" "recv (keys (upd_trans f s)) = recv (keys s)"
  "dataallowed (upd_trans f s) = dataallowed s" "authstate (upd_trans f s) = authstate s"
  "kexstate (upd_trans f s) = kexstate s" "libz (upd_trans f s) = libz s"
  by (simp_all add: upd_trans_def)

lemma upd_kex_simps [simp]:
  "writequeue (upd_kex f s) = writequeue s" "writequeue_len (upd_kex f s) = writequeue_len s"
  "transseq (upd_kex f s) = transseq s" "reply_queue (upd_kex f s) = reply_queue s"
  "reply_queue_len (upd_kex f s) = reply_queue_len s" "world (upd_kex f s) = world s"
  "writepayload (upd_kex f s) = writepayload s" "keys (upd_kex f s) = keys s"
  "kexstate (upd_kex f s) = f (kexstate s)" "authstate (upd_kex f s) = authstate s"
  "dataallowed (upd_kex f s) = dataallowed s" "libtom (upd_kex f s) = libtom s" "libz (upd_kex f s) = libz s"
  by (simp_all add: upd_kex_def)

lemma count_sent_simps [simp]:
  "writequeue (count_sent pt s) = writequeue s" "transseq (count_sent pt s) = transseq s + 1"
  "reply_queue (count_sent pt s) = reply_queue s" "reply_queue_len (count_sent pt s) = reply_queue_len s"
  "writepayload (count_sent pt s) = writepayload s" "keys (count_sent pt s) = keys s"
  "kexstate (count_sent pt s) = kexstate s" "world (count_sent pt s) = world s"
  "writequeue_len (count_sent pt s) = writequeue_len s" "libtom (count_sent pt s) = libtom s" "libz (count_sent pt s) = libz s"
  by (simp_all add: count_sent_def Let_def)

text \<open>
  What a packet on the queue is, for a session and the payload it carries: the encryption of a
  clear packet whose body is the payload (compressed when compression is on) with a padding of
  the right length, and the MAC of the clear packet.
\<close>

definition sealed_packet :: "sshsession \<Rightarrow> byte list \<Rightarrow> byte list \<Rightarrow> bool" where
  "sealed_packet s c ct \<longleftrightarrow> (let k = trans (keys s) in \<exists>body rnd.
     body \<noteq> [] \<and> length body \<le> length c + 51 \<and> (\<not> is_compress_trans s \<longrightarrow> body = c)
     \<and> length rnd = pad_length (blocksize (algo_crypt k)) (aead_crypt (crypt_mode k) \<noteq> None) (5 + length body)
     \<and> length ct = 5 + length body + length rnd + hashsize (algo_mac k)
     \<and> (case aead_crypt (crypt_mode k) of
          None \<Rightarrow> \<exists>e st. cm_encrypt (crypt_mode k) (clear_packet body rnd) (cipher_state k) = Some (e, st)
            \<and> ct = e @ packet_mac (libtom s) k (transseq s) (clear_packet body rnd)
        | Some f \<Rightarrow> \<exists>st. f (transseq s) (clear_packet body rnd) (length (clear_packet body rnd))
            (hashsize (algo_mac k)) (cipher_state k) True = Some (ct, st)))"

lemma send_now_ok:
  assumes "trans_ok s" and "buf_is (writepayload s) c 0 16384" and "c \<noteq> []"
  obtains s' wb ct where "send_now pt s = Inr s'" "buf_is (writepayload s') [] 0 16384"
    "writequeue s' = writequeue s @ [wb]" "buf_content wb = ct" "buf_ok wb" "bpos wb = 0" "sealed_packet s c ct"
    "transseq s' = transseq s + 1" "reply_queue s' = reply_queue s" "reply_queue_len s' = reply_queue_len s"
    "trans_ok s'" "writequeue_len s' = writequeue_len s + of_nat (length ct)"
    "datatrans (kexstate s') = datatrans (kexstate s) + of_nat (length ct)"
proof -
  let ?k = "trans (keys s)"
  let ?m = "hashsize (algo_mac ?k)" and ?bs = "blocksize (algo_crypt ?k)" and ?aead = "aead_crypt (crypt_mode ?k) \<noteq> None"
  obtain wb1 w body wp z where p1:
    "put_payload s = Inr (wb1, (upd_trans (\<lambda>k. k\<lparr>zstream := z\<rparr>) s)\<lparr>writepayload := wp\<rparr>)"
    "buf_is wp [] 0 16384" "length w = 5" "body \<noteq> []" "length body \<le> length c + 51"
    "\<not> is_compress_trans s \<Longrightarrow> body = c" "zstream ?k \<noteq> None \<Longrightarrow> z \<noteq> None"
    "buf_is wb1 (w @ body) (5 + length body) (length c + 76 + ?m)"
    by (rule put_payload_ok [OF assms]) (rule that)
  define s1 where "s1 = (upd_trans (\<lambda>k. k\<lparr>zstream := z\<rparr>) s)\<lparr>writepayload := wp\<rparr>"
  have k1: "trans (keys s1) = ?k\<lparr>zstream := z\<rparr>" by (simp add: s1_def)
  have ok1: "trans_ok s1" using assms(1) trans_key_ok_stable(2) [OF _ p1(7)] by (simp add: trans_ok_def s1_def)
  have blk: "block_ok (blocksize (algo_crypt (trans (keys s1))))" using ok1 by (rule trans_okD)
  have room: "5 + length body + 19 \<le> length c + 76 + ?m" using p1(5) by simp
  let ?pad = "pad_length ?bs ?aead (5 + length body)"
  let ?rnd = "map (entropy (world s)) [0..<?pad]"
  obtain wb2 w2 where pad: "put_padding wb1 s1 = Inr (wb2, s1\<lparr>world := w2\<rparr>)"
    "buf_is wb2 (clear_packet body (map (entropy (world s1)) [0..<pad_length (blocksize (algo_crypt (trans (keys s1))))
       (aead_crypt (crypt_mode (trans (keys s1))) \<noteq> None) (5 + length body)])) (5 + length body) (length c + 76 + ?m)"
    by (rule put_padding_ok [OF blk p1(8,3,4) room]) (rule that)
  have e1: "entropy (world s1) = entropy (world s)" by (simp add: s1_def)
  have kf: "blocksize (algo_crypt (trans (keys s1))) = ?bs" "crypt_mode (trans (keys s1)) = crypt_mode ?k"
    using k1 by simp_all
  note p2 = pad(1) pad(2) [unfolded e1 kf]
  define s2 where "s2 = s1\<lparr>world := w2\<rparr>"
  have ok2: "trans_ok s2" using ok1 by (simp add: trans_ok_def s2_def)
  have k2: "trans (keys s2) = ?k\<lparr>zstream := z\<rparr>" using k1 by (simp add: s2_def)
  have pf: "?pad \<le> 19" using pad_length_facts(2) [OF trans_okD(1) [OF assms(1)], of "5 + length body" ?aead] p1(4)
    by (cases body) auto
  have room2: "length (clear_packet body ?rnd) + hashsize (algo_mac (trans (keys s2))) \<le> length c + 76 + ?m"
    using pf p1(5) by (simp add: k2)
  obtain wb3 ct st where p3: "seal_packet wb2 s2 = Inr (wb3, upd_trans (\<lambda>k. k\<lparr>cipher_state := st\<rparr>) s2)"
    "buf_is wb3 ct (length ct) (length c + 76 + ?m)"
    "length ct = length (clear_packet body ?rnd) + hashsize (algo_mac (trans (keys s2)))"
    "aead_crypt (crypt_mode (trans (keys s2))) = None \<Longrightarrow>
       \<exists>e. cm_encrypt (crypt_mode (trans (keys s2))) (clear_packet body ?rnd) (cipher_state (trans (keys s2))) = Some (e, st)
       \<and> ct = e @ packet_mac (libtom s2) (trans (keys s2)) (transseq s2) (clear_packet body ?rnd)"
    "\<And>f. aead_crypt (crypt_mode (trans (keys s2))) = Some f \<Longrightarrow>
       f (transseq s2) (clear_packet body ?rnd) (length (clear_packet body ?rnd))
         (hashsize (algo_mac (trans (keys s2)))) (cipher_state (trans (keys s2))) True = Some (ct, st)"
    by (rule seal_packet_ok [OF ok2 p2(2) room2]) (rule that)
  define s3 where "s3 = upd_trans (\<lambda>k. k\<lparr>cipher_state := st\<rparr>) s2"
  have eq: "libtom s2 = libtom s" "transseq s2 = transseq s" by (simp_all add: s2_def s1_def)
  have mac: "packet_mac lt (?k\<lparr>zstream := z\<rparr>) q bs = packet_mac lt ?k q bs" for lt q bs by (simp add: packet_mac_def)
  have sealed: "sealed_packet s c ct"
    unfolding sealed_packet_def Let_def
    using p1(4-6) p3(3-5) by (intro exI [of _ body] exI [of _ ?rnd])
      (auto simp: k2 eq mac split: option.splits)
  obtain wb4 where p4: "buf_setpos wb3 0 = Inr wb4" "buf_is wb4 ct 0 (length c + 76 + ?m)"
    using buf_is_setpos [OF p3(2), of 0] by auto
  note d4 = buf_isD [OF p4(2)] and w3 = buf_is_words [OF p3(2)] and w4 = buf_is_words [OF p4(2)]
  let ?s4 = "(upd_kex (\<lambda>k. k\<lparr>datatrans := datatrans k + blen wb3\<rparr>) s3)\<lparr>writequeue := writequeue s3 @ [wb4],
      writequeue_len := writequeue_len s3 + blen wb4\<rparr>"
  have run: "send_now pt s = Inr (count_sent pt ?s4)"
    using p1(1) p2(1) p3(1) p4(1) by (simp add: send_now_def s1_def [symmetric] s2_def [symmetric] s3_def [symmetric]
        writebuf_enqueue_def)
  show thesis
  proof (rule that [OF run])
    show "trans_ok (count_sent pt ?s4)" using ok2 trans_key_ok_stable(1) by (simp add: trans_ok_def s3_def)
    show "sealed_packet s c ct" by (rule sealed)
  qed (use d4 w3 w4 p1(2) in \<open>simp_all add: s3_def s2_def s1_def\<close>)
qed

lemma encrypt_packet_type:
  assumes "payload_ready s c" and "c \<noteq> []"
  obtains wp where "buf_is wp c 0 16384"
    "encrypt_packet s = (if \<not> dataallowed s \<and> \<not> packet_is_okay_kex (byte_val (hd c))
       then enqueue_reply_packet (s\<lparr>writepayload := wp\<rparr>) else send_now (byte_val (hd c)) (s\<lparr>writepayload := wp\<rparr>))"
proof -
  obtain p where p: "buf_is (writepayload s) c p 16384" using assms(1) by (auto simp: payload_ready_def)
  obtain w1 where w1: "buf_setpos (writepayload s) 0 = Inr w1" "buf_is w1 c 0 16384"
    using buf_is_setpos [OF p, of 0] by auto
  obtain w2 where w2: "buf_getbyte w1 = Inr (c ! 0, w2)" "buf_is w2 c 1 16384"
    using buf_is_getbyte [OF w1(2)] assms(2) by auto
  obtain w3 where w3: "buf_setpos w2 0 = Inr w3" "buf_is w3 c 0 16384"
    using buf_is_setpos [OF w2(2), of 0] by auto
  show thesis using that [OF w3(2)] w1(1) w2(1) w3(1) assms(2)
    by (simp add: encrypt_packet_def Let_def hd_conv_nth)
qed

lemma sealed_packet_cong: "sealed_packet (s\<lparr>writepayload := wp\<rparr>) c ct = sealed_packet s c ct"
proof -
  have "is_compress_trans (s\<lparr>writepayload := wp\<rparr>) = is_compress_trans s" by (simp add: is_compress_trans_def)
  then show ?thesis unfolding sealed_packet_def Let_def by (simp cong: option.case_cong)
qed

lemma encrypt_packet_now:
  assumes "trans_ok s" and "payload_ready s c" and "c \<noteq> []"
    and "dataallowed s \<or> packet_is_okay_kex (byte_val (hd c))"
  obtains s' wb where "encrypt_packet s = Inr s'" "payload_ready s' []" "trans_ok s'"
    "writequeue s' = writequeue s @ [wb]" "buf_ok wb" "bpos wb = 0" "sealed_packet s c (buf_content wb)"
    "transseq s' = transseq s + 1" "reply_queue s' = reply_queue s" "reply_queue_len s' = reply_queue_len s"
    "unwired s' = unwired s"
proof -
  obtain wp where wp: "buf_is wp c 0 16384" "encrypt_packet s = send_now (byte_val (hd c)) (s\<lparr>writepayload := wp\<rparr>)"
    using encrypt_packet_type [OF assms(2,3)] assms(4) by (metis (full_types))
  have ok: "trans_ok (s\<lparr>writepayload := wp\<rparr>)" using assms(1) by (simp add: trans_ok_def)
  have w: "buf_is (writepayload (s\<lparr>writepayload := wp\<rparr>)) c 0 16384" using wp(1) by simp
  obtain s' wb ct where r: "send_now (byte_val (hd c)) (s\<lparr>writepayload := wp\<rparr>) = Inr s'"
    "buf_is (writepayload s') [] 0 16384" "writequeue s' = writequeue (s\<lparr>writepayload := wp\<rparr>) @ [wb]" "buf_content wb = ct"
    "buf_ok wb" "bpos wb = 0" "sealed_packet (s\<lparr>writepayload := wp\<rparr>) c ct"
    "transseq s' = transseq (s\<lparr>writepayload := wp\<rparr>) + 1" "reply_queue s' = reply_queue (s\<lparr>writepayload := wp\<rparr>)"
    "reply_queue_len s' = reply_queue_len (s\<lparr>writepayload := wp\<rparr>)" "trans_ok s'"
    by (rule send_now_ok [OF ok w assms(3)]) (rule that)
  have e: "encrypt_packet s = Inr s'" using wp(2) r(1) by simp
  show thesis using that [OF e] r encrypt_packet_wire [OF e]
    by (auto simp: payload_ready_def sealed_packet_cong)
qed

lemma buf_is_newcopy:
  assumes "buf_is b c p n"
  shows "\<exists>b'. buf_newcopy b = Inr b' \<and> buf_is b' c 0 (length c)"
proof -
  note d = buf_isD [OF assms] and k = buf_ok_nat [OF buf_isD(1) [OF assms]]
  have len: "unat (blen b) \<le> 1000000000" using d by simp
  have z: "blen b = 0 \<longleftrightarrow> c = []" using d(5) by (metis length_0_conv unat_eq_zero)
  have "mem_read (bdata b) 0 (unat (blen b)) = Inr c"
    using d k by (simp add: mem_read_def)
  moreover have "mem_write (replicate (length c) (CHR 0x00)) 0 c = Inr c"
    by (simp add: mem_write_def blit_def)
  moreover have "buf_is \<lparr>bdata = c, blen = blen b, bpos = 0, bsize = blen b\<rparr> c 0 (length c)"
    using d by (auto simp: buf_is_def buf_content_def intro!: buf_okI)
  ultimately show ?thesis using d(5) len z
    by (auto simp: buf_newcopy_def buf_new_Inr word_gt_0 buf_is_def buf_content_def)
qed

lemma encrypt_packet_deferred:
  assumes "payload_ready s c" and "c \<noteq> []" and "\<not> dataallowed s" and "\<not> packet_is_okay_kex (byte_val (hd c))"
    and "reply_queue_len s \<le> MAX_DEFER_REPLY_QUEUE"
  obtains s' r where "encrypt_packet s = Inr s'" "payload_ready s' []"
    "reply_queue s' = reply_queue s @ [r]" "buf_is r c 0 (length c)" "reply_queue_len s' = reply_queue_len s + 1"
    "writequeue s' = writequeue s" "transseq s' = transseq s" "unwired s' = unwired s" "keys s' = keys s"
proof -
  obtain wp where wp: "buf_is wp c 0 16384" "encrypt_packet s = enqueue_reply_packet (s\<lparr>writepayload := wp\<rparr>)"
    using encrypt_packet_type [OF assms(1,2)] assms(3,4) by (metis (full_types))
  obtain r where r: "buf_newcopy wp = Inr r" "buf_is r c 0 (length c)" using buf_is_newcopy [OF wp(1)] by blast
  obtain w1 w2 where w: "buf_setpos wp 0 = Inr w1" "buf_setlen w1 0 = Inr w2" "buf_is w2 [] 0 16384"
    using wp(1) by (rule buf_is_clear)
  let ?s = "s\<lparr>writepayload := w2, reply_queue := reply_queue s @ [r], reply_queue_len := reply_queue_len s + 1\<rparr>"
  have e: "encrypt_packet s = Inr ?s" using wp(2) r(1) w(1,2) assms(5) by (simp add: enqueue_reply_packet_def)
  show thesis by (rule that [OF e _ _ r(2)]) (use w(3) in \<open>auto simp: payload_ready_def wire_simps\<close>)
qed

section \<open>Properties of sending\<close>

text \<open>A message is put into the payload buffer and sent.\<close>

definition send_message :: "byte list \<Rightarrow> sshsession \<Rightarrow> sshsession res" where
  "send_message c s = bindr (on_write (\<lambda>b. buf_putbytes b c (of_nat (length c))) s) encrypt_packet"

lemma put_message:
  assumes "buf_is (writepayload s) [] p 16384" and "length c \<le> 16384"
  obtains b where "on_write (\<lambda>b. buf_putbytes b c (of_nat (length c))) s = Inr (s\<lparr>writepayload := b\<rparr>)"
    "payload_ready (s\<lparr>writepayload := b\<rparr>) c"
proof -
  have u: "unat (of_nat (length c) :: u32) = length c" using assms(2) by (intro unat_of_nat_u32) simp
  have p: "p = 0" using buf_isD(6) [OF assms(1)] by simp
  obtain b where "buf_putbytes (writepayload s) c (of_nat (length c)) = Inr b" "buf_is b (blit [] 0 c) (length c) 16384"
    using buf_is_putbytes [OF assms(1), of "of_nat (length c)" c] u assms(2) p by auto
  then show thesis using that [of b] by (auto simp: on_write_def payload_ready_def blit_def)
qed

lemma payload_ready_empty: "payload_ready s [] \<longleftrightarrow> (\<exists>p. buf_is (writepayload s) [] p 16384)"
  by (simp add: payload_ready_def)

lemma sealed_packet_sizes:
  assumes "trans_ok s" and "sealed_packet s c ct"
  obtains len pad where "length ct = len + hashsize (algo_mac (trans (keys s)))" "16 \<le> len"
    "(if aead_crypt (crypt_mode (trans (keys s))) \<noteq> None then len - 4 else len) mod blocksize (algo_crypt (trans (keys s))) = 0"
    "4 \<le> pad" "pad \<le> 255" "\<not> is_compress_trans s \<Longrightarrow> len = 4 + 1 + length c + pad"
proof -
  let ?bs = "blocksize (algo_crypt (trans (keys s)))" and ?a = "aead_crypt (crypt_mode (trans (keys s))) \<noteq> None"
  obtain body rnd :: "byte list" where b: "body \<noteq> []" "\<not> is_compress_trans s \<longrightarrow> body = c"
    "length rnd = pad_length ?bs ?a (5 + length body)"
    "length ct = 5 + length body + length rnd + hashsize (algo_mac (trans (keys s)))"
    using assms(2) unfolding sealed_packet_def Let_def by (elim exE conjE) (rule that)
  have six: "6 \<le> 5 + length body" using b(1) by (cases body) auto
  note f = pad_length_facts [OF trans_okD(1) [OF assms(1)] six, of ?a, folded b(3)]
  have "(if ?a then 5 + length body + length rnd - 4 else 5 + length body + length rnd) mod ?bs = 0"
    using f(4) by (auto split: if_splits)
  then show thesis using that [of "5 + length body + length rnd" "length rnd"] b(2,4) f(1-3) by simp
qed


lemma no_algos_ok [simp]: "trans_key_ok lt lz no_algos"
  by (simp add: trans_key_ok_def no_algos_def block_ok_def mac_ok_def cipher_ok_def void_cipher_def
      dropbear_nocipher_def dropbear_mode_none_def dropbear_nohash_def)

lemma plain_session_ok: "trans_ok plain_session" "payload_ready plain_session []"
proof -
  show "trans_ok plain_session"
    by (simp add: trans_ok_def plain_session_def zero_session_def no_keys_def)
  have "buf_is \<lparr>bdata = replicate 16384 (CHR 0x00), blen = 0, bpos = 0, bsize = 16384\<rparr> [] 0 16384"
    by (auto simp: buf_is_def buf_content_def intro!: buf_okI)
  then show "payload_ready plain_session []" by (auto simp: payload_ready_def plain_session_def)
qed

lemma plain_session_simps [simp]:
  "dataallowed plain_session" "writequeue plain_session = []" "keys plain_session = no_keys"
  "reply_queue plain_session = []" "reply_queue_len plain_session = 0"
  by (simp_all add: plain_session_def zero_session_def)

lemma no_keys_simps [simp]:
  "trans no_keys = no_algos" "recv no_keys = no_algos" "blocksize (algo_crypt no_algos) = 8"
  "aead_crypt (crypt_mode no_algos) = None" "hashsize (algo_mac no_algos) = 0"
  "algo_comp no_algos = DROPBEAR_COMP_NONE"
  by (simp_all add: no_keys_def no_algos_def dropbear_nohash_def dropbear_nocipher_def dropbear_mode_none_def)

lemma plain_session_message:
  assumes "length c \<le> 16384"
  obtains b where "trans_ok (plain_session\<lparr>writepayload := b\<rparr>)" "payload_ready (plain_session\<lparr>writepayload := b\<rparr>) c"
proof -
  obtain p where "buf_is (writepayload plain_session) [] p 16384" using plain_session_ok(2) by (auto simp: payload_ready_empty)
  then obtain b where "payload_ready (plain_session\<lparr>writepayload := b\<rparr>) c"
    by (rule put_message [OF _ assms])
  then show thesis using that [of b] plain_session_ok(1) by (simp add: trans_ok_def)
qed


text \<open>
  A run of messages: each is put into the payload buffer and sent. During a key exchange they go
  to the reply queue; when data is allowed again, \<open>maybe_flush_reply_queue\<close> sends them.
\<close>

fun send_messages :: "byte list list \<Rightarrow> sshsession \<Rightarrow> sshsession res" where
  "send_messages [] s = Inr s"
| "send_messages (c # cs) s = bindr (send_message c s) (send_messages cs)"

text \<open>The packets that a list of messages becomes from a session on, one after the other.\<close>

fun sealed_packets :: "sshsession \<Rightarrow> u32 \<Rightarrow> byte list list \<Rightarrow> buffer list \<Rightarrow> bool" where
  "sealed_packets u n [] ps \<longleftrightarrow> ps = []"
| "sealed_packets u n (c # cs) ps \<longleftrightarrow> (\<exists>p ps' t. ps = p # ps' \<and> unwired t = u \<and> transseq t = n
     \<and> sealed_packet t c (buf_content p) \<and> sealed_packets u (n + 1) cs ps')"

lemma length_sealed_packets: "sealed_packets u n cs ps \<Longrightarrow> length ps = length cs"
  by (induction cs arbitrary: n ps) auto

definition held :: "byte list list \<Rightarrow> buffer list \<Rightarrow> bool" where
  "held cs rs \<longleftrightarrow> list_all2 (\<lambda>c r. buf_is r c 0 (length c)) cs rs"

definition message_ok :: "byte list \<Rightarrow> bool" where
  "message_ok c \<longleftrightarrow> c \<noteq> [] \<and> length c \<le> 16384"

lemma messages_deferred:
  assumes "payload_ready s []" and "\<not> dataallowed s"
    and "\<forall>c\<in>set cs. message_ok c \<and> \<not> packet_is_okay_kex (byte_val (hd c))"
    and "reply_queue_len s + length cs \<le> 1001"
  obtains s' rs where "send_messages cs s = Inr s'" "payload_ready s' []" "reply_queue s' = reply_queue s @ rs"
    "held cs rs" "writequeue s' = writequeue s" "transseq s' = transseq s" "unwired s' = unwired s" "keys s' = keys s"
  using assms
proof (induction cs arbitrary: s thesis)
  case Nil
  show ?case by (rule Nil.prems(1) [of s "[]"]) (use Nil.prems in \<open>simp_all add: held_def\<close>)
next
  case (Cons c cs)
  have c: "message_ok c" "\<not> packet_is_okay_kex (byte_val (hd c))" using Cons.prems(4) by auto
  obtain p where p: "buf_is (writepayload s) [] p 16384" using Cons.prems(2) by (auto simp: payload_ready_empty)
  obtain b where b: "on_write (\<lambda>b. buf_putbytes b c (of_nat (length c))) s = Inr (s\<lparr>writepayload := b\<rparr>)"
    "payload_ready (s\<lparr>writepayload := b\<rparr>) c"
    by (rule put_message [OF p]) (use c in \<open>auto simp: message_ok_def\<close>)
  have ne: "c \<noteq> []" using c by (simp add: message_ok_def)
  have nd: "\<not> dataallowed (s\<lparr>writepayload := b\<rparr>)" using Cons.prems(3) by simp
  have q: "reply_queue_len (s\<lparr>writepayload := b\<rparr>) \<le> MAX_DEFER_REPLY_QUEUE"
    using Cons.prems(5) by (simp add: MAX_DEFER_REPLY_QUEUE_def)
  obtain s1 r where s1: "encrypt_packet (s\<lparr>writepayload := b\<rparr>) = Inr s1" "payload_ready s1 []"
    "reply_queue s1 = reply_queue (s\<lparr>writepayload := b\<rparr>) @ [r]" "buf_is r c 0 (length c)"
    "reply_queue_len s1 = reply_queue_len (s\<lparr>writepayload := b\<rparr>) + 1"
    "writequeue s1 = writequeue (s\<lparr>writepayload := b\<rparr>)" "transseq s1 = transseq (s\<lparr>writepayload := b\<rparr>)"
    "unwired s1 = unwired (s\<lparr>writepayload := b\<rparr>)" "keys s1 = keys (s\<lparr>writepayload := b\<rparr>)"
    by (rule encrypt_packet_deferred [OF b(2) ne nd c(2) q]) (rule that)
  have u: "unwired s1 = unwired s" using s1(8) by (simp add: wire_simps)
  have nd1: "\<not> dataallowed s1" using unwiredD(8) [OF u] Cons.prems(3) by simp
  obtain s' rs where r: "send_messages cs s1 = Inr s'" "payload_ready s' []" "reply_queue s' = reply_queue s1 @ rs"
    "held cs rs" "writequeue s' = writequeue s1" "transseq s' = transseq s1" "unwired s' = unwired s1" "keys s' = keys s1"
    by (rule Cons.IH [OF _ s1(2) nd1]) (use Cons.prems(4,5) s1(5) in auto)
  show ?case
    by (rule Cons.prems(1) [of s' "r # rs"]) (use b(1) s1 r u in \<open>simp_all add: send_message_def held_def\<close>)
qed

lemma messages_flushed:
  assumes "held cs rs" and "\<forall>c\<in>set cs. message_ok c" and "payload_ready s []" and "trans_ok s" and "dataallowed s"
  obtains s' ps where "flush_replies rs s = Inr s'" "payload_ready s' []" "trans_ok s'" "unwired s' = unwired s"
    "writequeue s' = writequeue s @ ps" "sealed_packets (unwired s) (transseq s) cs ps"
    "transseq s' = transseq s + of_nat (length cs)"
  using assms
proof (induction cs arbitrary: rs s thesis)
  case Nil
  show ?case by (rule Nil.prems(1) [of s "[]"]) (use Nil.prems in \<open>simp_all add: held_def\<close>)
next
  case (Cons c cs)
  obtain r rs' where rs: "rs = r # rs'" "buf_is r c 0 (length c)" "held cs rs'"
    using Cons.prems(2) by (auto simp: held_def list_all2_Cons1)
  have c: "message_ok c" using Cons.prems(3) by auto
  obtain p where p: "buf_is (writepayload s) [] p 16384" using Cons.prems(4) by (auto simp: payload_ready_empty)
  have p0: "p = 0" using buf_isD(6) [OF p] by simp
  note rd = buf_isD [OF rs(2)]
  obtain b where b: "buf_putbytes (writepayload s) (bdata r) (blen r) = Inr b" "buf_is b c (length c) 16384"
    using buf_is_putbytes [OF p, of "blen r" "bdata r"] rd c buf_ok_nat [OF rd(1)] p0
    by (auto simp: message_ok_def blit_def)
  have w: "on_write (\<lambda>b. buf_putbytes b (bdata r) (blen r)) s = Inr (s\<lparr>writepayload := b\<rparr>)"
    using b(1) by (simp add: on_write_def)
  have ready: "payload_ready (s\<lparr>writepayload := b\<rparr>) c" using b(2) by (auto simp: payload_ready_def)
  have ok: "trans_ok (s\<lparr>writepayload := b\<rparr>)" using Cons.prems(5) by (simp add: trans_ok_def)
  have ne: "c \<noteq> []" using c by (simp add: message_ok_def)
  have da: "dataallowed (s\<lparr>writepayload := b\<rparr>) \<or> packet_is_okay_kex (byte_val (hd c))" using Cons.prems(6) by simp
  obtain s1 wb where s1: "encrypt_packet (s\<lparr>writepayload := b\<rparr>) = Inr s1" "payload_ready s1 []" "trans_ok s1"
    "writequeue s1 = writequeue (s\<lparr>writepayload := b\<rparr>) @ [wb]" "buf_ok wb" "bpos wb = 0"
    "sealed_packet (s\<lparr>writepayload := b\<rparr>) c (buf_content wb)"
    "transseq s1 = transseq (s\<lparr>writepayload := b\<rparr>) + 1" "reply_queue s1 = reply_queue (s\<lparr>writepayload := b\<rparr>)"
    "reply_queue_len s1 = reply_queue_len (s\<lparr>writepayload := b\<rparr>)" "unwired s1 = unwired (s\<lparr>writepayload := b\<rparr>)"
    by (rule encrypt_packet_now [OF ok ready ne da]) (rule that)
  have u: "unwired s1 = unwired s" using s1(11) by (simp add: wire_simps)
  have da1: "dataallowed s1" using unwiredD(8) [OF u] Cons.prems(6) by simp
  obtain s' ps where r: "flush_replies rs' s1 = Inr s'" "payload_ready s' []" "trans_ok s'" "unwired s' = unwired s1"
    "writequeue s' = writequeue s1 @ ps" "sealed_packets (unwired s1) (transseq s1) cs ps"
    "transseq s' = transseq s1 + of_nat (length cs)"
    by (rule Cons.IH [OF _ rs(3) _ s1(2,3) da1]) (use Cons.prems(3) in auto)
  have "sealed_packets (unwired s) (transseq s) (c # cs) (wb # ps)"
    using s1(7,8) r(6) u by (auto simp: sealed_packet_cong intro!: exI [of _ s])
  then show ?case
    by (intro Cons.prems(1) [of s' "wb # ps"]) (use rs(1) w s1 r u in simp_all)
qed

lemma unwired_rekey:
  "unwired (s\<lparr>dataallowed := d, keys := (keys s)\<lparr>trans := k\<rparr>\<rparr>) =
     (unwired s)\<lparr>dataallowed := d, keys := (keys (unwired s))\<lparr>trans := k\<lparr>cipher_state := [], zstream := None\<rparr>\<rparr>\<rparr>"
  by (simp add: unwired_def)



section \<open>Filling the payload buffer\<close>

definition payload_at :: "sshsession \<Rightarrow> byte list \<Rightarrow> bool" where
  "payload_at s c \<longleftrightarrow> buf_is (writepayload s) c (length c) 16384"

lemma payload_at_ready: "payload_at s c \<Longrightarrow> payload_ready s c"
  by (auto simp: payload_at_def payload_ready_def)

lemma payload_at_empty: "payload_at s [] \<longleftrightarrow> payload_ready s []"
proof
  assume "payload_ready s []"
  then obtain p where p: "buf_is (writepayload s) [] p 16384" by (auto simp: payload_ready_def)
  then show "payload_at s []" using buf_isD(6) [OF p] by (simp add: payload_at_def)
qed (rule payload_at_ready)

named_theorems fills \<open>writing at the end of the payload buffer\<close>

lemma put_byte_at [fills]:
  assumes "payload_at s c" and "length c + 1 \<le> 16384"
  shows "\<exists>b. put_byte n s = Inr (s\<lparr>writepayload := b\<rparr>) \<and> payload_at (s\<lparr>writepayload := b\<rparr>) (c @ [byte_of n])"
  using buf_is_putbyte [OF assms(1) [unfolded payload_at_def], of "byte_of n"] assms(2)
  by (auto simp: put_byte_def on_write_def payload_at_def blit_at_end)

lemma put_int_at [fills]:
  assumes "payload_at s c" and "length c + 4 \<le> 16384"
  shows "\<exists>b. put_int v s = Inr (s\<lparr>writepayload := b\<rparr>) \<and> payload_at (s\<lparr>writepayload := b\<rparr>) (c @ STORE32H v)"
  using buf_is_putint [OF assms(1) [unfolded payload_at_def], of v] assms(2)
  by (auto simp: put_int_def on_write_def payload_at_def blit_at_end)

lemma put_string_at [fills]:
  assumes "payload_at s c" and "length c + 4 + length str \<le> 16384"
  shows "\<exists>b. put_string str s = Inr (s\<lparr>writepayload := b\<rparr>)
    \<and> payload_at (s\<lparr>writepayload := b\<rparr>) (c @ STORE32H (of_nat (length str)) @ str)"
proof -
  have u: "unat (of_nat (length str) :: u32) = length str" using assms(2) by (intro unat_of_nat_u32) simp
  show ?thesis
    using buf_is_putstring [OF assms(1) [unfolded payload_at_def], of "of_nat (length str)" str] assms(2) u
    by (auto simp: put_string_def on_write_def payload_at_def blit_at_end add.commute add.left_commute)
qed

text \<open>
  The effect of sending one message, as the handlers see it: a packet for it at the end of the
  write queue, or, during a key exchange, a reply at the end of the reply queue.
\<close>

definition sends :: "byte list \<Rightarrow> sshsession \<Rightarrow> sshsession \<Rightarrow> bool" where
  "sends c s s' \<longleftrightarrow> unwired s' = unwired s \<and> payload_ready s' [] \<and> trans_ok s'
     \<and> (if dataallowed s \<or> packet_is_okay_kex (byte_val (hd c))
        then \<exists>wb. writequeue s' = writequeue s @ [wb] \<and> sealed_packet s c (buf_content wb)
           \<and> transseq s' = transseq s + 1 \<and> reply_queue s' = reply_queue s \<and> reply_queue_len s' = reply_queue_len s
        else \<exists>r. reply_queue s' = reply_queue s @ [r] \<and> buf_content r = c \<and> reply_queue_len s' = reply_queue_len s + 1
           \<and> writequeue s' = writequeue s \<and> transseq s' = transseq s)"

definition ready_to_send :: "sshsession \<Rightarrow> bool" where
  "ready_to_send s \<longleftrightarrow> trans_ok s \<and> payload_ready s [] \<and> reply_queue_len s \<le> MAX_DEFER_REPLY_QUEUE"

lemma encrypt_packet_sends:
  assumes "trans_ok s" and "payload_ready s c" and "c \<noteq> []" and "reply_queue_len s \<le> MAX_DEFER_REPLY_QUEUE"
  obtains s' where "encrypt_packet s = Inr s'" "sends c s s'"
proof (cases "dataallowed s \<or> packet_is_okay_kex (byte_val (hd c))")
  case True
  obtain s' wb where "encrypt_packet s = Inr s'" "payload_ready s' []" "trans_ok s'"
    "writequeue s' = writequeue s @ [wb]" "buf_ok wb" "bpos wb = 0" "sealed_packet s c (buf_content wb)"
    "transseq s' = transseq s + 1" "reply_queue s' = reply_queue s" "reply_queue_len s' = reply_queue_len s"
    "unwired s' = unwired s"
    by (rule encrypt_packet_now [OF assms(1) assms(2) assms(3) True]) (rule that)
  then show thesis using that True by (auto simp: sends_def)
next
  case False
  then have f: "\<not> dataallowed s" "\<not> packet_is_okay_kex (byte_val (hd c))" by auto
  obtain s' r where d: "encrypt_packet s = Inr s'" "payload_ready s' []"
    "reply_queue s' = reply_queue s @ [r]" "buf_is r c 0 (length c)" "reply_queue_len s' = reply_queue_len s + 1"
    "writequeue s' = writequeue s" "transseq s' = transseq s" "unwired s' = unwired s" "keys s' = keys s"
    by (rule encrypt_packet_deferred [OF assms(2) assms(3) f assms(4)]) (rule that)
  have "trans_ok s'" using assms(1) d(9) unwiredD(17,18) [OF d(8)] by (simp add: trans_ok_def)
  then show thesis using that d f buf_isD(2) [OF d(4)] by (auto simp: sends_def)
qed

lemma sends_payload: "sends c (s\<lparr>writepayload := b\<rparr>) s' = sends c s s'"
  by (simp add: sends_def wire_simps sealed_packet_cong)

text \<open>Sending what a sequence of writes put into the empty payload buffer.\<close>

lemma fill_and_send:
  assumes "ready_to_send s" and "\<And>s0. payload_at s0 [] \<Longrightarrow> \<exists>b. fill s0 = Inr (s0\<lparr>writepayload := b\<rparr>) \<and> payload_at (s0\<lparr>writepayload := b\<rparr>) c"
    and "c \<noteq> []"
  obtains s' where "bindr (fill s) encrypt_packet = Inr s'" "sends c s s'"
proof -
  obtain b where b: "fill s = Inr (s\<lparr>writepayload := b\<rparr>)" "payload_at (s\<lparr>writepayload := b\<rparr>) c"
    using assms(1,2) by (auto simp: ready_to_send_def payload_at_empty)
  have "trans_ok (s\<lparr>writepayload := b\<rparr>)" "reply_queue_len (s\<lparr>writepayload := b\<rparr>) \<le> MAX_DEFER_REPLY_QUEUE"
    using assms(1) by (simp_all add: ready_to_send_def trans_ok_def)
  then obtain s' where "encrypt_packet (s\<lparr>writepayload := b\<rparr>) = Inr s'" "sends c (s\<lparr>writepayload := b\<rparr>) s'"
    using payload_at_ready [OF b(2)] assms(3) by (elim encrypt_packet_sends) auto
  then show thesis using that b(1) by (simp add: sends_payload)
qed

section \<open>Composing messages\<close>

text \<open>
  \<open>emits g x\<close>: \<open>g\<close> adds \<open>x\<close> to the message begun in the payload buffer and sends it. The rules follow
  the way the handlers build a message, one field after the other, ending with \<open>encrypt_packet\<close>.
\<close>

definition emits :: "(sshsession \<Rightarrow> sshsession res) \<Rightarrow> byte list \<Rightarrow> bool" where
  "emits g x \<longleftrightarrow> (\<forall>s c. trans_ok s \<and> reply_queue_len s \<le> MAX_DEFER_REPLY_QUEUE \<and> payload_at s c
     \<and> c @ x \<noteq> [] \<and> length c + length x \<le> 16384 \<longrightarrow> (\<exists>s'. g s = Inr s' \<and> sends (c @ x) s s'))"

named_theorems emits_rules \<open>building a message field by field\<close>

lemma emits_encrypt [emits_rules]: "emits encrypt_packet []"
  unfolding emits_def by (metis append_Nil2 encrypt_packet_sends payload_at_ready)

lemma emits_put:
  assumes "\<And>s c. payload_at s c \<Longrightarrow> length c + length x \<le> 16384 \<Longrightarrow>
      \<exists>b. f s = Inr (s\<lparr>writepayload := b\<rparr>) \<and> payload_at (s\<lparr>writepayload := b\<rparr>) (c @ x)"
    and "emits g y"
  shows "emits (\<lambda>s. bindr (f s) g) (x @ y)"
  unfolding emits_def
proof (intro allI impI)
  fix s c
  assume *: "trans_ok s \<and> reply_queue_len s \<le> MAX_DEFER_REPLY_QUEUE \<and> payload_at s c \<and> c @ x @ y \<noteq> []
     \<and> length c + length (x @ y) \<le> 16384"
  then obtain b where b: "f s = Inr (s\<lparr>writepayload := b\<rparr>)" "payload_at (s\<lparr>writepayload := b\<rparr>) (c @ x)"
    using assms(1) [of s c] by auto
  have "trans_ok (s\<lparr>writepayload := b\<rparr>)" using * by (simp add: trans_ok_def)
  then obtain s' where "g (s\<lparr>writepayload := b\<rparr>) = Inr s'" "sends ((c @ x) @ y) (s\<lparr>writepayload := b\<rparr>) s'"
    using assms(2) [unfolded emits_def, rule_format, of "s\<lparr>writepayload := b\<rparr>" "c @ x"] * b(2) by auto
  then show "\<exists>s'. bindr (f s) g = Inr s' \<and> sends (c @ x @ y) s s'" using b(1) by (simp add: sends_payload)
qed

lemma emits_byte [emits_rules]:
  assumes "emits g y"
  shows "emits (\<lambda>s. bindr (put_byte n s) g) (byte_of n # y)"
  using emits_put [of "[byte_of n]" "put_byte n" g y] put_byte_at assms by simp

lemma emits_int [emits_rules]:
  assumes "emits g y"
  shows "emits (\<lambda>s. bindr (put_int v s) g) (STORE32H v @ y)"
  using emits_put [of "STORE32H v" "put_int v" g y] put_int_at assms by simp

lemma emits_string [emits_rules]:
  assumes "emits g y"
  shows "emits (\<lambda>s. bindr (put_string str s) g) ((STORE32H (of_nat (length str)) @ str) @ y)"
  by (rule emits_put) (use put_string_at assms in \<open>auto simp: add.assoc\<close>)

lemma emits_sends:
  assumes "emits g x" and "ready_to_send s" and "x \<noteq> []" and "length x \<le> 16384"
  obtains s' where "g s = Inr s'" "sends x s s'"
  using assms(1) [unfolded emits_def, rule_format, of s "[]"] assms(2-4) that
  by (auto simp: ready_to_send_def payload_at_empty)

end
