(* ===== verification/Packet_Recv.thy ===== *)
theory Packet_Recv
  imports Packet
begin

text \<open>
  The receiving side of the packet layer (\<open>read_packet\<close>, \<open>read_packet_init\<close>, \<open>decrypt_packet\<close> of
  \<open>dropbear/src/packet.c\<close>): whatever bytes arrive, no access leaves a buffer; and a packet that a
  peer with the same keys sealed is accepted with the payload it carries.
\<close>

section \<open>What the receiving side relies on\<close>

text \<open>
  Block sizes and MACs as for sending; a cipher keeps the length when it succeeds, an AEAD cipher
  gives as many bytes as it was asked for, \<open>inflate\<close> stays in the room it was given.
\<close>

definition recv_key_ok :: "libtomcrypt \<Rightarrow> zlib \<Rightarrow> key_context_directional \<Rightarrow> bool" where
  "recv_key_ok lt lz k \<longleftrightarrow>
     block_ok (blocksize (algo_crypt k)) \<and> mac_ok lt k
     \<and> (case aead_crypt (crypt_mode k) of
          None \<Rightarrow> (\<forall>inp st out st'. cm_decrypt (crypt_mode k) inp st = Some (out, st') \<longrightarrow> length out = length inp)
        | Some f \<Rightarrow> (\<forall>seq inp len tag st out st'. f seq inp len tag st False = Some (out, st') \<longrightarrow> length out = len))
     \<and> (algo_comp k \<noteq> DROPBEAR_COMP_NONE \<longrightarrow> zstream k \<noteq> None
        \<and> (\<forall>z inp room ok z' out left. inflate lz z inp room = (ok, z', out, left) \<longrightarrow> length out \<le> room))"

definition recv_ok :: "sshsession \<Rightarrow> bool" where
  "recv_ok s \<longleftrightarrow> recv_key_ok (libtom s) (libz s) (recv (keys s))"

text \<open>
  The buffer of a packet being read is either waiting for the first block, or has the length of
  the whole packet: the clear length, a positive multiple of the block size, and the MAC.
\<close>

definition lenfield :: "key_context_directional \<Rightarrow> nat" where
  "lenfield k = (if aead_crypt (crypt_mode k) \<noteq> None then 4 else 0)"

definition whole_packet :: "key_context_directional \<Rightarrow> nat \<Rightarrow> bool" where
  "whole_packet k l \<longleftrightarrow> l \<le> 131172
     \<and> blocksize (algo_crypt k) + lenfield k + hashsize (algo_mac k) \<le> l
     \<and> (l - lenfield k - hashsize (algo_mac k)) mod blocksize (algo_crypt k) = 0"

definition readbuf_ok :: "sshsession \<Rightarrow> bool" where
  "readbuf_ok s \<longleftrightarrow> (case readbuf s of
       None \<Rightarrow> True
     | Some rb \<Rightarrow> (\<exists>c p n. buf_is rb c p n \<and> 128 \<le> n
         \<and> (if length c < blocksize (algo_crypt (recv (keys s))) then p = length c
            else blocksize (algo_crypt (recv (keys s))) \<le> p \<and> whole_packet (recv (keys s)) (length c))))"

lemma recv_okD:
  assumes "recv_ok s"
  shows "block_ok (blocksize (algo_crypt (recv (keys s))))" "mac_ok (libtom s) (recv (keys s))"
    "blocksize (algo_crypt (recv (keys s))) = 8 \<or> blocksize (algo_crypt (recv (keys s))) = 16"
    "hashsize (algo_mac (recv (keys s))) \<le> 64"
    "unat (of_nat (blocksize (algo_crypt (recv (keys s)))) :: u32) = blocksize (algo_crypt (recv (keys s)))"
    "unat (of_nat (hashsize (algo_mac (recv (keys s)))) :: u32) = hashsize (algo_mac (recv (keys s)))"
proof -
  show 1: "block_ok (blocksize (algo_crypt (recv (keys s))))" "mac_ok (libtom s) (recv (keys s))"
    using assms by (auto simp: recv_ok_def recv_key_ok_def)
  show 2: "blocksize (algo_crypt (recv (keys s))) = 8 \<or> blocksize (algo_crypt (recv (keys s))) = 16"
    using 1 by (simp add: block_ok_def)
  show 3: "hashsize (algo_mac (recv (keys s))) \<le> 64"
    using 1 by (simp add: mac_ok_def MAX_MAC_LEN_def)
  show "unat (of_nat (blocksize (algo_crypt (recv (keys s)))) :: u32) = blocksize (algo_crypt (recv (keys s)))"
    using 2 by (intro unat_of_nat_u32) auto
  show "unat (of_nat (hashsize (algo_mac (recv (keys s)))) :: u32) = hashsize (algo_mac (recv (keys s)))"
    using 3 by (intro unat_of_nat_u32) auto
qed

lemma readbuf_okI:
  assumes "readbuf s = Some rb" "buf_is rb c p n" "128 \<le> n" "blocksize (algo_crypt (recv (keys s))) \<le> p"
    "whole_packet (recv (keys s)) (length c)"
  shows "readbuf_ok s"
proof -
  have "blocksize (algo_crypt (recv (keys s))) \<le> length c" using assms(4) buf_isD(6) [OF assms(2)] by simp
  then show ?thesis using assms unfolding readbuf_ok_def
    by (simp, intro exI [of _ c] exI [of _ p] conjI) auto
qed

lemma readbuf_ok_startI:
  assumes "readbuf s = Some rb" "buf_is rb c (length c) n" "128 \<le> n" "length c < blocksize (algo_crypt (recv (keys s)))"
  shows "readbuf_ok s"
  using assms unfolding readbuf_ok_def by (simp, intro exI [of _ c] exI [of _ "length c"] conjI) auto

section \<open>Reading the first block\<close>

text \<open>The checks on the length that the peer claims, both for the clear packet and with the MAC.\<close>

lemma length_checks:
  fixes plen len bs :: u32
  assumes "len = plen + of_nat (f + m)" and "f \<le> 4" and "m \<le> 64" and "unat bs = 8 \<or> unat bs = 16"
    and "\<not> (len > RECV_MAX_PACKET_LEN \<or> plen > RECV_MAX_PACKET_LEN \<or> plen < bs \<or> plen mod bs \<noteq> 0)"
  shows "unat len = unat plen + f + m" "unat len \<le> 131172" "unat bs \<le> unat plen" "unat plen mod unat bs = 0"
proof -
  have c: "unat len \<le> 131172" "unat plen \<le> 131172" "unat bs \<le> unat plen"
    using assms(5) by (simp_all add: word_less_nat_alt not_less)
  have "unat (of_nat (f + m) :: u32) = f + m" using assms(2,3) by (intro unat_of_nat_u32) simp
  then show "unat len = unat plen + f + m" using assms(1-3) c(2) by (simp add: unat_add_below)
  show "unat len \<le> 131172" "unat bs \<le> unat plen" using c by auto
  have "unat (plen mod bs) = 0" using assms(5) by simp
  then show "unat plen mod unat bs = 0" by (simp add: unat_mod)
qed

lemma first_block_tail:
  fixes s :: sshsession and k :: key_context_directional
  defines "bs \<equiv> of_nat (blocksize (algo_crypt k)) :: u32"
  assumes rb: "buf_is rb c p n" "length c = blocksize (algo_crypt k)" "128 \<le> n"
    and k: "block_ok (blocksize (algo_crypt k))" "hashsize (algo_mac k) \<le> 64"
    and len: "len = plen + of_nat (lenfield k + hashsize (algo_mac k))"
    and ok: "\<not> (len > RECV_MAX_PACKET_LEN \<or> plen > RECV_MAX_PACKET_LEN \<or> plen < bs \<or> plen mod bs \<noteq> 0)"
  obtains rb' c' n' where
    "bindr (if len > bsize rb then buf_resize junk rb len else Inr rb) (\<lambda>rb.
        bindr (buf_setlen rb len) (\<lambda>rb. bindr (buf_setpos rb bs) (\<lambda>rb. Inr (f rb)))) = Inr (f rb')"
    "buf_is rb' (c @ c') (length c) n'" "128 \<le> n'" "whole_packet k (length (c @ c'))" "length (c @ c') = unat len"
proof -
  have kb: "blocksize (algo_crypt k) = 8 \<or> blocksize (algo_crypt k) = 16" using k(1) by (simp add: block_ok_def)
  have ub: "unat bs = blocksize (algo_crypt k)" unfolding bs_def using kb by (intro unat_of_nat_u32) auto
  have f: "lenfield k \<le> 4" by (simp add: lenfield_def)
  note u = length_checks [OF len f k(2) _ ok, unfolded ub, OF kb]
  note d = buf_isD [OF rb(1)]
  obtain rb1 n1 where r1: "(if len > bsize rb then buf_resize junk rb len else Inr rb) = Inr rb1" "buf_is rb1 c p n1"
    "128 \<le> n1" "unat len \<le> n1"
  proof (cases "len > bsize rb")
    case True
    then have "n \<le> unat len" using d(4) by (simp add: word_less_nat_alt)
    then show thesis using that [of _ "unat len"] True buf_is_resize_grow [OF rb(1), of len junk] u(2) rb(3) by auto
  next
    case False
    then show thesis using that [of rb n] rb d(4) by (simp add: word_less_nat_alt)
  qed
  obtain rb2 c' where r2: "buf_setlen rb1 len = Inr rb2" "length c' = unat len - length c" "buf_is rb2 (c @ c') p n1"
    using buf_is_setlen_grow [OF r1(2), of len] u r1(4) rb(2) by auto
  have lc: "length (c @ c') = unat len" using r2(2) u rb(2) by simp
  obtain rb3 where r3: "buf_setpos rb2 bs = Inr rb3" "buf_is rb3 (c @ c') (length c) n1"
    using buf_is_setpos [OF r2(3), of bs] ub rb(2) by auto
  have wp: "whole_packet k (length (c @ c'))" using u lc by (simp add: whole_packet_def)
  show thesis using that [of rb3 c' n1] r1 r2 r3 wp lc by simp
qed

lemma upd_recv_simps [simp]:
  "recv (keys (upd_recv f s)) = f (recv (keys s))" "trans (keys (upd_recv f s)) = trans (keys s)"
  "payload (upd_recv f s) = payload s" "recvseq (upd_recv f s) = recvseq s" "world (upd_recv f s) = world s"
  "libtom (upd_recv f s) = libtom s" "libz (upd_recv f s) = libz s" "readbuf (upd_recv f s) = readbuf s"
  "authstate (upd_recv f s) = authstate s" "kexstate (upd_recv f s) = kexstate s"
  by (simp_all add: upd_recv_def)

lemma recv_key_ok_stable:
  "recv_key_ok lt lz (k\<lparr>cipher_state := st\<rparr>) = recv_key_ok lt lz k"
  "recv_key_ok lt lz k \<Longrightarrow> z \<noteq> None \<Longrightarrow> recv_key_ok lt lz (k\<lparr>zstream := z\<rparr>)"
  "lenfield (k\<lparr>cipher_state := st\<rparr>) = lenfield k"
  "whole_packet (k\<lparr>cipher_state := st\<rparr>) l = whole_packet k l"
  by (auto simp: recv_key_ok_def mac_ok_def lenfield_def whole_packet_def cong: option.case_cong)

text \<open>What is left to do once the claimed length is known.\<close>

lemma first_block_rest:
  fixes s :: sshsession
  defines "k \<equiv> recv (keys s)"
  assumes s: "recv_ok s" and rb: "buf_is rb c p n" "length c = blocksize (algo_crypt k)" "128 \<le> n"
    and len: "len = plen + of_nat (lenfield k + hashsize (algo_mac k))"
  shows "graceful (size_readbuf plen len rb s)
    (\<lambda>s'. \<exists>rb' c' n'. s' = s\<lparr>readbuf := Some rb'\<rparr> \<and> buf_is rb' (c @ c') (length c) n'
       \<and> 128 \<le> n' \<and> whole_packet k (length (c @ c')) \<and> length (c @ c') = unat len)"
proof -
  note k = recv_okD [OF s, folded k_def]
  have nz: "(of_nat (blocksize (algo_crypt k)) :: u32) \<noteq> 0" using k(3,5) by (metis unat_0 zero_neq_numeral)
  show ?thesis
  proof (cases "len > RECV_MAX_PACKET_LEN \<or> plen > RECV_MAX_PACKET_LEN \<or> plen < of_nat (blocksize (algo_crypt k))
         \<or> plen mod of_nat (blocksize (algo_crypt k)) \<noteq> 0")
    case False
    obtain rb' c' n' where
      e: "bindr (if len > bsize rb then buf_resize (realloc_junk (world s)) rb len else Inr rb) (\<lambda>rb.
        bindr (buf_setlen rb len) (\<lambda>rb. bindr (buf_setpos rb (of_nat (blocksize (algo_crypt k)))) (\<lambda>rb.
          Inr (s\<lparr>readbuf := Some rb\<rparr>)))) = Inr (s\<lparr>readbuf := Some rb'\<rparr>)"
      "buf_is rb' (c @ c') (length c) n'" "128 \<le> n'" "whole_packet k (length (c @ c'))" "length (c @ c') = unat len"
      by (rule first_block_tail [OF rb k(1,4) len False]) (rule that)
    show ?thesis unfolding size_readbuf_def Let_def k_def [symmetric] if_not_P [OF False] using nz e
      by (simp, intro exI [of _ rb'] conjI refl exI [of _ c'] exI [of _ n']) simp_all
  qed (use nz in \<open>simp add: size_readbuf_def Let_def k_def [symmetric]\<close>)
qed

lemma first_block_safe:
  assumes s: "recv_ok s" and rb: "buf_is rb c p n" "length c = blocksize (algo_crypt (recv (keys s)))" "128 \<le> n"
  shows "graceful (first_block rb s) (\<lambda>s'. recv_ok s' \<and> readbuf_ok s' \<and> payload s' = payload s \<and> recvseq s' = recvseq s
    \<and> algo_crypt (recv (keys s')) = algo_crypt (recv (keys s))
    \<and> (\<exists>rb'. readbuf s' = Some rb' \<and> \<not> blen rb' < of_nat (blocksize (algo_crypt (recv (keys s))))))"
proof -
  let ?k = "recv (keys s)"
  note k = recv_okD [OF s]
  obtain rb1 where r1: "buf_setpos rb 0 = Inr rb1" "buf_is rb1 c 0 n" using buf_is_setpos [OF rb(1), of 0] by auto
  have peek: "buf_peek rb1 (of_nat (blocksize (algo_crypt ?k))) = Inr c"
    using buf_is_peek [OF r1(2), of "of_nat (blocksize (algo_crypt ?k))"] k(5) rb(2) by simp
  have fin: "recv_ok (t\<lparr>readbuf := Some rb'\<rparr>) \<and> readbuf_ok (t\<lparr>readbuf := Some rb'\<rparr>)
      \<and> \<not> blen rb' < of_nat (blocksize (algo_crypt ?k))"
    if "buf_is rb' (d @ c') (length d) n'" "128 \<le> n'" "whole_packet (recv (keys t)) (length (d @ c'))" "recv_ok t"
      "length d = length c" "algo_crypt (recv (keys t)) = algo_crypt ?k" for t rb' d c' n'
    using that k(5) rb(2) buf_isD(5) [OF that(1)]
      readbuf_okI [of "t\<lparr>readbuf := Some rb'\<rparr>", OF _ that(1)] by (simp add: recv_ok_def word_less_nat_alt)
  show ?thesis
  proof (cases "aead_crypt (crypt_mode ?k)")
    case (Some f)
    then have lf: "lenfield ?k = 4" by (simp add: lenfield_def)
    show ?thesis
    proof (cases "aead_getlength (crypt_mode ?k) (recvseq s) c (blocksize (algo_crypt ?k)) (cipher_state ?k)")
      case (Some plen)
      have len: "plen + 4 + of_nat (hashsize (algo_mac ?k)) = plen + of_nat (lenfield ?k + hashsize (algo_mac ?k))"
        using lf by simp
      note g = first_block_rest [OF s r1(2) rb(2,3) len]
      have "graceful (first_block rb s) (\<lambda>s'. \<exists>rb' c' n'. s' = s\<lparr>readbuf := Some rb'\<rparr>
          \<and> buf_is rb' (c @ c') (length c) n' \<and> 128 \<le> n' \<and> whole_packet ?k (length (c @ c')) 
          \<and> length (c @ c') = unat (plen + 4 + of_nat (hashsize (algo_mac ?k))))"
        using g r1(1) peek k(5) \<open>aead_crypt (crypt_mode ?k) = Some f\<close> Some
        unfolding first_block_def Let_def by simp
      then show ?thesis by (rule graceful_mono) (use fin s in \<open>auto\<close>)
    qed (use r1(1) peek k(5) Some in \<open>simp add: first_block_def Let_def\<close>)
  next
    case None
    then have lf: "lenfield ?k = 0" by (simp add: lenfield_def)
    have gw: "buf_getwriteptr rb1 (of_nat (blocksize (algo_crypt ?k))) = Inr 0"
      using buf_is_getwriteptr [OF r1(2), of "of_nat (blocksize (algo_crypt ?k))"] k(5) rb(2) buf_isD(7) [OF rb(1)] by simp
    show ?thesis
    proof (cases "cm_decrypt (crypt_mode ?k) c (cipher_state ?k)")
      case (Some res)
      obtain out st where res: "res = (out, st)" by (cases res)
      have lo: "length out = length c" using s None Some res by (auto simp: recv_ok_def recv_key_ok_def)
      obtain dd where mw: "mem_write (bdata rb1) 0 out = Inr dd" "buf_is (rb1\<lparr>bdata := dd\<rparr>) (blit c 0 out) 0 n"
        using buf_is_mem_write [OF r1(2), of 0 out] lo by auto
      have bo: "blit c 0 out = out" using lo by (simp add: blit_def)
      have four: "4 \<le> length out" using lo rb(2) k(3) by auto
      obtain v rb2 where gi: "buf_getint (rb1\<lparr>bdata := dd\<rparr>) = Inr (v, rb2)" "buf_is rb2 out 4 n"
        using buf_is_getint [OF mw(2)] bo four by auto
      let ?t = "upd_recv (\<lambda>k. k\<lparr>cipher_state := st\<rparr>) s"
      have t: "recv_ok ?t" using s by (simp add: recv_ok_def recv_key_ok_stable)
      have len: "v + 4 + of_nat (hashsize (algo_mac ?k)) = v + 4 + of_nat (lenfield (recv (keys ?t)) + hashsize (algo_mac (recv (keys ?t))))"
        using lf by (simp add: recv_key_ok_stable)
      have lo2: "length out = blocksize (algo_crypt (recv (keys ?t)))" using lo rb(2) by simp
      note g = first_block_rest [OF t gi(2) lo2 rb(3) len]
      have "graceful (first_block rb s) (\<lambda>s'. \<exists>rb' c' n'. s' = ?t\<lparr>readbuf := Some rb'\<rparr>
          \<and> buf_is rb' (out @ c') (length out) n' \<and> 128 \<le> n' \<and> whole_packet (recv (keys ?t)) (length (out @ c'))
          \<and> length (out @ c') = unat (v + 4 + of_nat (hashsize (algo_mac ?k))))"
        using g r1(1) peek gw mw(1) gi(1) None Some res unfolding first_block_def Let_def by simp
      then show ?thesis
        by (rule graceful_mono) (use fin [where t = ?t and d = out] t lo in \<open>auto dest!: spec\<close>)
    qed (use r1(1) peek gw None in \<open>simp add: first_block_def Let_def\<close>)
  qed
qed

section \<open>Decrypting\<close>

lemma recv_ok_aead:
  assumes "recv_ok s" "aead_crypt (crypt_mode (recv (keys s))) = Some f" "f seq inp len tag st False = Some (out, st')"
  shows "length out = len"
proof -
  have "\<forall>seq inp len tag st out st'. f seq inp len tag st False = Some (out, st') \<longrightarrow> length out = len"
    using assms(1,2) by (simp add: recv_ok_def recv_key_ok_def)
  then show ?thesis using assms(3) by blast
qed

lemma recv_ok_plain:
  assumes "recv_ok s" "aead_crypt (crypt_mode (recv (keys s))) = None"
    "cm_decrypt (crypt_mode (recv (keys s))) inp st = Some (out, st')"
  shows "length out = length inp"
proof -
  have "\<forall>inp st out st'. cm_decrypt (crypt_mode (recv (keys s))) inp st = Some (out, st') \<longrightarrow> length out = length inp"
    using assms(1,2) by (simp add: recv_ok_def recv_key_ok_def)
  then show ?thesis using assms(3) by blast
qed

lemma checkmac_ok:
  assumes "recv_ok s" and "buf_is rb c p n" and "hashsize (algo_mac (recv (keys s))) \<le> length c"
  obtains rb' q where "checkmac rb s =
      Inr (packet_mac (libtom s) (recv (keys s)) (recvseq s) (take (length c - hashsize (algo_mac (recv (keys s)))) c)
           = drop (length c - hashsize (algo_mac (recv (keys s)))) c, rb')"
    "buf_is rb' c q n"
proof -
  let ?k = "recv (keys s)" and ?m = "hashsize (algo_mac (recv (keys s)))"
  note k = recv_okD [OF assms(1)]
  note d = buf_isD [OF assms(2)]
  have ul: "unat (blen rb - of_nat ?m) = length c - ?m" using d k(6) assms(3) by (subst unat_sub_below) simp_all
  obtain rb1 where r1: "buf_setpos rb 0 = Inr rb1" "buf_is rb1 c 0 n" using buf_is_setpos [OF assms(2), of 0] by auto
  obtain mac rb2 q where mm: "make_mac s (recvseq s) ?k rb1 (blen rb - of_nat ?m) = Inr (mac, rb2)" "length mac = 64"
    "take ?m mac = packet_mac (libtom s) ?k (recvseq s) (take (length c - ?m) c)" "buf_is rb2 c q n"
    using make_mac_ok [OF k(2) r1(2), of "blen rb - of_nat ?m" "recvseq s"] ul by (metis diff_le_self)
  obtain rb3 where r3: "buf_setpos rb2 (blen rb - of_nat ?m) = Inr rb3" "buf_is rb3 c (length c - ?m) n"
    using buf_is_setpos [OF mm(4), of "blen rb - of_nat ?m"] ul by auto
  have pk: "buf_peek rb3 (of_nat ?m) = Inr (drop (length c - ?m) c)"
    using buf_is_peek [OF r3(2), of "of_nat ?m"] k(6) assms(3) by simp
  have mr: "mem_read mac 0 ?m = Inr (take ?m mac)" using mm(2) k(4) by (simp add: mem_read_def)
  have "checkmac rb s = Inr (take ?m mac = drop (length c - ?m) c, rb3)"
    using r1(1) mm(1) r3(1) pk mr by (simp add: checkmac_def Let_def)
  then show thesis using that [of rb3] mm(3) r3(2) by simp
qed

lemma buf_decompress_safe:
  assumes "recv_ok s" and "algo_comp (recv (keys s)) \<noteq> DROPBEAR_COMP_NONE" and "buf_is b c p n" and "p + unat len \<le> length c"
  shows "graceful (buf_decompress s b len) (\<lambda>(p, s'). buf_ok p \<and> (\<exists>z. s' = upd_recv (\<lambda>k. k\<lparr>zstream := Some z\<rparr>) s))"
proof -
  obtain z where z: "zstream (recv (keys s)) = Some z" using assms(1,2) by (auto simp: recv_ok_def recv_key_ok_def)
  have un: "unat (RECV_MAX_PAYLOAD_LEN + 1) = 131073" by (simp add: RECV_MAX_PAYLOAD_LEN_def)
  obtain ret where ret: "buf_new (RECV_MAX_PAYLOAD_LEN + 1) = Inr ret" "buf_is ret [] 0 131073"
    using buf_is_new [of "RECV_MAX_PAYLOAD_LEN + 1"] un by auto
  note d = buf_isD [OF ret(2)] and w = buf_is_words [OF ret(2)]
  have pk: "buf_peek b len = Inr (take (unat len) (drop p c))" using assms(3,4) by (rule buf_is_peek)
  obtain ok z' out left where inf: "inflate (libz s) z (take (unat len) (drop p c)) 131073 = (ok, z', out, left)"
    by (metis prod_cases4)
  have lo: "length out \<le> 131073" using assms(1,2) inf unfolding recv_ok_def recv_key_ok_def by blast
  have ld: "length (bdata ret) = 131073" using buf_ok_nat(4) [OF d(1)] d(4) by simp
  have mw: "mem_write (bdata ret) 0 out = Inr (blit (bdata ret) 0 out)" using lo ld by (intro mem_write_eq) simp
  have bok: "buf_ok (ret\<lparr>bdata := blit (bdata ret) 0 out\<rparr>)" using buf_ok_nat [OF d(1)] ld lo
    by (intro buf_okI) simp_all
  have sl: "good (buf_setlen (ret\<lparr>bdata := blit (bdata ret) 0 out\<rparr>) l)" for l using bok by (rule good_intros)
  show ?thesis
  proof (cases "buf_setlen (ret\<lparr>bdata := blit (bdata ret) 0 out\<rparr>) (of_nat (length out))")
    case (Inl e)
    then have "\<exists>msg. e = Exit msg" by (auto simp: buf_setlen_def split: if_splits)
    then show ?thesis using ret(1) z pk inf mw d(4) Inl by (auto simp: buf_decompress_def require_def)
  next
    case (Inr r)
    then have "buf_ok r" using sl [of "of_nat (length out)"] by (simp add: good_def)
    then show ?thesis using ret(1) z pk inf mw d(4) Inr by (auto simp: buf_decompress_def require_def)
  qed
qed

lemma open_packet_safe:
  fixes s :: sshsession
  defines "k \<equiv> recv (keys s)"
  assumes s: "recv_ok s" and rb: "buf_is rb c p n" and wh: "whole_packet k (length c)"
  shows "graceful (open_packet rb s) (\<lambda>(rb', s'). \<exists>c' q st. buf_is rb' c' q n \<and> length c' = length c
    \<and> s' = upd_recv (\<lambda>k. k\<lparr>cipher_state := st\<rparr>) s)"
proof -
  let ?bs = "blocksize (algo_crypt k)" and ?m = "hashsize (algo_mac k)"
  note k = recv_okD [OF s, folded k_def]
  have l: "?bs + lenfield k + ?m \<le> length c" using wh by (simp add: whole_packet_def)
  show ?thesis
  proof (cases "aead_crypt (crypt_mode k)")
    case (Some f)
    obtain rb1 where r1: "buf_setpos rb 0 = Inr rb1" "buf_is rb1 c 0 n" using buf_is_setpos [OF rb, of 0] by auto
    note d = buf_isD [OF r1(2)] and w = buf_is_words [OF r1(2)]
    let ?len = "blen rb1 - of_nat ?m - bpos rb1"
    have ul: "unat ?len = length c - ?m" using d k(6) l w(2) by (simp add: unat_sub_below)
    have uz: "unat (?len + of_nat ?m) = length c" using d(5) w(2) by simp
    have pk: "buf_peek rb1 (?len + of_nat ?m) = Inr c" using buf_is_peek [OF r1(2), of "?len + of_nat ?m"] uz by simp
    have gw: "buf_getwriteptr rb1 ?len = Inr 0" using buf_is_getwriteptr [OF r1(2), of ?len] ul d(7) by simp
    show ?thesis
    proof (cases "f (recvseq s) c (unat ?len) ?m (cipher_state k) False")
      case None
      then show ?thesis using r1(1) pk gw Some unfolding open_packet_def Let_def k_def [symmetric] by simp
    next
      case (Some res)
      obtain out st where res: "res = (out, st)" by (cases res)
      have lo: "length out = length c - ?m"
        using recv_ok_aead [OF s \<open>aead_crypt (crypt_mode k) = Some f\<close> [unfolded k_def]] Some res ul by simp
      obtain dd where mw: "mem_write (bdata rb1) 0 out = Inr dd" "buf_is (rb1\<lparr>bdata := dd\<rparr>) (blit c 0 out) 0 n"
        using buf_is_mem_write [OF r1(2), of 0 out] lo by auto
      have lb: "length (blit c 0 out) = length c" using lo by simp
      obtain rb2 where r2: "buf_incrpos (rb1\<lparr>bdata := dd\<rparr>) ?len = Inr rb2" "buf_is rb2 (blit c 0 out) (length c - ?m) n"
        using buf_is_incrpos [OF mw(2), of ?len] ul lb by auto
      show ?thesis
        using r1(1) pk gw \<open>aead_crypt (crypt_mode k) = Some f\<close> Some res mw(1) r2 lb
        unfolding open_packet_def Let_def k_def [symmetric] by auto
    qed
  next
    case None
    obtain rb1 where r1: "buf_setpos rb (of_nat ?bs) = Inr rb1" "buf_is rb1 c ?bs n"
      using buf_is_setpos [OF rb, of "of_nat ?bs"] k(5) l by auto
    note d = buf_isD [OF r1(2)] and w = buf_is_words [OF r1(2)]
    let ?len = "blen rb1 - of_nat ?m - bpos rb1"
    have ul: "unat ?len = length c - ?m - ?bs" using d k(6) l by (simp add: unat_sub_below)
    let ?inp = "take (length c - ?m - ?bs) (drop ?bs c)"
    have pk: "buf_peek rb1 ?len = Inr ?inp" using buf_is_peek [OF r1(2), of ?len] ul l by simp
    have gw: "buf_getwriteptr rb1 ?len = Inr ?bs" using buf_is_getwriteptr [OF r1(2), of ?len] ul l d(7) by simp
    show ?thesis
    proof (cases "cm_decrypt (crypt_mode k) ?inp (cipher_state k)")
      case None
      then show ?thesis using r1(1) pk gw \<open>aead_crypt (crypt_mode k) = None\<close>
        unfolding open_packet_def Let_def k_def [symmetric] by simp
    next
      case (Some res)
      obtain out st where res: "res = (out, st)" by (cases res)
      have lo: "length out = length c - ?m - ?bs"
        using recv_ok_plain [OF s None [unfolded k_def]] Some res l by (simp add: k_def)
      obtain dd where mw: "mem_write (bdata rb1) ?bs out = Inr dd" "buf_is (rb1\<lparr>bdata := dd\<rparr>) (blit c ?bs out) ?bs n"
        using buf_is_mem_write [OF r1(2), of ?bs out] lo l by auto
      have lb: "length (blit c ?bs out) = length c" using lo l by simp
      obtain rb2 where r2: "buf_incrpos (rb1\<lparr>bdata := dd\<rparr>) ?len = Inr rb2" "buf_is rb2 (blit c ?bs out) (length c - ?m) n"
        using buf_is_incrpos [OF mw(2), of ?len] ul lb l by auto
      have ml: "hashsize (algo_mac (recv (keys s))) \<le> length (blit c ?bs out)" using l lb by (simp add: k_def)
      obtain rb3 q where cm: "checkmac rb2 s =
        Inr (packet_mac (libtom s) (recv (keys s)) (recvseq s) (take (length (blit c ?bs out) - hashsize (algo_mac (recv (keys s)))) (blit c ?bs out))
           = drop (length (blit c ?bs out) - hashsize (algo_mac (recv (keys s)))) (blit c ?bs out), rb3)"
        "buf_is rb3 (blit c ?bs out) q n"
        by (rule checkmac_ok [OF s r2(2) ml]) (rule that)
      show ?thesis
        using r1(1) pk gw None Some res mw(1) r2(1) cm lb
        unfolding open_packet_def Let_def k_def [symmetric]
        by (auto simp: require_def)
    qed
  qed
qed

lemma payload_length:
  fixes len padlen bl :: u32
  assumes "unat bl \<le> 131172" and "m + 5 \<le> unat bl" and "m \<le> 64" and "unat padlen \<le> 255"
    and "len = bl - padlen - 4 - 1 - of_nat m"
    and "\<not> (len > RECV_MAX_PAYLOAD_LEN + ZLIB_COMPRESS_EXPANSION \<or> len < 1)"
  shows "unat len = unat bl - unat padlen - 5 - m" "1 \<le> unat len" "unat len + unat padlen + 5 + m = unat bl"
proof -
  have um: "unat (of_nat m :: u32) = m" using assms(3) by (intro unat_of_nat_u32) simp
  have sum: "len + (padlen + 5 + of_nat m) = bl" using assms(5) by simp
  have up: "unat (padlen + 5 + of_nat m) = unat padlen + 5 + m"
    using assms(3,4) um by (simp add: unat_add_below)
  have ub: "unat len \<le> 131123" "1 \<le> unat len"
    using assms(6) by (simp_all add: packet_consts word_less_nat_alt not_less)
  have "unat (len + (padlen + 5 + of_nat m)) = unat len + unat (padlen + 5 + of_nat m)"
    using ub up assms(3,4) by (intro unat_add_below) simp
  then show "unat len = unat bl - unat padlen - 5 - m" "unat len + unat padlen + 5 + m = unat bl"
    using sum up by simp_all
  show "1 \<le> unat len" by (rule ub)
qed

lemma byte_val_bound: "byte_val c \<le> 255"
proof -
  have "(of_char c :: nat) < 256" by (rule nat_of_char_less_256)
  then show ?thesis by linarith
qed

lemma take_payload_safe:
  fixes s :: sshsession
  defines "k \<equiv> recv (keys s)"
  assumes s: "recv_ok s" and rb: "buf_is rb c p n" and wh: "whole_packet k (length c)"
  shows "graceful (take_payload rb s) (\<lambda>s'. recv_ok s' \<and> readbuf s' = None \<and> recvseq s' = recvseq s + 1
    \<and> (\<exists>b. payload s' = Some b \<and> buf_ok b))"
proof -
  note k = recv_okD [OF s, folded k_def]
  let ?m = "hashsize (algo_mac k)"
  have l: "8 + ?m \<le> length c" "length c \<le> 131172" using wh k(3) by (auto simp: whole_packet_def)
  obtain rb1 where r1: "buf_setpos rb 4 = Inr rb1" "buf_is rb1 c 4 n" using buf_is_setpos [OF rb, of 4] l by auto
  obtain rb2 where r2: "buf_getbyte rb1 = Inr (c ! 4, rb2)" "buf_is rb2 c 5 n" using buf_is_getbyte [OF r1(2)] l by auto
  note d = buf_isD [OF r2(2)]
  define len where "len = blen rb2 - of_nat (byte_val (c ! 4)) - 4 - 1 - of_nat ?m"
  have eq: "take_payload rb s =
     (if len > RECV_MAX_PAYLOAD_LEN + ZLIB_COMPRESS_EXPANSION \<or> len < 1 then Inl (Exit ''Bad packet size'')
      else bindr (buf_setpos rb2 5) (\<lambda>rb.
       bindr (if is_compress_recv s then
                bindr (buf_decompress s rb len) (\<lambda>(p, s).
                bindr (buf_setpos p 0) (\<lambda>p.
                Inr (s\<lparr>payload := Some p, payload_beginning := 0\<rparr>)))
              else
                bindr (buf_setlen rb (bpos rb + len)) (\<lambda>p.
                Inr (s\<lparr>payload := Some p, payload_beginning := bpos rb\<rparr>))) (\<lambda>s.
       Inr (s\<lparr>readbuf := None, recvseq := recvseq s + 1\<rparr>))))"
    unfolding take_payload_def r1(1) bindr_Inr r2(1) prod.case Let_def len_def k_def ..
  show ?thesis
  proof (cases "len > RECV_MAX_PAYLOAD_LEN + ZLIB_COMPRESS_EXPANSION \<or> len < 1")
    case True
    then show ?thesis unfolding eq by simp
  next
    case False
    have up: "unat (of_nat (byte_val (c ! 4)) :: u32) \<le> 255" using byte_val_bound [of "c ! 4"]
      by (subst unat_of_nat_u32) auto
    have ul: "unat len + unat (of_nat (byte_val (c ! 4)) :: u32) + 5 + ?m = length c"
      using payload_length(3) [OF _ _ k(4) up len_def False] d(5) l by simp
    obtain rb3 where r3: "buf_setpos rb2 5 = Inr rb3" "buf_is rb3 c 5 n" using buf_is_setpos [OF r2(2), of 5] l by auto
    note d3 = buf_isD [OF r3(2)]
    show ?thesis
    proof (cases "is_compress_recv s")
      case True
      then have ne: "algo_comp (recv (keys s)) \<noteq> DROPBEAR_COMP_NONE" by (auto simp: is_compress_recv_def)
      have g: "graceful (buf_decompress s rb3 len) (\<lambda>(p, s'). buf_ok p \<and> (\<exists>z. s' = upd_recv (\<lambda>k. k\<lparr>zstream := Some z\<rparr>) s))"
        using ul by (intro buf_decompress_safe [OF s ne r3(2)]) simp
      have h: "graceful (bindr (buf_decompress s rb3 len) (\<lambda>(p, s). bindr (buf_setpos p 0) (\<lambda>p.
                Inr (s\<lparr>payload := Some p, payload_beginning := 0\<rparr>))))
          (\<lambda>s'. recv_ok s' \<and> recvseq s' = recvseq s \<and> (\<exists>b. payload s' = Some b \<and> buf_ok b))"
      proof (rule graceful_bindr [OF g], clarsimp)
        fix b z assume b: "buf_ok b"
        then have "\<exists>b'. buf_setpos b 0 = Inr b' \<and> buf_ok b'" by (auto simp: buf_setpos_def buf_ok_def)
        then show "graceful (bindr (buf_setpos b 0) (\<lambda>p. Inr (upd_recv (zstream_update (\<lambda>_. Some z)) s\<lparr>payload := Some p, payload_beginning := 0\<rparr>)))
          (\<lambda>s'. recv_ok s' \<and> recvseq s' = recvseq s \<and> (\<exists>b. payload s' = Some b \<and> buf_ok b))"
          using s by (auto simp: recv_ok_def recv_key_ok_stable(2))
      qed
      have "graceful (bindr (bindr (buf_decompress s rb3 len) (\<lambda>(p, s). bindr (buf_setpos p 0) (\<lambda>p.
                Inr (s\<lparr>payload := Some p, payload_beginning := 0\<rparr>)))) (\<lambda>s. Inr (s\<lparr>readbuf := None, recvseq := recvseq s + 1\<rparr>)))
          (\<lambda>s'. recv_ok s' \<and> readbuf s' = None \<and> recvseq s' = recvseq s + 1 \<and> (\<exists>b. payload s' = Some b \<and> buf_ok b))"
        by (rule graceful_bindr [OF h]) (simp add: recv_ok_def)
      then show ?thesis unfolding eq if_not_P [OF False] using r3(1) True by simp
    next
      case notc: False
      have u5: "unat (bpos rb3 + len) = 5 + unat len" using d3 ul l by (subst unat_add_below) simp_all
      obtain rb4 where r4: "buf_setlen rb3 (bpos rb3 + len) = Inr rb4" "buf_is rb4 (take (5 + unat len) c) (min 5 (5 + unat len)) n"
        using buf_is_setlen [OF r3(2), of "bpos rb3 + len"] u5 ul by auto
      show ?thesis unfolding eq if_not_P [OF False] using r3(1) r4 notc s buf_isD(1) [OF r4(2)]
        by (simp add: recv_ok_def)
    qed
  qed
qed

lemma decrypt_packet_safe:
  assumes s: "recv_ok s" and rb: "readbuf s = Some rb" "buf_is rb c p n" and wh: "whole_packet (recv (keys s)) (length c)"
  shows "graceful (decrypt_packet s) (\<lambda>s'. recv_ok s' \<and> readbuf s' = None \<and> recvseq s' = recvseq s + 1
    \<and> (\<exists>b. payload s' = Some b \<and> buf_ok b))"
proof -
  let ?t = "upd_kex (\<lambda>x. x\<lparr>datarecv := datarecv x + blen rb\<rparr>) s"
  have t: "recv_ok ?t" "whole_packet (recv (keys ?t)) (length c)" using s wh by (simp_all add: recv_ok_def)
  have rq: "recvseq ?t = recvseq s" by (simp add: upd_kex_def)
  note g = open_packet_safe [OF t(1) rb(2) t(2)]
  show ?thesis unfolding decrypt_packet_def rb(1) option.case
  proof (rule graceful_bindr [OF g], clarify)
    fix rb' c' q st
    assume b: "buf_is rb' c' q n" "length c' = length c"
    let ?u = "upd_recv (\<lambda>k. k\<lparr>cipher_state := st\<rparr>) ?t"
    have u: "recv_ok ?u" "whole_packet (recv (keys ?u)) (length c')"
      using t b(2) by (simp_all add: recv_ok_def recv_key_ok_stable)
    show "graceful (take_payload rb' ?u) (\<lambda>s'. recv_ok s' \<and> readbuf s' = None \<and> recvseq s' = recvseq s + 1
        \<and> (\<exists>b. payload s' = Some b \<and> buf_ok b))"
      by (rule graceful_mono [OF take_payload_safe [OF u(1) b(1) u(2)]]) (simp add: rq)
  qed
qed

section \<open>Reading\<close>

lemma sys_read_cases:
  obtains (Got) bytes w where "sys_read n w0 = (Got bytes, w)" "length bytes \<le> n"
  | (Again) w where "sys_read n w0 = (Read_again, w)"
  | (Error) w where "sys_read n w0 = (Read_error, w)"
  unfolding sys_read_def by (cases "read_answers w0"; cases "hd (read_answers w0)") auto

lemma read_packet_init_safe:
  assumes s: "recv_ok s" "readbuf_ok s"
    and rb: "\<And>rb. readbuf s = Some rb \<Longrightarrow> blen rb < of_nat (blocksize (algo_crypt (recv (keys s))))"
  shows "graceful (read_packet_init s) (\<lambda>(go, s'). recv_ok s' \<and> readbuf_ok s' \<and> payload s' = payload s
    \<and> recvseq s' = recvseq s \<and> algo_crypt (recv (keys s')) = algo_crypt (recv (keys s))
    \<and> (go \<longrightarrow> (\<exists>rb'. readbuf s' = Some rb' \<and> \<not> blen rb' < of_nat (blocksize (algo_crypt (recv (keys s)))))))"
proof -
  let ?bs = "blocksize (algo_crypt (recv (keys s)))"
  note k = recv_okD [OF s(1)]
  obtain rb0 c n where r0: "(case readbuf s of None \<Rightarrow> buf_new INIT_READBUF | Some rb \<Rightarrow> Inr rb) = Inr rb0"
    "buf_is rb0 c (length c) n" "128 \<le> n" "length c < ?bs"
  proof (cases "readbuf s")
    case None
    obtain b where "buf_new INIT_READBUF = Inr b" "buf_is b [] 0 128" using buf_is_new [of INIT_READBUF] by auto
    then show thesis using that [of b "[]" 128] None k(3) by auto
  next
    case (Some b)
    then obtain c p n where b: "buf_is b c p n" "128 \<le> n" "length c < ?bs \<longrightarrow> p = length c"
      using s(2) by (auto simp: readbuf_ok_def split: if_splits)
    have "length c < ?bs" using rb [OF Some] buf_isD(5) [OF b(1)] k(5) by (simp add: word_less_nat_alt)
    then show thesis using that [of b c n] Some b by simp
  qed
  note d = buf_isD [OF r0(2)]
  let ?max = "of_nat ?bs - bpos rb0"
  have um: "unat ?max = ?bs - length c" using d(3) k(5) r0(4) by (subst unat_sub_below) simp_all
  have bsn: "?bs \<le> n" using k(3) r0(3) by auto
  have gw: "buf_getwriteptr rb0 ?max = Inr (length c)"
    using buf_is_getwriteptr [OF r0(2), of ?max] um r0(4) bsn by simp
  show ?thesis
  proof (cases rule: sys_read_cases [of "unat ?max" "world s"])
    case (Again w)
    have "readbuf_ok (s\<lparr>readbuf := Some rb0, world := w\<rparr>)"
      by (rule readbuf_ok_startI [OF _ r0(2,3)]) (use r0(4) in simp_all)
    then show ?thesis using Again r0(1) gw s(1) unfolding read_packet_init_def Let_def by (simp add: recv_ok_def)
  next
    case (Error w)
    then show ?thesis using r0(1) gw unfolding read_packet_init_def Let_def by simp
  next
    case (Got bytes w)
    have lb: "length c + length bytes \<le> ?bs" using Got(2) um r0(4) by simp
    have room: "length bytes \<le> buf_room rb0" using buf_is_room [OF r0(2)] lb bsn by simp
    let ?rb = "buf_wrote rb0 bytes"
    have mw: "mem_write (bdata rb0) (length c) bytes = Inr (blit (bdata rb0) (unat (bpos rb0)) bytes)"
      using mem_write_room [OF d(1) room] d(3) by simp
    have iw: "buf_incrwritepos (rb0\<lparr>bdata := blit (bdata rb0) (unat (bpos rb0)) bytes\<rparr>) (of_nat (length bytes)) = Inr ?rb"
      using buf_incrwritepos_blit [OF d(1) room] by simp
    have is1: "buf_is ?rb (c @ bytes) (length (c @ bytes)) n"
      using buf_is_wrote [OF r0(2), of bytes] lb bsn by (simp add: blit_at_end)
    let ?t = "s\<lparr>readbuf := Some ?rb, world := w\<rparr>"
    have t: "recv_ok ?t" using s(1) by (simp add: recv_ok_def)
    show ?thesis
    proof (cases "of_nat (length bytes) = ?max")
      case True
      then have full: "length (c @ bytes) = blocksize (algo_crypt (recv (keys ?t)))"
        using um r0(4) lb k(3) unat_of_nat_u32 [of "length bytes"] by auto
      note g = first_block_safe [OF t is1 full r0(3)]
      have "graceful (bindr (first_block ?rb ?t) (\<lambda>s. Inr (True, s))) (\<lambda>(go, s'). recv_ok s' \<and> readbuf_ok s' \<and> payload s' = payload s
        \<and> recvseq s' = recvseq s \<and> algo_crypt (recv (keys s')) = algo_crypt (recv (keys s)) \<and> (go \<longrightarrow> (\<exists>rb'. readbuf s' = Some rb' \<and> \<not> blen rb' < of_nat ?bs)))"
        by (rule graceful_bindr [OF g]) simp
      then show ?thesis using Got(1) r0(1) gw mw iw True unfolding read_packet_init_def Let_def by auto
    next
      case False
      then have "length bytes \<noteq> ?bs - length c" using um by (metis of_nat_unat ucast_id)
      then have "length (c @ bytes) < ?bs" using lb by simp
      then have "readbuf_ok ?t" by (intro readbuf_ok_startI [OF _ is1 r0(3)]) simp_all
      then show ?thesis using Got(1) r0(1) gw mw iw False t unfolding read_packet_init_def Let_def by auto
    qed
  qed
qed

lemma read_rest_safe:
  assumes s: "recv_ok s" and rb: "readbuf s = Some rb" "buf_is rb c p n" "128 \<le> n"
    "blocksize (algo_crypt (recv (keys s))) \<le> p" "whole_packet (recv (keys s)) (length c)"
  shows "graceful (let maxlen = blen rb - bpos rb in
          if maxlen = 0 then decrypt_packet s
          else
            bindr (buf_getptr rb maxlen) (\<lambda>p.
            case sys_read (unat maxlen) (world s) of
              (Read_again, w) \<Rightarrow> Inr (s\<lparr>world := w\<rparr>)
            | (Read_error, w) \<Rightarrow> Inl (Exit ''Error reading'')
            | (Got bytes, w) \<Rightarrow>
                if bytes = [] then Inl (Close ''Exited normally'')
                else
                  bindr (mem_write (bdata rb) p bytes) (\<lambda>d.
                  bindr (buf_incrpos (rb\<lparr>bdata := d\<rparr>) (of_nat (length bytes))) (\<lambda>rb.
                  let s = s\<lparr>readbuf := Some rb, world := w\<rparr> in
                  if of_nat (length bytes) = maxlen then decrypt_packet s else Inr s))))
    (\<lambda>s'. recv_ok s' \<and> readbuf_ok s' \<and>
       (payload s' = payload s \<and> recvseq s' = recvseq s
        \<or> recvseq s' = recvseq s + 1 \<and> readbuf s' = None \<and> (\<exists>b. payload s' = Some b \<and> buf_ok b)))"
    (is "graceful _ ?P")
proof -
  note d = buf_isD [OF rb(2)]
  let ?max = "blen rb - bpos rb"
  have um: "unat ?max = length c - p" using d by (subst unat_sub_below) simp_all
  have dp: "graceful (decrypt_packet t) ?P"
    if "recv_ok t" "readbuf t = Some b" "buf_is b e q m" "whole_packet (recv (keys t)) (length e)" "recvseq t = recvseq s" for t b e q m
    by (rule graceful_mono [OF decrypt_packet_safe [OF that(1-4)]]) (auto simp: that(5) readbuf_ok_def)
  show ?thesis
  proof (cases "?max = 0")
    case True
    then show ?thesis using dp [OF s rb(1,2,5) refl] by simp
  next
    case False
    have gp: "buf_getptr rb ?max = Inr p" using buf_is_getptr [OF rb(2), of ?max] um d(6) by simp
    show ?thesis
    proof (cases rule: sys_read_cases [of "unat ?max" "world s"])
      case (Again w)
      have "readbuf_ok (s\<lparr>world := w\<rparr>)" by (rule readbuf_okI [OF _ rb(2,3)]) (use rb in simp_all)
      then show ?thesis using Again gp False s unfolding Let_def by (simp add: recv_ok_def)
    next
      case (Error w)
      then show ?thesis using gp False unfolding Let_def by simp
    next
      case (Got bytes w)
      have lb: "p + length bytes \<le> length c" using Got(2) um d(6) by simp
      obtain dd where mw: "mem_write (bdata rb) p bytes = Inr dd" "buf_is (rb\<lparr>bdata := dd\<rparr>) (blit c p bytes) p n"
        using buf_is_mem_write [OF rb(2) lb] by blast
      have ub: "unat (of_nat (length bytes) :: u32) = length bytes" using lb d by (intro unat_of_nat_u32) simp
      have lc: "length (blit c p bytes) = length c" using lb by simp
      obtain rb2 where r2: "buf_incrpos (rb\<lparr>bdata := dd\<rparr>) (of_nat (length bytes)) = Inr rb2"
        "buf_is rb2 (blit c p bytes) (p + length bytes) n"
        using buf_is_incrpos [OF mw(2), of "of_nat (length bytes)"] ub lb lc by auto
      let ?t = "s\<lparr>readbuf := Some rb2, world := w\<rparr>"
      have t: "recv_ok ?t" using s by (simp add: recv_ok_def)
      have wp: "whole_packet (recv (keys ?t)) (length (blit c p bytes))" using rb(5) lc by simp
      have rk: "readbuf_ok ?t" by (rule readbuf_okI [OF _ r2(2) rb(3) _ wp]) (use rb(4) in simp_all)
      have "graceful (decrypt_packet ?t) ?P" by (rule dp [OF t _ r2(2) wp]) simp_all
      then show ?thesis using Got(1) gp mw(1) r2(1) False rk t unfolding Let_def by auto
    qed
  qed
qed

section \<open>Properties\<close>

text \<open>
  C24. Reading from the network is safe whatever arrives: with keys that satisfy the contract of
  the libraries, \<open>read_packet\<close> never leaves a buffer, never follows a NULL pointer and never fails
  an assertion, for every sequence of answers of \<open>read\<close>; it ends the session on purpose or keeps
  the invariant of the receive buffer, and every packet it delivers is a well-formed buffer and
  advances the sequence number by one.
\<close>

theorem read_packet_safe:
  assumes "recv_ok s" and "readbuf_ok s"
  shows "graceful (read_packet s) (\<lambda>s'. recv_ok s' \<and> readbuf_ok s' \<and>
    (payload s' = payload s \<and> recvseq s' = recvseq s
     \<or> recvseq s' = recvseq s + 1 \<and> readbuf s' = None \<and> (\<exists>b. payload s' = Some b \<and> buf_ok b)))"
proof -
  let ?bs = "of_nat (blocksize (algo_crypt (recv (keys s)))) :: u32"
  have pre: "graceful (case readbuf s of None \<Rightarrow> read_packet_init s
      | Some rb \<Rightarrow> if blen rb < ?bs then read_packet_init s else Inr (True, s))
    (\<lambda>(go, s'). recv_ok s' \<and> readbuf_ok s' \<and> payload s' = payload s \<and> recvseq s' = recvseq s
      \<and> algo_crypt (recv (keys s')) = algo_crypt (recv (keys s))
      \<and> (go \<longrightarrow> (\<exists>rb'. readbuf s' = Some rb' \<and> \<not> blen rb' < ?bs)))"
    using read_packet_init_safe [OF assms] assms by (cases "readbuf s") auto
  show ?thesis unfolding read_packet_def Let_def
  proof (rule graceful_bindr [OF pre], clarify)
    fix go t
    assume t: "recv_ok t" "readbuf_ok t" and eq: "payload t = payload s" "recvseq t = recvseq s"
      "algo_crypt (recv (keys t)) = algo_crypt (recv (keys s))"
      and go: "go \<longrightarrow> (\<exists>rb'. readbuf t = Some rb' \<and> \<not> blen rb' < ?bs)"
    show "graceful (if \<not> go then Inr t else case readbuf t of None \<Rightarrow> Inl Mem_fault
        | Some rb \<Rightarrow> if blen rb - bpos rb = 0 then decrypt_packet t
            else bindr (buf_getptr rb (blen rb - bpos rb)) (\<lambda>p.
              case sys_read (unat (blen rb - bpos rb)) (world t) of
                (Got bytes, w) \<Rightarrow> if bytes = [] then Inl (Close ''Exited normally'')
                  else bindr (mem_write (bdata rb) p bytes) (\<lambda>d.
                    bindr (buf_incrpos (rb\<lparr>bdata := d\<rparr>) (of_nat (length bytes))) (\<lambda>rb'.
                    if of_nat (length bytes) = blen rb - bpos rb then decrypt_packet (t\<lparr>readbuf := Some rb', world := w\<rparr>)
                    else Inr (t\<lparr>readbuf := Some rb', world := w\<rparr>)))
              | (Read_again, w) \<Rightarrow> Inr (t\<lparr>world := w\<rparr>) | (Read_error, w) \<Rightarrow> Inl (Exit ''Error reading'')))
      (\<lambda>s'. recv_ok s' \<and> readbuf_ok s' \<and> (payload s' = payload s \<and> recvseq s' = recvseq s
        \<or> recvseq s' = recvseq s + 1 \<and> readbuf s' = None \<and> (\<exists>b. payload s' = Some b \<and> buf_ok b)))"
    proof (cases go)
      case True
      then obtain rb where rb: "readbuf t = Some rb" "\<not> blen rb < ?bs" using go by blast
      then obtain c p n where b: "buf_is rb c p n" "128 \<le> n"
        "if length c < blocksize (algo_crypt (recv (keys t))) then p = length c
         else blocksize (algo_crypt (recv (keys t))) \<le> p \<and> whole_packet (recv (keys t)) (length c)"
        using t(2) by (auto simp: readbuf_ok_def)
      have "\<not> length c < blocksize (algo_crypt (recv (keys t)))"
        using rb(2) buf_isD(5) [OF b(1)] recv_okD(5) [OF t(1)] eq(3) by (simp add: word_less_nat_alt)
      then have w: "blocksize (algo_crypt (recv (keys t))) \<le> p" "whole_packet (recv (keys t)) (length c)" using b(3) by simp_all
      show ?thesis using read_rest_safe [OF t(1) rb(1) b(1,2) w] True rb(1) eq(1,2) unfolding Let_def by simp
    qed (use t eq in simp)
  qed
qed

theorem read_packet_safe_witness:
  "graceful (read_packet (plain_session\<lparr>world := still_world\<lparr>read_answers := [Got ''garbage'', Got ''xyz'']\<rparr>\<rparr>)) (\<lambda>s'. recv_ok s')"
proof -
  let ?s = "plain_session\<lparr>world := still_world\<lparr>read_answers := [Got ''garbage'', Got ''xyz'']\<rparr>\<rparr>"
  have "recv_ok ?s" "readbuf_ok ?s"
    by (simp_all add: recv_ok_def recv_key_ok_def readbuf_ok_def plain_session_def zero_session_def no_keys_def no_algos_def
        block_ok_def mac_ok_def dropbear_nocipher_def dropbear_mode_none_def dropbear_nohash_def void_cipher_def)
  from graceful_mono [OF read_packet_safe [OF this]] show ?thesis by blast
qed

section \<open>Sealing and opening\<close>

text \<open>
  A sender and a receiver with the same keys: same algorithms, MAC key and cipher state, and the
  receiver expects the sender's next sequence number. Decryption undoes encryption when the first
  block is decrypted alone, as CBC and CTR mode do.
\<close>

definition undoes :: "dropbear_cipher_mode \<Rightarrow> nat \<Rightarrow> bool" where
  "undoes m bs \<longleftrightarrow> (\<forall>inp st e st'. bs \<le> length inp \<and> cm_encrypt m inp st = Some (e, st') \<longrightarrow>
     length e = length inp \<and> (\<exists>st1. cm_decrypt m (take bs e) st = Some (take bs inp, st1)
       \<and> cm_decrypt m (drop bs e) st1 = Some (drop bs inp, st')))"

definition peers :: "sshsession \<Rightarrow> sshsession \<Rightarrow> bool" where
  "peers t r \<longleftrightarrow> (let k = trans (keys t); k' = recv (keys r) in
     algo_crypt k' = algo_crypt k \<and> crypt_mode k' = crypt_mode k \<and> algo_mac k' = algo_mac k
     \<and> hash_index k' = hash_index k \<and> mackey k' = mackey k \<and> cipher_state k' = cipher_state k
     \<and> libtom r = libtom t \<and> recvseq r = transseq t
     \<and> aead_crypt (crypt_mode k) = None \<and> undoes (crypt_mode k) (blocksize (algo_crypt k))
     \<and> \<not> is_compress_trans t \<and> \<not> is_compress_recv r)"

lemma packet_mac_cong:
  "algo_mac k' = algo_mac k \<Longrightarrow> hash_index k' = hash_index k \<Longrightarrow> mackey k' = mackey k
   \<Longrightarrow> packet_mac lt k' n bs = packet_mac lt k n bs"
  by (simp add: packet_mac_def)

lemma first_block_exact:
  fixes s :: sshsession
  defines "k \<equiv> recv (keys s)"
  assumes s: "recv_ok s" and none: "aead_crypt (crypt_mode k) = None"
    and rb: "buf_is rb c p n" "length c = blocksize (algo_crypt k)" "128 \<le> n"
    and dec: "cm_decrypt (crypt_mode k) c (cipher_state k) = Some (out, st)"
    and plen: "LOAD32H (take 4 out) = of_nat (l - 4)" "4 \<le> l" "l \<le> 100000" "blocksize (algo_crypt k) \<le> l"
      "l mod blocksize (algo_crypt k) = 0"
  obtains rb' c' n' where "first_block rb s = Inr ((upd_recv (\<lambda>k. k\<lparr>cipher_state := st\<rparr>) s)\<lparr>readbuf := Some rb'\<rparr>)"
    "buf_is rb' (out @ c') (length out) n'" "128 \<le> n'" "length (out @ c') = l + hashsize (algo_mac k)"
proof -
  let ?bs = "blocksize (algo_crypt k)" and ?m = "hashsize (algo_mac k)"
  note k = recv_okD [OF s, folded k_def]
  obtain rb1 where r1: "buf_setpos rb 0 = Inr rb1" "buf_is rb1 c 0 n" using buf_is_setpos [OF rb(1), of 0] by auto
  have peek: "buf_peek rb1 (of_nat ?bs) = Inr c"
    using buf_is_peek [OF r1(2), of "of_nat ?bs"] k(5) rb(2) by simp
  have gw: "buf_getwriteptr rb1 (of_nat ?bs) = Inr 0"
    using buf_is_getwriteptr [OF r1(2), of "of_nat ?bs"] k(5) rb(2) buf_isD(7) [OF rb(1)] by simp
  have lo: "length out = length c" using recv_ok_plain [OF s] none dec by (simp add: k_def)
  obtain dd where mw: "mem_write (bdata rb1) 0 out = Inr dd" "buf_is (rb1\<lparr>bdata := dd\<rparr>) (blit c 0 out) 0 n"
    using buf_is_mem_write [OF r1(2), of 0 out] lo by auto
  have bo: "blit c 0 out = out" using lo by (simp add: blit_def)
  have four: "4 \<le> length out" using lo rb(2) k(3) by auto
  obtain rb2 where gi: "buf_getint (rb1\<lparr>bdata := dd\<rparr>) = Inr (of_nat (l - 4), rb2)" "buf_is rb2 out 4 n"
    using buf_is_getint [OF mw(2)] bo four plen(1) by auto
  let ?t = "upd_recv (\<lambda>k. k\<lparr>cipher_state := st\<rparr>) s"
  have pl: "(of_nat (l - 4) + 4 :: u32) = of_nat l" using plen(2) by (simp add: of_nat_diff)
  have ul: "unat (of_nat l :: u32) = l" using plen(3) by (intro unat_of_nat_u32) simp
  have kt: "algo_crypt (recv (keys ?t)) = algo_crypt k" "algo_mac (recv (keys ?t)) = algo_mac k"
    "lenfield (recv (keys ?t)) = 0" using none by (simp_all add: k_def lenfield_def)
  have len: "of_nat l + of_nat ?m = (of_nat l :: u32) + of_nat (lenfield (recv (keys ?t)) + hashsize (algo_mac (recv (keys ?t))))"
    using kt by simp
  have usum: "unat (of_nat l + of_nat ?m :: u32) = l + ?m" using ul k(4,6) plen(3) by (simp add: unat_add_below)
  have um: "unat ((of_nat l :: u32) mod of_nat ?bs) = 0" using ul k(5) plen(5) by (simp add: unat_mod)
  have chk: "\<not> (of_nat l + of_nat ?m > RECV_MAX_PACKET_LEN \<or> of_nat l > RECV_MAX_PACKET_LEN
      \<or> (of_nat l :: u32) < of_nat ?bs \<or> (of_nat l :: u32) mod of_nat ?bs \<noteq> 0)"
    using usum ul k(4,5) plen(3,4) um by (auto simp: word_less_nat_alt unat_eq_zero)
  have lob: "length out = blocksize (algo_crypt (recv (keys ?t)))" using lo rb(2) kt by simp
  have nz: "(of_nat ?bs :: u32) \<noteq> 0" using k(3,5) by (metis unat_0 zero_neq_numeral)
  obtain rb' c' n' where e: "bindr (if of_nat l + of_nat ?m > bsize rb2 then buf_resize (realloc_junk (world ?t)) rb2 (of_nat l + of_nat ?m) else Inr rb2) (\<lambda>rb.
      bindr (buf_setlen rb (of_nat l + of_nat ?m)) (\<lambda>rb. bindr (buf_setpos rb (of_nat (blocksize (algo_crypt (recv (keys ?t)))))) (\<lambda>rb.
        Inr (?t\<lparr>readbuf := Some rb\<rparr>)))) = Inr (?t\<lparr>readbuf := Some rb'\<rparr>)"
    "buf_is rb' (out @ c') (length out) n'" "128 \<le> n'"
    "whole_packet (recv (keys ?t)) (length (out @ c'))" "length (out @ c') = unat (of_nat l + of_nat ?m :: u32)"
    by (rule first_block_tail [OF gi(2) lob rb(3) _ _ len]) (use k(1,4) chk kt that in simp_all)
  have "size_readbuf (of_nat l) (of_nat l + of_nat ?m) rb2 ?t = Inr (?t\<lparr>readbuf := Some rb'\<rparr>)"
    using e(1) chk nz kt unfolding size_readbuf_def Let_def by (simp add: k_def)
  then have "first_block rb s = Inr (?t\<lparr>readbuf := Some rb'\<rparr>)"
    using r1(1) peek gw mw(1) gi(1) none dec pl unfolding first_block_def Let_def k_def by simp
  then show thesis using that e(2,3,5) usum by simp
qed

lemma open_packet_exact:
  fixes s :: sshsession
  defines "k \<equiv> recv (keys s)"
  assumes s: "recv_ok s" and none: "aead_crypt (crypt_mode k) = None"
    and rb: "buf_is rb (first @ e @ mac) p n" "length first = blocksize (algo_crypt k)" "length mac = hashsize (algo_mac k)"
    and dec: "cm_decrypt (crypt_mode k) e (cipher_state k) = Some (rest, st)"
    and mac: "packet_mac (libtom s) k (recvseq s) (first @ rest) = mac"
  obtains rb' q where "open_packet rb s = Inr (rb', upd_recv (\<lambda>k. k\<lparr>cipher_state := st\<rparr>) s)"
    "buf_is rb' (first @ rest @ mac) q n"
proof -
  let ?bs = "blocksize (algo_crypt k)" and ?m = "hashsize (algo_mac k)" and ?c = "first @ e @ mac"
  note k = recv_okD [OF s, folded k_def]
  obtain rb1 where r1: "buf_setpos rb (of_nat ?bs) = Inr rb1" "buf_is rb1 ?c ?bs n"
    using buf_is_setpos [OF rb(1), of "of_nat ?bs"] k(5) rb(2) by auto
  note d = buf_isD [OF r1(2)]
  let ?len = "blen rb1 - of_nat ?m - bpos rb1"
  have ul: "unat ?len = length e" using d k(6) rb(2,3) by (simp add: unat_sub_below)
  have pk: "buf_peek rb1 ?len = Inr e" using buf_is_peek [OF r1(2), of ?len] ul rb(2) by simp
  have gw: "buf_getwriteptr rb1 ?len = Inr ?bs" using buf_is_getwriteptr [OF r1(2), of ?len] ul d(7) rb(2) by simp
  have lo: "length rest = length e" using recv_ok_plain [OF s] none dec by (simp add: k_def)
  obtain dd where mw: "mem_write (bdata rb1) ?bs rest = Inr dd" "buf_is (rb1\<lparr>bdata := dd\<rparr>) (blit ?c ?bs rest) ?bs n"
    using buf_is_mem_write [OF r1(2), of ?bs rest] lo rb(2) by auto
  have bl: "blit ?c ?bs rest = first @ rest @ mac" using lo rb(2) by (simp add: blit_def)
  obtain rb2 where r2: "buf_incrpos (rb1\<lparr>bdata := dd\<rparr>) ?len = Inr rb2" "buf_is rb2 (first @ rest @ mac) (?bs + length e) n"
    using buf_is_incrpos [OF mw(2), of ?len] ul bl lo rb(2) by auto
  have ml: "hashsize (algo_mac (recv (keys s))) \<le> length (first @ rest @ mac)" using rb(3) by (simp add: k_def)
  obtain rb3 q where cm: "checkmac rb2 s = Inr (packet_mac (libtom s) (recv (keys s)) (recvseq s)
        (take (length (first @ rest @ mac) - hashsize (algo_mac (recv (keys s)))) (first @ rest @ mac))
      = drop (length (first @ rest @ mac) - hashsize (algo_mac (recv (keys s)))) (first @ rest @ mac), rb3)"
    "buf_is rb3 (first @ rest @ mac) q n"
    by (rule checkmac_ok [OF s r2(2) ml]) (rule that)
  have "checkmac rb2 s = Inr (True, rb3)" using cm(1) mac rb(3) by (simp add: k_def)
  then show thesis using that [of rb3 q] cm(2) r1(1) pk gw none dec mw(1) r2(1)
    unfolding open_packet_def Let_def k_def [symmetric] by simp
qed

lemma take_payload_exact:
  assumes s: "recv_ok s" "\<not> is_compress_recv s" and rb: "buf_is rb (clear_packet body rnd @ mac) p n"
    and l: "length mac = hashsize (algo_mac (recv (keys s)))" "length rnd \<le> 255" "body \<noteq> []" "length body \<le> 20000"
  obtains s' b where "take_payload rb s = Inr s'" "payload s' = Some b" "buf_rest b = body" "buf_ok b" "readbuf s' = None"
    "recvseq s' = recvseq s + 1" "world s' = world s"
proof -
  let ?c = "clear_packet body rnd @ mac"
  note k = recv_okD [OF s(1)]
  have lc: "length ?c = 5 + length body + length rnd + length mac" by simp
  obtain rb1 where r1: "buf_setpos rb 4 = Inr rb1" "buf_is rb1 ?c 4 n" using buf_is_setpos [OF rb, of 4] by auto
  have c4: "?c ! 4 = byte_of (length rnd)" by (simp add: clear_packet_def nth_append)
  obtain rb2 where r2: "buf_getbyte rb1 = Inr (?c ! 4, rb2)" "buf_is rb2 ?c 5 n" using buf_is_getbyte [OF r1(2)] by auto
  obtain rb3 where r3: "buf_setpos rb2 5 = Inr rb3" "buf_is rb3 ?c 5 n" using buf_is_setpos [OF r2(2), of 5] by auto
  have pad: "byte_val (?c ! 4) = length rnd" using c4 l(2) by (simp add: of_char_of)
  let ?len = "blen rb2 - of_nat (byte_val (?c ! 4)) - 4 - 1 - of_nat (hashsize (algo_mac (recv (keys s))))"
  have len: "?len = of_nat (length body)"
    using buf_is_words(1) [OF r2(2)] pad l(1) by (simp add: clear_packet_def)
  have ub: "unat (of_nat (length body) :: u32) = length body" using l(4) by (intro unat_of_nat_u32) simp
  have chk: "\<not> ((of_nat (length body) :: u32) > RECV_MAX_PAYLOAD_LEN + ZLIB_COMPRESS_EXPANSION \<or> (of_nat (length body) :: u32) < 1)"
    using ub l(3,4) by (simp add: packet_consts word_less_nat_alt not_less)
  have u5: "unat (bpos rb3 + of_nat (length body)) = 5 + length body" using buf_isD(3) [OF r3(2)] ub l(4) by (simp add: unat_add_below)
  obtain rb4 where r4: "buf_setlen rb3 (bpos rb3 + of_nat (length body)) = Inr rb4" "buf_is rb4 (take (5 + length body) ?c) 5 n"
    using buf_is_setlen [OF r3(2), of "bpos rb3 + of_nat (length body)"] u5 by auto
  have "take (5 + length body) ?c = STORE32H (of_nat (1 + length body + length rnd)) @ [byte_of (length rnd)] @ body"
    by (simp add: clear_packet_def)
  then have rest: "buf_rest rb4 = body" using buf_is_rest [OF r4(2)] by simp
  have "take_payload rb s = Inr (s\<lparr>payload := Some rb4, payload_beginning := bpos rb3, readbuf := None, recvseq := recvseq s + 1\<rparr>)"
    unfolding take_payload_def r1(1) bindr_Inr r2(1) prod.case Let_def len if_not_P [OF chk] using r3(1) r4(1) s(2) by simp
  then show thesis using that rest buf_isD(1) [OF r4(2)] by simp
qed

lemma read_first_exact:
  assumes s: "recv_ok s" "readbuf s = None" and w: "read_answers (world s) = Got blk # later"
    "length blk = blocksize (algo_crypt (recv (keys s)))"
  obtains rb w' where "read_packet_init s = bindr (first_block rb (s\<lparr>readbuf := Some rb, world := w'\<rparr>)) (\<lambda>s. Inr (True, s))"
    "buf_is rb blk (length blk) 128" "read_answers w' = later"
proof -
  let ?bs = "blocksize (algo_crypt (recv (keys s)))"
  note k = recv_okD [OF s(1)]
  obtain rb0 where n0: "buf_new INIT_READBUF = Inr rb0" "buf_is rb0 [] 0 128" using buf_is_new [of INIT_READBUF] by auto
  note d = buf_isD [OF n0(2)]
  let ?max = "of_nat ?bs - bpos rb0"
  have mx: "?max = of_nat (length blk)" "unat ?max = length blk" using k(5) w(2) buf_is_words(2) [OF n0(2)] by simp_all
  have lb: "length blk \<le> 128" "blk \<noteq> []" using k(3) w(2) by auto
  have gw: "buf_getwriteptr rb0 ?max = Inr 0" using buf_is_getwriteptr [OF n0(2), of ?max] mx(2) lb by simp
  have room: "length blk \<le> buf_room rb0" using buf_is_room [OF n0(2)] lb by simp
  have mw: "mem_write (bdata rb0) 0 blk = Inr (blit (bdata rb0) (unat (bpos rb0)) blk)"
    using mem_write_room [OF d(1) room] d(3) by simp
  have iw: "buf_incrwritepos (rb0\<lparr>bdata := blit (bdata rb0) (unat (bpos rb0)) blk\<rparr>) (of_nat (length blk)) = Inr (buf_wrote rb0 blk)"
    using buf_incrwritepos_blit [OF d(1) room] by simp
  have is1: "buf_is (buf_wrote rb0 blk) blk (length blk) 128"
    using buf_is_wrote [OF n0(2), of blk] lb by (simp add: blit_def)
  have rd: "sys_read (unat ?max) (world s) = (Got blk, (world s)\<lparr>read_answers := later\<rparr>)"
    using w mx(2) by (simp add: sys_read_def)
  have "read_packet_init s = bindr (first_block (buf_wrote rb0 blk) (s\<lparr>readbuf := Some (buf_wrote rb0 blk),
      world := (world s)\<lparr>read_answers := later\<rparr>\<rparr>)) (\<lambda>s. Inr (True, s))"
    using n0(1) gw rd lb(2) mw iw mx(1) s(2) unfolding read_packet_init_def Let_def by simp
  then show thesis using that is1 by simp
qed

lemma read_second_exact:
  assumes rb: "readbuf s = Some rb" "buf_is rb (first @ junk) (length first) n" "junk \<noteq> []" 
    and bs: "blocksize (algo_crypt (recv (keys s))) \<le> length first"
    and w: "read_answers (world s) = Got bytes # later" "length bytes = length junk"
  obtains rb' w' where "read_packet s = decrypt_packet (s\<lparr>readbuf := Some rb', world := w'\<rparr>)"
    "buf_is rb' (first @ bytes) (length (first @ bytes)) n"
proof -
  note d = buf_isD [OF rb(2)]
  let ?max = "blen rb - bpos rb"
  have um: "unat ?max = length junk" using d by (subst unat_sub_below) simp_all
  have mx: "?max = of_nat (length bytes)" using um w(2) by (metis of_nat_unat ucast_id)
  have nz: "?max \<noteq> 0" using um rb(3) by (metis length_0_conv unat_0)
  have gp: "buf_getptr rb ?max = Inr (length first)" using buf_is_getptr [OF rb(2), of ?max] um by simp
  have rd: "sys_read (unat ?max) (world s) = (Got bytes, (world s)\<lparr>read_answers := later\<rparr>)"
    using w um by (simp add: sys_read_def)
  obtain dd where mw: "mem_write (bdata rb) (length first) bytes = Inr dd"
    "buf_is (rb\<lparr>bdata := dd\<rparr>) (first @ bytes) (length first) n"
    using buf_is_mem_write [OF rb(2), of "length first" bytes] w(2) by (auto simp: blit_def)
  obtain rb2 where r2: "buf_incrpos (rb\<lparr>bdata := dd\<rparr>) ?max = Inr rb2" "buf_is rb2 (first @ bytes) (length (first @ bytes)) n"
    using buf_is_incrpos [OF mw(2), of ?max] um w(2) by auto
  have big: "\<not> blen rb < of_nat (blocksize (algo_crypt (recv (keys s))))"
  proof -
    have "unat (of_nat (blocksize (algo_crypt (recv (keys s)))) :: u32) = blocksize (algo_crypt (recv (keys s)))"
      using bs d by (intro unat_of_nat_u32) simp
    then show ?thesis using bs d(5) by (simp add: word_less_nat_alt)
  qed
  have ne: "bytes \<noteq> []" using w(2) rb(3) by auto
  have "read_packet s = decrypt_packet (s\<lparr>readbuf := Some rb2, world := (world s)\<lparr>read_answers := later\<rparr>\<rparr>)"
    using rb(1) big nz gp rd mw(1) r2(1) ne mx [symmetric] unfolding read_packet_def Let_def by simp
  then show thesis using that r2(2) by blast
qed


lemma no_algos_recv_ok [simp]: "recv_key_ok lt lz no_algos"
  by (simp add: recv_key_ok_def no_algos_def block_ok_def mac_ok_def dropbear_nocipher_def dropbear_mode_none_def
      dropbear_nohash_def void_cipher_def)


end
