(* ===== verification/Process_Packet.thy ===== *)
theory Process_Packet
  imports Packet
begin

text \<open>
  The dispatcher of received packets (\<open>dropbear/src/process-packet.c\<close>) and the service requests
  (\<open>svr-service.c\<close>). The handlers are the table \<open>ses.packettypes\<close>, an argument here: a list of
  message types and functions on the session.
\<close>

type_synonym handler = "sshsession \<Rightarrow> sshsession res"

section \<open>The dispatcher\<close>

definition MAX_UNAUTH_PACKET_TYPE :: nat where
  "MAX_UNAUTH_PACKET_TYPE = SSH_MSG_USERAUTH_PK_OK"

definition recv_unimplemented :: handler where
  "recv_unimplemented s =
     bindr (put_byte SSH_MSG_UNIMPLEMENTED s) (\<lambda>s.
     bindr (put_int (recvseq s - 1) s) encrypt_packet)"

text \<open>The loop over the table, up to the entry with type 0.\<close>

fun run_handler :: "(nat \<times> handler) list \<Rightarrow> nat \<Rightarrow> handler" where
  "run_handler [] type s = recv_unimplemented s"
| "run_handler ((t, h) # rest) type s = (if t = type then h s else run_handler rest type s)"

text \<open>What happens between reading the type and the label \<open>out\<close>.\<close>

definition process_type :: "(nat \<times> handler) list \<Rightarrow> bool \<Rightarrow> nat \<Rightarrow> handler" where
  "process_type packettypes first_strict_kex type s =
     (if \<not> first_strict_kex \<and> (type = SSH_MSG_IGNORE \<or> type = SSH_MSG_DEBUG \<or> type = SSH_MSG_UNIMPLEMENTED)
      then Inr s
      else
        let s = (if \<not> (type = SSH_MSG_GLOBAL_REQUEST \<or> type = SSH_MSG_REQUEST_FAILURE \<or> type = SSH_MSG_CHANNEL_FAILURE)
                 then s\<lparr>last_packet_time_idle := monotonic_now (world s)\<rparr> else s) in
        if requirenext s \<noteq> 0 \<and> requirenext s \<noteq> type then
          (if type \<ge> 1 \<and> type \<le> 49 \<and> type \<noteq> SSH_MSG_SERVICE_REQUEST \<and> type \<noteq> SSH_MSG_SERVICE_ACCEPT
              \<and> type \<noteq> SSH_MSG_KEXINIT \<and> \<not> first_strict_kex
           then recv_unimplemented s
           else Inl (Exit ''Unexpected packet type''))
        else if ignorenext s then Inr (s\<lparr>ignorenext := False\<rparr>)
        else
          let s = (if requirenext s \<noteq> 0 \<and> requirenext s = type then s\<lparr>requirenext := 0\<rparr> else s) in
          if \<not> authdone (authstate s) \<and> type > MAX_UNAUTH_PACKET_TYPE
          then Inl (Exit ''Received message before userauth'')
          else run_handler packettypes type s)"

definition process_packet :: "(nat \<times> handler) list \<Rightarrow> handler" where
  "process_packet packettypes s =
     (let first_strict_kex = strict_kex (kexstate s) \<and> \<not> recvfirstnewkeys (kexstate s) in
      bindr (on_read buf_getbyte s) (\<lambda>(c, s).
      let type = byte_val c;
          s = s\<lparr>last_packet_time_keepalive_recv := monotonic_now (world s)\<rparr> in
      if type = SSH_MSG_DISCONNECT then Inl (Close ''Disconnect received'')
      else
        bindr (process_type packettypes first_strict_kex type s) (\<lambda>s.
        Inr (s\<lparr>lastpacket := type, payload := None\<rparr>))))"

section \<open>Service requests\<close>

definition SSH_SERVICE_USERAUTH :: string where
  "SSH_SERVICE_USERAUTH = ''ssh-userauth''"

definition SSH_SERVICE_CONNECTION :: string where
  "SSH_SERVICE_CONNECTION = ''ssh-connection''"

definition send_msg_service_accept :: "byte list \<Rightarrow> handler" where
  "send_msg_service_accept name s =
     bindr (put_byte SSH_MSG_SERVICE_ACCEPT s) (\<lambda>s.
     bindr (put_string name s) encrypt_packet)"

definition recv_msg_service_request :: handler where
  "recv_msg_service_request s =
     bindr (on_read buf_getstring s) (\<lambda>(name, s).
     if name = SSH_SERVICE_USERAUTH then send_msg_service_accept name s
     else if name = SSH_SERVICE_CONNECTION then
       (if \<not> authdone (authstate s) then Inl (Exit ''Request for connection before auth'')
        else send_msg_service_accept name s)
     else Inl (Exit ''Unrecognised SSH_MSG_SERVICE_REQUEST''))"

section \<open>Lemmas\<close>

text \<open>A packet of a given type is waiting.\<close>

definition waiting :: "nat \<Rightarrow> byte list \<Rightarrow> sshsession \<Rightarrow> bool" where
  "waiting type body s \<longleftrightarrow> (\<exists>b c. payload s = Some b \<and> buf_ok b \<and> buf_rest b = c # body \<and> byte_val c = type)"

lemma process_packet_type:
  assumes "waiting type body s" and "type \<noteq> SSH_MSG_DISCONNECT"
  obtains b where "buf_ok b" "buf_rest b = body"
    "process_packet pts s = bindr (process_type pts (strict_kex (kexstate s) \<and> \<not> recvfirstnewkeys (kexstate s)) type
        (s\<lparr>payload := Some b, last_packet_time_keepalive_recv := monotonic_now (world s)\<rparr>))
      (\<lambda>s. Inr (s\<lparr>lastpacket := type, payload := None\<rparr>))"
proof -
  obtain b c where b: "payload s = Some b" "buf_ok b" "buf_rest b = c # body" "byte_val c = type"
    using assms(1) by (auto simp: waiting_def)
  have one: "1 \<le> length (buf_rest b)" using b(3) by simp
  have "buf_getbyte b = Inr (c, buf_skip b 1)" using b by (simp add: buf_getbyte_eq)
  then have "on_read buf_getbyte s = Inr (c, s\<lparr>payload := Some (buf_skip b 1)\<rparr>)"
    using b(1) by (simp add: on_read_def)
  moreover have "buf_ok (buf_skip b 1)" "buf_rest (buf_skip b 1) = body"
    using buf_skip_ok [OF b(2) one] buf_rest_skip [OF b(2) one] b(3) by simp_all
  ultimately show thesis using that [of "buf_skip b 1"] assms(2) b(4) by (simp add: process_packet_def Let_def)
qed

lemma recv_unimplemented_sends:
  assumes "ready_to_send s"
  obtains s' where "recv_unimplemented s = Inr s'" "sends (byte_of 3 # STORE32H (recvseq s - 1)) s s'"
proof (rule emits_sends [OF emits_byte [OF emits_int [OF emits_encrypt]] assms, of 3 "recvseq s - 1"])
  fix s'
  assume "bindr (put_byte 3 s) (\<lambda>t. bindr (put_int (recvseq s - 1) t) encrypt_packet) = Inr s'"
    and "sends (byte_of 3 # STORE32H (recvseq s - 1) @ []) s s'"
  moreover have "recv_unimplemented s = bindr (put_byte 3 s) (\<lambda>t. bindr (put_int (recvseq s - 1) t) encrypt_packet)"
    by (auto simp: recv_unimplemented_def put_byte_def on_write_def bindr_def split: sum.splits)
  ultimately show thesis using that by simp
qed simp_all

lemma run_handler_found:
  "map_of pts type = Some h \<Longrightarrow> run_handler pts type s = h s"
  by (induction pts) (auto split: if_splits)

lemma run_handler_unknown: "map_of pts type = None \<Longrightarrow> run_handler pts type s = recv_unimplemented s"
  by (induction pts) (auto split: if_splits)

section \<open>Properties\<close>

text \<open>
  C6. Nothing behind authentication is reachable before it: a packet whose type is above 60
  (everything but transport, key exchange and user authentication) that arrives while the user
  is not authenticated never reaches a handler, whatever handlers are installed; the session ends
  unless the packet is one that a wrong key exchange guess makes the server skip.
\<close>

theorem unauthenticated_blocked:
  assumes "waiting type body s" and "60 < type" and "\<not> authdone (authstate s)"
  shows "(\<forall>pts pts'. process_packet pts s = process_packet pts' s)
    \<and> (\<not> ignorenext s \<longrightarrow> (\<exists>msg. process_packet pts s = Inl (Exit msg)))"
proof -
  have nd: "type \<noteq> SSH_MSG_DISCONNECT" using assms(2) by simp
  have blocked: "process_type pts fs type t = process_type pts' fs type t
      \<and> (\<not> ignorenext t \<longrightarrow> (\<exists>msg. process_type pts fs type t = Inl (Exit msg)))"
    if "authstate t = authstate s" for pts pts' fs t
    using assms(2,3) that by (auto simp: process_type_def Let_def MAX_UNAUTH_PACKET_TYPE_def)
  have "process_packet pts s = process_packet pts' s" for pts pts'
  proof -
    obtain b where b: "process_packet pts s = bindr (process_type pts (strict_kex (kexstate s) \<and> \<not> recvfirstnewkeys (kexstate s)) type
        (s\<lparr>payload := Some b, last_packet_time_keepalive_recv := monotonic_now (world s)\<rparr>))
      (\<lambda>s. Inr (s\<lparr>lastpacket := type, payload := None\<rparr>))"
      "process_packet pts' s = bindr (process_type pts' (strict_kex (kexstate s) \<and> \<not> recvfirstnewkeys (kexstate s)) type
        (s\<lparr>payload := Some b, last_packet_time_keepalive_recv := monotonic_now (world s)\<rparr>))
      (\<lambda>s. Inr (s\<lparr>lastpacket := type, payload := None\<rparr>))"
      using nd assms(1) by (auto simp: process_packet_def on_read_def waiting_def buf_getbyte_eq Let_def)
    show ?thesis unfolding b by (rule arg_cong2 [where f = bindr]) (use blocked in auto)
  qed
  moreover have "\<exists>msg. process_packet pts s = Inl (Exit msg)" if i: "\<not> ignorenext s" for pts
  proof -
    obtain b where b: "process_packet pts s = bindr (process_type pts (strict_kex (kexstate s) \<and> \<not> recvfirstnewkeys (kexstate s)) type
        (s\<lparr>payload := Some b, last_packet_time_keepalive_recv := monotonic_now (world s)\<rparr>))
      (\<lambda>s. Inr (s\<lparr>lastpacket := type, payload := None\<rparr>))"
      using process_packet_type [OF assms(1) nd] by blast
    show ?thesis unfolding b using blocked [of "s\<lparr>payload := Some b, last_packet_time_keepalive_recv := monotonic_now (world s)\<rparr>"] i
      by (auto simp: bindr_eq_Inl_iff)
  qed
  ultimately show ?thesis by blast
qed

text \<open>A payload for evaluations.\<close>

definition packet_of :: "byte list \<Rightarrow> buffer" where
  "packet_of bs = \<lparr>bdata = bs, blen = of_nat (length bs), bpos = 0, bsize = of_nat (length bs)\<rparr>"

lemma packet_of_ok:
  assumes "length bs \<le> 100000"
  shows "buf_ok (packet_of bs)" "buf_rest (packet_of bs) = bs"
proof -
  have "unat (of_nat (length bs) :: u32) = length bs" using assms by (intro unat_of_nat_u32) simp
  then show "buf_ok (packet_of bs)" "buf_rest (packet_of bs) = bs"
    using assms by (auto simp: packet_of_def buf_rest_def intro!: buf_okI)
qed

lemma waiting_packet_of: "length bs \<le> 99999 \<Longrightarrow> waiting (byte_val c) bs (s\<lparr>payload := Some (packet_of (c # bs))\<rparr>)"
  using packet_of_ok [of "c # bs"] by (auto simp: waiting_def)

theorem unauthenticated_blocked_witness:
  "\<exists>msg. process_packet [(90, Inr)] (plain_session\<lparr>payload := Some (packet_of [CHR 0x5A])\<rparr>) = Inl (Exit msg)"
proof -
  let ?s = "plain_session\<lparr>payload := Some (packet_of [CHR 0x5A])\<rparr>"
  have "waiting 90 [] ?s" using waiting_packet_of [of "[]" "CHR 0x5A" plain_session] by simp
  then show ?thesis using unauthenticated_blocked [of 90 "[]" ?s]
    by (simp add: plain_session_def zero_session_def zero_authstate_def)
qed

text \<open>
  C7. Strict key exchange: once the peers agreed on it, and until the first NEWKEYS of the peer,
  every packet other than the one required next ends the session, the ones that may be ignored at
  other times included; so nobody can insert packets into the first key exchange.
\<close>

theorem strict_kex_only_required:
  assumes "waiting type body s" and "strict_kex (kexstate s)" and "\<not> recvfirstnewkeys (kexstate s)"
    and "requirenext s \<noteq> 0" and "type \<noteq> requirenext s"
  shows "\<exists>msg. process_packet pts s = Inl (Exit msg) \<or> process_packet pts s = Inl (Close msg)"
proof (cases "type = SSH_MSG_DISCONNECT")
  case True
  then show ?thesis using assms(1) by (auto simp: process_packet_def on_read_def waiting_def buf_getbyte_eq Let_def)
next
  case False
  then obtain b where b: "process_packet pts s = bindr (process_type pts (strict_kex (kexstate s) \<and> \<not> recvfirstnewkeys (kexstate s)) type
        (s\<lparr>payload := Some b, last_packet_time_keepalive_recv := monotonic_now (world s)\<rparr>))
      (\<lambda>s. Inr (s\<lparr>lastpacket := type, payload := None\<rparr>))"
    using process_packet_type [OF assms(1)] by blast
  show ?thesis unfolding b using assms(2-5) by (auto simp: process_type_def Let_def)
qed

theorem strict_kex_only_required_witness:
  "\<exists>msg. process_packet [(21, Inr)] (plain_session\<lparr>payload := Some (packet_of [CHR 0x02]), requirenext := 21,
      kexstate := zero_kexstate\<lparr>strict_kex := True\<rparr>\<rparr>) = Inl (Exit msg)
    \<or> process_packet [(21, Inr)] (plain_session\<lparr>payload := Some (packet_of [CHR 0x02]), requirenext := 21,
      kexstate := zero_kexstate\<lparr>strict_kex := True\<rparr>\<rparr>) = Inl (Close msg)"
proof -
  let ?s = "plain_session\<lparr>payload := Some (packet_of [CHR 0x02]), requirenext := 21, kexstate := zero_kexstate\<lparr>strict_kex := True\<rparr>\<rparr>"
  have "waiting 2 [] ?s"
    using packet_of_ok [of "[CHR 0x02]"] by (simp add: waiting_def)
  then show ?thesis using strict_kex_only_required [of 2 "[]" ?s] by (simp add: zero_kexstate_def)
qed

text \<open>
  Dispatch: a packet that passes the checks is handed to the first handler of its type,
  exactly once, with the bytes behind the type; afterwards the packet is released and its type
  remembered. A type without a handler is answered with SSH_MSG_UNIMPLEMENTED and the sequence
  number of that packet, and nothing else changes on the receiving side.
\<close>

definition passes :: "nat \<Rightarrow> sshsession \<Rightarrow> bool" where
  "passes type s \<longleftrightarrow> type \<notin> {1, 2, 3, 4} \<and> (requirenext s = 0 \<or> requirenext s = type) \<and> \<not> ignorenext s
     \<and> (authdone (authstate s) \<or> type \<le> 60)"

definition handed :: "nat \<Rightarrow> sshsession \<Rightarrow> buffer \<Rightarrow> sshsession" where
  "handed type s b =
     (let now = monotonic_now (world s);
          s = s\<lparr>payload := Some b, last_packet_time_keepalive_recv := now\<rparr>;
          s = (if type = 80 \<or> type = 82 \<or> type = 100 then s else s\<lparr>last_packet_time_idle := now\<rparr>) in
      if requirenext s = 0 then s else s\<lparr>requirenext := 0\<rparr>)"

lemma handed_simps [simp]:
  "libtom (handed type s b) = libtom s" "libz (handed type s b) = libz s" "keys (handed type s b) = keys s"
  "writepayload (handed type s b) = writepayload s" "reply_queue_len (handed type s b) = reply_queue_len s"
  "recvseq (handed type s b) = recvseq s" "authstate (handed type s b) = authstate s"
  "payload (handed type s b) = Some b" "requirenext (handed type s b) = 0" "kexstate (handed type s b) = kexstate s"
  by (simp_all add: handed_def Let_def)

lemma process_packet_passes:
  assumes "waiting type body s" and "passes type s"
  obtains b where "buf_ok b" "buf_rest b = body"
    "process_packet pts s = bindr (run_handler pts type (handed type s b)) (\<lambda>s. Inr (s\<lparr>lastpacket := type, payload := None\<rparr>))"
proof -
  have nd: "type \<noteq> SSH_MSG_DISCONNECT" using assms(2) by (simp add: passes_def)
  obtain b where b: "buf_ok b" "buf_rest b = body"
    "process_packet pts s = bindr (process_type pts (strict_kex (kexstate s) \<and> \<not> recvfirstnewkeys (kexstate s)) type
        (s\<lparr>payload := Some b, last_packet_time_keepalive_recv := monotonic_now (world s)\<rparr>))
      (\<lambda>s. Inr (s\<lparr>lastpacket := type, payload := None\<rparr>))"
    by (rule process_packet_type [OF assms(1) nd]) (rule that)
  have "process_type pts fs type (s\<lparr>payload := Some b, last_packet_time_keepalive_recv := monotonic_now (world s)\<rparr>)
      = run_handler pts type (handed type s b)" for fs
    using assms(2) by (cases "requirenext s = 0"; cases "authdone (authstate s)")
      (simp_all add: process_type_def Let_def passes_def handed_def MAX_UNAUTH_PACKET_TYPE_def)
  then show thesis using that b by simp
qed

theorem dispatch:
  assumes "waiting type body s" and "passes type s"
  shows "\<exists>b. buf_ok b \<and> buf_rest b = body \<and>
    (case map_of pts type of
       Some h \<Rightarrow> process_packet pts s = bindr (h (handed type s b)) (\<lambda>s. Inr (s\<lparr>lastpacket := type, payload := None\<rparr>))
     | None \<Rightarrow> ready_to_send s \<longrightarrow> (\<exists>s'. process_packet pts s = Inr (s'\<lparr>lastpacket := type, payload := None\<rparr>)
         \<and> sends (byte_of 3 # STORE32H (recvseq s - 1)) (handed type s b) s'))"
proof -
  obtain b where b: "buf_ok b" "buf_rest b = body"
    "process_packet pts s = bindr (run_handler pts type (handed type s b)) (\<lambda>s. Inr (s\<lparr>lastpacket := type, payload := None\<rparr>))"
    by (rule process_packet_passes [OF assms]) (rule that)
  show ?thesis
  proof (cases "map_of pts type")
    case (Some h)
    then show ?thesis using b by (auto simp: run_handler_found)
  next
    case None
    have "\<exists>s'. process_packet pts s = Inr (s'\<lparr>lastpacket := type, payload := None\<rparr>)
         \<and> sends (byte_of 3 # STORE32H (recvseq s - 1)) (handed type s b) s'" if "ready_to_send s"
    proof -
      have "ready_to_send (handed type s b)" using that by (simp add: ready_to_send_def trans_ok_def payload_ready_def)
      then obtain s' where "recv_unimplemented (handed type s b) = Inr s'"
        "sends (byte_of 3 # STORE32H (recvseq (handed type s b) - 1)) (handed type s b) s'"
        by (rule recv_unimplemented_sends)
      then show ?thesis using b(3) None by (auto simp: run_handler_unknown)
    qed
    then show ?thesis using b None by auto
  qed
qed

theorem dispatch_witness:
  "\<exists>s'. process_packet [] (plain_session\<lparr>payload := Some (packet_of [CHR 0x32])\<rparr>) = Inr s' \<and> payload s' = None \<and> lastpacket s' = 50"
proof -
  let ?s = "plain_session\<lparr>payload := Some (packet_of [CHR 0x32])\<rparr>"
  have w: "waiting 50 [] ?s" using waiting_packet_of [of "[]" "CHR 0x32" plain_session] by simp
  have p: "passes 50 ?s" by (simp add: passes_def plain_session_def zero_session_def)
  have "ready_to_send ?s" using plain_session_ok
    by (simp add: ready_to_send_def trans_ok_def payload_ready_def)
  then show ?thesis using dispatch [OF w p, of "[]"] by auto
qed

text \<open>
  The connection service is granted only to an authenticated user: a service request either
  names one of the two services and is accepted with its name, the connection service only after
  authentication, or it ends the session.
\<close>

theorem service_request:
  assumes "payload s = Some b" and "buf_ok b" and "buf_getstring b = Inr (name, b')" and "ready_to_send s"
  shows "if name = ''ssh-userauth'' \<or> name = ''ssh-connection'' \<and> authdone (authstate s)
    then \<exists>s'. recv_msg_service_request s = Inr s'
      \<and> sends (byte_of 6 # STORE32H (of_nat (length name)) @ name) (s\<lparr>payload := Some b'\<rparr>) s'
    else \<exists>msg. recv_msg_service_request s = Inl (Exit msg)"
proof -
  have r: "on_read buf_getstring s = Inr (name, s\<lparr>payload := Some b'\<rparr>)" using assms(1,3) by (simp add: on_read_def)
  have ready: "ready_to_send (s\<lparr>payload := Some b'\<rparr>)" using assms(4) by (simp add: ready_to_send_def trans_ok_def payload_ready_def)
  have accept: "\<exists>s'. send_msg_service_accept name (s\<lparr>payload := Some b'\<rparr>) = Inr s'
      \<and> sends (byte_of 6 # STORE32H (of_nat (length name)) @ name) (s\<lparr>payload := Some b'\<rparr>) s'" if l: "length name \<le> 100"
  proof -
    let ?fill = "\<lambda>t. bindr (put_byte 6 t) (put_string name)"
    have f: "\<exists>b. ?fill t = Inr (t\<lparr>writepayload := b\<rparr>)
        \<and> payload_at (t\<lparr>writepayload := b\<rparr>) (byte_of 6 # STORE32H (of_nat (length name)) @ name)" if t: "payload_at t []" for t
    proof -
      obtain b1 where b1: "put_byte 6 t = Inr (t\<lparr>writepayload := b1\<rparr>)" "payload_at (t\<lparr>writepayload := b1\<rparr>) [byte_of 6]"
        using put_byte_at [OF t, of 6] by auto
      show ?thesis using b1(1) put_string_at [OF b1(2), of name] l by auto
    qed
    obtain s' where s': "bindr (?fill (s\<lparr>payload := Some b'\<rparr>)) encrypt_packet = Inr s'"
      "sends (byte_of 6 # STORE32H (of_nat (length name)) @ name) (s\<lparr>payload := Some b'\<rparr>) s'"
      by (rule fill_and_send [OF ready f]) (use that in simp_all)
    then show ?thesis by (auto simp: send_msg_service_accept_def bindr_assoc)
  qed
  show ?thesis using r accept
    by (auto simp: recv_msg_service_request_def SSH_SERVICE_USERAUTH_def SSH_SERVICE_CONNECTION_def)
qed

theorem service_request_witness:
  "\<exists>msg. recv_msg_service_request (plain_session\<lparr>payload := Some (packet_of (STORE32H 14 @ ''ssh-connection''))\<rparr>) = Inl (Exit msg)"
proof -
  let ?b = "packet_of (STORE32H 14 @ ''ssh-connection'')"
  let ?s = "plain_session\<lparr>payload := Some ?b\<rparr>"
  have ok: "buf_ok ?b" "buf_rest ?b = STORE32H 14 @ ''ssh-connection''"
    using packet_of_ok [of "STORE32H 14 @ ''ssh-connection''"] by simp_all
  have "\<exists>b'. buf_getstring ?b = Inr (''ssh-connection'', b')"
    using string_codec.get_enc [of ?b "''ssh-connection''" "[]"] ok by (auto simp: enc_string_def string_ok_def)
  moreover have "ready_to_send ?s" using plain_session_ok by (simp add: ready_to_send_def trans_ok_def payload_ready_def)
  ultimately show ?thesis using service_request [of ?s ?b "''ssh-connection''"] ok(1)
    by (auto simp: plain_session_def zero_session_def zero_authstate_def)
qed

end
