(* ===== verification/Sshd4a.thy ===== *)
theory Sshd4a
  imports Process_Packet
begin

text \<open>
  What Sshd4a adds to the server, \<open>jni-dropbear.c\<close>: configuration files, the password file with the
  roles of its users, single-use passwords, the environment of a session and the mapping of
  commands to the executables that Android allows to run.
\<close>

section \<open>Global variables and constants\<close>

record sshd4a_globals =
  sshd4a_shell_exe :: string
  sshd4a_home_path :: string
  lib_path :: string
  conf_path :: string
  env_var_list :: "string option"
  enable_service_shell_access :: bool
  enable_public_key_auth :: bool
  enable_single_use_passwords :: bool

definition AUTHORIZED_USERS_FILE :: string where
  "AUTHORIZED_USERS_FILE = ''master_password''"

definition AUTHORIZED_KEYS_FILE :: string where
  "AUTHORIZED_KEYS_FILE = ''authorized_keys''"

definition SSHD4A_ROLE_USER :: string where
  "SSHD4A_ROLE_USER = ''user''"

definition SSHD4A_ROLE_ROOT :: string where
  "SSHD4A_ROLE_ROOT = ''root''"

definition SSHD4A_ROLE_SHELL :: string where
  "SSHD4A_ROLE_SHELL = ''shell''"

definition SSHD4A_ROOT_HOME :: string where
  "SSHD4A_ROOT_HOME = ''/data/local/tmp/Sshd4a/root/home''"

definition SSHD4A_SHELL_HOME :: string where
  "SSHD4A_SHELL_HOME = ''/data/local/tmp/Sshd4a/shell/home''"

definition SSHD4A_ROOT_SHELL_LIB :: string where
  "SSHD4A_ROOT_SHELL_LIB = ''libsuroot.so''"

definition SSHD4A_SHELL_SHELL_LIB :: string where
  "SSHD4A_SHELL_SHELL_LIB = ''libsushell.so''"

lemmas sshd4a_consts = AUTHORIZED_USERS_FILE_def AUTHORIZED_KEYS_FILE_def SSHD4A_ROLE_USER_def SSHD4A_ROLE_ROOT_def
  SSHD4A_ROLE_SHELL_def SSHD4A_ROOT_HOME_def SSHD4A_SHELL_HOME_def SSHD4A_ROOT_SHELL_LIB_def SSHD4A_SHELL_SHELL_LIB_def

text \<open>
  \<open>sprintf\<close> writes the string and a NUL byte into a block of a given size, \<open>snprintf\<close> as much of the
  string as fits.
\<close>

definition sprintf_into :: "nat \<Rightarrow> string \<Rightarrow> string res" where
  "sprintf_into sz str = (if length str + 1 \<le> sz then Inr str else Inl Mem_fault)"

definition snprintf_into :: "nat \<Rightarrow> string \<Rightarrow> string" where
  "snprintf_into sz str = take (sz - 1) str"

section \<open>Paths\<close>

definition sshd4a_conf_file :: "sshd4a_globals \<Rightarrow> string \<Rightarrow> string res" where
  "sshd4a_conf_file g fn = sprintf_into (length (conf_path g) + length fn + 1 + 1) (conf_path g @ ''/'' @ fn)"

text \<open>\<open>fgetc\<close> gives the bytes of the file one by one, then EOF.\<close>

fun read_chars :: "nat \<Rightarrow> byte list \<Rightarrow> bool" where
  "read_chars 0 bytes = True"
| "read_chars (Suc n) [] = False"
| "read_chars (Suc n) (c # bytes) = read_chars n bytes"

definition config_file_exists :: "sshd4a_globals \<Rightarrow> world \<Rightarrow> string \<Rightarrow> nat \<Rightarrow> bool res" where
  "config_file_exists g w filename min_chars =
     bindr (sshd4a_conf_file g filename) (\<lambda>fn.
     Inr (case conf_files w fn of None \<Rightarrow> False | Some bytes \<Rightarrow> read_chars min_chars bytes))"

definition sshd4a_lib_exe_path :: "sshd4a_globals \<Rightarrow> string \<Rightarrow> string" where
  "sshd4a_lib_exe_path g name =
     (let len = length (lib_path g) + 1 + length name + 1 in
      snprintf_into len (lib_path g @ ''/'' @ name))"

type_synonym environment = "string \<Rightarrow> string option"

definition sshd4a_append_lib_to_path :: "sshd4a_globals \<Rightarrow> environment \<Rightarrow> environment" where
  "sshd4a_append_lib_to_path g env =
     (let old_path = (case env ''PATH'' of None \<Rightarrow> '''' | Some p \<Rightarrow> p);
          len = length old_path + 1 + length (lib_path g) + 1;
          new_path = (if old_path \<noteq> '''' then snprintf_into len (old_path @ '':'' @ lib_path g)
                      else snprintf_into len (lib_path g)) in
      env(''PATH'' \<mapsto> new_path))"

text \<open>The command may be a NULL pointer.\<close>

definition sshd4a_exe_to_lib :: "sshd4a_globals \<Rightarrow> string option \<Rightarrow> string option res" where
  "sshd4a_exe_to_lib g cmd =
     (case cmd of
        None \<Rightarrow> Inr None
      | Some c \<Rightarrow>
          if take 4 c = ''scp '' then
            bindr (sprintf_into (length (lib_path g) + 11 + length c + 1) (lib_path g @ ''/libscp.so '' @ drop 4 c)) (\<lambda>t. Inr (Some t))
          else if take 6 c = ''rsync '' then
            bindr (sprintf_into (length (lib_path g) + 13 + length c - 6 + 1) (lib_path g @ ''/librsync.so '' @ drop 6 c)) (\<lambda>t. Inr (Some t))
          else if take 11 c = ''sftp-server'' then
            bindr (sprintf_into (length (lib_path g) + 18 + 1) (lib_path g @ ''/libsftp-server.so'')) (\<lambda>t. Inr (Some t))
          else if take 8 c = ''busybox '' then
            bindr (sprintf_into (length (lib_path g) + length c + 32) (lib_path g @ ''/libbusybox.so '' @ drop 8 c)) (\<lambda>t. Inr (Some t))
          else if c = ''busybox'' then
            bindr (sprintf_into (length (lib_path g) + 32) (lib_path g @ ''/libbusybox.so'')) (\<lambda>t. Inr (Some t))
          else Inr (Some c))"

section \<open>The environment\<close>

definition eol :: "char \<Rightarrow> bool" where
  "eol c \<longleftrightarrow> c = CHR 0x0D \<or> c = CHR 0x0A"

text \<open>One turn of the loop of \<open>sshd4a_set_env\<close>: the name, the value and what is left.\<close>

definition env_entry :: "string \<Rightarrow> string \<times> string \<times> string" where
  "env_entry s =
     (let name = takeWhile (\<lambda>c. c \<noteq> CHR ''='' \<and> \<not> eol c) s;
          s = drop (length name) s;
          val = (case s of c # t \<Rightarrow> if c = CHR ''='' then takeWhile (\<lambda>c. \<not> eol c) t else '''' | [] \<Rightarrow> '''');
          s = (case s of c # t \<Rightarrow> if c = CHR ''='' then drop (length val) t else s | [] \<Rightarrow> []) in
      (name, val, dropWhile eol s))"

lemma env_entry_shorter: "s \<noteq> [] \<Longrightarrow> length (snd (snd (env_entry s))) < length s"
proof -
  assume s: "s \<noteq> []"
  let ?n = "takeWhile (\<lambda>c. c \<noteq> CHR ''='' \<and> \<not> eol c) s"
  have dl: "length (dropWhile eol t) \<le> length t" for t by (rule length_dropWhile_le)
  show ?thesis
  proof (cases "drop (length ?n) s")
    case Nil
    then show ?thesis using s by (simp add: env_entry_def Let_def)
  next
    case (Cons c t)
    have lt: "length t < length s" using arg_cong [OF Cons, of length] by simp
    have t: "drop (Suc (length ?n)) s = t" using Cons by (metis drop_Suc list.sel(3) tl_drop)
    show ?thesis
    proof (cases "c = CHR ''=''")
      case True
      then show ?thesis using Cons lt le_trans [OF dl, of "drop (length (takeWhile (\<lambda>c. \<not> eol c) t)) t" "length t"]
        by (simp add: env_entry_def Let_def)
    next
      case False
      have "dropWhile (\<lambda>c. c \<noteq> CHR ''='' \<and> \<not> eol c) s = c # t" using Cons by (simp add: dropWhile_eq_drop)
      then have "eol c" using False hd_dropWhile [of "\<lambda>c. c \<noteq> CHR ''='' \<and> \<not> eol c" s] by auto
      then show ?thesis using Cons False lt dl [of t] by (simp add: env_entry_def Let_def)
    qed
  qed
qed

function env_loop :: "string \<Rightarrow> environment \<Rightarrow> environment" where
  "env_loop s env =
     (if s = [] then env
      else case env_entry s of (name, val, rest) \<Rightarrow>
        env_loop rest (if name \<noteq> [] then env(name \<mapsto> val) else env))"
  by pat_completeness auto
termination
proof (relation "measure (\<lambda>(s, env). length s)")
  fix s :: string and env :: environment and name y val rest
  assume s: "s \<noteq> []" and e: "(name, y) = env_entry s" "(val, rest) = y"
  have "snd (snd (env_entry s)) = rest" using e by (metis snd_conv)
  then show "((rest, if name \<noteq> [] then env(name \<mapsto> val) else env), s, env) \<in> measure (\<lambda>(s, env). length s)"
    using env_entry_shorter [OF s] by simp
qed simp

declare env_loop.simps [simp del]

definition sshd4a_set_env :: "sshd4a_globals \<Rightarrow> environment \<Rightarrow> environment" where
  "sshd4a_set_env g env =
     (case env_var_list g of
        None \<Rightarrow> env
      | Some s \<Rightarrow> (env_loop s env)(''SSHD4A_CONF_DIR'' \<mapsto> conf_path g))"

section \<open>What is enabled\<close>

definition sshd4a_enable_service_shell_access :: "sshd4a_globals \<Rightarrow> bool" where
  "sshd4a_enable_service_shell_access g = enable_service_shell_access g"

definition sshd4a_enable_public_key_auth :: "sshd4a_globals \<Rightarrow> world \<Rightarrow> bool res" where
  "sshd4a_enable_public_key_auth g w =
     (if enable_public_key_auth g then config_file_exists g w AUTHORIZED_KEYS_FILE 10 else Inr False)"

definition sshd4a_enable_single_use_passwords :: "sshd4a_globals \<Rightarrow> bool" where
  "sshd4a_enable_single_use_passwords g = enable_single_use_passwords g"

definition tab64 :: string where
  "tab64 = ''abcdefghijk!mnopqrstuvwxyzABCDEFGH@JKLMN#PQRSTUVWXYZ$%23456789^&''"

text \<open>The index \<open>pw[i] & 63\<close> is the low six bits of the byte, whatever the sign of \<open>char\<close>.\<close>

definition sshd4a_generate_single_use_password :: "world \<Rightarrow> string res \<times> world" where
  "sshd4a_generate_single_use_password w =
     (case genrandom 8 w of (pw, w) \<Rightarrow>
       (if list_all (\<lambda>c. byte_val c mod 64 < length tab64) pw
        then Inr (map (\<lambda>c. tab64 ! (byte_val c mod 64)) pw) else Inl Mem_fault, w))"

definition sshd4a_enable_password_file :: "sshd4a_globals \<Rightarrow> world \<Rightarrow> bool res" where
  "sshd4a_enable_password_file g w = config_file_exists g w AUTHORIZED_USERS_FILE 3"

section \<open>The password file\<close>

text \<open>
  \<open>getline\<close> gives the lines with their newline; the loop strips newlines and carriage returns at
  the end. \<open>strtok_r\<close> skips the delimiters in front of a token.
\<close>

function getlines :: "byte list \<Rightarrow> byte list list" where
  "getlines bytes =
     (if bytes = [] then []
      else let line = takeWhile (\<lambda>c. c \<noteq> CHR 0x0A) bytes; rest = drop (length line) bytes in
           (line @ take 1 rest) # getlines (drop 1 rest))"
  by pat_completeness auto
termination
proof (relation "measure length")
  fix bytes :: "byte list" and line rest :: "byte list"
  assume b: "bytes \<noteq> []" "line = takeWhile (\<lambda>c. c \<noteq> CHR 0x0A) bytes" "rest = drop (length line) bytes"
  have "length (drop 1 rest) < length bytes" using b(1,3) by (cases line) (auto simp: b(2))
  then show "(drop 1 rest, bytes) \<in> measure length" by simp
qed simp

declare getlines.simps [simp del]

definition strip_eol :: "byte list \<Rightarrow> byte list" where
  "strip_eol line = rev (dropWhile eol (rev line))"

definition strtok :: "string \<Rightarrow> string option \<times> string" where
  "strtok s =
     (let s = dropWhile (\<lambda>c. c = CHR '':'') s; tok = takeWhile (\<lambda>c. c \<noteq> CHR '':'') s in
      if s = [] then (None, []) else (Some tok, drop (length tok + 1) s))"

text \<open>
  The loop over the lines. The result is \<open>None\<close> when no line matches; a username that is a NULL
  pointer faults in \<open>strcmp\<close>, at the first line that has a name.
\<close>

fun find_user_loop :: "string option \<Rightarrow> byte list list \<Rightarrow> (string option \<times> string) option res" where
  "find_user_loop user [] = Inr None"
| "find_user_loop user (line # lines) =
     (let stripped = strip_eol line; text = cstr stripped in
      if stripped = [] \<or> CHR '':'' \<notin> set text then find_user_loop user lines
      else case strtok text of
        (None, rest) \<Rightarrow> find_user_loop user lines
      | (Some field_user, rest) \<Rightarrow>
          (case user of
             None \<Rightarrow> Inl Mem_fault
           | Some u \<Rightarrow>
               if \<not> strcmp_eq field_user u then find_user_loop user lines
               else
                 case strtok rest of (field_pass, rest) \<Rightarrow>
                 case strtok rest of (field_role, rest) \<Rightarrow>
                 Inr (Some (field_pass, (case field_role of Some r \<Rightarrow> r | None \<Rightarrow> SSHD4A_ROLE_USER)))))"

definition sshd4a_find_user :: "sshd4a_globals \<Rightarrow> world \<Rightarrow> string option \<Rightarrow> (string option \<times> string) option res" where
  "sshd4a_find_user g w user =
     bindr (sshd4a_conf_file g AUTHORIZED_USERS_FILE) (\<lambda>fn.
     case conf_files w fn of
       None \<Rightarrow> Inr None
     | Some bytes \<Rightarrow> find_user_loop user (getlines bytes))"

definition sshd4a_get_role_for_user :: "sshd4a_globals \<Rightarrow> world \<Rightarrow> string option \<Rightarrow> string res" where
  "sshd4a_get_role_for_user g w user =
     bindr (sshd4a_find_user g w user) (\<lambda>found.
     case found of
       Some (password, role) \<Rightarrow> Inr role
     | None \<Rightarrow> Inr SSHD4A_ROLE_USER)"

section \<open>Checking a password\<close>

text \<open>
  The result is \<open>passwdcrypt\<close>, \<open>testcrypt\<close> (either may be NULL) and the session. The password is
  followed by a NUL byte in memory, so \<open>strlen\<close> is the length of its part in front of the first NUL.
\<close>

definition sshd4a_svr_auth_password ::
    "sshd4a_globals \<Rightarrow> byte list \<Rightarrow> sshsession \<Rightarrow> (string option \<times> string option \<times> sshsession) res" where
  "sshd4a_svr_auth_password g password s =
     bindr (sshd4a_find_user g (world s) (username (authstate s))) (\<lambda>found.
     let whole = (length password = length (cstr password)) in
     case found of
       Some (Some (c # cs), role) \<Rightarrow>
         let s = upd_auth (\<lambda>a. a\<lparr>pw_passwd := Some (c # cs)\<rparr>) s in
         Inr (Some (c # cs),
              if whole then Some (base64_encode (libtom s) (sha512 (libtom s) password)) else None, s)
     | _ \<Rightarrow> Inr (pw_passwd (authstate s), if whole then Some (cstr password) else None, s))"

definition sshd4a_svr_authinitialise :: "sshd4a_globals \<Rightarrow> sshsession \<Rightarrow> sshsession res" where
  "sshd4a_svr_authinitialise g s =
     bindr (sshd4a_enable_public_key_auth g (world s)) (\<lambda>pk.
     let s = upd_auth (\<lambda>a. a\<lparr>authtypes := (if pk then authtypes a OR AUTH_TYPE_PUBKEY
                                           else authtypes a AND NOT AUTH_TYPE_PUBKEY)\<rparr>) s in
     bindr (sshd4a_enable_password_file g (world s)) (\<lambda>pf.
     let s = (if pf then upd_auth (\<lambda>a. a\<lparr>authtypes := authtypes a OR AUTH_TYPE_PASSWORD\<rparr>) s else s) in
     if sshd4a_enable_single_use_passwords g then
       case sshd4a_generate_single_use_password (world s) of (gen, w) \<Rightarrow>
       bindr gen (\<lambda>gen_pass.
       Inr ((upd_auth (\<lambda>a. a\<lparr>authtypes := authtypes a OR AUTH_TYPE_PASSWORD, pw_passwd := Some gen_pass\<rparr>) s)\<lparr>world := w\<rparr>))
     else Inr s))"

section \<open>Lemmas on lines and fields\<close>

lemma getlines_Nil [simp]: "getlines [] = []"
  by (simp add: getlines.simps)

lemma getlines_line:
  assumes "CHR 0x0A \<notin> set l"
  shows "getlines (l @ CHR 0x0A # r) = (l @ [CHR 0x0A]) # getlines r"
proof -
  have "takeWhile (\<lambda>c. c \<noteq> CHR 0x0A) (l @ CHR 0x0A # r) = l" using assms
    by (subst takeWhile_append2) auto
  then show ?thesis by (subst getlines.simps) (simp add: Let_def)
qed

lemma strip_eol_line: "\<forall>c\<in>set l. \<not> eol c \<Longrightarrow> strip_eol (l @ [CHR 0x0A]) = l"
  by (cases l rule: rev_cases) (auto simp: strip_eol_def eol_def)

lemma strtok_field:
  assumes "u \<noteq> []" and "CHR '':'' \<notin> set u"
  shows "strtok (u @ CHR '':'' # r) = (Some u, r)" "strtok u = (Some u, [])"
proof -
  obtain c cs where u: "u = c # cs" using assms(1) by (cases u) auto
  have d: "dropWhile (\<lambda>c. c = CHR '':'') (u @ x) = u @ x" for x using assms(2) u by auto
  have d0: "dropWhile (\<lambda>c. c = CHR '':'') u = u" using assms(2) u by auto
  have "takeWhile (\<lambda>c. c \<noteq> CHR '':'') (u @ CHR '':'' # r) = u" using assms(2) by (subst takeWhile_append2) auto
  then show "strtok (u @ CHR '':'' # r) = (Some u, r)" using d assms(1) by (simp add: strtok_def Let_def)
  have t0: "takeWhile (\<lambda>c. c \<noteq> CHR '':'') u = u" using assms(2) by (auto simp: takeWhile_eq_all_conv)
  show "strtok u = (Some u, [])" unfolding strtok_def Let_def d0 t0 using assms(1) by simp
qed

lemma strtok_Nil: "strtok [] = (None, [])"
  by (simp add: strtok_def)

text \<open>A file as the settings screen writes it: one user per line, the role may be missing.\<close>

definition field_ok :: "string \<Rightarrow> bool" where
  "field_ok f \<longleftrightarrow> f \<noteq> [] \<and> (\<forall>c\<in>set f. c \<noteq> CHR '':'' \<and> \<not> eol c \<and> c \<noteq> CHR 0x00)"

definition user_line :: "string \<times> string \<times> string option \<Rightarrow> string" where
  "user_line e = (case e of (u, p, r) \<Rightarrow>
     u @ CHR '':'' # p @ (case r of Some role \<Rightarrow> CHR '':'' # role | None \<Rightarrow> []))"

definition entry_ok :: "string \<times> string \<times> string option \<Rightarrow> bool" where
  "entry_ok e = (case e of (u, p, r) \<Rightarrow> field_ok u \<and> field_ok p \<and> (case r of Some role \<Rightarrow> field_ok role | None \<Rightarrow> True))"

definition users_file :: "(string \<times> string \<times> string option) list \<Rightarrow> byte list" where
  "users_file es = concat (map (\<lambda>e. user_line e @ [CHR 0x0A]) es)"

definition user_entry :: "(string \<times> string \<times> string option) list \<Rightarrow> string \<Rightarrow> (string option \<times> string) option" where
  "user_entry es u = map_option (\<lambda>(p, r). (Some p, case r of Some role \<Rightarrow> role | None \<Rightarrow> SSHD4A_ROLE_USER)) (map_of es u)"

lemma user_line_chars:
  assumes "entry_ok e" and "c \<in> set (user_line e)"
  shows "\<not> eol c \<and> c \<noteq> CHR 0x00"
proof -
  obtain u p r where e: "e = (u, p, r)" by (cases e)
  have colon: "\<not> eol (CHR '':'') \<and> CHR '':'' \<noteq> CHR 0x00" by (simp add: eol_def)
  have "c \<in> set u \<or> c \<in> set p \<or> c = CHR '':'' \<or> (\<exists>role. r = Some role \<and> c \<in> set role)"
    using assms(2) e by (cases r) (auto simp: user_line_def)
  moreover have "field_ok u" "field_ok p" "\<And>role. r = Some role \<Longrightarrow> field_ok role"
    using assms(1) e by (simp_all add: entry_ok_def)
  ultimately show ?thesis using colon by (metis field_ok_def)
qed

lemma find_user_line:
  assumes "entry_ok e" and "CHR 0x00 \<notin> set u"
  shows "find_user_loop (Some u) ((user_line e @ [CHR 0x0A]) # lines) =
    (if fst e = u then Inr (user_entry [e] u) else find_user_loop (Some u) lines)"
proof -
  obtain n p r where e: "e = (n, p, r)" by (cases e)
  have f: "field_ok n" "field_ok p" "\<And>role. r = Some role \<Longrightarrow> field_ok role"
    using assms(1) e by (auto simp: entry_ok_def split: option.splits)
  have nc: "n \<noteq> []" "CHR '':'' \<notin> set n" "p \<noteq> []" "CHR '':'' \<notin> set p" "CHR 0x00 \<notin> set n"
    using f(1,2) unfolding field_ok_def by blast+
  have strip: "strip_eol (user_line e @ [CHR 0x0A]) = user_line e"
    using user_line_chars [OF assms(1)] by (intro strip_eol_line) blast
  have cs: "cstr (user_line e) = user_line e" using user_line_chars [OF assms(1)] by (intro cstr_no_nul) blast
  have has: "CHR '':'' \<in> set (user_line e)" "user_line e \<noteq> []" using e by (auto simp: user_line_def)
  have t1: "strtok (user_line e) = (Some n, p @ (case r of Some role \<Rightarrow> CHR '':'' # role | None \<Rightarrow> []))"
    using strtok_field(1) [OF nc(1,2)] e by (simp add: user_line_def)
  have eq: "strcmp_eq n u \<longleftrightarrow> n = u" using nc(5) assms(2) by (simp add: strcmp_eq_def)
  show ?thesis
  proof (cases r)
    case None
    then show ?thesis using strip cs has t1 eq e strtok_field(2) [OF nc(3,4)]
      by (auto simp: Let_def strtok_Nil user_entry_def)
  next
    case (Some role)
    have "role \<noteq> []" "CHR '':'' \<notin> set role" using f(3) [OF Some] unfolding field_ok_def by blast+
    then show ?thesis using strip cs has t1 eq e Some strtok_field(1) [OF nc(3,4), of role] strtok_field(2) [of role]
      by (auto simp: Let_def user_entry_def)
  qed
qed

lemma find_user_file:
  assumes "\<forall>e\<in>set es. entry_ok e" and "CHR 0x00 \<notin> set u"
  shows "find_user_loop (Some u) (getlines (users_file es)) = Inr (user_entry es u)"
  using assms(1)
proof (induction es)
  case Nil
  then show ?case by (simp add: users_file_def user_entry_def)
next
  case (Cons e es)
  have e: "entry_ok e" using Cons.prems by simp
  have nl: "CHR 0x0A \<notin> set (user_line e)" using user_line_chars [OF e] by (auto simp: eol_def)
  have "getlines (users_file (e # es)) = (user_line e @ [CHR 0x0A]) # getlines (users_file es)"
    using getlines_line [OF nl, of "users_file es"] by (simp add: users_file_def)
  then show ?case using find_user_line [OF e assms(2)] Cons by (cases e) (auto simp: user_entry_def)
qed

lemma conf_file_eq [simp]: "sshd4a_conf_file g fn = Inr (conf_path g @ ''/'' @ fn)"
  by (simp add: sshd4a_conf_file_def sprintf_into_def)

lemma read_chars_length: "read_chars n bytes \<longleftrightarrow> n \<le> length bytes"
  by (induction n bytes rule: read_chars.induct) auto

section \<open>Properties\<close>

text \<open>
  C38. The password file means what it says: for every file of well-formed lines (user, password
  hash, optional role) and every user name, \<open>sshd4a_find_user\<close> gives the hash and the role of the
  first line for that name, the role \<open>user\<close> when the line has none, and nothing when there is no
  line for the name.
\<close>

theorem password_file_lookup:
  assumes "\<forall>e\<in>set es. entry_ok e" and "CHR 0x00 \<notin> set u"
    and "conf_files w (conf_path g @ ''/master_password'') = Some (users_file es)"
  shows "sshd4a_find_user g w (Some u) = Inr (user_entry es u)"
  using assms find_user_file [OF assms(1,2)] by (simp add: sshd4a_find_user_def sshd4a_consts)

definition some_globals :: sshd4a_globals where
  "some_globals = \<lparr>sshd4a_shell_exe = ''/system/bin/sh'', sshd4a_home_path = ''/data/home'', lib_path = ''/data/lib'',
     conf_path = ''/conf'', env_var_list = Some '''', enable_service_shell_access = True,
     enable_public_key_auth = False, enable_single_use_passwords = False\<rparr>"

theorem password_file_lookup_witness:
  "sshd4a_find_user some_globals (still_world\<lparr>conf_files := [''/conf/master_password'' \<mapsto> users_file [(''ann'', ''xyz'', None), (''bob'', ''h'', Some ''root'')]]\<rparr>)
     (Some ''bob'') = Inr (Some (Some ''h'', ''root''))"
  by (subst password_file_lookup [where es = "[(''ann'', ''xyz'', None), (''bob'', ''h'', Some ''root'')]"])
    (simp_all add: entry_ok_def field_ok_def eol_def some_globals_def user_entry_def)

text \<open>The table of the single-use passwords.\<close>

lemma tab64_facts: "length tab64 = 64" "distinct tab64" "set tab64 \<inter> set ''Il1O0'' = {}"
  by (simp_all add: tab64_def)

lemma low_bits_of: "{n::nat. n < 256 \<and> n mod 64 = i} = (if i < 64 then {i, i + 64, i + 128, i + 192} else {})"
proof -
  have "n = i \<or> n = i + 64 \<or> n = i + 128 \<or> n = i + 192" if "n < 256" "n mod 64 = i" for n :: nat
  proof -
    have "n = 64 * (n div 64) + i" using that(2) mult_div_mod_eq [of 64 n] by simp
    moreover have "n div 64 = 0 \<or> n div 64 = 1 \<or> n div 64 = 2 \<or> n div 64 = 3" using that(1) by auto
    ultimately show ?thesis by auto
  qed
  moreover have "(i + 64) mod 64 = i" "(i + 128) mod 64 = i" "(i + 192) mod 64 = i" if "i < 64"
    using that mod_mult_self1 [of i 1 64] mod_mult_self1 [of i 2 64] mod_mult_self1 [of i 3 64] by simp_all
  ultimately show ?thesis by auto
qed

text \<open>
  Single-use passwords: eight characters, each from the table of 64, never one of the five
  ambiguous characters, and without bias: every character of the table comes from exactly four of
  the 256 values of a random byte.
\<close>

theorem single_use_password:
  "\<exists>pw. fst (sshd4a_generate_single_use_password w) = Inr pw \<and> length pw = 8 \<and> set pw \<subseteq> set tab64
     \<and> set pw \<inter> set ''Il1O0'' = {}
     \<and> list_all (\<lambda>c. card {n::nat. n < 256 \<and> tab64 ! (n mod 64) = c} = 4) tab64"
proof -
  let ?pw = "map (\<lambda>c. tab64 ! (byte_val c mod 64)) (map (entropy w) [0..<8])"
  have "fst (sshd4a_generate_single_use_password w) = Inr ?pw"
    by (simp add: sshd4a_generate_single_use_password_def genrandom_def list_all_iff tab64_facts(1))
  moreover have sub: "set ?pw \<subseteq> set tab64" by (auto simp: tab64_facts(1))
  moreover have "card {n::nat. n < 256 \<and> tab64 ! (n mod 64) = c} = 4" if c: "c \<in> set tab64" for c
  proof -
    obtain i where i: "i < 64" "tab64 ! i = c" using c by (auto simp: in_set_conv_nth tab64_facts(1))
    have "tab64 ! (n mod 64) = c \<longleftrightarrow> n mod 64 = i" for n
      using i tab64_facts(1,2) by (metis mod_less_divisor nth_eq_iff_index_eq zero_less_numeral)
    then have "{n::nat. n < 256 \<and> tab64 ! (n mod 64) = c} = {i, i + 64, i + 128, i + 192}"
      using low_bits_of [of i] i(1) by auto
    then show ?thesis by simp
  qed
  ultimately show ?thesis using tab64_facts(3) by (intro exI [of _ ?pw]) (auto simp: list_all_iff)
qed

text \<open>
  C39. Commands: the string that replaces a command always fits the block allocated for it, and
  it is the library executable for the five known commands, with the arguments kept (dropped for
  the sftp server), and the command itself for every other one.
\<close>

theorem exe_to_lib_fits:
  "\<exists>r. sshd4a_exe_to_lib g (Some c) = Inr (Some r)
     \<and> r = (if take 4 c = ''scp '' then lib_path g @ ''/libscp.so '' @ drop 4 c
            else if take 6 c = ''rsync '' then lib_path g @ ''/librsync.so '' @ drop 6 c
            else if take 11 c = ''sftp-server'' then lib_path g @ ''/libsftp-server.so''
            else if take 8 c = ''busybox '' then lib_path g @ ''/libbusybox.so '' @ drop 8 c
            else if c = ''busybox'' then lib_path g @ ''/libbusybox.so''
            else c)"
proof -
  have six: "6 \<le> length c" if "take 6 c = ''rsync ''" using arg_cong [OF that, of length] by simp
  have four: "4 \<le> length c" if "take 4 c = ''scp ''" using arg_cong [OF that, of length] by simp
  show ?thesis
    using six four by (auto simp: sshd4a_exe_to_lib_def sprintf_into_def)
qed

text \<open>A list of settings as the app passes it: one per line.\<close>

definition name_char :: "char \<Rightarrow> bool" where
  "name_char c \<longleftrightarrow> c \<noteq> CHR ''='' \<and> \<not> eol c"

definition setting_ok :: "string \<times> string \<Rightarrow> bool" where
  "setting_ok e \<longleftrightarrow> fst e \<noteq> [] \<and> (\<forall>c\<in>set (fst e). name_char c) \<and> (\<forall>c\<in>set (snd e). \<not> eol c)"

definition settings_text :: "(string \<times> string) list \<Rightarrow> string" where
  "settings_text es = concat (map (\<lambda>(n, v). n @ CHR ''='' # v @ [CHR 0x0A]) es)"

fun export_all :: "(string \<times> string) list \<Rightarrow> environment \<Rightarrow> environment" where
  "export_all [] env = env"
| "export_all ((n, v) # es) env = export_all es (env(n \<mapsto> v))"

lemma env_entry_setting:
  assumes "setting_ok (n, v)" and "\<forall>c. r \<noteq> [] \<longrightarrow> \<not> eol (hd r)"
  shows "env_entry (n @ CHR ''='' # v @ CHR 0x0A # r) = (n, v, r)"
proof -
  have n: "takeWhile (\<lambda>c. c \<noteq> CHR ''='' \<and> \<not> eol c) (n @ CHR ''='' # v @ CHR 0x0A # r) = n"
    using assms(1) by (subst takeWhile_append2) (auto simp: setting_ok_def name_char_def)
  have v: "takeWhile (\<lambda>c. \<not> eol c) (v @ CHR 0x0A # r) = v"
    using assms(1) by (subst takeWhile_append2) (auto simp: setting_ok_def eol_def)
  have d: "dropWhile eol (CHR 0x0A # r) = r" using assms(2) by (cases r) (auto simp: eol_def)
  show ?thesis unfolding env_entry_def Let_def n using v d by simp
qed

lemma settings_text_head:
  assumes "\<forall>e\<in>set es. setting_ok e" and "settings_text es \<noteq> []"
  shows "\<not> eol (hd (settings_text es))"
proof (cases es)
  case (Cons e es')
  obtain n v where e: "e = (n, v)" by (cases e)
  obtain c cs where n: "n = c # cs" using assms(1) Cons e by (cases n) (auto simp: setting_ok_def)
  have "\<not> eol c" using assms(1) Cons e n by (simp add: setting_ok_def name_char_def)
  then show ?thesis using Cons e n by (simp add: settings_text_def)
qed (use assms(2) in \<open>simp add: settings_text_def\<close>)

text \<open>
  The environment of a session: every setting of the list is exported with its value, in
  order, so that the last one of a name counts, and the directory of the configuration is
  exported last. The loop ends on every input, because each turn consumes at least one character.
\<close>

theorem set_env_exports:
  assumes "\<forall>e\<in>set es. setting_ok e" and "env_var_list g = Some (settings_text es)"
  shows "sshd4a_set_env g env = (export_all es env)(''SSHD4A_CONF_DIR'' \<mapsto> conf_path g)"
proof -
  have "env_loop (settings_text es) env = export_all es env" for env
    using assms(1)
  proof (induction es arbitrary: env)
    case Nil
    then show ?case by (simp add: settings_text_def env_loop.simps)
  next
    case (Cons e es)
    obtain n v where e: "e = (n, v)" by (cases e)
    have ok: "setting_ok (n, v)" "\<forall>e\<in>set es. setting_ok e" using Cons.prems e by auto
    have st: "settings_text (e # es) = n @ CHR ''='' # v @ CHR 0x0A # settings_text es" using e by (simp add: settings_text_def)
    have ent: "env_entry (settings_text (e # es)) = (n, v, settings_text es)"
      unfolding st using settings_text_head [OF ok(2)] by (intro env_entry_setting [OF ok(1)]) simp
    have ne: "settings_text (e # es) \<noteq> []" using st by simp
    have "n \<noteq> []" using ok(1) by (simp add: setting_ok_def)
    then show ?case using ne ent Cons.IH [OF ok(2)] e by (subst env_loop.simps) (simp add: fun_upd_def)
  qed
  then show ?thesis using assms(2) by (simp add: sshd4a_set_env_def)
qed

theorem set_env_exports_witness:
  "sshd4a_set_env (some_globals\<lparr>env_var_list := Some (settings_text [(''A'', ''1''), (''B'', ''x=y'')])\<rparr>) Map.empty ''B'' = Some ''x=y''"
  by (subst set_env_exports [where es = "[(''A'', ''1''), (''B'', ''x=y'')]"])
    (simp_all add: setting_ok_def name_char_def eol_def)

end
