(* ===== verification/Svr_Auth.thy ===== *)
theory Svr_Auth
  imports Sshd4a
begin

text \<open>
  User authentication on the server, \<open>dropbear/src/svr-auth.c\<close> and \<open>svr-authpasswd.c\<close> as built for
  Sshd4a: the account data of a user name, the replies, the delay after a failure, and password
  authentication. The request handler itself is in the theory \<open>Userauth\<close>, behind public keys.
\<close>

section \<open>Comparing in constant time\<close>

fun memcmp_loop :: "8 word \<Rightarrow> byte list \<Rightarrow> byte list \<Rightarrow> nat \<Rightarrow> 8 word res" where
  "memcmp_loop c a b 0 = Inr c"
| "memcmp_loop c (x # a) (y # b) (Suc n) = memcmp_loop (c OR (of_char x XOR of_char y)) a b n"
| "memcmp_loop c a b (Suc n) = Inl Mem_fault"

definition constant_time_memcmp :: "byte list \<Rightarrow> byte list \<Rightarrow> nat \<Rightarrow> 8 word res" where
  "constant_time_memcmp a b n = memcmp_loop 0 a b n"

text \<open>The strings end in front of their first NUL byte.\<close>

definition constant_time_strcmp :: "string \<Rightarrow> string \<Rightarrow> 8 word res" where
  "constant_time_strcmp a b =
     (let la = length (cstr a); lb = length (cstr b) in
      if la \<noteq> lb then Inr 1 else constant_time_memcmp (cstr a) (cstr b) la)"

section \<open>The account\<close>

definition get_user_shell :: "sshsession \<Rightarrow> string res" where
  "get_user_shell s =
     (case pw_shell (authstate s) of
        None \<Rightarrow> Inl Mem_fault
      | Some sh \<Rightarrow> Inr (if sh = [] then ''/bin/sh'' else sh))"

text \<open>Of the two variants of \<open>fill_passwd\<close>, the one that is compiled.\<close>

definition fill_passwd :: "sshd4a_globals \<Rightarrow> string \<Rightarrow> sshsession \<Rightarrow> sshsession res" where
  "fill_passwd g user s =
     bindr (sshd4a_get_role_for_user g (world s) (Some user)) (\<lambda>role.
     let (dir, shell) =
           (if role = SSHD4A_ROLE_ROOT then (SSHD4A_ROOT_HOME, sshd4a_lib_exe_path g SSHD4A_ROOT_SHELL_LIB)
            else if role = SSHD4A_ROLE_SHELL then (SSHD4A_SHELL_HOME, sshd4a_lib_exe_path g SSHD4A_SHELL_SHELL_LIB)
            else (sshd4a_home_path g, sshd4a_shell_exe g)) in
     Inr (upd_auth (\<lambda>a. a\<lparr>pw_uid := 0, pw_gid := 0, pw_name := Some user, pw_dir := Some dir, pw_shell := Some shell,
            pw_passwd := (case pw_passwd a of None \<Rightarrow> Some ''!!'' | Some p \<Rightarrow> Some p)\<rparr>) s))"

definition MAX_USERNAME_LEN :: nat where
  "MAX_USERNAME_LEN = 100"

definition checkusername :: "sshd4a_globals \<Rightarrow> byte list \<Rightarrow> sshsession \<Rightarrow> (bool \<times> sshsession) res" where
  "checkusername g user s =
     (if length user > MAX_USERNAME_LEN then Inr (False, s)
      else if length (cstr user) \<noteq> length user then Inl (Exit ''Attempted username with a null byte'')
      else
        bindr (case username (authstate s) of
            None \<Rightarrow> bindr (fill_passwd g user s) (\<lambda>s. Inr (upd_auth (\<lambda>a. a\<lparr>username := Some user\<rparr>) s))
          | Some u \<Rightarrow> if \<not> strcmp_eq user u then Inl (Exit ''Client trying multiple usernames'') else Inr s) (\<lambda>s.
        if checkusername_failed (authstate s) then Inr (False, s)
        else if pw_name (authstate s) = None
        then Inr (False, upd_auth (\<lambda>a. a\<lparr>checkusername_failed := True\<rparr>) s)
        else Inr (True, s)))"

section \<open>Replies\<close>

definition send_msg_userauth_banner :: "buffer \<Rightarrow> handler" where
  "send_msg_userauth_banner b s =
     bindr (put_byte SSH_MSG_USERAUTH_BANNER s) (\<lambda>s.
     bindr (on_write (\<lambda>wp. buf_putbufstring wp b) s) (\<lambda>s.
     bindr (put_string ''en'' s) encrypt_packet))"

definition AUTH_METHOD_NONE :: string where
  "AUTH_METHOD_NONE = ''none''"

definition AUTH_METHOD_PUBKEY :: string where
  "AUTH_METHOD_PUBKEY = ''publickey''"

definition AUTH_METHOD_PASSWORD :: string where
  "AUTH_METHOD_PASSWORD = ''password''"

lemmas auth_consts = MAX_USERNAME_LEN_def AUTH_METHOD_NONE_def AUTH_METHOD_PUBKEY_def AUTH_METHOD_PASSWORD_def
  AUTH_TYPE_PUBKEY_def AUTH_TYPE_PASSWORD_def

definition has_type :: "8 word \<Rightarrow> sshsession \<Rightarrow> bool" where
  "has_type t s \<longleftrightarrow> authtypes (authstate s) AND t \<noteq> 0"

definition put_method :: "string \<Rightarrow> buffer \<Rightarrow> buffer res" where
  "put_method name b = buf_putbytes b name (of_nat (length name))"

definition auth_methods :: "sshsession \<Rightarrow> buffer res" where
  "auth_methods s =
     bindr (buf_new 30) (\<lambda>typebuf.
     bindr (if has_type AUTH_TYPE_PUBKEY s then
              bindr (put_method AUTH_METHOD_PUBKEY typebuf) (\<lambda>typebuf.
              if has_type AUTH_TYPE_PASSWORD s then buf_putbyte typebuf (CHR '','') else Inr typebuf)
            else Inr typebuf) (\<lambda>typebuf.
     if has_type AUTH_TYPE_PASSWORD s then put_method AUTH_METHOD_PASSWORD typebuf else Inr typebuf))"

text \<open>
  The delay after a failure: between 250 and 350 milliseconds after the request came, by a random
  32 bit number in memory order. Seconds and nanoseconds are as \<open>struct timespec\<close> has them.
\<close>

definition random_u32 :: "byte list \<Rightarrow> nat" where
  "random_u32 bs = (\<Sum>i<4. byte_val (bs ! i) * 256 ^ i)"

definition failure_delay :: "int \<times> int \<Rightarrow> int \<times> int \<Rightarrow> nat \<Rightarrow> int \<times> int" where
  "failure_delay now start rnd =
     (let sec = fst now - fst start; nsec = snd now - snd start;
          (sec, nsec) = (if nsec < 0 then (sec - 1, nsec + 1000000000) else (sec, nsec));
          rand_delay = 250000000 + int (rnd mod 100000000) in
      if sec = 0 \<and> nsec \<le> rand_delay then (sec, rand_delay - nsec) else (0, rand_delay))"

definition sleep_after_failure :: "sshsession \<Rightarrow> sshsession" where
  "sleep_after_failure s =
     (case gettime_wrapper (world s) of (now, w) \<Rightarrow>
      case genrandom 4 w of (rnd, w) \<Rightarrow>
      s\<lparr>world := w\<lparr>slept := failure_delay now (auth_starttime (authstate s)) (random_u32 rnd) # slept w\<rparr>\<rparr>)"

definition send_msg_userauth_failure :: "bool \<Rightarrow> bool \<Rightarrow> handler" where
  "send_msg_userauth_failure partial incrfail s =
     bindr (put_byte SSH_MSG_USERAUTH_FAILURE s) (\<lambda>s.
     bindr (auth_methods s) (\<lambda>typebuf.
     bindr (on_write (\<lambda>wp. buf_putbufstring wp typebuf) s) (\<lambda>s.
     bindr (put_byte (if partial then 1 else 0) s) (\<lambda>s.
     bindr (encrypt_packet s) (\<lambda>s.
     let s = (if incrfail then upd_auth (\<lambda>a. a\<lparr>failcount := failcount a + 1\<rparr>) (sleep_after_failure s) else s) in
     if failcount (authstate s) > maxauthtries (svr_opts s) then Inl (Exit ''Max auth tries reached'') else Inr s)))))"

definition send_msg_userauth_success :: handler where
  "send_msg_userauth_success s =
     bindr (put_byte SSH_MSG_USERAUTH_SUCCESS s) (\<lambda>s.
     bindr (encrypt_packet s) (\<lambda>s.
     let s = upd_auth (\<lambda>a. a\<lparr>authdone := True\<rparr>) s;
         s = (if pw_uid (authstate s) = 0 then s\<lparr>allowprivport := True\<rparr> else s) in
     Inr (upd_world (m_close (childpipe s)) s)))"

text \<open>The user ids of the process and the answers of the calls that change them.\<close>

record os_ids =
  getuid :: nat
  setgid_ok :: bool
  initgroups_ok :: bool
  setuid_ok :: bool

definition svr_switch_user :: "os_ids \<Rightarrow> sshsession \<Rightarrow> unit res" where
  "svr_switch_user os s =
     bindr (require (authdone (authstate s)) Assert_failed) (\<lambda>_.
     if getuid os = 0 then
       (if \<not> setgid_ok os \<or> \<not> initgroups_ok os then Inl (Exit ''Error changing user group'')
        else if \<not> setuid_ok os then Inl (Exit ''Error changing user'')
        else Inr ())
     else if getuid os \<noteq> pw_uid (authstate s) then Inl (Exit ''Couldn't change user as non-root'')
     else Inr ())"

section \<open>Initialisation\<close>

definition svr_authinitialise :: "sshd4a_globals \<Rightarrow> sshsession \<Rightarrow> sshsession res" where
  "svr_authinitialise g s =
     sshd4a_svr_authinitialise g
       (upd_auth (\<lambda>a. a\<lparr>authtypes := authtypes a OR AUTH_TYPE_PUBKEY\<rparr>) (s\<lparr>authstate := zero_authstate\<rparr>))"

section \<open>Password authentication\<close>

definition DROPBEAR_MAX_PASSWORD_LEN :: nat where
  "DROPBEAR_MAX_PASSWORD_LEN = 100"

definition svr_auth_password :: "sshd4a_globals \<Rightarrow> bool \<Rightarrow> handler" where
  "svr_auth_password g valid_user s =
     bindr (on_read buf_getbool s) (\<lambda>(changepw, s).
     if changepw then send_msg_userauth_failure False True s
     else
       bindr (on_read buf_getstring s) (\<lambda>(password, s).
       bindr (if valid_user \<and> length password \<le> DROPBEAR_MAX_PASSWORD_LEN
              then sshd4a_svr_auth_password g password s else Inr (None, None, s)) (\<lambda>(passwdcrypt, testcrypt, s).
       if \<not> valid_user then send_msg_userauth_failure False True s
       else if length password > DROPBEAR_MAX_PASSWORD_LEN then send_msg_userauth_failure False True s
       else case testcrypt of
         None \<Rightarrow> send_msg_userauth_failure False True s
       | Some test \<Rightarrow>
           (case passwdcrypt of
              None \<Rightarrow> Inl Mem_fault
            | Some pass \<Rightarrow>
                if cstr pass = [] then send_msg_userauth_failure False True s
                else
                  bindr (constant_time_strcmp test pass) (\<lambda>r.
                  if r = 0 then
                    (if multiauthmethod (svr_opts s) \<and> authtypes (authstate s) AND NOT AUTH_TYPE_PASSWORD \<noteq> 0 then
                       send_msg_userauth_failure True False
                         (upd_auth (\<lambda>a. a\<lparr>authtypes := authtypes a AND NOT AUTH_TYPE_PASSWORD\<rparr>) s)
                     else send_msg_userauth_success s)
                  else send_msg_userauth_failure False True s)))))"

section \<open>Lemmas\<close>

lemma of_char_word_inject: "(of_char x :: 8 word) = of_char y \<longleftrightarrow> x = y"
proof -
  have u: "unat (of_char z :: 8 word) = byte_val z" for z
  proof -
    have "(of_char z :: 8 word) = of_nat (byte_val z)" by (rule of_nat_of_char [symmetric])
    then show ?thesis using nat_of_char_less_256 [of z] by (simp add: unat_of_nat take_bit_eq_mod)
  qed
  show ?thesis by (metis u of_char_eq_iff)
qed

lemma or_eq_0: "(a::8 word) OR b = 0 \<longleftrightarrow> a = 0 \<and> b = 0"
  by (simp add: or_eq_0_iff)

lemma xor_eq_0: "(a::8 word) XOR b = 0 \<longleftrightarrow> a = b"
  by (metis xor.right_neutral xor.assoc xor_self_eq)

lemma memcmp_loop_eq:
  assumes "length a = n" and "length b = n"
  shows "\<exists>r. memcmp_loop c a b n = Inr r \<and> (r = 0 \<longleftrightarrow> c = 0 \<and> a = b)"
  using assms
proof (induction c a b n rule: memcmp_loop.induct)
  case (2 c x a y b n)
  then show ?case by (auto simp: or_eq_0 xor_eq_0 of_char_word_inject)
qed auto

lemma constant_time_strcmp_eq: "\<exists>r. constant_time_strcmp a b = Inr r \<and> (r = 0 \<longleftrightarrow> cstr a = cstr b)"
proof (cases "length (cstr a) = length (cstr b)")
  case True
  have "\<exists>r. memcmp_loop 0 (cstr a) (cstr b) (length (cstr a)) = Inr r \<and> (r = 0 \<longleftrightarrow> cstr a = cstr b)"
    using memcmp_loop_eq [OF refl True [symmetric], of 0] by (simp only: simp_thms)
  then show ?thesis unfolding constant_time_strcmp_def constant_time_memcmp_def Let_def
    by (simp only: True refl not_True_eq_False if_False)
next
  case False
  then show ?thesis by (auto simp: constant_time_strcmp_def)
qed

definition methods_list :: "sshsession \<Rightarrow> string" where
  "methods_list s = (if has_type AUTH_TYPE_PUBKEY s then ''publickey'' else []) @
     (if has_type AUTH_TYPE_PUBKEY s \<and> has_type AUTH_TYPE_PASSWORD s then '','' else []) @
     (if has_type AUTH_TYPE_PASSWORD s then ''password'' else [])"

lemma put_method_at:
  assumes "buf_is b c (length c) 30" and "length c + length name \<le> 30"
  shows "\<exists>b'. put_method name b = Inr b' \<and> buf_is b' (c @ name) (length (c @ name)) 30"
proof -
  have u: "unat (of_nat (length name) :: u32) = length name" using assms(2) by (intro unat_of_nat_u32) simp
  show ?thesis using buf_is_putbytes [OF assms(1), of "of_nat (length name)" name] u assms(2)
    by (auto simp: put_method_def blit_at_end)
qed

lemma put_comma_at:
  assumes "buf_is b c (length c) 30" and "length c < 30"
  shows "\<exists>b'. buf_putbyte b x = Inr b' \<and> buf_is b' (c @ [x]) (length (c @ [x])) 30"
  using buf_is_putbyte [OF assms(1), of x] assms(2) by (auto simp: blit_at_end)

lemma auth_methods_content:
  obtains b where "auth_methods s = Inr b" "buf_is b (methods_list s) (length (methods_list s)) 30"
proof -
  let ?pk = "has_type AUTH_TYPE_PUBKEY s" and ?pw = "has_type AUTH_TYPE_PASSWORD s"
  obtain b0 where b0: "buf_new 30 = Inr b0" "buf_is b0 [] (length ([]::byte list)) 30" using buf_is_new [of 30] by auto
  obtain b1 where b1: "put_method AUTH_METHOD_PUBKEY b0 = Inr b1" "buf_is b1 ''publickey'' (length ''publickey'') 30"
    using put_method_at [OF b0(2), of AUTH_METHOD_PUBKEY] by (auto simp: auth_consts)
  obtain b2 where b2: "buf_putbyte b1 (CHR '','') = Inr b2" "buf_is b2 ''publickey,'' (length ''publickey,'') 30"
    using put_comma_at [OF b1(2), of "CHR '',''"] by auto
  obtain b3 where b3: "put_method AUTH_METHOD_PASSWORD b2 = Inr b3" "buf_is b3 ''publickey,password'' (length ''publickey,password'') 30"
    using put_method_at [OF b2(2), of AUTH_METHOD_PASSWORD] by (auto simp: auth_consts)
  obtain b4 where b4: "put_method AUTH_METHOD_PASSWORD b0 = Inr b4" "buf_is b4 ''password'' (length ''password'') 30"
    using put_method_at [OF b0(2), of AUTH_METHOD_PASSWORD] by (auto simp: auth_consts)
  show thesis
  proof (cases ?pk; cases ?pw)
  qed (use that b0 b1 b2 b3 b4 in \<open>auto simp: auth_methods_def methods_list_def\<close>)
qed

definition failure_message :: "bool \<Rightarrow> sshsession \<Rightarrow> byte list" where
  "failure_message partial s = byte_of 51 # STORE32H (of_nat (length (methods_list s))) @ methods_list s
     @ [byte_of (if partial then 1 else 0)]"

lemma methods_list_length: "length (methods_list s) \<le> 18"
  by (simp add: methods_list_def)

lemma methods_list_cong: "authstate s' = authstate s \<Longrightarrow> methods_list s' = methods_list s"
  by (simp add: methods_list_def has_type_def)

text \<open>Filling the payload with a buffer as a string.\<close>

lemma put_bufstring_at:
  assumes "payload_at s c" and "buf_is b d p n" and "length c + 4 + length d \<le> 16384"
  shows "\<exists>b'. on_write (\<lambda>wp. buf_putbufstring wp b) s = Inr (s\<lparr>writepayload := b'\<rparr>)
    \<and> payload_at (s\<lparr>writepayload := b'\<rparr>) (c @ STORE32H (of_nat (length d)) @ d)"
proof -
  note d = buf_isD [OF assms(2)]
  have l: "unat (blen b) = length d" "length d \<le> length (bdata b)" using d buf_ok_nat [OF d(1)] by auto
  have w: "blen b = of_nat (length d)" using buf_is_words(1) [OF assms(2)] .
  show ?thesis
    using buf_is_putstring [OF assms(1) [unfolded payload_at_def], of "blen b" "bdata b"] assms(3) l d(9)
    by (auto simp: on_write_def buf_putbufstring_def payload_at_def blit_at_end w [symmetric] add.commute add.left_commute)
qed

lemma failure_sends:
  assumes "ready_to_send s"
  obtains t where "send_msg_userauth_failure partial incrfail s =
      (let s' = (if incrfail then upd_auth (\<lambda>a. a\<lparr>failcount := failcount a + 1\<rparr>) (sleep_after_failure t) else t) in
       if failcount (authstate s') > maxauthtries (svr_opts s') then Inl (Exit ''Max auth tries reached'') else Inr s')"
    "sends (failure_message partial s) s t"
proof -
  let ?fill = "\<lambda>t. bindr (put_byte 51 t) (\<lambda>t. bindr (auth_methods t) (\<lambda>typebuf.
      bindr (on_write (\<lambda>wp. buf_putbufstring wp typebuf) t) (put_byte (if partial then 1 else 0))))"
  have f: "\<exists>b. ?fill t = Inr (t\<lparr>writepayload := b\<rparr>) \<and> payload_at (t\<lparr>writepayload := b\<rparr>) (failure_message partial t)"
    if t: "payload_at t []" for t
  proof -
    obtain b1 where b1: "put_byte 51 t = Inr (t\<lparr>writepayload := b1\<rparr>)" "payload_at (t\<lparr>writepayload := b1\<rparr>) [byte_of 51]"
      using put_byte_at [OF t, of 51] by auto
    let ?t1 = "t\<lparr>writepayload := b1\<rparr>"
    obtain tb where tb: "auth_methods ?t1 = Inr tb" "buf_is tb (methods_list ?t1) (length (methods_list ?t1)) 30"
      by (rule auth_methods_content)
    have ml: "methods_list ?t1 = methods_list t" by (rule methods_list_cong) simp
    obtain b2 where b2: "on_write (\<lambda>wp. buf_putbufstring wp tb) ?t1 = Inr (t\<lparr>writepayload := b2\<rparr>)"
      "payload_at (t\<lparr>writepayload := b2\<rparr>) (byte_of 51 # STORE32H (of_nat (length (methods_list t))) @ methods_list t)"
      using put_bufstring_at [OF b1(2) tb(2)] methods_list_length [of t] ml by auto
    show ?thesis using b1(1) tb(1) b2(1) put_byte_at [OF b2(2), of "if partial then 1 else 0"] methods_list_length [of t]
      by (auto simp: failure_message_def)
  qed
  have f': "\<exists>b. ?fill t = Inr (t\<lparr>writepayload := b\<rparr>) \<and> payload_at (t\<lparr>writepayload := b\<rparr>) (failure_message partial s)"
    if "payload_at t []" "t = s" for t using f [OF that(1)] that(2) by simp
  have p: "payload_at s []" using assms by (simp add: ready_to_send_def payload_at_empty)
  obtain b where b: "?fill s = Inr (s\<lparr>writepayload := b\<rparr>)" "payload_at (s\<lparr>writepayload := b\<rparr>) (failure_message partial s)"
    using f' [OF p refl] by blast
  have ok: "trans_ok (s\<lparr>writepayload := b\<rparr>)" "reply_queue_len (s\<lparr>writepayload := b\<rparr>) \<le> MAX_DEFER_REPLY_QUEUE"
    using assms by (simp_all add: ready_to_send_def trans_ok_def)
  obtain t where t: "encrypt_packet (s\<lparr>writepayload := b\<rparr>) = Inr t" "sends (failure_message partial s) (s\<lparr>writepayload := b\<rparr>) t"
    by (rule encrypt_packet_sends [OF ok(1) payload_at_ready [OF b(2)] _ ok(2)]) (use that in \<open>simp_all add: failure_message_def\<close>)
  have "send_msg_userauth_failure partial incrfail s = bindr (bindr (?fill s) encrypt_packet) (\<lambda>s.
     let s = (if incrfail then upd_auth (\<lambda>a. a\<lparr>failcount := failcount a + 1\<rparr>) (sleep_after_failure s) else s) in
     if failcount (authstate s) > maxauthtries (svr_opts s) then Inl (Exit ''Max auth tries reached'') else Inr s)"
    by (simp add: send_msg_userauth_failure_def bindr_assoc)
  then show thesis using that [of t] b(1) t by (simp add: sends_payload)
qed

lemma success_sends:
  assumes "ready_to_send s"
  obtains t where "send_msg_userauth_success s = Inr (upd_world (m_close (childpipe s))
      ((upd_auth (\<lambda>a. a\<lparr>authdone := True\<rparr>) t)\<lparr>allowprivport := (pw_uid (authstate s) = 0 \<or> allowprivport s)\<rparr>))"
    "sends [byte_of 52] s t"
proof -
  have f: "\<exists>b. put_byte 52 t = Inr (t\<lparr>writepayload := b\<rparr>) \<and> payload_at (t\<lparr>writepayload := b\<rparr>) [byte_of 52]"
    if "payload_at t []" for t using put_byte_at [OF that, of 52] by simp
  obtain t where t: "bindr (put_byte 52 s) encrypt_packet = Inr t" "sends [byte_of 52] s t"
    by (rule fill_and_send [OF assms f]) (use that in simp_all)
  have u: "unwired t = unwired s" using t(2) by (simp add: sends_def)
  have e: "send_msg_userauth_success s = bindr (bindr (put_byte 52 s) encrypt_packet) (\<lambda>s.
     let s = upd_auth (\<lambda>a. a\<lparr>authdone := True\<rparr>) s;
         s = (if pw_uid (authstate s) = 0 then s\<lparr>allowprivport := True\<rparr> else s) in
     Inr (upd_world (m_close (childpipe s)) s))"
    by (simp add: send_msg_userauth_success_def bindr_assoc)
  have same: "t\<lparr>authstate := a, allowprivport := allowprivport s\<rparr> = t\<lparr>authstate := a\<rparr>" for a
    using unwiredD(31) [OF u] by (cases t) simp
  have "send_msg_userauth_success s = Inr (upd_world (m_close (childpipe s))
      ((upd_auth (\<lambda>a. a\<lparr>authdone := True\<rparr>) t)\<lparr>allowprivport := (pw_uid (authstate s) = 0 \<or> allowprivport s)\<rparr>))"
    unfolding e t(1) bindr_Inr Let_def using unwiredD(2,31,32) [OF u] by (simp add: upd_auth_def same)
  then show thesis using that t(2) by blast
qed

section \<open>Properties\<close>

text \<open>A time in nanoseconds.\<close>

definition nanos :: "int \<times> int \<Rightarrow> int" where
  "nanos t = fst t * 1000000000 + snd t"

lemma delay_bounds:
  assumes "0 \<le> snd now" "snd now < 1000000000" "0 \<le> snd start" "snd start < 1000000000"
  shows "fst (failure_delay now start rnd) = 0"
    and "0 \<le> snd (failure_delay now start rnd)" and "snd (failure_delay now start rnd) < 350000000"
    and "0 \<le> nanos now - nanos start \<Longrightarrow> nanos now - nanos start < 250000000 \<Longrightarrow>
       250000000 \<le> nanos now + nanos (failure_delay now start rnd) - nanos start
       \<and> nanos now + nanos (failure_delay now start rnd) - nanos start < 350000000"
proof -
  have r: "int (rnd mod 100000000) < 100000000" "0 \<le> int (rnd mod 100000000)" by simp_all
  show "fst (failure_delay now start rnd) = 0" "0 \<le> snd (failure_delay now start rnd)"
    "snd (failure_delay now start rnd) < 350000000"
    using r assms by (auto simp: failure_delay_def Let_def split: if_splits)
  assume d: "0 \<le> nanos now - nanos start" "nanos now - nanos start < 250000000"
  define sec nsec where "sec = (if snd now - snd start < 0 then fst now - fst start - 1 else fst now - fst start)"
    and "nsec = (if snd now - snd start < 0 then snd now - snd start + 1000000000 else snd now - snd start)"
  have el: "nanos now - nanos start = sec * 1000000000 + nsec" by (simp add: nanos_def sec_def nsec_def algebra_simps)
  have nsec: "0 \<le> nsec" "nsec < 1000000000" using assms by (auto simp: nsec_def)
  have sec: "sec = 0" using d el nsec by linarith
  have "failure_delay now start rnd = (0, 250000000 + int (rnd mod 100000000) - nsec)"
    using sec d el r unfolding failure_delay_def Let_def sec_def nsec_def by (auto split: if_splits)
  then show "250000000 \<le> nanos now + nanos (failure_delay now start rnd) - nanos start
       \<and> nanos now + nanos (failure_delay now start rnd) - nanos start < 350000000"
    using el sec r by (simp add: nanos_def)
qed

text \<open>
  The delay after a failed attempt: it is never negative and never more than 350 milliseconds;
  and when the server needed less than 250 milliseconds for its answer, the time from the request to
  the end of the delay is between 250 and 350 milliseconds, whatever the random number, so the
  answer's time does not tell how long the check took.
\<close>

theorem failure_delay_bounds:
  assumes "0 \<le> snd now" "snd now < 1000000000" "0 \<le> snd start" "snd start < 1000000000"
  shows "fst (failure_delay now start rnd) = 0 \<and> 0 \<le> snd (failure_delay now start rnd) \<and> snd (failure_delay now start rnd) < 350000000
    \<and> (0 \<le> nanos now - nanos start \<longrightarrow> nanos now - nanos start < 250000000 \<longrightarrow>
       250000000 \<le> nanos now + nanos (failure_delay now start rnd) - nanos start
       \<and> nanos now + nanos (failure_delay now start rnd) - nanos start < 350000000)"
  using delay_bounds [OF assms] by blast

theorem failure_delay_bounds_witness:
  "fst (failure_delay (7, 100) (6, 999999999) 12345) = 0 \<and> snd (failure_delay (7, 100) (6, 999999999) 12345) < 350000000"
  using failure_delay_bounds [of "(7, 100)" "(6, 999999999)" 12345] by simp

text \<open>
  Which methods a session offers: after initialisation the password bit is set exactly when
  the password file has at least three bytes or single-use passwords are on, the public key bit
  exactly when public keys are enabled and the key file has at least ten bytes, no other bit is
  set, nobody is authenticated and the stored password is the single-use password or none.
\<close>

lemma enable_eqs:
  "sshd4a_enable_password_file g w = Inr (case conf_files w (conf_path g @ ''/master_password'') of None \<Rightarrow> False | Some bs \<Rightarrow> 3 \<le> length bs)"
  "sshd4a_enable_public_key_auth g w = Inr (enable_public_key_auth g \<and>
     (case conf_files w (conf_path g @ ''/authorized_keys'') of None \<Rightarrow> False | Some bs \<Rightarrow> 10 \<le> length bs))"
  by (simp_all add: sshd4a_enable_password_file_def sshd4a_enable_public_key_auth_def config_file_exists_def sshd4a_consts
      read_chars_length cong: option.case_cong)

lemma password_generated: "\<exists>pw w'. sshd4a_generate_single_use_password w = (Inr pw, w') \<and> length pw = 8 \<and> set pw \<subseteq> set tab64
    \<and> conf_files w' = conf_files w"
  by (auto simp: sshd4a_generate_single_use_password_def genrandom_def list_all_iff tab64_facts(1))

theorem offered_methods:
  "\<exists>s'. svr_authinitialise g s = Inr s'
     \<and> (has_type AUTH_TYPE_PASSWORD s' \<longleftrightarrow> enable_single_use_passwords g
          \<or> (\<exists>bs. conf_files (world s) (conf_path g @ ''/master_password'') = Some bs \<and> 3 \<le> length bs))
     \<and> (has_type AUTH_TYPE_PUBKEY s' \<longleftrightarrow> enable_public_key_auth g
          \<and> (\<exists>bs. conf_files (world s) (conf_path g @ ''/authorized_keys'') = Some bs \<and> 10 \<le> length bs))
     \<and> authtypes (authstate s') AND NOT (AUTH_TYPE_PASSWORD OR AUTH_TYPE_PUBKEY) = 0
     \<and> \<not> authdone (authstate s') \<and> username (authstate s') = None \<and> failcount (authstate s') = 0
     \<and> (if enable_single_use_passwords g then \<exists>pw. pw_passwd (authstate s') = Some pw \<and> length pw = 8 \<and> set pw \<subseteq> set tab64
        else pw_passwd (authstate s') = None)"
proof -
  define pf where "pf = (case conf_files (world s) (conf_path g @ ''/master_password'') of None \<Rightarrow> False | Some bs \<Rightarrow> 3 \<le> length bs)"
  define pk where "pk = (enable_public_key_auth g \<and>
     (case conf_files (world s) (conf_path g @ ''/authorized_keys'') of None \<Rightarrow> False | Some bs \<Rightarrow> 10 \<le> length bs))"
  obtain pw w' where gen: "sshd4a_generate_single_use_password (world s) = (Inr pw, w')" "length pw = 8" "set pw \<subseteq> set tab64"
    using password_generated by blast
  have b: "pf \<longleftrightarrow> (\<exists>bs. conf_files (world s) (conf_path g @ ''/master_password'') = Some bs \<and> 3 \<le> length bs)"
    "pk \<longleftrightarrow> enable_public_key_auth g \<and> (\<exists>bs. conf_files (world s) (conf_path g @ ''/authorized_keys'') = Some bs \<and> 10 \<le> length bs)"
    by (auto simp: pf_def pk_def split: option.splits)
  have "svr_authinitialise g s = (let s = s\<lparr>authstate := zero_authstate\<lparr>authtypes :=
        (if pk then 2 else 0) OR (if pf then 4 else 0)\<rparr>\<rparr> in
      if enable_single_use_passwords g then Inr (s\<lparr>authstate := (authstate s)\<lparr>authtypes := authtypes (authstate s) OR 4, pw_passwd := Some pw\<rparr>, world := w'\<rparr>)
      else Inr s)"
    unfolding svr_authinitialise_def sshd4a_svr_authinitialise_def using gen(1)
    by (simp add: enable_eqs upd_auth_def Let_def pf_def [symmetric] pk_def [symmetric] auth_consts zero_authstate_def
        sshd4a_enable_single_use_passwords_def)
  then show ?thesis unfolding b [symmetric] using gen(2,3)
    by (cases pk; cases pf; cases "enable_single_use_passwords g")
      (simp_all add: Let_def has_type_def auth_consts zero_authstate_def)
qed

end
