(* ===== verification/Pubkey_Options.thy ===== *)
theory Pubkey_Options
  imports Svr_Auth
begin

text \<open>
  The options of a line of \<open>authorized_keys\<close>, \<open>dropbear/src/svr-authpubkeyoptions.c\<close>, with the two
  string routines it uses (\<open>m_str_to_uint\<close> of \<open>dbutil.c\<close>, \<open>split_address_port\<close> of \<open>common-runopts.c\<close>).

  A parser here reads a buffer from its position to its end and never goes back, so its state is
  the list of the bytes that are left; the theory \<open>Buffer\<close> shows that the operations of a buffer act
  on these bytes (\<open>buf_getbyte_eq\<close>, \<open>buf_peek_eq\<close>).
\<close>

section \<open>What a key allows\<close>

definition svr_pubkey_allows_agentfwd :: "sshsession \<Rightarrow> bool" where
  "svr_pubkey_allows_agentfwd s =
     (case pubkey_options (authstate s) of Some p \<Rightarrow> \<not> no_agent_forwarding_flag p | None \<Rightarrow> True)"

definition svr_pubkey_allows_tcpfwd :: "sshsession \<Rightarrow> bool" where
  "svr_pubkey_allows_tcpfwd s =
     (case pubkey_options (authstate s) of Some p \<Rightarrow> \<not> no_port_forwarding_flag p | None \<Rightarrow> True)"

definition svr_pubkey_has_forced_command :: "sshsession \<Rightarrow> bool" where
  "svr_pubkey_has_forced_command s =
     (case pubkey_options (authstate s) of Some p \<Rightarrow> forced_command p \<noteq> None | None \<Rightarrow> False)"

definition svr_pubkey_allows_x11fwd :: "sshsession \<Rightarrow> bool" where
  "svr_pubkey_allows_x11fwd s =
     (case pubkey_options (authstate s) of Some p \<Rightarrow> \<not> no_x11_forwarding_flag p | None \<Rightarrow> True)"

definition svr_pubkey_allows_pty :: "sshsession \<Rightarrow> bool" where
  "svr_pubkey_allows_pty s =
     (case pubkey_options (authstate s) of Some p \<Rightarrow> \<not> no_pty_flag p | None \<Rightarrow> True)"

definition PUBKEY_OPTIONS_ANY_PORT :: u32 where
  "PUBKEY_OPTIONS_ANY_PORT = 0xFFFFFFFF"

text \<open>The host of an entry may be a NULL pointer, which \<open>strcmp\<close> would follow.\<close>

fun permits_open :: "PermitTCPFwdEntry list \<Rightarrow> string \<Rightarrow> u32 \<Rightarrow> bool res" where
  "permits_open [] h p = Inr False"
| "permits_open (e # es) h p =
     (case host e of
        None \<Rightarrow> Inl Mem_fault
      | Some eh \<Rightarrow>
          if strcmp_eq eh h \<and> (port e = PUBKEY_OPTIONS_ANY_PORT \<or> port e = p) then Inr True
          else permits_open es h p)"

definition svr_pubkey_allows_local_tcpfwd :: "string \<Rightarrow> u32 \<Rightarrow> sshsession \<Rightarrow> bool res" where
  "svr_pubkey_allows_local_tcpfwd h p s =
     (case pubkey_options (authstate s) of
        None \<Rightarrow> Inr True
      | Some po \<Rightarrow>
          (case permit_open_destinations po of None \<Rightarrow> Inr True | Some es \<Rightarrow> permits_open es h p))"

definition svr_pubkey_allows_remote_tcpfwd :: "u32 \<Rightarrow> sshsession \<Rightarrow> bool" where
  "svr_pubkey_allows_remote_tcpfwd p s =
     (case pubkey_options (authstate s) of
        None \<Rightarrow> True
      | Some po \<Rightarrow>
          (case permit_listens po of None \<Rightarrow> True | Some es \<Rightarrow> list_ex (\<lambda>e. port e = p) es))"

text \<open>The command of a channel session and the one the client asked for.\<close>

definition svr_pubkey_set_forced_command ::
    "sshsession \<Rightarrow> string option \<times> string option \<Rightarrow> string option \<times> string option" where
  "svr_pubkey_set_forced_command s c = (case c of (cmd, original_command) \<Rightarrow>
     (case pubkey_options (authstate s) of
        None \<Rightarrow> (cmd, original_command)
      | Some po \<Rightarrow>
          (case forced_command po of
             None \<Rightarrow> (cmd, original_command)
           | Some f \<Rightarrow> (Some f, (case cmd of Some x \<Rightarrow> Some x | None \<Rightarrow> Some '''')))))"

section \<open>Numbers and addresses\<close>

text \<open>
  \<open>strtoul\<close> with base 10 and a 64 bit \<open>unsigned long\<close>: white space, a sign, digits; a number out of
  range gives the largest value, a minus sign negates modulo \<open>2 ^ 64\<close>. The result is \<open>None\<close> when there
  is no digit, else the value and the rest of the string.
\<close>

definition ascii_isspace :: "char \<Rightarrow> bool" where
  "ascii_isspace c \<longleftrightarrow> c = CHR '' '' \<or> (9 \<le> byte_val c \<and> byte_val c \<le> 13)"

definition ascii_isdigit :: "char \<Rightarrow> bool" where
  "ascii_isdigit c \<longleftrightarrow> 48 \<le> byte_val c \<and> byte_val c \<le> 57"

definition ascii_isalpha :: "char \<Rightarrow> bool" where
  "ascii_isalpha c \<longleftrightarrow> 97 \<le> byte_val c \<and> byte_val c \<le> 122 \<or> 65 \<le> byte_val c \<and> byte_val c \<le> 90"

definition ascii_isalnum :: "char \<Rightarrow> bool" where
  "ascii_isalnum c \<longleftrightarrow> ascii_isalpha c \<or> ascii_isdigit c"

fun digits_value :: "nat \<Rightarrow> string \<Rightarrow> nat" where
  "digits_value n [] = n"
| "digits_value n (c # cs) = digits_value (10 * n + (byte_val c - 48)) cs"

definition strtoul :: "string \<Rightarrow> (nat \<times> string) option" where
  "strtoul str =
     (let t = dropWhile ascii_isspace str;
          neg = (t \<noteq> [] \<and> hd t = CHR ''-'');
          t = (if t \<noteq> [] \<and> (hd t = CHR ''-'' \<or> hd t = CHR ''+'') then tl t else t);
          ds = takeWhile ascii_isdigit t;
          n = digits_value 0 ds in
      if ds = [] then None
      else Some (if n \<ge> 2 ^ 64 then 2 ^ 64 - 1 else if neg then (2 ^ 64 - n) mod 2 ^ 64 else n, drop (length ds) t))"

text \<open>\<open>errno\<close> is not reset before the call: \<open>stale\<close> says that it is EINVAL from before.\<close>

definition m_str_to_uint :: "bool \<Rightarrow> string \<Rightarrow> u32 option" where
  "m_str_to_uint stale str =
     (case strtoul str of
        None \<Rightarrow> None
      | Some (l, endp) \<Rightarrow>
          if endp \<noteq> [] then None
          else if l = 0 \<and> stale \<or> l > 2 ^ 32 - 1 then None else Some (of_nat l))"

text \<open>The last colon splits, or the one behind a closing bracket.\<close>

definition split_last_colon :: "string \<Rightarrow> string \<times> string option" where
  "split_last_colon a =
     (if CHR '':'' \<in> set a then
        let r = rev a; port = takeWhile (\<lambda>c. c \<noteq> CHR '':'') r in
        (rev (drop (length port + 1) r), Some (rev port))
      else (a, None))"

definition split_address_port :: "string \<Rightarrow> (string option \<times> string option) option" where
  "split_address_port spec =
     (case spec of
        CHR ''['' # a \<Rightarrow>
          if CHR '']'' \<notin> set a then None
          else
            let addr = takeWhile (\<lambda>c. c \<noteq> CHR '']'') a; rest = drop (length addr + 1) a;
                first = (if addr = [] then None else Some addr) in
            (case rest of
               [] \<Rightarrow> Some (first, None)
             | c # p \<Rightarrow> if c \<noteq> CHR '':'' then None else Some (first, Some p))
      | _ \<Rightarrow>
          let (addr, p) = split_last_colon spec in
          Some (if addr = [] then None else Some addr, p))"

section \<open>Parsing\<close>

definition tolower :: "char \<Rightarrow> char" where
  "tolower c = (if 65 \<le> byte_val c \<and> byte_val c \<le> 90 then byte_of (byte_val c + 32) else c)"

definition match_option :: "byte list \<Rightarrow> string \<Rightarrow> byte list option" where
  "match_option r opt_name =
     (if length r < length opt_name then None
      else if map tolower (take (length opt_name) r) = map tolower opt_name then Some (drop (length opt_name) r)
      else None)"

text \<open>The text of \<open>command=\<close> up to the quote that is not escaped.\<close>

fun scan_command :: "bool \<Rightarrow> byte list \<Rightarrow> byte list \<Rightarrow> (string \<times> byte list) option" where
  "scan_command escaped acc [] = None"
| "scan_command escaped acc (c # r) =
     (if \<not> escaped \<and> c = CHR 0x22 then Some (rev acc, r)
      else scan_command (\<not> escaped \<and> c = CHR 0x5C) (c # acc) r)"

text \<open>The text up to the next quote.\<close>

definition scan_quote :: "byte list \<Rightarrow> (string \<times> byte list) option" where
  "scan_quote r =
     (let t = takeWhile (\<lambda>c. c \<noteq> CHR 0x22) r in
      if length t = length r then None else Some (t, drop (length t + 1) r))"

definition permitopen_entry :: "bool \<Rightarrow> string \<Rightarrow> PermitTCPFwdEntry option" where
  "permitopen_entry stale spec =
     (case split_address_port (cstr spec) of
        Some (Some h, Some portstring) \<Rightarrow>
          if portstring = ''*'' then Some \<lparr>host = Some h, port = PUBKEY_OPTIONS_ANY_PORT\<rparr>
          else (case m_str_to_uint stale portstring of
                  Some p \<Rightarrow> if p \<le> 65535 then Some \<lparr>host = Some h, port = p\<rparr> else None
                | None \<Rightarrow> None)
      | _ \<Rightarrow> None)"

definition permitlisten_entry :: "bool \<Rightarrow> string \<Rightarrow> PermitTCPFwdEntry option" where
  "permitlisten_entry stale spec =
     (case m_str_to_uint stale (cstr spec) of
        Some p \<Rightarrow> if p \<le> 65535 then Some \<lparr>host = None, port = p\<rparr> else None
      | None \<Rightarrow> None)"

definition append_entry :: "PermitTCPFwdEntry list option \<Rightarrow> PermitTCPFwdEntry \<Rightarrow> PermitTCPFwdEntry list option" where
  "append_entry es e = Some ((case es of None \<Rightarrow> [] | Some l \<Rightarrow> l) @ [e])"

text \<open>
  The body of the loop up to the label \<open>next_option\<close>: \<open>None\<close> is the label \<open>bad_option\<close>. Agent and X11
  forwarding are not compiled in, so their options are accepted without effect; keys on security
  tokens are.
\<close>

definition parse_quoted :: "bool \<Rightarrow> PubKeyOptions \<Rightarrow> byte list \<Rightarrow> (PubKeyOptions \<times> byte list) option" where
  "parse_quoted stale po r =
     (case match_option r ''command=\"'' of
        Some r \<Rightarrow>
          if forced_command po \<noteq> None then None
          else (case scan_command False [] r of
                  None \<Rightarrow> None
                | Some (cmd, r) \<Rightarrow> Some (po\<lparr>forced_command := Some (cstr cmd)\<rparr>, r))
      | None \<Rightarrow>
     (case match_option r ''permitopen=\"'' of
        Some r \<Rightarrow>
          (case scan_quote r of
             None \<Rightarrow> None
           | Some (spec, r) \<Rightarrow>
               (case permitopen_entry stale spec of
                  None \<Rightarrow> None
                | Some e \<Rightarrow> Some (po\<lparr>permit_open_destinations := append_entry (permit_open_destinations po) e\<rparr>, r)))
      | None \<Rightarrow>
     (case match_option r ''permitlisten=\"'' of
        Some r \<Rightarrow>
          (case scan_quote r of
             None \<Rightarrow> None
           | Some (spec, r) \<Rightarrow>
               (case permitlisten_entry stale spec of
                  None \<Rightarrow> None
                | Some e \<Rightarrow> Some (po\<lparr>permit_listens := append_entry (permit_listens po) e\<rparr>, r)))
      | None \<Rightarrow>
     (case match_option r ''no-touch-required'' of
        Some r \<Rightarrow> Some (po\<lparr>no_touch_required_flag := True\<rparr>, r)
      | None \<Rightarrow>
     (case match_option r ''verify-required'' of
        Some r \<Rightarrow> Some (po\<lparr>verify_required_flag := True\<rparr>, r)
      | None \<Rightarrow> Some (po, r))))))"

definition parse_option :: "bool \<Rightarrow> PubKeyOptions \<Rightarrow> byte list \<Rightarrow> (PubKeyOptions \<times> byte list) option" where
  "parse_option stale po r =
     (case match_option r ''no-port-forwarding'' of
        Some r \<Rightarrow> Some (po\<lparr>no_port_forwarding_flag := True\<rparr>, r)
      | None \<Rightarrow>
     (case match_option r ''no-agent-forwarding'' of
        Some r \<Rightarrow> Some (po, r)
      | None \<Rightarrow>
     (case match_option r ''no-X11-forwarding'' of
        Some r \<Rightarrow> Some (po, r)
      | None \<Rightarrow>
     (case match_option r ''no-pty'' of
        Some r \<Rightarrow> Some (po\<lparr>no_pty_flag := True\<rparr>, r)
      | None \<Rightarrow>
     (case match_option r ''restrict'' of
        Some r \<Rightarrow> Some (po\<lparr>no_port_forwarding_flag := True, no_pty_flag := True\<rparr>, r)
      | None \<Rightarrow> parse_quoted stale po r)))))"

lemma match_option_shorter: "match_option r n = Some r' \<Longrightarrow> length r' \<le> length r"
  by (auto simp: match_option_def split: if_splits)

lemma scan_command_shorter: "scan_command e acc r = Some (cmd, r') \<Longrightarrow> length r' \<le> length r"
  by (induction e acc r rule: scan_command.induct) (auto split: if_splits)

lemma scan_quote_shorter: "scan_quote r = Some (t, r') \<Longrightarrow> length r' \<le> length r"
  by (auto simp: scan_quote_def Let_def split: if_splits)

lemma parse_option_shorter:
  assumes "parse_option stale po r = Some (po', r')"
  shows "length r' \<le> length r"
  using assms unfolding parse_option_def parse_quoted_def
  by (auto split: option.splits if_splits dest!: match_option_shorter scan_command_shorter scan_quote_shorter)

function parse_options :: "bool \<Rightarrow> PubKeyOptions \<Rightarrow> byte list \<Rightarrow> PubKeyOptions option" where
  "parse_options stale po r =
     (if r = [] then Some po
      else case parse_option stale po r of
        None \<Rightarrow> None
      | Some (po', []) \<Rightarrow> Some po'
      | Some (po', c # r') \<Rightarrow> if c \<noteq> CHR '','' then None else parse_options stale po' r')"
  by pat_completeness auto
termination
  by (relation "measure (\<lambda>(stale, po, r). length r)") (auto dest!: parse_option_shorter)

declare parse_options.simps [simp del]

definition zero_pubkey_options :: PubKeyOptions where
  "zero_pubkey_options = \<lparr>no_port_forwarding_flag = False, no_agent_forwarding_flag = False, no_x11_forwarding_flag = False,
     no_pty_flag = False, forced_command = None, permit_open_destinations = None, permit_listens = None,
     no_touch_required_flag = False, verify_required_flag = False, info_env = None\<rparr>"

definition svr_parse_pubkey_options :: "bool \<Rightarrow> byte list option \<Rightarrow> PubKeyOptions option" where
  "svr_parse_pubkey_options stale options_buf =
     (case options_buf of
        None \<Rightarrow> Some zero_pubkey_options
      | Some r \<Rightarrow> parse_options stale zero_pubkey_options r)"

section \<open>Round trips\<close>

text \<open>Decimal notation, the reference for \<open>m_str_to_uint\<close>.\<close>

fun decimal :: "nat \<Rightarrow> string" where
  "decimal n = (if n < 10 then [byte_of (48 + n)] else decimal (n div 10) @ [byte_of (48 + n mod 10)])"

declare decimal.simps [simp del]

lemma digits_value_append: "digits_value m (xs @ [c]) = 10 * digits_value m xs + (byte_val c - 48)"
  by (induction m xs rule: digits_value.induct) simp_all

lemma decimal_value: "digits_value 0 (decimal n) = n"
proof (induction n rule: decimal.induct)
  case (1 n)
  then show ?case
    by (subst decimal.simps) (auto simp: digits_value_append)
qed

lemma decimal_digits: "list_all ascii_isdigit (decimal n)"
proof (induction n rule: decimal.induct)
  case (1 n)
  then show ?case
    by (cases "n < 10"; subst decimal.simps) (simp_all add: ascii_isdigit_def [of "byte_of _"])
qed

lemma decimal_not_empty: "decimal n \<noteq> []"
  by (subst decimal.simps) simp

lemma digit_not_special:
  assumes "ascii_isdigit c"
  shows "\<not> ascii_isspace c" "c \<noteq> CHR ''-''" "c \<noteq> CHR ''+''" "c \<noteq> CHR 0x22" "c \<noteq> CHR '':''"
    "c \<noteq> CHR 0x00"
  using assms by (auto simp: ascii_isdigit_def ascii_isspace_def)

lemma decimal_no_special [simp]:
  "CHR 0x22 \<notin> set (decimal n)" "CHR '':'' \<notin> set (decimal n)" "CHR 0x00 \<notin> set (decimal n)"
  using decimal_digits [of n] by (metis digit_not_special(4-6) list_all_iff)+

lemma strtoul_digits:
  assumes "list_all ascii_isdigit ds" "ds \<noteq> []" "digits_value 0 ds < 2 ^ 64"
  shows "strtoul ds = Some (digits_value 0 ds, [])"
proof -
  obtain c cs where ds: "ds = c # cs" and c: "ascii_isdigit c"
    using assms by (cases ds) auto
  have drop: "dropWhile ascii_isspace ds = ds"
    using digit_not_special(1) [OF c] by (simp add: ds)
  have take: "takeWhile ascii_isdigit ds = ds"
    using assms(1) by (simp add: takeWhile_eq_all_conv list_all_iff)
  have hd: "hd ds \<noteq> CHR ''-''" "hd ds \<noteq> CHR ''+''"
    using digit_not_special [OF c] by (simp_all add: ds)
  show ?thesis
    using assms(2,3) by (simp add: strtoul_def drop take hd Let_def)
qed

lemma m_str_to_uint_decimal:
  assumes "n < 2 ^ 32" "\<not> (stale \<and> n = 0)"
  shows "m_str_to_uint stale (decimal n) = Some (of_nat n)"
  using assms strtoul_digits [OF decimal_digits decimal_not_empty, of n]
  by (auto simp: m_str_to_uint_def decimal_value)

text \<open>The options as the manual page lists them, their text and their meaning.\<close>

datatype key_option =
  No_port_forwarding | No_agent_forwarding | No_X11_forwarding | No_pty | Restrict
| No_touch_required | Verify_required
| Command string | Permit_open string "nat option" | Permit_listen nat

fun option_text :: "key_option \<Rightarrow> string" where
  "option_text No_port_forwarding = ''no-port-forwarding''"
| "option_text No_agent_forwarding = ''no-agent-forwarding''"
| "option_text No_X11_forwarding = ''no-X11-forwarding''"
| "option_text No_pty = ''no-pty''"
| "option_text Restrict = ''restrict''"
| "option_text No_touch_required = ''no-touch-required''"
| "option_text Verify_required = ''verify-required''"
| "option_text (Command c) = ''command=\"'' @ c @ [CHR 0x22]"
| "option_text (Permit_open h p) =
     ''permitopen=\"'' @ h @ '':'' @ (case p of None \<Rightarrow> ''*'' | Some n \<Rightarrow> decimal n) @ [CHR 0x22]"
| "option_text (Permit_listen n) = ''permitlisten=\"'' @ decimal n @ [CHR 0x22]"

fun option_meaning :: "key_option \<Rightarrow> PubKeyOptions \<Rightarrow> PubKeyOptions" where
  "option_meaning No_port_forwarding po = po\<lparr>no_port_forwarding_flag := True\<rparr>"
| "option_meaning No_agent_forwarding po = po"
| "option_meaning No_X11_forwarding po = po"
| "option_meaning No_pty po = po\<lparr>no_pty_flag := True\<rparr>"
| "option_meaning Restrict po = po\<lparr>no_port_forwarding_flag := True, no_pty_flag := True\<rparr>"
| "option_meaning No_touch_required po = po\<lparr>no_touch_required_flag := True\<rparr>"
| "option_meaning Verify_required po = po\<lparr>verify_required_flag := True\<rparr>"
| "option_meaning (Command c) po = po\<lparr>forced_command := Some c\<rparr>"
| "option_meaning (Permit_open h p) po =
     po\<lparr>permit_open_destinations := append_entry (permit_open_destinations po)
          \<lparr>host = Some h, port = (case p of None \<Rightarrow> PUBKEY_OPTIONS_ANY_PORT | Some n \<Rightarrow> of_nat n)\<rparr>\<rparr>"
| "option_meaning (Permit_listen n) po =
     po\<lparr>permit_listens := append_entry (permit_listens po) \<lparr>host = None, port = of_nat n\<rparr>\<rparr>"

text \<open>
  A command may hold quotes and backslashes as long as each is behind a backslash; it is handed on
  with these backslashes. A host has no colon-bracket form here.
\<close>

fun escapes_ok :: "bool \<Rightarrow> string \<Rightarrow> bool" where
  "escapes_ok escaped [] \<longleftrightarrow> \<not> escaped"
| "escapes_ok escaped (c # cs) \<longleftrightarrow>
     (escaped \<or> c \<noteq> CHR 0x22) \<and> c \<noteq> CHR 0x00 \<and> escapes_ok (\<not> escaped \<and> c = CHR 0x5C) cs"

definition host_ok :: "string \<Rightarrow> bool" where
  "host_ok h \<longleftrightarrow> h \<noteq> [] \<and> hd h \<noteq> CHR ''['' \<and> CHR 0x22 \<notin> set h \<and> CHR 0x00 \<notin> set h"

fun option_ok :: "key_option \<Rightarrow> bool" where
  "option_ok (Command c) \<longleftrightarrow> escapes_ok False c"
| "option_ok (Permit_open h p) \<longleftrightarrow> host_ok h \<and> (case p of None \<Rightarrow> True | Some n \<Rightarrow> n \<le> 65535)"
| "option_ok (Permit_listen n) \<longleftrightarrow> n \<le> 65535"
| "option_ok _ \<longleftrightarrow> True"

fun is_command :: "key_option \<Rightarrow> bool" where
  "is_command (Command c) \<longleftrightarrow> True"
| "is_command _ \<longleftrightarrow> False"

fun options_text :: "key_option list \<Rightarrow> string" where
  "options_text [] = []"
| "options_text [k] = option_text k"
| "options_text (k # ks) = option_text k @ '','' @ options_text ks"

lemma match_option_same [simp]: "match_option (n @ r) n = Some r"
  by (simp add: match_option_def)

lemma match_option_differs:
  assumes "i < length n" "i < length a" "tolower (a ! i) \<noteq> tolower (n ! i)"
  shows "match_option (a @ r) n = None"
proof -
  have "map tolower (take (length n) (a @ r)) \<noteq> map tolower n" if "length n \<le> length (a @ r)"
  proof
    assume "map tolower (take (length n) (a @ r)) = map tolower n"
    then have "map tolower (take (length n) (a @ r)) ! i = map tolower n ! i" by simp
    then show False using assms that by (simp add: nth_append)
  qed
  then show ?thesis by (simp add: match_option_def)
qed

lemma scan_command_escaped:
  assumes "escapes_ok e c"
  shows "scan_command e acc (c @ CHR 0x22 # r) = Some (rev acc @ c, r)"
  using assms by (induction e c arbitrary: acc rule: escapes_ok.induct) auto

lemma escapes_ok_no_nul: "escapes_ok e c \<Longrightarrow> CHR 0x00 \<notin> set c"
  by (induction e c rule: escapes_ok.induct) auto

lemma scan_quote_text:
  assumes "CHR 0x22 \<notin> set t"
  shows "scan_quote (t @ CHR 0x22 # r) = Some (t, r)"
proof -
  have "takeWhile (\<lambda>c. c \<noteq> CHR 0x22) (t @ CHR 0x22 # r) = t"
    using assms by (subst takeWhile_append2) auto
  then show ?thesis by (simp add: scan_quote_def)
qed

lemma split_last_colon_text:
  assumes "CHR '':'' \<notin> set p"
  shows "split_last_colon (h @ CHR '':'' # p) = (h, Some p)"
proof -
  have "takeWhile (\<lambda>c. c \<noteq> CHR '':'') (rev p @ CHR '':'' # rev h) = rev p"
    using assms by (subst takeWhile_append2) auto
  then show ?thesis by (simp add: split_last_colon_def Let_def)
qed

lemma split_address_port_text:
  assumes "host_ok h" "CHR '':'' \<notin> set p"
  shows "split_address_port (h @ CHR '':'' # p) = Some (Some h, Some p)"
proof -
  obtain c cs where h: "h = c # cs" "c \<noteq> CHR ''[''"
    using assms(1) by (cases h) (auto simp: host_ok_def)
  have "split_address_port (c # x) =
      (let (addr, p) = split_last_colon (c # x) in Some (if addr = [] then None else Some addr, p))" for x
    using h(2) unfolding split_address_port_def by (cases c rule: char.exhaust) (auto split: bool.splits)
  from this [of "cs @ CHR '':'' # p"] show ?thesis
    using split_last_colon_text [OF assms(2), of h] h by simp
qed

fun differs :: "string \<Rightarrow> string \<Rightarrow> bool" where
  "differs (x # xs) (y # ys) \<longleftrightarrow> tolower x \<noteq> tolower y \<or> differs xs ys"
| "differs xs ys \<longleftrightarrow> False"

lemma match_option_none: "differs a n \<Longrightarrow> match_option (a @ r) n = None"
  by (induction a n rule: differs.induct) (auto simp: match_option_def split: if_splits)

lemma option_names_differ:
  "differs ''no-agent-forwarding'' ''no-port-forwarding''"
  "list_all (differs ''no-X11-forwarding'') [''no-port-forwarding'', ''no-agent-forwarding'']"
  "list_all (differs ''no-pty'') [''no-port-forwarding'', ''no-agent-forwarding'', ''no-X11-forwarding'']"
  "list_all (differs ''restrict'')
     [''no-port-forwarding'', ''no-agent-forwarding'', ''no-X11-forwarding'', ''no-pty'']"
  "list_all (differs ''command=\"'')
     [''no-port-forwarding'', ''no-agent-forwarding'', ''no-X11-forwarding'', ''no-pty'', ''restrict'']"
  "list_all (differs ''permitopen=\"'')
     [''no-port-forwarding'', ''no-agent-forwarding'', ''no-X11-forwarding'', ''no-pty'', ''restrict'', ''command=\"'']"
  "list_all (differs ''permitlisten=\"'')
     [''no-port-forwarding'', ''no-agent-forwarding'', ''no-X11-forwarding'', ''no-pty'', ''restrict'', ''command=\"'',
      ''permitopen=\"'']"
  "list_all (differs ''no-touch-required'')
     [''no-port-forwarding'', ''no-agent-forwarding'', ''no-X11-forwarding'', ''no-pty'', ''restrict'', ''command=\"'',
      ''permitopen=\"'', ''permitlisten=\"'']"
  "list_all (differs ''verify-required'')
     [''no-port-forwarding'', ''no-agent-forwarding'', ''no-X11-forwarding'', ''no-pty'', ''restrict'', ''command=\"'',
      ''permitopen=\"'', ''permitlisten=\"'', ''no-touch-required'']"
  by code_simp+

lemma match_options_none:
  "list_all (differs a) ns \<Longrightarrow> list_all (\<lambda>n. match_option (a @ r) n = None) ns"
  by (auto simp: list_all_iff match_option_none)

lemmas match_option_other =
  match_option_none [OF option_names_differ(1)]
  option_names_differ(2-) [THEN match_options_none, unfolded list.pred_inject]

text \<open>One option in front of any rest.\<close>

lemma parse_flag:
  assumes "k \<in> {No_port_forwarding, No_agent_forwarding, No_X11_forwarding, No_pty, Restrict,
     No_touch_required, Verify_required}"
  shows "parse_option stale po (option_text k @ r) = Some (option_meaning k po, r)"
  using assms unfolding parse_option_def parse_quoted_def
  by (auto simp: match_option_other simp del: append.simps)

lemma parse_command:
  assumes "escapes_ok False c" "forced_command po = None"
  shows "parse_option stale po (option_text (Command c) @ r) = Some (option_meaning (Command c) po, r)"
  using assms scan_command_escaped [OF assms(1), of "[]" r] escapes_ok_no_nul [OF assms(1)]
  unfolding parse_option_def parse_quoted_def
  by (simp add: match_option_other append.simps(2) [of _ "[]"] append.simps(1) [of r] del: append.simps)

lemma parse_permitlisten:
  assumes "n \<le> 65535" "\<not> (stale \<and> n = 0)"
  shows "parse_option stale po (option_text (Permit_listen n) @ r) = Some (option_meaning (Permit_listen n) po, r)"
proof -
  have no: "CHR 0x22 \<notin> set (decimal n)" "CHR 0x00 \<notin> set (decimal n)"
    by simp_all
  have e: "permitlisten_entry stale (decimal n) = Some \<lparr>host = None, port = of_nat n\<rparr>"
    using assms no m_str_to_uint_decimal [of n stale]
    by (simp add: permitlisten_entry_def word_le_nat_alt unat_of_nat_u32)
  show ?thesis
    using scan_quote_text [OF no(1), of r] e unfolding parse_option_def parse_quoted_def
    by (simp add: match_option_other append.simps(2) [of _ "[]"] append.simps(1) [of r] del: append.simps)
qed

lemma parse_permitopen:
  assumes "host_ok h" "case p of None \<Rightarrow> True | Some n \<Rightarrow> n \<le> 65535 \<and> \<not> (stale \<and> n = 0)"
  shows "parse_option stale po (option_text (Permit_open h p) @ r) = Some (option_meaning (Permit_open h p) po, r)"
proof -
  let ?p = "case p of None \<Rightarrow> ''*'' | Some n \<Rightarrow> decimal n"
  have no: "CHR 0x22 \<notin> set ?p" "CHR '':'' \<notin> set ?p" "CHR 0x00 \<notin> set ?p"
    by (simp_all split: option.splits)
  let ?spec = "h @ CHR '':'' # ?p"
  have spec: "CHR 0x22 \<notin> set ?spec" "cstr ?spec = ?spec"
    using assms(1) no by (auto simp: host_ok_def intro!: cstr_no_nul)
  have star: "decimal n \<noteq> ''*''" for n
    using decimal_digits [of n] by (auto simp: ascii_isdigit_def)
  have e: "permitopen_entry stale ?spec =
      Some \<lparr>host = Some h, port = (case p of None \<Rightarrow> PUBKEY_OPTIONS_ANY_PORT | Some n \<Rightarrow> of_nat n)\<rparr>"
    using assms(2) m_str_to_uint_decimal star split_address_port_text [OF assms(1) no(2)]
    unfolding permitopen_entry_def spec(2)
    by (auto simp: word_le_nat_alt unat_of_nat_u32 split: option.splits)
  have parse: "parse_option stale po (''permitopen=\"'' @ x) =
      (case scan_quote x of
         None \<Rightarrow> None
       | Some (spec, r) \<Rightarrow>
           (case permitopen_entry stale spec of
              None \<Rightarrow> None
            | Some e \<Rightarrow> Some (po\<lparr>permit_open_destinations := append_entry (permit_open_destinations po) e\<rparr>, r)))" for x
    unfolding parse_option_def parse_quoted_def by (simp add: match_option_other del: append.simps)
  have txt_eq: "option_text (Permit_open h p) @ r = ''permitopen=\"'' @ (?spec @ CHR 0x22 # r)" by simp
  show ?thesis
    unfolding txt_eq parse scan_quote_text [OF spec(1)] by (simp add: e)
qed

lemma parse_one:
  assumes "option_ok k" "is_command k \<longrightarrow> forced_command po = None"
  shows "parse_option False po (option_text k @ r) = Some (option_meaning k po, r)"
  using assms parse_command parse_permitlisten parse_permitopen parse_flag
  by (cases k) (simp_all split: option.splits del: option_text.simps option_meaning.simps)

lemma option_text_not_empty: "option_text k \<noteq> []"
  by (cases k) simp_all

lemma meaning_keeps_command:
  "\<not> is_command k \<Longrightarrow> forced_command (option_meaning k po) = forced_command po"
  by (cases k) simp_all

lemma options_parsed:
  assumes "list_all option_ok ks" "length (filter is_command ks) \<le> 1"
  shows "svr_parse_pubkey_options False (Some (options_text ks)) = Some (fold option_meaning ks zero_pubkey_options)"
proof -
  have "parse_options False po (options_text ks) = Some (fold option_meaning ks po)"
    if "list_all option_ok ks" "length (filter is_command ks) \<le> (if forced_command po = None then 1 else 0)" for po
    using that
  proof (induction ks arbitrary: po rule: options_text.induct)
    case 1
    then show ?case by (simp add: parse_options.simps)
  next
    case (2 k)
    then have "parse_option False po (option_text k @ []) = Some (option_meaning k po, [])"
      by (intro parse_one) (auto split: if_splits)
    then show ?case
      by (subst parse_options.simps) (simp add: option_text_not_empty)
  next
    case (3 k k' ks)
    then have one: "parse_option False po (option_text k @ '','' @ options_text (k' # ks)) =
        Some (option_meaning k po, '','' @ options_text (k' # ks))"
      by (intro parse_one) (auto split: if_splits)
    have "parse_options False (option_meaning k po) (options_text (k' # ks)) =
        Some (fold option_meaning (k' # ks) (option_meaning k po))"
      using 3 meaning_keeps_command [of k po] by (intro "3.IH") (auto split: if_splits)
    with one show ?case
      by (subst parse_options.simps) (simp add: option_text_not_empty del: options_text.simps(2,3) add: options_text.simps(3))
  qed
  then show ?thesis
    using assms by (simp add: svr_parse_pubkey_options_def zero_pubkey_options_def)
qed

text \<open>
  C37. Printing and parsing: a list of options that holds at most one command, written as in
  \<open>authorized_keys\<close>, is parsed, and the result has exactly the effect of each of them in turn.
\<close>

theorem options_roundtrip:
  assumes "list_all option_ok ks" "length (filter is_command ks) \<le> 1"
  shows "svr_parse_pubkey_options False (Some (options_text ks)) = Some (fold option_meaning ks zero_pubkey_options)"
  by (rule options_parsed) (fact assms)+

theorem options_roundtrip_witness:
  "svr_parse_pubkey_options False
     (Some (options_text [Restrict, Command (''say '' @ [CHR 0x5C, CHR 0x22]), Permit_open ''db'' (Some 5432), Permit_listen 8080])) =
   Some (fold option_meaning [Restrict, Command (''say '' @ [CHR 0x5C, CHR 0x22]), Permit_open ''db'' (Some 5432), Permit_listen 8080]
     zero_pubkey_options)"
  by (rule options_roundtrip) (simp_all add: host_ok_def)

section \<open>The options in force\<close>

fun opens :: "key_option list \<Rightarrow> PermitTCPFwdEntry list" where
  "opens [] = []"
| "opens (Permit_open h p # ks) =
     \<lparr>host = Some h, port = (case p of None \<Rightarrow> PUBKEY_OPTIONS_ANY_PORT | Some n \<Rightarrow> of_nat n)\<rparr> # opens ks"
| "opens (k # ks) = opens ks"

lemma meaning_opens:
  "permit_open_destinations (fold option_meaning ks po) =
     (if opens ks = [] then permit_open_destinations po
      else Some ((case permit_open_destinations po of None \<Rightarrow> [] | Some l \<Rightarrow> l) @ opens ks))"
  by (induction ks arbitrary: po rule: opens.induct) (simp_all add: append_entry_def)

lemma meaning_flags:
  "no_pty_flag (fold option_meaning ks po) \<longleftrightarrow> no_pty_flag po \<or> No_pty \<in> set ks \<or> Restrict \<in> set ks"
  "no_port_forwarding_flag (fold option_meaning ks po) \<longleftrightarrow>
     no_port_forwarding_flag po \<or> No_port_forwarding \<in> set ks \<or> Restrict \<in> set ks"
proof -
  show "no_pty_flag (fold option_meaning ks po) \<longleftrightarrow> no_pty_flag po \<or> No_pty \<in> set ks \<or> Restrict \<in> set ks"
    by (induction ks arbitrary: po rule: opens.induct) auto
  show "no_port_forwarding_flag (fold option_meaning ks po) \<longleftrightarrow>
      no_port_forwarding_flag po \<or> No_port_forwarding \<in> set ks \<or> Restrict \<in> set ks"
    by (induction ks arbitrary: po rule: opens.induct) auto
qed

lemma opens_empty: "opens ks = [] \<longleftrightarrow> (\<nexists>h p. Permit_open h p \<in> set ks)"
  by (induction ks rule: opens.induct) auto

lemma permits_open_opens:
  assumes "list_all option_ok ks" "CHR 0x00 \<notin> set h"
  shows "permits_open (opens ks) h p =
    Inr (Permit_open h None \<in> set ks \<or> (\<exists>n. Permit_open h (Some n) \<in> set ks \<and> p = of_nat n))"
  using assms
proof (induction ks rule: opens.induct)
  case (2 g q ks)
  have g: "CHR 0x00 \<notin> set g" using 2 by (simp add: host_ok_def)
  have any: "(of_nat n :: u32) \<noteq> PUBKEY_OPTIONS_ANY_PORT" if "n \<le> 65535" for n
  proof
    assume "(of_nat n :: u32) = PUBKEY_OPTIONS_ANY_PORT"
    then have "unat (of_nat n :: u32) = unat PUBKEY_OPTIONS_ANY_PORT" by simp
    then show False using that by (simp add: unat_of_nat_u32 PUBKEY_OPTIONS_ANY_PORT_def)
  qed
  show ?case
    using 2 g any by (auto simp: strcmp_eq_def split: option.splits)
qed auto

text \<open>
  The options of a key are enforced: a key whose options hold \<open>permitopen\<close> entries may open a
  connection to a host and port exactly when an entry names them (or the host with port \<open>*\<close>), every
  key without such entries may; a terminal is refused exactly under \<open>no-pty\<close> or \<open>restrict\<close>, forwarding
  exactly under \<open>no-port-forwarding\<close> or \<open>restrict\<close>.
\<close>

theorem options_enforced:
  assumes "list_all option_ok ks" "length (filter is_command ks) \<le> 1"
    and "pubkey_options (authstate s) = svr_parse_pubkey_options False (Some (options_text ks))"
    and "CHR 0x00 \<notin> set h"
  shows "svr_pubkey_allows_local_tcpfwd h p s = Inr ((\<nexists>g q. Permit_open g q \<in> set ks)
      \<or> Permit_open h None \<in> set ks \<or> (\<exists>n. Permit_open h (Some n) \<in> set ks \<and> p = of_nat n))
    \<and> (svr_pubkey_allows_pty s \<longleftrightarrow> No_pty \<notin> set ks \<and> Restrict \<notin> set ks)
    \<and> (svr_pubkey_allows_tcpfwd s \<longleftrightarrow> No_port_forwarding \<notin> set ks \<and> Restrict \<notin> set ks)"
proof -
  have po: "pubkey_options (authstate s) = Some (fold option_meaning ks zero_pubkey_options)"
    using assms(3) options_parsed [OF assms(1,2)] by simp
  have "svr_pubkey_allows_local_tcpfwd h p s = Inr ((\<nexists>g q. Permit_open g q \<in> set ks)
      \<or> Permit_open h None \<in> set ks \<or> (\<exists>n. Permit_open h (Some n) \<in> set ks \<and> p = of_nat n))"
    using permits_open_opens [OF assms(1,4), of p] opens_empty [of ks]
    by (simp add: svr_pubkey_allows_local_tcpfwd_def po meaning_opens) (simp add: zero_pubkey_options_def, blast)
  moreover have "svr_pubkey_allows_pty s \<longleftrightarrow> No_pty \<notin> set ks \<and> Restrict \<notin> set ks"
    by (simp add: svr_pubkey_allows_pty_def po meaning_flags) (simp add: zero_pubkey_options_def)
  moreover have "svr_pubkey_allows_tcpfwd s \<longleftrightarrow> No_port_forwarding \<notin> set ks \<and> Restrict \<notin> set ks"
    by (simp add: svr_pubkey_allows_tcpfwd_def po meaning_flags) (simp add: zero_pubkey_options_def)
  ultimately show ?thesis by blast
qed

definition plain_key_session :: "key_option list \<Rightarrow> sshsession" where
  "plain_key_session ks = plain_session\<lparr>authstate := (authstate plain_session)
     \<lparr>pubkey_options := svr_parse_pubkey_options False (Some (options_text ks))\<rparr>\<rparr>"

theorem options_enforced_witness:
  "svr_pubkey_allows_local_tcpfwd ''db'' 22 (plain_key_session [No_pty, Permit_open ''db'' (Some 5432)]) = Inr False
   \<and> svr_pubkey_allows_local_tcpfwd ''db'' 5432 (plain_key_session [No_pty, Permit_open ''db'' (Some 5432)]) = Inr True"
  using options_enforced [of "[No_pty, Permit_open ''db'' (Some 5432)]"
      "plain_key_session [No_pty, Permit_open ''db'' (Some 5432)]" "''db''"]
  by (simp add: host_ok_def plain_key_session_def)

end
