(* ===== verification/Pubkey.thy ===== *)
theory Pubkey
  imports Pubkey_Options
begin

text \<open>
  Public key authentication: key and signature types (\<open>dropbear/src/signkey.c\<close>), the lines of
  \<open>authorized_keys\<close> and the request itself (\<open>dropbear/src/svr-authpubkey.c\<close>).

  The key formats and the signature algorithms (\<open>rsa.c\<close>, \<open>ecdsa.c\<close>, \<open>ed25519.c\<close> and the two files
  for keys on security tokens) are an argument, the record \<open>signkey_ops\<close>: reading a key from a
  buffer and checking a signature over some data. Keys are the bytes they stand for.

  A line of the file is read from its start to its end, so it is the list of the bytes that are
  left, as in \<open>Pubkey_Options\<close>.
\<close>

section \<open>Key and signature types\<close>

type_synonym signkey_type = nat

definition DROPBEAR_SIGNKEY_RSA :: signkey_type where "DROPBEAR_SIGNKEY_RSA = 0"

definition DROPBEAR_SIGNKEY_ECDSA_NISTP256 :: signkey_type where "DROPBEAR_SIGNKEY_ECDSA_NISTP256 = 1"

definition DROPBEAR_SIGNKEY_ECDSA_NISTP384 :: signkey_type where "DROPBEAR_SIGNKEY_ECDSA_NISTP384 = 2"

definition DROPBEAR_SIGNKEY_ECDSA_NISTP521 :: signkey_type where "DROPBEAR_SIGNKEY_ECDSA_NISTP521 = 3"

definition DROPBEAR_SIGNKEY_SK_ECDSA_NISTP256 :: signkey_type where "DROPBEAR_SIGNKEY_SK_ECDSA_NISTP256 = 4"

definition DROPBEAR_SIGNKEY_ED25519 :: signkey_type where "DROPBEAR_SIGNKEY_ED25519 = 5"

definition DROPBEAR_SIGNKEY_SK_ED25519 :: signkey_type where "DROPBEAR_SIGNKEY_SK_ED25519 = 6"

definition DROPBEAR_SIGNKEY_NUM_NAMED :: signkey_type where "DROPBEAR_SIGNKEY_NUM_NAMED = 7"

definition DROPBEAR_SIGNKEY_ANY :: signkey_type where "DROPBEAR_SIGNKEY_ANY = 80"

definition DROPBEAR_SIGNKEY_NONE :: signkey_type where "DROPBEAR_SIGNKEY_NONE = 90"

definition DROPBEAR_SIGNATURE_RSA_SHA256 :: nat where "DROPBEAR_SIGNATURE_RSA_SHA256 = 101"

definition DROPBEAR_SIGNATURE_NONE :: nat where "DROPBEAR_SIGNATURE_NONE = DROPBEAR_SIGNKEY_NONE"

lemmas signkey_consts = DROPBEAR_SIGNKEY_RSA_def DROPBEAR_SIGNKEY_ECDSA_NISTP256_def
  DROPBEAR_SIGNKEY_ECDSA_NISTP384_def DROPBEAR_SIGNKEY_ECDSA_NISTP521_def DROPBEAR_SIGNKEY_SK_ECDSA_NISTP256_def
  DROPBEAR_SIGNKEY_ED25519_def DROPBEAR_SIGNKEY_SK_ED25519_def DROPBEAR_SIGNKEY_NUM_NAMED_def
  DROPBEAR_SIGNKEY_ANY_def DROPBEAR_SIGNKEY_NONE_def DROPBEAR_SIGNATURE_RSA_SHA256_def DROPBEAR_SIGNATURE_NONE_def

definition signkey_names :: "string list" where
  "signkey_names = [''ssh-rsa'', ''ecdsa-sha2-nistp256'', ''ecdsa-sha2-nistp384'', ''ecdsa-sha2-nistp521'',
     ''sk-ecdsa-sha2-nistp256@openssh.com'', ''ssh-ed25519'', ''sk-ssh-ed25519@openssh.com'']"

definition SSH_SIGNATURE_RSA_SHA256 :: string where
  "SSH_SIGNATURE_RSA_SHA256 = ''rsa-sha2-256''"

definition signkey_name_from_type :: "signkey_type \<Rightarrow> string res" where
  "signkey_name_from_type type =
     (if type \<ge> DROPBEAR_SIGNKEY_NUM_NAMED then Inl (Exit ''Bad key type'') else Inr (signkey_names ! type))"

fun find_name :: "nat \<Rightarrow> string list \<Rightarrow> byte list \<Rightarrow> signkey_type" where
  "find_name i [] name = DROPBEAR_SIGNKEY_NONE"
| "find_name i (n # ns) name = (if name = n then i else find_name (i + 1) ns name)"

definition signkey_type_from_name :: "byte list \<Rightarrow> signkey_type" where
  "signkey_type_from_name name = find_name 0 signkey_names name"

definition signature_name_from_type :: "nat \<Rightarrow> string res" where
  "signature_name_from_type type =
     (if type = DROPBEAR_SIGNATURE_RSA_SHA256 then Inr SSH_SIGNATURE_RSA_SHA256 else signkey_name_from_type type)"

definition signature_type_from_name :: "byte list \<Rightarrow> nat" where
  "signature_type_from_name name =
     (if name = SSH_SIGNATURE_RSA_SHA256 then DROPBEAR_SIGNATURE_RSA_SHA256 else signkey_type_from_name name)"

definition signature_type_from_signkey :: "signkey_type \<Rightarrow> nat res" where
  "signature_type_from_signkey keytype =
     (if keytype = DROPBEAR_SIGNKEY_RSA \<or> keytype \<ge> DROPBEAR_SIGNKEY_NUM_NAMED then Inl Assert_failed else Inr keytype)"

definition signkey_type_from_signature :: "nat \<Rightarrow> signkey_type res" where
  "signkey_type_from_signature sigtype =
     (if sigtype = DROPBEAR_SIGNATURE_RSA_SHA256 then Inr DROPBEAR_SIGNKEY_RSA
      else if sigtype \<ge> DROPBEAR_SIGNKEY_NUM_NAMED then Inl Assert_failed else Inr sigtype)"

definition signkey_is_ecdsa :: "signkey_type \<Rightarrow> bool" where
  "signkey_is_ecdsa type \<longleftrightarrow> type = DROPBEAR_SIGNKEY_ECDSA_NISTP256 \<or> type = DROPBEAR_SIGNKEY_ECDSA_NISTP384
     \<or> type = DROPBEAR_SIGNKEY_ECDSA_NISTP521"

section \<open>Keys\<close>

record sign_key =
  rsakey :: "byte list option"
  ecckey256 :: "byte list option"
  ecckey384 :: "byte list option"
  ecckey521 :: "byte list option"
  ed25519key :: "byte list option"
  sk_app :: "byte list option"
  sk_flags_mask :: "8 word"

text \<open>
  The routines of the algorithms: \<open>get_*\<close> read a public key from a buffer (\<open>None\<close> is a failure), the
  others check the signature at the position of a buffer over the bytes of another one.
\<close>

record signkey_ops =
  get_rsa_pub_key :: "buffer \<Rightarrow> (byte list option \<times> buffer) res"
  get_ecdsa_pub_key :: "buffer \<Rightarrow> (byte list option \<times> buffer) res"
  get_ed25519_pub_key :: "signkey_type \<Rightarrow> buffer \<Rightarrow> (byte list option \<times> buffer) res"
  rsa_verify :: "byte list \<Rightarrow> nat \<Rightarrow> byte list \<Rightarrow> buffer \<Rightarrow> (bool \<times> buffer) res"
  ecdsa_verify :: "byte list \<Rightarrow> byte list \<Rightarrow> buffer \<Rightarrow> (bool \<times> buffer) res"
  ed25519_verify :: "byte list \<Rightarrow> byte list \<Rightarrow> buffer \<Rightarrow> (bool \<times> buffer) res"
  sk_ecdsa_verify :: "byte list \<Rightarrow> byte list option \<Rightarrow> 8 word \<Rightarrow> byte list \<Rightarrow> buffer \<Rightarrow> (bool \<times> buffer) res"
  sk_ed25519_verify :: "byte list \<Rightarrow> byte list option \<Rightarrow> 8 word \<Rightarrow> byte list \<Rightarrow> buffer \<Rightarrow> (bool \<times> buffer) res"

definition new_sign_key :: sign_key where
  "new_sign_key = \<lparr>rsakey = None, ecckey256 = None, ecckey384 = None, ecckey521 = None, ed25519key = None,
     sk_app = None, sk_flags_mask = 0\<rparr>"

text \<open>\<open>signkey_key_ptr\<close> gives the place of a key in the structure: here reading it and setting it.\<close>

definition signkey_key_ptr :: "sign_key \<Rightarrow> signkey_type \<Rightarrow> byte list option option" where
  "signkey_key_ptr key type =
     (if type = DROPBEAR_SIGNKEY_ED25519 \<or> type = DROPBEAR_SIGNKEY_SK_ED25519 then Some (ed25519key key)
      else if type = DROPBEAR_SIGNKEY_ECDSA_NISTP256 \<or> type = DROPBEAR_SIGNKEY_SK_ECDSA_NISTP256 then Some (ecckey256 key)
      else if type = DROPBEAR_SIGNKEY_ECDSA_NISTP384 then Some (ecckey384 key)
      else if type = DROPBEAR_SIGNKEY_ECDSA_NISTP521 then Some (ecckey521 key)
      else if type = DROPBEAR_SIGNKEY_RSA then Some (rsakey key)
      else None)"

definition set_key_ptr :: "signkey_type \<Rightarrow> byte list option \<Rightarrow> sign_key \<Rightarrow> sign_key" where
  "set_key_ptr type k key =
     (if type = DROPBEAR_SIGNKEY_ED25519 \<or> type = DROPBEAR_SIGNKEY_SK_ED25519 then key\<lparr>ed25519key := k\<rparr>
      else if type = DROPBEAR_SIGNKEY_ECDSA_NISTP256 \<or> type = DROPBEAR_SIGNKEY_SK_ECDSA_NISTP256 then key\<lparr>ecckey256 := k\<rparr>
      else if type = DROPBEAR_SIGNKEY_ECDSA_NISTP384 then key\<lparr>ecckey384 := k\<rparr>
      else if type = DROPBEAR_SIGNKEY_ECDSA_NISTP521 then key\<lparr>ecckey521 := k\<rparr>
      else if type = DROPBEAR_SIGNKEY_RSA then key\<lparr>rsakey := k\<rparr>
      else key)"

definition read_key :: "signkey_ops \<Rightarrow> signkey_type \<Rightarrow> buffer \<Rightarrow> (byte list option \<times> buffer) res" where
  "read_key ops keytype b =
     (if keytype = DROPBEAR_SIGNKEY_RSA then get_rsa_pub_key ops b
      else if signkey_is_ecdsa keytype \<or> keytype = DROPBEAR_SIGNKEY_SK_ECDSA_NISTP256 then get_ecdsa_pub_key ops b
      else if keytype = DROPBEAR_SIGNKEY_ED25519 \<or> keytype = DROPBEAR_SIGNKEY_SK_ED25519
      then get_ed25519_pub_key ops keytype b
      else Inr (None, b))"

text \<open>The result says whether it was a success, with the type that was read.\<close>

definition buf_get_pub_key ::
    "signkey_ops \<Rightarrow> signkey_type \<Rightarrow> sign_key \<Rightarrow> buffer \<Rightarrow> ((bool \<times> signkey_type \<times> sign_key) \<times> buffer) res" where
  "buf_get_pub_key ops type key b =
     bindr (buf_getstring b) (\<lambda>(ident, b).
     let keytype = signkey_type_from_name ident in
     if type \<noteq> DROPBEAR_SIGNKEY_ANY \<and> type \<noteq> keytype then Inr ((False, type, key), b)
     else
       bindr (buf_decrpos b (of_nat (length ident) + 4)) (\<lambda>b.
       bindr (read_key ops keytype b) (\<lambda>(k, b).
       let key = set_key_ptr keytype k key in
       if keytype = DROPBEAR_SIGNKEY_SK_ED25519 \<or> keytype = DROPBEAR_SIGNKEY_SK_ECDSA_NISTP256 then
         bindr (buf_getstring b) (\<lambda>(app, b). Inr ((k \<noteq> None, keytype, key\<lparr>sk_app := Some app\<rparr>), b))
       else Inr ((k \<noteq> None, keytype, key), b))))"

definition buf_verify :: "signkey_ops \<Rightarrow> sign_key \<Rightarrow> nat \<Rightarrow> byte list \<Rightarrow> buffer \<Rightarrow> (bool \<times> buffer) res" where
  "buf_verify ops key expect_sigtype data b =
     bindr (buf_getint b) (\<lambda>(_, b).
     bindr (buf_getstring b) (\<lambda>(type_name, b).
     let sigtype = signature_type_from_name type_name in
     if expect_sigtype \<noteq> sigtype then Inl (Exit ''Non-matching signing type'')
     else
       bindr (signkey_type_from_signature sigtype) (\<lambda>keytype.
       if keytype = DROPBEAR_SIGNKEY_RSA then
         (case rsakey key of None \<Rightarrow> Inl (Exit ''No RSA key to verify signature'') | Some k \<Rightarrow> rsa_verify ops k sigtype data b)
       else if keytype = DROPBEAR_SIGNKEY_ED25519 then
         (case ed25519key key of None \<Rightarrow> Inl (Exit ''No Ed25519 key to verify signature'') | Some k \<Rightarrow> ed25519_verify ops k data b)
       else
         (case signkey_key_ptr key keytype of
            Some (Some k) \<Rightarrow>
              if signkey_is_ecdsa keytype then ecdsa_verify ops k data b
              else if keytype = DROPBEAR_SIGNKEY_SK_ECDSA_NISTP256 then sk_ecdsa_verify ops k (sk_app key) (sk_flags_mask key) data b
              else if keytype = DROPBEAR_SIGNKEY_SK_ED25519 then sk_ed25519_verify ops k (sk_app key) (sk_flags_mask key) data b
              else Inl (Exit ''Non-matching signing type'')
          | _ \<Rightarrow> Inl (Exit ''Non-matching signing type'')))))"

section \<open>The lines of the file\<close>

definition DROPBEAR_MAX_LINE_LENGTH :: nat where "DROPBEAR_MAX_LINE_LENGTH = 10000"

definition MIN_AUTHKEYS_LINE :: nat where "MIN_AUTHKEYS_LINE = 10"

definition MAX_AUTHKEYS_LINE :: nat where "MAX_AUTHKEYS_LINE = 3000"

definition MAX_AUTHKEYS_LINE_COUNT :: nat where "MAX_AUTHKEYS_LINE_COUNT = 300"

definition MAX_PUBKEY_QUERIES :: int where "MAX_PUBKEY_QUERIES = 15"

text \<open>
  The loop of \<open>buf_getline\<close>: how many characters may still be read, whether the line was too long,
  what the buffer of a given size holds (last first) and what the file still has. The result is
  \<open>None\<close> at the limit, else whether the end of the file was reached, the line and the rest.
\<close>

fun getline_loop :: "nat \<Rightarrow> nat \<Rightarrow> bool \<Rightarrow> byte list \<Rightarrow> byte list \<Rightarrow> (bool \<times> byte list \<times> byte list) option" where
  "getline_loop 0 sz truncated acc bs = None"
| "getline_loop (Suc n) sz truncated acc [] = Some (True, rev acc, [])"
| "getline_loop (Suc n) sz truncated acc (c # bs) =
     (if c = CHR 0x0A \<or> c = CHR 0x0D then Some (False, rev acc, bs)
      else if \<not> truncated \<and> length acc < sz then getline_loop n sz False (c # acc) bs
      else getline_loop n sz True [] bs)"

definition buf_getline :: "nat \<Rightarrow> byte list \<Rightarrow> (byte list \<times> byte list) option" where
  "buf_getline sz bs =
     (case getline_loop DROPBEAR_MAX_LINE_LENGTH sz False [] bs of
        None \<Rightarrow> None
      | Some (eof, line, rest) \<Rightarrow> if eof \<and> line = [] then None else Some (line, rest))"

text \<open>\<open>base64_decode\<close> fails when the room it is given, twice the length of the text, is not enough.\<close>

definition cmp_base64_key :: "libtomcrypt \<Rightarrow> byte list \<Rightarrow> string \<Rightarrow> byte list \<Rightarrow> bool res" where
  "cmp_base64_key lt keyblob algoname line =
     (if line = [] then Inr False
      else
        bindr (buf_new (of_nat (length line * 2))) (\<lambda>decodekey.
        case base64_decode lt line of
          None \<Rightarrow> Inr False
        | Some d \<Rightarrow>
            if length d > length line * 2 then Inr False
            else
              bindr (buf_poke decodekey d) (\<lambda>decodekey.
              bindr (buf_incrlen decodekey (of_nat (length d))) (\<lambda>decodekey.
              bindr (buf_peek decodekey (blen decodekey)) (\<lambda>bytes.
              if length d \<noteq> length keyblob \<or> bytes \<noteq> keyblob then Inr False
              else
                bindr (buf_getint decodekey) (\<lambda>(filealgolen, decodekey).
                bindr (buf_peek decodekey filealgolen) (\<lambda>filealgo.
                Inr (unat filealgolen = length algoname \<and> filealgo = algoname))))))))"

text \<open>The scan for the end of the options: their text, and the line behind the blank.\<close>

fun scan_options :: "bool \<Rightarrow> bool \<Rightarrow> byte list \<Rightarrow> byte list \<times> byte list" where
  "scan_options quoted escape [] = ([], [])"
| "scan_options quoted escape (c # r) =
     (if \<not> quoted \<and> (c = CHR '' '' \<or> c = CHR 0x09) then ([], r)
      else
        let escape = (\<not> escape \<and> c = CHR 0x5C);
            quoted = (if \<not> escape \<and> c = CHR 0x22 then \<not> quoted else quoted) in
        case scan_options quoted escape r of (t, r') \<Rightarrow> (c # t, r'))"

text \<open>The word behind the key, \<open>None\<close> when it is empty or has a special character.\<close>

definition key_info :: "byte list \<Rightarrow> string option" where
  "key_info r =
     (let w = takeWhile (\<lambda>c. c \<noteq> CHR '' '') r in
      if w = [] \<or> list_ex (\<lambda>c. \<not> (ascii_isalnum c \<or> c \<in> set ''.,_-+@'')) w then None else Some w)"

text \<open>
  The part of \<open>checkpubkey_line\<close> behind the options: the line stands at the name of the algorithm.
\<close>

definition check_key_text ::
    "libtomcrypt \<Rightarrow> bool \<Rightarrow> string \<Rightarrow> byte list \<Rightarrow> byte list option \<Rightarrow> byte list \<Rightarrow> PubKeyOptions option res" where
  "check_key_text lt stale algo keyblob options_buf r =
     (case drop (length algo) r of
        [] \<Rightarrow> Inl (Exit ''Bad buf_getbyte'')
      | c # r \<Rightarrow>
          if c \<noteq> CHR '' '' then Inr None
          else
            let text = takeWhile (\<lambda>c. c \<noteq> CHR '' '') r; info = key_info (drop (length text + 1) r) in
            bindr (cmp_base64_key lt keyblob algo text) (\<lambda>same.
            if \<not> same then Inr None
            else
              case svr_parse_pubkey_options stale options_buf of
                None \<Rightarrow> Inr None
              | Some po \<Rightarrow> Inr (Some (po\<lparr>info_env := info\<rparr>))))"

definition checkpubkey_line ::
    "libtomcrypt \<Rightarrow> bool \<Rightarrow> string \<Rightarrow> byte list \<Rightarrow> byte list \<Rightarrow> PubKeyOptions option res" where
  "checkpubkey_line lt stale algo keyblob line =
     (if length line < MIN_AUTHKEYS_LINE \<or> length line > MAX_AUTHKEYS_LINE then Inr None
      else if CHR 0x00 \<in> set line then Inr None
      else if length algo + 3 > length line then Inr None
      else if take (length algo) line = algo then check_key_text lt stale algo keyblob None line
      else
        case dropWhile (\<lambda>c. c = CHR '' '' \<or> c = CHR 0x09) line of
          [] \<Rightarrow> Inl (Exit ''Bad buf_getptr'')
        | c # r \<Rightarrow>
            if c = CHR ''#'' then Inr None
            else
              case scan_options False False (c # r) of (options, r) \<Rightarrow>
              if length algo + 3 > length r then Inr None
              else if take (length algo) r \<noteq> algo then Inr None
              else check_key_text lt stale algo keyblob (Some options) r)"

text \<open>The loop over at most 300 lines.\<close>

fun check_lines ::
    "libtomcrypt \<Rightarrow> bool \<Rightarrow> string \<Rightarrow> byte list \<Rightarrow> nat \<Rightarrow> byte list \<Rightarrow> PubKeyOptions option res" where
  "check_lines lt stale algo keyblob 0 file = Inr None"
| "check_lines lt stale algo keyblob (Suc n) file =
     (case buf_getline MAX_AUTHKEYS_LINE file of
        None \<Rightarrow> Inr None
      | Some (line, file) \<Rightarrow>
          bindr (checkpubkey_line lt stale algo keyblob line) (\<lambda>ret.
          case ret of
            Some po \<Rightarrow> Inr (Some po)
          | None \<Rightarrow> check_lines lt stale algo keyblob n file))"

definition checkpubkey ::
    "sshd4a_globals \<Rightarrow> bool \<Rightarrow> string \<Rightarrow> byte list \<Rightarrow> sshsession \<Rightarrow> PubKeyOptions option res" where
  "checkpubkey g stale keyalgo keyblob s =
     bindr (sshd4a_conf_file g AUTHORIZED_KEYS_FILE) (\<lambda>filename.
     case conf_files (world s) filename of
       None \<Rightarrow> Inr None
     | Some file \<Rightarrow> check_lines (libtom s) stale keyalgo keyblob MAX_AUTHKEYS_LINE_COUNT file)"

section \<open>The request\<close>

definition send_msg_userauth_pk_ok :: "byte list \<Rightarrow> byte list \<Rightarrow> handler" where
  "send_msg_userauth_pk_ok sigalgo keyblob s =
     bindr (put_byte SSH_MSG_USERAUTH_PK_OK s) (\<lambda>s.
     bindr (put_string sigalgo s) (\<lambda>s.
     bindr (put_string keyblob s) encrypt_packet))"

definition SSH_SK_USER_PRESENCE_REQD :: "8 word" where "SSH_SK_USER_PRESENCE_REQD = 0x01"

definition SSH_SK_USER_VERIFICATION_REQD :: "8 word" where "SSH_SK_USER_VERIFICATION_REQD = 0x04"

definition flags_mask :: "PubKeyOptions \<Rightarrow> 8 word" where
  "flags_mask po =
     (let m = SSH_SK_USER_PRESENCE_REQD;
          m = (if no_touch_required_flag po then m AND NOT SSH_SK_USER_PRESENCE_REQD else m) in
      if verify_required_flag po then m OR SSH_SK_USER_VERIFICATION_REQD else m)"

text \<open>
  The data that was signed: the session id as a string, then the payload from its beginning to the
  position behind the key, where the signature starts.
\<close>

definition signed_data :: "sshsession \<Rightarrow> (byte list \<times> sshsession) res" where
  "signed_data s =
     (case (payload s, session_id s) of
        (Some b, Some sid) \<Rightarrow>
          bindr (require (payload_beginning s \<le> bpos b) Assert_failed) (\<lambda>_.
          let sign_payload_length = bpos b - payload_beginning s in
          bindr (buf_new (bpos b + 4 + blen sid)) (\<lambda>signbuf.
          bindr (buf_putbufstring signbuf sid) (\<lambda>signbuf.
          bindr (buf_setpos b (payload_beginning s)) (\<lambda>b.
          bindr (buf_peek b sign_payload_length) (\<lambda>bytes.
          bindr (buf_putbytes signbuf bytes sign_payload_length) (\<lambda>signbuf.
          bindr (buf_incrpos b sign_payload_length) (\<lambda>b.
          bindr (buf_setpos signbuf 0) (\<lambda>signbuf.
          Inr (buf_content signbuf, s\<lparr>payload := Some b\<rparr>)))))))))
      | _ \<Rightarrow> Inl Mem_fault)"

definition pubkey_verified :: "PubKeyOptions \<Rightarrow> handler" where
  "pubkey_verified po s =
     (let s = (if pubkey_options (authstate s) = None then upd_auth (\<lambda>a. a\<lparr>pubkey_options := Some po\<rparr>) s else s) in
      if multiauthmethod (svr_opts s) \<and> authtypes (authstate s) AND NOT AUTH_TYPE_PUBKEY \<noteq> 0 then
        send_msg_userauth_failure True False
          (upd_auth (\<lambda>a. a\<lparr>authtypes := authtypes a AND NOT AUTH_TYPE_PUBKEY\<rparr>) s)
      else send_msg_userauth_success s)"

definition verify_request :: "signkey_ops \<Rightarrow> nat \<Rightarrow> signkey_type \<Rightarrow> PubKeyOptions \<Rightarrow> handler" where
  "verify_request ops sigtype keytype po s =
     bindr (on_read (buf_get_pub_key ops keytype new_sign_key) s) (\<lambda>((found, _, key), s).
     if \<not> found then send_msg_userauth_failure False True s
     else
       bindr (signed_data s) (\<lambda>(data, s).
       bindr (on_read (buf_verify ops (key\<lparr>sk_flags_mask := flags_mask po\<rparr>) sigtype data) s) (\<lambda>(verified, s).
       if verified then pubkey_verified po s else send_msg_userauth_failure False True s)))"

definition bad_key :: handler where
  "bad_key s =
     (let free_query_limit = of_int (max 0 (MAX_PUBKEY_QUERIES - sint (maxauthtries (svr_opts s))));
          incrfail = serv_pubkey_query_count (authstate s) \<ge> free_query_limit in
      bindr (send_msg_userauth_failure False incrfail s) (\<lambda>s.
      Inr (upd_auth (\<lambda>a. a\<lparr>serv_pubkey_query_count := serv_pubkey_query_count a + 1\<rparr>) s)))"

definition peek :: "u32 \<Rightarrow> buffer \<Rightarrow> (byte list \<times> buffer) res" where
  "peek l b = bindr (buf_peek b l) (\<lambda>bytes. Inr (bytes, b))"

definition pubkey_attempt ::
    "sshd4a_globals \<Rightarrow> signkey_ops \<Rightarrow> bool \<Rightarrow> bool \<Rightarrow> byte list \<Rightarrow> byte list \<Rightarrow> handler" where
  "pubkey_attempt g ops stale testkey sigalgo keyblob s =
     (let sigtype = signature_type_from_name sigalgo in
      if sigtype = DROPBEAR_SIGNATURE_NONE then send_msg_userauth_failure False False s
      else
        bindr (signkey_type_from_signature sigtype) (\<lambda>keytype.
        bindr (signkey_name_from_type keytype) (\<lambda>keyalgo.
        bindr (checkpubkey g stale keyalgo keyblob s) (\<lambda>status.
        case status of
          None \<Rightarrow> bad_key s
        | Some po \<Rightarrow>
            if testkey then send_msg_userauth_pk_ok sigalgo keyblob s
            else verify_request ops sigtype keytype po s))))"

definition svr_auth_pubkey :: "sshd4a_globals \<Rightarrow> signkey_ops \<Rightarrow> bool \<Rightarrow> bool \<Rightarrow> handler" where
  "svr_auth_pubkey g ops stale valid_user s =
     bindr (on_read buf_getbool s) (\<lambda>(real, s).
     bindr (on_read buf_getstring s) (\<lambda>(sigalgo, s).
     bindr (on_read buf_getint s) (\<lambda>(keybloblen, s).
     bindr (on_read (peek keybloblen) s) (\<lambda>(keyblob, s).
     if \<not> valid_user then send_msg_userauth_failure False False s
     else pubkey_attempt g ops stale (\<not> real) sigalgo keyblob s))))"

section \<open>What the replies change\<close>

lemma failure_effect:
  assumes "send_msg_userauth_failure partial incrfail s = Inr s'"
  shows "authstate s' = (authstate s)\<lparr>failcount := failcount (authstate s) + (if incrfail then 1 else 0)\<rparr>"
    and "svr_opts s' = svr_opts s" and "conf_files (world s') = conf_files (world s)" and "libtom s' = libtom s"
    and "failcount (authstate s') \<le> maxauthtries (svr_opts s)"
proof -
  obtain s1 tb s2 s3 t where st: "put_byte SSH_MSG_USERAUTH_FAILURE s = Inr s1"
      "on_write (\<lambda>wp. buf_putbufstring wp tb) s1 = Inr s2" "put_byte (if partial then 1 else 0) s2 = Inr s3"
      "encrypt_packet s3 = Inr t"
    and s': "s' = (if incrfail then upd_auth (\<lambda>a. a\<lparr>failcount := failcount a + 1\<rparr>) (sleep_after_failure t) else t)"
    and fc: "\<not> failcount (authstate s') > maxauthtries (svr_opts s')"
    using assms unfolding send_msg_userauth_failure_def Let_def
    by (elim bindr_InrE) (auto simp del: if_split split: if_split_asm)
  have u: "unwired t = unwired s"
    using put_wire(1) [OF st(1)] on_write_wire [OF st(2)] put_wire(1) [OF st(3)] encrypt_packet_wire [OF st(4)] by simp
  note same = unwiredD(2,14,17,40) [OF u]
  show a: "authstate s' = (authstate s)\<lparr>failcount := failcount (authstate s) + (if incrfail then 1 else 0)\<rparr>"
    using same by (simp add: s' sleep_after_failure_def upd_auth_def split: prod.splits)
  show o1: "svr_opts s' = svr_opts s" "conf_files (world s') = conf_files (world s)" "libtom s' = libtom s"
    using same by (auto simp: s' sleep_after_failure_def upd_auth_def genrandom_def gettime_wrapper_def)
  show "failcount (authstate s') \<le> maxauthtries (svr_opts s)" using fc o1(1) by (simp add: not_less)
qed

lemma success_effect:
  assumes "send_msg_userauth_success s = Inr s'"
  shows "authstate s' = (authstate s)\<lparr>authdone := True\<rparr>"
    and "svr_opts s' = svr_opts s" and "conf_files (world s') = conf_files (world s)" and "libtom s' = libtom s"
proof -
  obtain s1 t where st: "put_byte SSH_MSG_USERAUTH_SUCCESS s = Inr s1" "encrypt_packet s1 = Inr t"
    and s': "s' = (let s = upd_auth (\<lambda>a. a\<lparr>authdone := True\<rparr>) t;
         s = (if pw_uid (authstate s) = 0 then s\<lparr>allowprivport := True\<rparr> else s) in upd_world (m_close (childpipe s)) s)"
    using assms unfolding send_msg_userauth_success_def Let_def by (elim bindr_InrE) auto
  have u: "unwired t = unwired s" using put_wire(1) [OF st(1)] encrypt_packet_wire [OF st(2)] by simp
  note same = unwiredD(2,14,17,40) [OF u]
  show "authstate s' = (authstate s)\<lparr>authdone := True\<rparr>" "svr_opts s' = svr_opts s" "libtom s' = libtom s"
    "conf_files (world s') = conf_files (world s)"
    using same by (auto simp: s' Let_def upd_auth_def upd_world_def m_close_def)
qed

lemma pk_ok_effect: "send_msg_userauth_pk_ok sigalgo keyblob s = Inr s' \<Longrightarrow> unwired s' = unwired s"
  unfolding send_msg_userauth_pk_ok_def by (elim bindr_InrE) (auto dest!: put_wire encrypt_packet_wire)

lemma on_read_effect:
  assumes "on_read f s = Inr (x, s')"
  obtains b b' where "payload s = Some b" "f b = Inr (x, b')" "s' = s\<lparr>payload := Some b'\<rparr>"
  using assms by (auto simp: on_read_def bindr_eq_Inr_iff split: option.splits)

section \<open>What was read and what was signed\<close>

lemma STORE32H_LOAD32H: "length bs = 4 \<Longrightarrow> STORE32H (LOAD32H bs) = bs"
proof -
  assume bs: "length bs = 4"
  let ?L = "{bs :: byte list. set bs \<subseteq> UNIV \<and> length bs = 4}"
  have inj: "inj STORE32H" by (rule injI) (metis LOAD32H_STORE32H)
  have "card (range STORE32H) = 2 ^ 32" using card_image [OF inj] by (simp add: card_word)
  moreover have "card ?L = 2 ^ 32" using card_lists_length_eq [of "UNIV :: char set" 4] by (simp add: card_UNIV_char)
  moreover have "finite ?L" by (rule finite_lists_length_eq) simp
  moreover have "range STORE32H \<subseteq> ?L" by auto
  ultimately have "range STORE32H = ?L" by (intro card_subset_eq) simp_all
  with bs have "bs \<in> range STORE32H" by auto
  then show ?thesis by auto
qed

text \<open>Reading some bytes: the buffer stays as it is but for its position.\<close>

definition reads :: "buffer \<Rightarrow> byte list \<Rightarrow> buffer \<Rightarrow> bool" where
  "reads b x b' \<longleftrightarrow> length x \<le> length (buf_rest b) \<and> b' = buf_skip b (length x) \<and> (\<exists>r. buf_rest b = x @ r)"

lemma reads_ok: "buf_ok b \<Longrightarrow> reads b x b' \<Longrightarrow> buf_ok b'"
  by (auto simp: reads_def intro: buf_skip_ok)

lemma reads_rest: "buf_ok b \<Longrightarrow> reads b x b' \<Longrightarrow> buf_rest b = x @ buf_rest b'"
  by (auto simp: reads_def buf_rest_skip)

lemma reads_trans: "buf_ok b \<Longrightarrow> reads b x b' \<Longrightarrow> reads b' y b'' \<Longrightarrow> reads b (x @ y) b''"
  by (auto simp: reads_def buf_rest_skip)

lemma buf_getbool_reads: "buf_ok b \<Longrightarrow> buf_getbool b = Inr (v, b') \<Longrightarrow> \<exists>c. v = (c \<noteq> CHR 0x00) \<and> reads b [c] b'"
  by (auto simp: buf_getbool_eq reads_def split: list.splits)

lemma buf_getint_reads: "buf_ok b \<Longrightarrow> buf_getint b = Inr (v, b') \<Longrightarrow> reads b (STORE32H v) b'"
  by (auto simp: buf_getint_eq reads_def STORE32H_LOAD32H split: if_splits) (metis append_take_drop_id)

lemma buf_getstring_reads:
  assumes "buf_ok b" "buf_getstring b = Inr (str, b')"
  shows "reads b (enc_string str) b' \<and> string_ok str"
proof -
  obtain l b1 where b1: "buf_getint b = Inr (l, b1)" "l \<le> MAX_STRING_LEN" "buf_peek b1 l = Inr str" "buf_incrpos b1 l = Inr b'"
    using assms(2) unfolding buf_getstring_def by (auto elim!: bindr_InrE simp: not_less split: if_splits prod.splits)
  note r1 = buf_getint_reads [OF assms(1) b1(1)] and ok1 = reads_ok [OF assms(1) buf_getint_reads [OF assms(1) b1(1)]]
  have u: "unat l \<le> length (buf_rest b1)" "str = take (unat l) (buf_rest b1)" "b' = buf_skip b1 (unat l)"
    using b1(3,4) ok1 by (auto simp: buf_peek_eq buf_incrpos_eq split: if_splits)
  then have len: "length str = unat l" by simp
  have "reads b1 str b'" using u len by (auto simp: reads_def) (metis append_take_drop_id)
  moreover have "of_nat (length str) = l" by (simp add: len)
  moreover have "string_ok str" using b1(2) by (simp add: string_ok_def len word_le_nat_alt)
  ultimately show ?thesis using reads_trans [OF assms(1) r1] by (simp add: enc_string_def)
qed

lemma peek_reads:
  assumes "buf_ok b" "peek l b = Inr (bytes, b')"
  shows "b' = b \<and> length bytes = unat l \<and> (\<exists>r. buf_rest b = bytes @ r)"
  using assms by (auto simp: peek_def buf_peek_eq bindr_eq_Inr_iff split: if_splits) (metis append_take_drop_id)

lemma buf_ok_is: "buf_ok b \<Longrightarrow> buf_is b (buf_content b) (unat (bpos b)) (unat (bsize b))"
  by (simp add: buf_is_def)

lemma signed_data_is:
  assumes "signed_data s = Inr (data, s')" "payload s = Some b" "session_id s = Some sid" "buf_ok b" "buf_ok sid"
  shows "payload_beginning s \<le> bpos b" "s' = s"
    "data = enc_string (buf_content sid) @ drop (unat (payload_beginning s)) (take (unat (bpos b)) (buf_content b))"
proof -
  let ?pb = "payload_beginning s" and ?l = "bpos b - payload_beginning s"
  obtain b0 b1 b2 bytes b3 b4 b5 where st: "?pb \<le> bpos b" "buf_new (bpos b + 4 + blen sid) = Inr b0"
      "buf_putbufstring b0 sid = Inr b1" "buf_setpos b ?pb = Inr b2" "buf_peek b2 ?l = Inr bytes"
      "buf_putbytes b1 bytes ?l = Inr b3" "buf_incrpos b2 ?l = Inr b4" "buf_setpos b3 0 = Inr b5"
    and out: "data = buf_content b5" "s' = s\<lparr>payload := Some b4\<rparr>"
    using assms(1-3) unfolding signed_data_def Let_def by (auto elim!: bindr_InrE)
  show le: "?pb \<le> bpos b" by (fact st(1))
  note n = buf_ok_nat [OF assms(4)] and m = buf_ok_nat [OF assms(5)]
  have ul: "unat ?l = unat (bpos b) - unat ?pb" using le by (rule unat_sub)
  have pb: "unat ?pb \<le> unat (bpos b)" using le by (simp add: word_le_nat_alt)
  have sz: "unat (bpos b + 4 + blen sid) = unat (bpos b) + 4 + unat (blen sid)"
    using n m by (simp add: unat_add_below)
  have sz_le: "unat (bpos b) + 4 + unat (blen sid) \<le> 1000000000"
    using st(2) sz by (simp add: buf_new_def buf_consts word_less_nat_alt split: if_splits)
  obtain sidc where sidc: "buf_content sid = sidc" "length sidc = unat (blen sid)" "sidc = take (unat (blen sid)) (bdata sid)"
    using length_buf_content [OF assms(5)] by (simp add: buf_content_def)
  have b0: "buf_is b0 [] 0 (unat (bpos b) + 4 + unat (blen sid))" using buf_is_new [of "bpos b + 4 + blen sid"] st(2) sz sz_le by auto
  have b1: "buf_is b1 (enc_string sidc) (4 + length sidc) (unat (bpos b) + 4 + unat (blen sid))"
    using buf_is_putstring [OF b0, of "blen sid" "bdata sid"] st(3) m sidc
    by (auto simp: buf_putbufstring_def blit_at_end enc_string_def)
  have bb: "buf_is b2 (buf_content b) (unat ?pb) (unat (bsize b))"
    using buf_is_setpos [OF buf_ok_is [OF assms(4)], of ?pb] st(4) pb n length_buf_content [OF assms(4)] by auto
  have by1: "bytes = take (unat ?l) (drop (unat ?pb) (buf_content b))"
    using buf_is_peek [OF bb, of ?l] st(5) pb n ul length_buf_content [OF assms(4)] by simp
  have lb: "length bytes = unat ?l" using by1 ul pb n length_buf_content [OF assms(4)] by simp
  have b3: "buf_is b3 (enc_string sidc @ bytes) (4 + length sidc + unat ?l) (unat (bpos b) + 4 + unat (blen sid))"
    using buf_is_putbytes [OF b1, of ?l bytes] st(6) lb ul sidc by (auto simp: blit_at_end)
  have b5: "buf_is b5 (enc_string sidc @ bytes) 0 (unat (bpos b) + 4 + unat (blen sid))"
    using buf_is_setpos [OF b3, of 0] st(8) by simp
  show "data = enc_string (buf_content sid) @ drop (unat ?pb) (take (unat (bpos b)) (buf_content b))"
    using buf_isD(2) [OF b5] out(1) by1 ul by (simp add: sidc(1) drop_take)
  have "b2 = b\<lparr>bpos := ?pb\<rparr>" using st(4) by (simp add: buf_setpos_def split: if_splits)
  then have "b4 = b" using st(7) by (cases b) (simp add: buf_incrpos_def split: if_splits)
  then show "s' = s" using out(2) assms(2) by (cases s) simp
qed

text \<open>The routines that read a key only move the position forward.\<close>

definition read_only :: "(buffer \<Rightarrow> ('a \<times> buffer) res) \<Rightarrow> bool" where
  "read_only f \<longleftrightarrow> (\<forall>b x b'. buf_ok b \<longrightarrow> f b = Inr (x, b') \<longrightarrow> (\<exists>e. bpos b \<le> e \<and> e \<le> blen b \<and> b' = b\<lparr>bpos := e\<rparr>))"

definition keys_read_only :: "signkey_ops \<Rightarrow> bool" where
  "keys_read_only ops \<longleftrightarrow> read_only (get_rsa_pub_key ops) \<and> read_only (get_ecdsa_pub_key ops)
     \<and> (\<forall>t. read_only (get_ed25519_pub_key ops t))"

lemma read_onlyD:
  assumes "read_only f" "buf_ok b" "f b = Inr (x, b')"
  obtains e where "bpos b \<le> e" "e \<le> blen b" "b' = b\<lparr>bpos := e\<rparr>"
  using assms unfolding read_only_def by blast

lemma move_ok: "buf_ok b \<Longrightarrow> e \<le> blen b \<Longrightarrow> buf_ok (b\<lparr>bpos := e\<rparr>)"
  using buf_ok_nat [of b] by (intro buf_okI) (simp_all add: word_le_nat_alt)

lemma getstring_moves:
  assumes "buf_ok b" "buf_getstring b = Inr (str, b')"
  shows "\<exists>e. bpos b \<le> e \<and> e \<le> blen b \<and> b' = b\<lparr>bpos := e\<rparr> \<and> e = bpos b + (of_nat (length str) + 4)"
proof -
  have r: "reads b (enc_string str) b'" using buf_getstring_reads [OF assms] by simp
  let ?n = "4 + length str"
  note n = buf_ok_nat [OF assms(1)]
  have b': "b' = b\<lparr>bpos := bpos b + of_nat ?n\<rparr>" and l: "?n \<le> length (buf_rest b)"
    using r by (auto simp: reads_def buf_skip_def)
  have u: "unat (bpos b + of_nat ?n) = unat (bpos b) + ?n"
    using assms(1) by (rule unat_pos_plus) (use l length_buf_rest [OF assms(1)] n in linarith)
  have "bpos b \<le> bpos b + of_nat ?n" "bpos b + of_nat ?n \<le> blen b"
    unfolding word_le_nat_alt u using l length_buf_rest [OF assms(1)] n by linarith+
  moreover have "bpos b + of_nat ?n = bpos b + (of_nat (length str) + 4)" by simp
  ultimately show ?thesis using b' by blast
qed

lemma read_nothing_only: "read_only (\<lambda>b. Inr (x, b))"
  unfolding read_only_def using buf_ok_nat by (auto simp: word_le_nat_alt intro!: exI [of _ "bpos _"])

lemma read_key_only: "keys_read_only ops \<Longrightarrow> read_only (read_key ops t)"
  using read_nothing_only [of None] unfolding keys_read_only_def read_key_def [abs_def]
  by (cases "t = DROPBEAR_SIGNKEY_RSA"; cases "signkey_is_ecdsa t \<or> t = DROPBEAR_SIGNKEY_SK_ECDSA_NISTP256";
      cases "t = DROPBEAR_SIGNKEY_ED25519 \<or> t = DROPBEAR_SIGNKEY_SK_ED25519") simp_all

lemma buf_get_pub_key_moves:
  assumes "keys_read_only ops" "buf_ok b" "buf_get_pub_key ops t key b = Inr ((True, t', key'), b')"
  obtains e where "bpos b \<le> e" "e \<le> blen b" "b' = b\<lparr>bpos := e\<rparr>"
proof -
  obtain ident b1 where b1: "buf_getstring b = Inr (ident, b1)"
    using assms(3) unfolding buf_get_pub_key_def by (auto elim!: bindr_InrE)
  let ?t = "signkey_type_from_name ident"
  obtain e1 where e1: "b1 = b\<lparr>bpos := e1\<rparr>" "e1 = bpos b + (of_nat (length ident) + 4)"
    using getstring_moves [OF assms(2) b1] by blast
  obtain b2 k b3 where b2: "buf_decrpos b1 (of_nat (length ident) + 4) = Inr b2" and b3: "read_key ops ?t b2 = Inr (k, b3)"
    and fin: "b' = b3 \<or> (\<exists>app. buf_getstring b3 = Inr (app, b'))"
    using assms(3) b1 unfolding buf_get_pub_key_def
    by (auto elim!: bindr_InrE simp: Let_def split: if_splits)
  have "b2 = b" using b2 e1 by (cases b) (simp add: buf_decrpos_def split: if_splits)
  with b3 obtain e where e: "bpos b \<le> e" "e \<le> blen b" "b3 = b\<lparr>bpos := e\<rparr>"
    using read_onlyD [OF read_key_only [OF assms(1)] assms(2)] by metis
  have ok: "buf_ok b3" using move_ok [OF assms(2) e(2)] e(3) by simp
  from fin show thesis
  proof
    assume "b' = b3"
    then show thesis using that e by blast
  next
    assume "\<exists>app. buf_getstring b3 = Inr (app, b')"
    then obtain e' where "bpos b3 \<le> e'" "e' \<le> blen b3" "b' = b3\<lparr>bpos := e'\<rparr>"
      using getstring_moves [OF ok] by blast
    then show thesis using that [of e'] e by simp
  qed
qed

lemma signkey_names_range: "length signkey_names = DROPBEAR_SIGNKEY_NUM_NAMED"
  by (simp add: signkey_names_def signkey_consts)

lemma verify_request_done:
  assumes "verify_request ops sigtype keytype po s = Inr s'" "\<not> authdone (authstate s)" "authdone (authstate s')"
    and "payload s = Some q" "session_id s = Some sid" "buf_ok q" "buf_ok sid" "keys_read_only ops"
  obtains t key e b' where "buf_get_pub_key ops keytype new_sign_key q = Inr ((True, t, key), q\<lparr>bpos := e\<rparr>)"
    "buf_verify ops (key\<lparr>sk_flags_mask := flags_mask po\<rparr>) sigtype
       (enc_string (buf_content sid) @ drop (unat (payload_beginning s)) (take (unat e) (buf_content q))) (q\<lparr>bpos := e\<rparr>) = Inr (True, b')"
proof -
  obtain found t key s1 where s1: "on_read (buf_get_pub_key ops keytype new_sign_key) s = Inr ((found, t, key), s1)"
    and r1: "(if \<not> found then send_msg_userauth_failure False True s1
       else bindr (signed_data s1) (\<lambda>(data, s).
       bindr (on_read (buf_verify ops (key\<lparr>sk_flags_mask := flags_mask po\<rparr>) sigtype data) s) (\<lambda>(verified, s).
       if verified then pubkey_verified po s else send_msg_userauth_failure False True s))) = Inr s'"
    using assms(1) unfolding verify_request_def by (auto elim!: bindr_InrE)
  obtain b1 where b1: "buf_get_pub_key ops keytype new_sign_key q = Inr ((found, t, key), b1)" "s1 = s\<lparr>payload := Some b1\<rparr>"
    using s1 assms(4) by (auto elim!: on_read_effect)
  have a1: "authstate s1 = authstate s" using b1(2) by simp
  have found: found
  proof (rule ccontr)
    assume "\<not> found"
    then show False using r1 failure_effect(1) [of False True s1 s'] assms(2,3) a1 by simp
  qed
  obtain e where e: "e \<le> blen q" "b1 = q\<lparr>bpos := e\<rparr>"
    using buf_get_pub_key_moves [OF assms(8,6)] b1(1) found by metis
  have ok1: "buf_ok b1" using move_ok [OF assms(6) e(1)] e(2) by simp
  obtain data s2 where s2: "signed_data s1 = Inr (data, s2)"
    and r2: "bindr (on_read (buf_verify ops (key\<lparr>sk_flags_mask := flags_mask po\<rparr>) sigtype data) s2) (\<lambda>(verified, s).
       if verified then pubkey_verified po s else send_msg_userauth_failure False True s) = Inr s'"
    using r1 found by (auto elim!: bindr_InrE)
  have sd: "s2 = s1" "data = enc_string (buf_content sid) @ drop (unat (payload_beginning s)) (take (unat e) (buf_content q))"
    using signed_data_is [OF s2 _ _ ok1 assms(7)] b1(2) assms(5) e(2) by (simp_all add: buf_content_def)
  obtain verified s3 where s3: "on_read (buf_verify ops (key\<lparr>sk_flags_mask := flags_mask po\<rparr>) sigtype data) s2 = Inr (verified, s3)"
    and r3: "(if verified then pubkey_verified po s3 else send_msg_userauth_failure False True s3) = Inr s'"
    using r2 by (auto elim!: bindr_InrE)
  obtain b3 where b3: "buf_verify ops (key\<lparr>sk_flags_mask := flags_mask po\<rparr>) sigtype data b1 = Inr (verified, b3)"
      "authstate s3 = authstate s"
    using s3 sd(1) b1(2) by (auto elim!: on_read_effect)
  have verified
  proof (rule ccontr)
    assume "\<not> verified"
    then show False using r3 failure_effect(1) [of False True s3 s'] assms(2,3) b3(2) by simp
  qed
  then show thesis using that [of t key e b3] b1(1) found b3(1) sd(2) e(2) by simp
qed

text \<open>The fields of a request, and what is left to do with them.\<close>

lemma pubkey_fields:
  assumes "svr_auth_pubkey g ops stale valid_user s = Inr s'" "payload s = Some p" "buf_ok p"
  obtains c sigalgo keyblob rest q where "reads p ([c] @ enc_string sigalgo @ STORE32H (of_nat (length keyblob))) q"
    "buf_ok q" "buf_rest q = keyblob @ rest"
    "(if \<not> valid_user then send_msg_userauth_failure False False (s\<lparr>payload := Some q\<rparr>)
      else pubkey_attempt g ops stale (c = CHR 0x00) sigalgo keyblob (s\<lparr>payload := Some q\<rparr>)) = Inr s'"
proof -
  obtain real s1 sigalgo s2 n s3 keyblob s4 where st: "on_read buf_getbool s = Inr (real, s1)"
      "on_read buf_getstring s1 = Inr (sigalgo, s2)" "on_read buf_getint s2 = Inr (n, s3)"
      "on_read (peek n) s3 = Inr (keyblob, s4)"
    and r: "(if \<not> valid_user then send_msg_userauth_failure False False s4
       else pubkey_attempt g ops stale (\<not> real) sigalgo keyblob s4) = Inr s'"
    using assms(1) unfolding svr_auth_pubkey_def by (auto elim!: bindr_InrE)
  obtain b1 where b1: "buf_getbool p = Inr (real, b1)" "s1 = s\<lparr>payload := Some b1\<rparr>"
    using st(1) assms(2) by (auto elim!: on_read_effect)
  obtain c where c: "real = (c \<noteq> CHR 0x00)" "reads p [c] b1" using buf_getbool_reads [OF assms(3) b1(1)] by blast
  note ok1 = reads_ok [OF assms(3) c(2)]
  obtain b2 where b2: "buf_getstring b1 = Inr (sigalgo, b2)" "s2 = s\<lparr>payload := Some b2\<rparr>"
    using st(2) b1(2) by (auto elim!: on_read_effect)
  have r2: "reads b1 (enc_string sigalgo) b2" using buf_getstring_reads [OF ok1 b2(1)] by simp
  note ok2 = reads_ok [OF ok1 r2]
  obtain q where q: "buf_getint b2 = Inr (n, q)" "s3 = s\<lparr>payload := Some q\<rparr>"
    using st(3) b2(2) by (auto elim!: on_read_effect)
  note r3 = buf_getint_reads [OF ok2 q(1)]
  note ok3 = reads_ok [OF ok2 r3]
  obtain rest where kb: "s4 = s\<lparr>payload := Some q\<rparr>" "length keyblob = unat n" "buf_rest q = keyblob @ rest"
    using st(4) q(2) peek_reads [OF ok3] by (fastforce elim!: on_read_effect)
  have rq: "reads p ([c] @ enc_string sigalgo @ STORE32H (of_nat (length keyblob))) q"
    using reads_trans [OF assms(3) c(2) reads_trans [OF ok1 r2 r3]] kb(2) by simp
  show thesis by (rule that [OF rq ok3 kb(3)]) (use r c(1) kb(1) in \<open>auto split: if_splits\<close>)
qed

text \<open>Only a verified signature ends an attempt with the session authenticated.\<close>

lemma pubkey_attempt_done:
  assumes "pubkey_attempt g ops stale testkey sigalgo keyblob s = Inr s'" "\<not> authdone (authstate s)" "authdone (authstate s')"
  obtains keytype keyalgo po where "\<not> testkey" "signkey_type_from_signature (signature_type_from_name sigalgo) = Inr keytype"
    "signkey_name_from_type keytype = Inr keyalgo" "checkpubkey g stale keyalgo keyblob s = Inr (Some po)"
    "verify_request ops (signature_type_from_name sigalgo) keytype po s = Inr s'"
proof -
  have not_fail: "send_msg_userauth_failure pt i s \<noteq> Inr s'" for pt i
    using failure_effect(1) [of pt i s s'] assms(2,3) by auto
  have nb: "bad_key s \<noteq> Inr s'"
    using failure_effect(1) [of False _ s] assms(2,3) by (auto simp: bad_key_def Let_def bindr_eq_Inr_iff upd_auth_def)
  have npk: "send_msg_userauth_pk_ok sigalgo keyblob s \<noteq> Inr s'"
    using pk_ok_effect [of sigalgo keyblob s s'] unwiredD(2) [of s' s] assms(2,3) by auto
  show thesis
    using assms(1) not_fail nb npk that unfolding pubkey_attempt_def Let_def
    by (auto elim!: bindr_InrE split: if_splits option.splits)
qed

lemma checkpubkey_cong:
  "world s' = world s \<Longrightarrow> libtom s' = libtom s \<Longrightarrow> checkpubkey g stale algo keyblob s' = checkpubkey g stale algo keyblob s"
  by (simp add: checkpubkey_def cong: option.case_cong)

lemma signed_data_ok:
  assumes "payload s = Some b" "session_id s = Some sid" "buf_ok b" "buf_ok sid" "payload_beginning s \<le> bpos b"
    and "unat (bpos b) + 4 + unat (blen sid) \<le> 1000000000"
  shows "\<exists>data. signed_data s = Inr (data, s)"
proof -
  let ?pb = "payload_beginning s" and ?l = "bpos b - payload_beginning s"
  note n = buf_ok_nat [OF assms(3)] and m = buf_ok_nat [OF assms(4)] and lc = length_buf_content [OF assms(3)]
  have ul: "unat ?l = unat (bpos b) - unat ?pb" "unat ?pb \<le> unat (bpos b)"
    using assms(5) unat_sub by (auto simp: word_le_nat_alt)
  have sz: "unat (bpos b + 4 + blen sid) = unat (bpos b) + 4 + unat (blen sid)"
    using n m by (simp add: unat_add_below)
  obtain b0 where b0: "buf_new (bpos b + 4 + blen sid) = Inr b0" "buf_is b0 [] 0 (unat (bpos b) + 4 + unat (blen sid))"
    using buf_is_new [of "bpos b + 4 + blen sid"] sz assms(6) by auto
  obtain b1 where b1: "buf_putbufstring b0 sid = Inr b1" "unat (bpos b1) = 4 + unat (blen sid)" "buf_is b1 (buf_content b1) (unat (bpos b1)) (unat (bpos b) + 4 + unat (blen sid))"
    using buf_is_putstring [OF b0(2), of "blen sid" "bdata sid"] m by (auto simp: buf_putbufstring_def buf_is_def)
  obtain b2 where b2: "buf_setpos b ?pb = Inr b2" "buf_is b2 (buf_content b) (unat ?pb) (unat (bsize b))"
    using buf_is_setpos [OF buf_ok_is [OF assms(3)], of ?pb] ul n lc by auto
  let ?bytes = "take (unat ?l) (drop (unat ?pb) (buf_content b))"
  have pk: "buf_peek b2 ?l = Inr ?bytes" using buf_is_peek [OF b2(2), of ?l] ul n lc by simp
  have fit: "unat (bpos b1) + unat ?l \<le> unat (bpos b) + 4 + unat (blen sid)" "unat ?l \<le> length ?bytes"
    using b1(2) ul n lc by simp_all
  obtain b3 c3 where b3: "buf_putbytes b1 ?bytes ?l = Inr b3" "buf_is b3 c3 (unat (bpos b1) + unat ?l) (unat (bpos b) + 4 + unat (blen sid))"
    using buf_is_putbytes [OF b1(3) fit] by blast
  obtain b4 where b4: "buf_incrpos b2 ?l = Inr b4" using buf_is_incrpos [OF b2(2), of ?l] ul n lc by auto
  obtain b5 where b5: "buf_setpos b3 0 = Inr b5" using buf_is_setpos [OF b3(2), of 0] by auto
  have "signed_data s = Inr (buf_content b5, s\<lparr>payload := Some b4\<rparr>)"
    using assms(1,2,5) b0(1) b1(1) b2(1) pk b3(1) b4 b5 by (simp add: signed_data_def)
  then show ?thesis using signed_data_is(2) [OF _ assms(1-4)] by metis
qed

lemma skip_over:
  assumes "buf_ok b" "buf_rest b = x @ r"
  shows "buf_ok (buf_skip b (length x))" "buf_rest (buf_skip b (length x)) = r"
  using assms by (simp_all add: buf_skip_ok buf_rest_skip)

text \<open>A request with an authorised key and a signature that verifies is accepted.\<close>

lemma pubkey_accepts:
  assumes "payload s = Some p" "buf_ok p" "buf_rest p = [c] @ enc_string sigalgo @ enc_string keyblob @ rest"
    and "c \<noteq> CHR 0x00" "string_ok sigalgo" "string_ok keyblob"
    and "signature_type_from_name sigalgo \<noteq> DROPBEAR_SIGNATURE_NONE"
    and "signkey_type_from_signature (signature_type_from_name sigalgo) = Inr keytype"
    and "signkey_name_from_type keytype = Inr keyalgo" "checkpubkey g stale keyalgo keyblob s = Inr (Some po)"
    and "buf_get_pub_key ops keytype new_sign_key (buf_skip p (9 + length sigalgo)) = Inr ((True, t, key), q)"
    and "buf_ok q" "payload_beginning s \<le> bpos q" "session_id s = Some sid" "buf_ok sid"
    and "unat (bpos q) + 4 + unat (blen sid) \<le> 1000000000"
    and "\<And>data. \<exists>b'. buf_verify ops (key\<lparr>sk_flags_mask := flags_mask po\<rparr>) (signature_type_from_name sigalgo) data q = Inr (True, b')"
    and "ready_to_send s" "\<not> multiauthmethod (svr_opts s)"
  shows "\<exists>s'. svr_auth_pubkey g ops stale True s = Inr s' \<and> authdone (authstate s')"
proof -
  have b1: "buf_getbool p = Inr (True, buf_skip p 1)" using assms(2,3,4) by (simp add: buf_getbool_eq)
  have ok1: "buf_ok (buf_skip p 1)" "buf_rest (buf_skip p 1) = enc_string sigalgo @ enc_string keyblob @ rest"
    using skip_over [OF assms(2,3)] by simp_all
  have b2: "buf_getstring (buf_skip p 1) = Inr (sigalgo, buf_skip p (5 + length sigalgo))"
    using buf_getstring_enc [OF ok1(1) assms(5) ok1(2)] by simp
  have ok2: "buf_ok (buf_skip p (5 + length sigalgo))" "buf_rest (buf_skip p (5 + length sigalgo)) = enc_string keyblob @ rest"
    using skip_over [OF ok1] by simp_all
  have b3: "buf_getint (buf_skip p (5 + length sigalgo)) = Inr (of_nat (length keyblob), buf_skip p (9 + length sigalgo))"
    using ok2 by (simp add: buf_getint_eq enc_string_def)
  let ?q = "buf_skip p (9 + length sigalgo)"
  have ok3: "buf_ok ?q" "buf_rest ?q = keyblob @ rest"
    using skip_over [OF ok2(1), of "STORE32H (of_nat (length keyblob))"] ok2(2) by (simp_all add: enc_string_def)
  have b4: "peek (of_nat (length keyblob)) ?q = Inr (keyblob, ?q)"
    using ok3 unat_length_string [OF assms(6)] by (simp add: peek_def buf_peek_eq)
  let ?s = "s\<lparr>payload := Some ?q\<rparr>"
  have chk: "checkpubkey g stale keyalgo keyblob ?s = Inr (Some po)" using assms(10) checkpubkey_cong [of ?s s] by simp
  obtain data where sd: "signed_data (s\<lparr>payload := Some q\<rparr>) = Inr (data, s\<lparr>payload := Some q\<rparr>)"
    using signed_data_ok [of "s\<lparr>payload := Some q\<rparr>" q sid] assms(12-16) by auto
  obtain b' where v: "buf_verify ops (key\<lparr>sk_flags_mask := flags_mask po\<rparr>) (signature_type_from_name sigalgo) data q = Inr (True, b')"
    using assms(17) by blast
  let ?s1 = "if pubkey_options (authstate s) = None then upd_auth (\<lambda>a. a\<lparr>pubkey_options := Some po\<rparr>) (s\<lparr>payload := Some b'\<rparr>)
    else s\<lparr>payload := Some b'\<rparr>"
  have rd: "ready_to_send ?s1" using assms(18) by (simp add: ready_to_send_def trans_ok_def payload_ready_def upd_auth_def)
  have "svr_auth_pubkey g ops stale True s = send_msg_userauth_success ?s1"
    using b1 b2 b3 b4 chk sd v assms(1,7,8,9,11,19)
    by (simp add: svr_auth_pubkey_def pubkey_attempt_def verify_request_def pubkey_verified_def on_read_def Let_def upd_auth_def)
  moreover obtain s' where "send_msg_userauth_success ?s1 = Inr s'" by (rule success_sends [OF rd])
  ultimately show ?thesis using success_effect(1) [of ?s1 s'] by simp
qed

section \<open>Looking up a key\<close>

lemma poked:
  assumes "unat sz \<le> 1000000000" "length d \<le> unat sz"
  obtains b b1 b2 where "buf_new sz = Inr b" "buf_poke b d = Inr b1" "buf_incrlen b1 (of_nat (length d)) = Inr b2"
    "buf_is b2 d 0 (unat sz)"
proof -
  obtain b where b: "buf_new sz = Inr b" "buf_is b [] 0 (unat sz)" using buf_is_new [OF assms(1)] by blast
  have l: "unat (of_nat (length d) :: u32) = length d" by (rule unat_of_nat_u32) (use assms in linarith)
  note bd = buf_isD [OF b(2)] and bn = buf_ok_nat [OF buf_isD(1) [OF b(2)]]
  have p: "buf_getwriteptr b (of_nat (length d)) = Inr 0" using buf_is_getwriteptr [OF b(2), of "of_nat (length d)"] assms l by simp
  let ?b1 = "b\<lparr>bdata := blit (bdata b) 0 d\<rparr>"
  have lb: "length (blit (bdata b) 0 d) = length (bdata b)" using assms(2) bd bn by (simp add: blit_def)
  have b1: "buf_poke b d = Inr ?b1" using p assms(2) bd bn by (simp add: buf_poke_def mem_write_eq)
  have i1: "buf_is ?b1 [] 0 (unat sz)" using b(2) bd bn lb by (simp add: buf_is_def buf_content_def buf_ok_def)
  obtain b2 where b2: "buf_incrlen ?b1 (of_nat (length d)) = Inr b2" "b2 = ?b1\<lparr>blen := of_nat (length d)\<rparr>"
    using buf_is_incrlen [OF i1, of "of_nat (length d)"] assms l bd(5) unsigned_eq_0_iff [of "blen b"]
    by (auto simp: buf_incrlen_def split: if_splits)
  have "buf_is b2 d 0 (unat sz)"
    using b2(2) bd bn lb l assms by (auto simp: buf_is_def buf_content_def blit_def intro!: buf_okI)
  then show thesis using that b(1) b1 b2(1) by blast
qed

lemma cmp_base64_key_eq:
  assumes "line \<noteq> []" "length line \<le> 3000" "base64_decode lt line = Some d" "length d \<le> length line * 2"
  shows "cmp_base64_key lt keyblob algo line =
    (if d \<noteq> keyblob then Inr False
     else if length d < 4 \<or> length d < 4 + unat (LOAD32H (take 4 d)) then Inl (Exit ''Bad buf_getptr'')
     else Inr (unat (LOAD32H (take 4 d)) = length algo \<and> take (unat (LOAD32H (take 4 d))) (drop 4 d) = algo))"
proof -
  have sz: "unat (of_nat (length line * 2) :: u32) = length line * 2" by (rule unat_of_nat_u32) (use assms in linarith)
  obtain b b1 b2 where b: "buf_new (of_nat (length line * 2)) = Inr b" "buf_poke b d = Inr b1"
      "buf_incrlen b1 (of_nat (length d)) = Inr b2" and i2: "buf_is b2 d 0 (length line * 2)"
    by (rule poked [of "of_nat (length line * 2)" d]) (use sz assms in simp_all)
  note d = buf_isD [OF i2]
  have pk: "buf_peek b2 (blen b2) = Inr d" using buf_is_peek [OF i2, of "blen b2"] d(5) by simp
  let ?l = "LOAD32H (take 4 d)"
  have gi: "buf_getint b2 = (if 4 \<le> length d then Inr (?l, buf_skip b2 4) else Inl (Exit ''Bad buf_getptr''))"
    using buf_getint_eq [OF d(1)] buf_is_rest [OF i2] by simp
  have pa: "buf_peek (buf_skip b2 4) ?l = (if unat ?l \<le> length d - 4 then Inr (take (unat ?l) (drop 4 d)) else Inl (Exit ''Bad buf_getptr''))"
    if "4 \<le> length d"
    using that buf_is_rest [OF i2] buf_skip_ok [OF d(1), of 4] buf_rest_skip [OF d(1), of 4] by (simp add: buf_peek_eq)
  show ?thesis
  proof (cases "d = keyblob")
    case True
    then show ?thesis using assms b pk gi pa by (auto simp: cmp_base64_key_def)
  next
    case False
    then show ?thesis using assms b pk by (auto simp: cmp_base64_key_def)
  qed
qed

lemma cmp_base64_key_None: "base64_decode lt line = None \<or> line = [] \<Longrightarrow> length line \<le> 3000 \<Longrightarrow> cmp_base64_key lt keyblob algo line = Inr False"
  using buf_new_Inr [of "of_nat (length line * 2)"] unat_of_nat_u32 [of "length line * 2"] by (auto simp: cmp_base64_key_def)

lemma cmp_base64_key_True:
  assumes "cmp_base64_key lt keyblob algo line = Inr True" "length line \<le> 3000"
  shows "base64_decode lt line = Some keyblob" "\<exists>r. keyblob = enc_string algo @ r"
proof -
  obtain d where d: "line \<noteq> []" "base64_decode lt line = Some d" "length d \<le> length line * 2"
    using assms cmp_base64_key_None [of lt line keyblob algo]
    by (cases "base64_decode lt line") (auto simp: cmp_base64_key_def bindr_eq_Inr_iff split: if_splits)
  let ?l = "LOAD32H (take 4 d)"
  have e: "d = keyblob" "4 \<le> length d" "unat ?l = length algo" "take (unat ?l) (drop 4 d) = algo"
    using assms(1) cmp_base64_key_eq [OF d(1) assms(2) d(2,3)] by (auto split: if_splits)
  show "base64_decode lt line = Some keyblob" using d(2) e(1) by simp
  have "?l = of_nat (length algo)" using e(3) by (metis of_nat_unat ucast_id)
  then have "take 4 d = STORE32H (of_nat (length algo))" using STORE32H_LOAD32H [of "take 4 d"] e(2) by simp
  moreover have "d = take 4 d @ take (unat ?l) (drop 4 d) @ drop (unat ?l) (drop 4 d)" by (metis append_take_drop_id)
  ultimately have "keyblob = enc_string algo @ drop (unat ?l) (drop 4 d)" using e by (simp add: enc_string_def)
  then show "\<exists>r. keyblob = enc_string algo @ r" by blast
qed

lemma getline_truncated: "getline_loop n sz True [] bs = Some (eof, line, rest) \<Longrightarrow> line = []"
  by (induction n arbitrary: bs) (auto elim: getline_loop.elims split: if_splits)

lemma getline_loop_reads:
  assumes "getline_loop n sz truncated acc bs = Some (eof, line, rest)" "truncated \<longrightarrow> acc = []"
  shows "\<exists>x sep. bs = x @ sep @ rest \<and> (line = [] \<or> line = rev acc @ x) \<and> (\<forall>c\<in>set sep. eol c)"
  using assms
proof (induction n sz truncated acc bs rule: getline_loop.induct)
  case (2 n sz truncated acc)
  then show ?case by (intro exI [of _ "[]"]) auto
next
  case (3 n sz truncated acc c bs)
  show ?case
  proof (cases "c = CHR 0x0A \<or> c = CHR 0x0D")
    case True
    then have "c # bs = [] @ [c] @ rest \<and> line = rev acc @ [] \<and> eol c" using 3(3) by (auto simp: eol_def)
    then show ?thesis by fastforce
  next
    case False
    show ?thesis
    proof (cases "\<not> truncated \<and> length acc < sz")
      case True
      then obtain x sep where "bs = x @ sep @ rest" "line = [] \<or> line = rev (c # acc) @ x" "\<forall>c\<in>set sep. eol c"
        using 3(1) [OF False True] 3(3) False by auto
      then show ?thesis by (intro exI [of _ "c # x"] exI [of _ sep]) auto
    next
      case full: False
      then obtain x sep where x: "bs = x @ sep @ rest" "line = [] \<or> line = x" "\<forall>c\<in>set sep. eol c"
        using 3(2) [OF False full] 3(3) False by auto
      have "line = []" using 3(3) False full by (auto dest: getline_truncated)
      then show ?thesis using x by (intro exI [of _ "c # x"] exI [of _ sep]) auto
    qed
  qed
qed simp

lemma buf_getline_reads:
  assumes "buf_getline sz bs = Some (line, rest)" "line \<noteq> []"
  shows "\<exists>sep. bs = line @ sep @ rest \<and> (\<forall>c\<in>set sep. eol c)"
  using assms getline_loop_reads [of DROPBEAR_MAX_LINE_LENGTH sz False "[]" bs _ line rest]
  by (auto simp: buf_getline_def split: option.splits if_splits)

lemma buf_getline_suffix: "buf_getline sz bs = Some (line, rest) \<Longrightarrow> \<exists>x. bs = x @ rest"
  using getline_loop_reads [of DROPBEAR_MAX_LINE_LENGTH sz False "[]" bs _ line rest]
  by (fastforce simp: buf_getline_def split: option.splits if_splits)

lemma scan_options_suffix: "scan_options quoted escape l = (t, r) \<Longrightarrow> \<exists>x. l = x @ r"
proof (induction quoted escape l arbitrary: t r rule: scan_options.induct)
  case (2 quoted escape c l)
  show ?case
  proof (cases "\<not> quoted \<and> (c = CHR '' '' \<or> c = CHR 0x09)")
    case True
    then show ?thesis using 2(2) by (intro exI [of _ "[c]"]) auto
  next
    case False
    then obtain t' where "scan_options (if \<not> (\<not> escape \<and> c = CHR 0x5C) \<and> c = CHR 0x22 then \<not> quoted else quoted)
        (\<not> escape \<and> c = CHR 0x5C) l = (t', r)"
      using 2(2) unfolding scan_options.simps(2) Let_def by (simp only: if_False split: prod.splits) blast
    from 2(1) [OF False refl refl this] obtain x where "l = x @ r" by blast
    then show ?thesis by (intro exI [of _ "c # x"]) simp
  qed
qed simp

text \<open>A line lists a key when it has the algorithm, a blank and the text of the key up to a blank or the end.\<close>

definition lists_key :: "libtomcrypt \<Rightarrow> string \<Rightarrow> byte list \<Rightarrow> byte list \<Rightarrow> bool" where
  "lists_key lt algo keyblob line \<longleftrightarrow> (\<exists>before text after. line = before @ algo @ '' '' @ text @ after
     \<and> CHR '' '' \<notin> set text \<and> (after = [] \<or> hd after = CHR '' '')
     \<and> base64_decode lt text = Some keyblob \<and> (\<exists>r. keyblob = enc_string algo @ r))"

lemma check_key_text_sound:
  assumes "check_key_text lt stale algo keyblob opt r = Inr (Some po)" "take (length algo) r = algo" "length r \<le> 3000"
  shows "lists_key lt algo keyblob (x @ r)"
proof -
  obtain r' where r': "drop (length algo) r = CHR '' '' # r'"
    using assms(1) by (auto simp: check_key_text_def split: list.splits if_splits)
  let ?t = "takeWhile (\<lambda>c. c \<noteq> CHR '' '') r'"
  have r: "r = algo @ CHR '' '' # r'" using assms(2) r' by (metis append_take_drop_id)
  have "cmp_base64_key lt keyblob algo ?t = Inr True"
    using assms(1) r' by (auto simp: check_key_text_def Let_def bindr_eq_Inr_iff split: if_splits)
  moreover have "length ?t \<le> 3000" using assms(3) r length_takeWhile_le [of "\<lambda>c. c \<noteq> CHR '' ''" r'] by simp
  ultimately have k: "base64_decode lt ?t = Some keyblob" "\<exists>r. keyblob = enc_string algo @ r"
    using cmp_base64_key_True by blast+
  let ?d = "dropWhile (\<lambda>c. c \<noteq> CHR '' '') r'"
  have d: "?d = [] \<or> hd ?d = CHR '' ''" using hd_dropWhile [of "\<lambda>c. c \<noteq> CHR '' ''" r'] by auto
  have "x @ r = x @ algo @ '' '' @ ?t @ ?d" by (simp add: r)
  moreover have "CHR '' '' \<notin> set ?t" by (auto dest: set_takeWhileD)
  ultimately show ?thesis using k d unfolding lists_key_def by blast
qed

lemma checkpubkey_line_sound:
  assumes "checkpubkey_line lt stale algo keyblob line = Inr (Some po)"
  shows "lists_key lt algo keyblob line" "line \<noteq> []"
proof -
  have l: "length line \<le> 3000" "length line \<ge> 10" using assms
    by (auto simp: checkpubkey_line_def MIN_AUTHKEYS_LINE_def MAX_AUTHKEYS_LINE_def split: if_splits)
  then show "line \<noteq> []" by auto
  show "lists_key lt algo keyblob line"
  proof (cases "take (length algo) line = algo")
    case True
    then show ?thesis using assms check_key_text_sound [of lt stale algo keyblob None line po "[]"] l
      by (auto simp: checkpubkey_line_def split: if_splits)
  next
    case False
    let ?d = "dropWhile (\<lambda>c. c = CHR '' '' \<or> c = CHR 0x09) line"
    obtain opt r where r: "scan_options False False ?d = (opt, r)" "take (length algo) r = algo"
        "check_key_text lt stale algo keyblob (Some opt) r = Inr (Some po)"
      using assms False by (auto simp: checkpubkey_line_def split: if_splits list.splits prod.splits)
    obtain x where x: "?d = x @ r" using scan_options_suffix [OF r(1)] by blast
    obtain y where y: "y @ ?d = line" by (meson takeWhile_dropWhile_id)
    have e: "line = (y @ x) @ r" using y by (simp add: x)
    then have "length r \<le> 3000" using l(1) by simp
    then show ?thesis unfolding e by (rule check_key_text_sound [OF r(3,2)])
  qed
qed

lemma check_lines_sound:
  assumes "check_lines lt stale algo keyblob n bs = Inr (Some po)"
  shows "\<exists>before line after. bs = before @ line @ after \<and> lists_key lt algo keyblob line"
  using assms
proof (induction n arbitrary: bs)
  case (Suc n)
  obtain line rest where g: "buf_getline MAX_AUTHKEYS_LINE bs = Some (line, rest)" using Suc(2) by (auto split: option.splits)
  obtain ret where ret: "checkpubkey_line lt stale algo keyblob line = Inr ret" using Suc(2) g by (auto elim!: bindr_InrE)
  show ?case
  proof (cases ret)
    case None
    then have "check_lines lt stale algo keyblob n rest = Inr (Some po)" using Suc(2) g ret by simp
    then obtain before l after where "rest = before @ l @ after" "lists_key lt algo keyblob l" using Suc(1) by blast
    moreover obtain x where "bs = x @ rest" using buf_getline_suffix [OF g] by blast
    ultimately show ?thesis by (intro exI [of _ "x @ before"] exI [of _ l] exI [of _ after]) simp
  next
    case (Some po')
    then have "lists_key lt algo keyblob line" "line \<noteq> []" using checkpubkey_line_sound ret by blast+
    moreover obtain sep where "bs = line @ sep @ rest" using buf_getline_reads [OF g] calculation(2) by blast
    ultimately show ?thesis by (intro exI [of _ "[]"] exI [of _ line] exI [of _ "sep @ rest"]) simp
  qed
qed simp

text \<open>What the code relies on of base64: decoding undoes encoding, the text has only its characters.\<close>

definition b64_char :: "char \<Rightarrow> bool" where
  "b64_char c \<longleftrightarrow> ascii_isalnum c \<or> c \<in> set ''+/=''"

definition base64_ok :: "libtomcrypt \<Rightarrow> bool" where
  "base64_ok lt \<longleftrightarrow> (\<forall>x. base64_decode lt (base64_encode lt x) = Some x \<and> list_all b64_char (base64_encode lt x)
     \<and> length x \<le> 2 * length (base64_encode lt x))"

text \<open>The entries of a plain file: the algorithm, the key behind its name, a comment.\<close>

record authkey =
  ak_algo :: string
  ak_body :: "byte list"
  ak_comment :: string

definition ak_blob :: "authkey \<Rightarrow> byte list" where
  "ak_blob e = enc_string (ak_algo e) @ ak_body e"

definition ak_text :: "libtomcrypt \<Rightarrow> authkey \<Rightarrow> byte list" where
  "ak_text lt e = ak_algo e @ '' '' @ base64_encode lt (ak_blob e) @ '' '' @ ak_comment e"

definition ak_ok :: "libtomcrypt \<Rightarrow> authkey \<Rightarrow> bool" where
  "ak_ok lt e \<longleftrightarrow> ak_algo e \<in> set signkey_names \<and> length (ak_text lt e) \<le> 3000
     \<and> ak_comment e \<noteq> [] \<and> list_all (\<lambda>c. ascii_isalnum c \<or> c \<in> set ''.,_-+@'') (ak_comment e)"

lemma signkey_names_shape:
  "list_all (\<lambda>n. CHR ''-'' \<in> set n \<and> CHR '' '' \<notin> set n \<and> CHR 0x09 \<notin> set n \<and> CHR 0x22 \<notin> set n \<and> CHR 0x5C \<notin> set n
     \<and> CHR 0x0A \<notin> set n \<and> CHR 0x0D \<notin> set n \<and> CHR 0x00 \<notin> set n \<and> hd n \<noteq> CHR ''#'' \<and> 7 \<le> length n \<and> length n \<le> 34
     \<and> list_all (\<lambda>m. n = m \<or> take (length n) m \<noteq> n) signkey_names) signkey_names"
  by code_simp

lemma signkey_nameD:
  assumes "n \<in> set signkey_names"
  shows "CHR ''-'' \<in> set n" "CHR '' '' \<notin> set n" "CHR 0x09 \<notin> set n" "CHR 0x22 \<notin> set n" "CHR 0x5C \<notin> set n"
    "CHR 0x0A \<notin> set n" "CHR 0x0D \<notin> set n" "CHR 0x00 \<notin> set n" "hd n \<noteq> CHR ''#''" "7 \<le> length n" "length n \<le> 34"
    "\<And>m. m \<in> set signkey_names \<Longrightarrow> n \<noteq> m \<Longrightarrow> take (length n) m \<noteq> n"
  using signkey_names_shape assms unfolding list_all_iff by blast+

lemma signkey_name_not_prefix:
  assumes "n \<in> set signkey_names" "m \<in> set signkey_names" "n \<noteq> m"
  shows "take (length n) (m @ CHR '' '' # r) \<noteq> n"
proof
  assume e: "take (length n) (m @ CHR '' '' # r) = n"
  show False
  proof (cases "length n \<le> length m")
    case True
    then show False using e signkey_nameD(12) [OF assms(1,2,3)] by simp
  next
    case False
    then have "n ! length m = CHR '' ''"
      using arg_cong [OF e, of "\<lambda>l. l ! length m"] by (simp add: nth_append)
    then show False using signkey_nameD(2) [OF assms(1)] False by (metis leI nth_mem)
  qed
qed

lemma signkey_name_not_b64:
  assumes "n \<in> set signkey_names" "list_all b64_char t"
  shows "take (length n) (t @ CHR '' '' # r) \<noteq> n"
proof
  assume e: "take (length n) (t @ CHR '' '' # r) = n"
  show False
  proof (cases "length n \<le> length t")
    case True
    then have "set n \<subseteq> set t" using e by (metis set_take_subset take_append diff_is_0_eq append_Nil2 take0)
    then have "b64_char (CHR ''-'')" using signkey_nameD(1) [OF assms(1)] assms(2) by (auto simp: list_all_iff)
    then show False by (simp add: b64_char_def ascii_isalnum_def ascii_isalpha_def ascii_isdigit_def)
  next
    case False
    then have "n ! length t = CHR '' ''"
      using arg_cong [OF e, of "\<lambda>l. l ! length t"] by (simp add: nth_append)
    then show False using signkey_nameD(2) [OF assms(1)] False by (metis leI nth_mem)
  qed
qed

lemma scan_options_word:
  assumes "CHR '' '' \<notin> set w" "CHR 0x09 \<notin> set w" "CHR 0x22 \<notin> set w" "CHR 0x5C \<notin> set w"
  shows "scan_options False False (w @ CHR '' '' # r) = (w, r)"
  using assms by (induction w) auto

lemma b64_not_special:
  assumes "b64_char c \<or> ascii_isalnum c \<or> c \<in> set ''.,_-+@''"
  shows "c \<noteq> CHR '' ''" "c \<noteq> CHR 0x0A" "c \<noteq> CHR 0x0D" "c \<noteq> CHR 0x00"
  using assms by (auto simp: b64_char_def ascii_isalnum_def ascii_isalpha_def ascii_isdigit_def)

lemma ak_textD:
  assumes "base64_ok lt" "ak_ok lt e"
  shows "CHR 0x0A \<notin> set (ak_text lt e)" "CHR 0x0D \<notin> set (ak_text lt e)" "CHR 0x00 \<notin> set (ak_text lt e)"
    "10 \<le> length (ak_text lt e)" "length (ak_text lt e) \<le> 3000" "length (ak_algo e) + 3 \<le> length (ak_text lt e)"
proof -
  let ?b = "base64_encode lt (ak_blob e)"
  note n = signkey_nameD [of "ak_algo e"]
  have a: "ak_algo e \<in> set signkey_names" and c: "list_all (\<lambda>c. ascii_isalnum c \<or> c \<in> set ''.,_-+@'') (ak_comment e)"
    and b: "list_all b64_char ?b" and l: "length (ak_blob e) \<le> 2 * length ?b"
    using assms by (simp_all add: ak_ok_def base64_ok_def)
  have sp: "c \<noteq> CHR 0x0A \<and> c \<noteq> CHR 0x0D \<and> c \<noteq> CHR 0x00" if "c \<in> set ?b \<or> c \<in> set (ak_comment e)" for c
  proof -
    have "b64_char c \<or> ascii_isalnum c \<or> c \<in> set ''.,_-+@''" using that b c unfolding list_all_iff by blast
    then show ?thesis by (intro conjI b64_not_special(2-4))
  qed
  show "CHR 0x0A \<notin> set (ak_text lt e)" "CHR 0x0D \<notin> set (ak_text lt e)" "CHR 0x00 \<notin> set (ak_text lt e)"
    using n(6-8) [OF a] sp [of "CHR 0x0A"] sp [of "CHR 0x0D"] sp [of "CHR 0x00"] by (simp_all add: ak_text_def) blast+
  have "5 \<le> length ?b" using l n(10) [OF a] by (simp add: ak_blob_def)
  then show "10 \<le> length (ak_text lt e)" "length (ak_algo e) + 3 \<le> length (ak_text lt e)"
    using n(10) [OF a] by (simp_all add: ak_text_def)
  show "length (ak_text lt e) \<le> 3000" using assms(2) by (simp add: ak_ok_def)
qed

lemma takeWhile_b64: "list_all b64_char t \<Longrightarrow> takeWhile (\<lambda>c. c \<noteq> CHR '' '') (t @ CHR '' '' # r) = t"
  using b64_not_special(1) by (subst takeWhile_append2) (auto simp: list_all_iff)

lemma key_info_comment:
  assumes "ak_ok lt e"
  shows "key_info (ak_comment e) = Some (ak_comment e)"
proof -
  have "\<forall>c\<in>set (ak_comment e). c \<noteq> CHR '' '' \<and> (ascii_isalnum c \<or> c \<in> set ''.,_-+@'')"
    using assms b64_not_special(1) unfolding ak_ok_def list_all_iff by blast
  then have "takeWhile (\<lambda>c. c \<noteq> CHR '' '') (ak_comment e) = ak_comment e"
    and "\<not> list_ex (\<lambda>c. \<not> (ascii_isalnum c \<or> c \<in> set ''.,_-+@'')) (ak_comment e)"
    by (simp_all add: takeWhile_eq_all_conv list_ex_iff)
  then show ?thesis using assms unfolding key_info_def Let_def by (simp only: ak_ok_def if_False) simp
qed

lemma cmp_own_key:
  assumes "base64_ok lt" "ak_ok lt e"
  shows "cmp_base64_key lt keyblob (ak_algo e) (base64_encode lt (ak_blob e)) = Inr (ak_blob e = keyblob)"
proof -
  let ?b = "base64_encode lt (ak_blob e)"
  have b: "base64_decode lt ?b = Some (ak_blob e)" "length (ak_blob e) \<le> length ?b * 2"
    using assms(1) by (simp_all add: base64_ok_def mult.commute)
  have l: "length ?b \<le> 3000" using assms(2) by (simp add: ak_ok_def ak_text_def)
  have ne: "?b \<noteq> []" using b(2) by (auto simp: ak_blob_def enc_string_def)
  have u: "unat (of_nat (length (ak_algo e)) :: u32) = length (ak_algo e)"
    by (rule unat_of_nat_u32) (use signkey_nameD(11) [of "ak_algo e"] assms(2) in \<open>simp add: ak_ok_def\<close>)
  show ?thesis using cmp_base64_key_eq [OF ne l b] u by (auto simp: ak_blob_def enc_string_def)
qed

lemma checkpubkey_line_entry:
  assumes "base64_ok lt" "ak_ok lt e" "algo \<in> set signkey_names"
  shows "checkpubkey_line lt stale algo keyblob (ak_text lt e) =
    Inr (if ak_algo e = algo \<and> ak_blob e = keyblob then Some (zero_pubkey_options\<lparr>info_env := Some (ak_comment e)\<rparr>) else None)"
proof -
  let ?b = "base64_encode lt (ak_blob e)"
  note t = ak_textD [OF assms(1,2)] and a = signkey_nameD [of "ak_algo e"]
  have b: "list_all b64_char ?b" using assms(1) by (simp add: base64_ok_def)
  have an: "ak_algo e \<in> set signkey_names" using assms(2) by (simp add: ak_ok_def)
  have txt_eq: "ak_text lt e = ak_algo e @ CHR '' '' # (?b @ CHR '' '' # ak_comment e)" by (simp add: ak_text_def)
  have lens: "\<not> (length (ak_text lt e) < MIN_AUTHKEYS_LINE \<or> length (ak_text lt e) > MAX_AUTHKEYS_LINE)"
    using t(4,5) by (simp add: MIN_AUTHKEYS_LINE_def MAX_AUTHKEYS_LINE_def)
  show ?thesis
  proof (cases "ak_algo e = algo")
    case True
    have "check_key_text lt stale algo keyblob None (ak_text lt e) =
        Inr (if ak_blob e = keyblob then Some (zero_pubkey_options\<lparr>info_env := Some (ak_comment e)\<rparr>) else None)"
    proof -
      obtain x where x: "?b = x" by simp
      show ?thesis
        using cmp_own_key [OF assms(1,2), of keyblob] takeWhile_b64 [OF b] key_info_comment [OF assms(2)] True
        unfolding check_key_text_def txt_eq x by (simp add: Let_def svr_parse_pubkey_options_def)
    qed
    moreover have "take (length algo) (ak_text lt e) = algo" using True by (simp add: txt_eq)
    ultimately show ?thesis using lens t(3,6) True by (simp add: checkpubkey_line_def)
  next
    case False
    then have nt: "take (length algo) (ak_text lt e) \<noteq> algo"
      using signkey_name_not_prefix [OF assms(3) an] unfolding txt_eq by blast
    obtain c w where w: "ak_algo e = c # w" using a(10) [OF an] by (cases "ak_algo e") auto
    then have c: "c \<noteq> CHR '' ''" "c \<noteq> CHR 0x09" "c \<noteq> CHR ''#''" using a(2,3,9) [OF an] by auto
    have dw: "dropWhile (\<lambda>c. c = CHR '' '' \<or> c = CHR 0x09) (ak_text lt e) = c # w @ CHR '' '' # (?b @ CHR '' '' # ak_comment e)"
      using c by (simp add: txt_eq w)
    have sc: "scan_options False False (c # w @ CHR '' '' # (?b @ CHR '' '' # ak_comment e)) = (ak_algo e, ?b @ CHR '' '' # ak_comment e)"
      using scan_options_word [OF a(2-5) [OF an], of "?b @ CHR '' '' # ak_comment e"] w by simp
    show ?thesis
      using lens t(3) nt dw sc c(3) False signkey_name_not_b64 [OF assms(3) b, of "ak_comment e"]
      by (simp add: checkpubkey_line_def)
  qed
qed

lemma getline_loop_line:
  assumes "\<forall>c\<in>set l. c \<noteq> CHR 0x0A \<and> c \<noteq> CHR 0x0D" "length acc + length l \<le> sz" "length l < n"
  shows "getline_loop n sz False acc (l @ CHR 0x0A # r) = Some (False, rev acc @ l, r)"
  using assms
proof (induction l arbitrary: acc n)
  case Nil
  then show ?case by (cases n) auto
next
  case (Cons c l)
  then obtain m where "n = Suc m" by (cases n) auto
  then show ?case using Cons by auto
qed

lemma check_lines_entries:
  assumes "base64_ok lt" "list_all (ak_ok lt) es" "algo \<in> set signkey_names" "length es \<le> n"
  shows "check_lines lt stale algo keyblob n (concat (map (\<lambda>e. ak_text lt e @ [CHR 0x0A]) es)) =
    Inr (map_option (\<lambda>e. zero_pubkey_options\<lparr>info_env := Some (ak_comment e)\<rparr>)
      (find (\<lambda>e. ak_algo e = algo \<and> ak_blob e = keyblob) es))"
  using assms(2,4)
proof (induction es arbitrary: n)
  case Nil
  have "buf_getline MAX_AUTHKEYS_LINE [] = None" by (simp add: buf_getline_def DROPBEAR_MAX_LINE_LENGTH_def numeral_eq_Suc)
  then show ?case by (cases n) auto
next
  case (Cons e es)
  then obtain m where m: "n = Suc m" "length es \<le> m" by (cases n) auto
  have e: "ak_ok lt e" using Cons by simp
  note t = ak_textD [OF assms(1) e]
  have "getline_loop DROPBEAR_MAX_LINE_LENGTH MAX_AUTHKEYS_LINE False [] (ak_text lt e @ CHR 0x0A # r) = Some (False, rev [] @ ak_text lt e, r)" for r
    by (rule getline_loop_line) (use t in \<open>auto simp: DROPBEAR_MAX_LINE_LENGTH_def MAX_AUTHKEYS_LINE_def\<close>)
  then have g: "buf_getline MAX_AUTHKEYS_LINE (ak_text lt e @ CHR 0x0A # r) = Some (ak_text lt e, r)" for r
    by (simp add: buf_getline_def)
  show ?case
    using Cons.IH [OF _ m(2)] Cons.prems(1) g checkpubkey_line_entry [OF assms(1) e assms(3)] m(1) by simp
qed

lemma authorized_keys_exact:
  assumes "base64_ok (libtom s)" "list_all (ak_ok (libtom s)) es" "length es \<le> 300" "algo \<in> set signkey_names"
    and "conf_files (world s) (conf_path g @ ''/authorized_keys'') =
      Some (concat (map (\<lambda>e. ak_text (libtom s) e @ [CHR 0x0A]) es))"
  shows "checkpubkey g stale algo keyblob s =
    Inr (map_option (\<lambda>e. zero_pubkey_options\<lparr>info_env := Some (ak_comment e)\<rparr>)
      (find (\<lambda>e. ak_algo e = algo \<and> ak_blob e = keyblob) es))"
  using check_lines_entries [OF assms(1,2,4), of MAX_AUTHKEYS_LINE_COUNT stale keyblob] assms(3,5)
  by (simp add: checkpubkey_def conf_file_eq AUTHORIZED_KEYS_FILE_def MAX_AUTHKEYS_LINE_COUNT_def)

text \<open>A toy encoding and toy algorithms, for evaluations.\<close>

definition hex :: "byte list \<Rightarrow> byte list" where
  "hex bs = concat (map (\<lambda>c. [byte_of (97 + byte_val c div 16), byte_of (97 + byte_val c mod 16)]) bs)"

fun unhex :: "byte list \<Rightarrow> byte list option" where
  "unhex [] = Some []"
| "unhex [a] = None"
| "unhex (a # b # r) = map_option (\<lambda>t. byte_of ((byte_val a - 97) * 16 + (byte_val b - 97)) # t) (unhex r)"

definition hex_libtom :: libtomcrypt where
  "hex_libtom = bare_libtom\<lparr>base64_encode := hex, base64_decode := unhex\<rparr>"

lemma unhex_hex: "unhex (hex bs) = Some bs"
proof (induction bs)
  case (Cons c bs)
  have "byte_val c div 16 < 16" "byte_val c mod 16 < 16" using nat_of_char_less_256 [of c] by (simp_all add: less_mult_imp_div_less)
  then show ?case using Cons by (simp add: hex_def)
qed (simp add: hex_def)

lemma hex_libtom_ok: "base64_ok hex_libtom"
proof -
  have b: "b64_char (byte_of (97 + n))" if "n < 16" for n
    using that by (simp add: b64_char_def ascii_isalnum_def ascii_isalpha_def)
  have "list_all b64_char (hex bs)" for bs
    by (auto simp: hex_def list_all_iff intro!: b simp: nat_of_char_less_256 less_mult_imp_div_less)
  moreover have "length bs \<le> 2 * length (hex bs)" for bs by (induction bs) (auto simp: hex_def)
  ultimately show ?thesis by (simp add: base64_ok_def hex_libtom_def unhex_hex)
qed

definition some_key :: authkey where
  "some_key = \<lparr>ak_algo = ''ssh-ed25519'', ak_body = enc_string ''k'', ak_comment = ''me@home''\<rparr>"

definition keys_session :: "authkey list \<Rightarrow> sshsession" where
  "keys_session es = plain_session\<lparr>libtom := hex_libtom, world := still_world\<lparr>conf_files :=
     [conf_path some_globals @ ''/authorized_keys'' \<mapsto> concat (map (\<lambda>e. ak_text hex_libtom e @ [CHR 0x0A]) es)]\<rparr>\<rparr>"

lemma length_hex [simp]: "length (hex bs) = 2 * length bs"
  by (induction bs) (auto simp: hex_def)

lemma some_key_ok: "ak_ok hex_libtom some_key"
  by (simp add: ak_ok_def ak_text_def ak_blob_def some_key_def hex_libtom_def signkey_names_def
      ascii_isalnum_def ascii_isalpha_def ascii_isdigit_def)

lemma keys_session_simps [simp]:
  "libtom (keys_session es) = hex_libtom" "payload (keys_session es) = None"
  "authstate (keys_session es) = zero_authstate" "payload_beginning (keys_session es) = 0"
  "multiauthmethod (svr_opts (keys_session es)) = False"
  "conf_files (world (keys_session es)) =
     [conf_path some_globals @ ''/authorized_keys'' \<mapsto> concat (map (\<lambda>e. ak_text hex_libtom e @ [CHR 0x0A]) es)]"
  by (simp_all add: keys_session_def plain_session_def zero_session_def plain_svr_opts_def)

lemma some_key_found:
  "checkpubkey some_globals False ''ssh-ed25519'' (ak_blob some_key) (keys_session [some_key]) =
     Inr (Some (zero_pubkey_options\<lparr>info_env := Some ''me@home''\<rparr>))"
  using authorized_keys_exact [of "keys_session [some_key]" "[some_key]" "''ssh-ed25519''" some_globals False "ak_blob some_key"]
    hex_libtom_ok some_key_ok
  by (simp add: signkey_names_def) (simp add: some_key_def)

text \<open>Algorithms for which a key is its last string and every signature is good.\<close>

definition two_strings :: "buffer \<Rightarrow> (byte list option \<times> buffer) res" where
  "two_strings b = bindr (buf_getstring b) (\<lambda>(_, b). bindr (buf_getstring b) (\<lambda>(k, b). Inr (Some k, b)))"

definition easy_ops :: signkey_ops where
  "easy_ops = \<lparr>get_rsa_pub_key = two_strings, get_ecdsa_pub_key = two_strings, get_ed25519_pub_key = (\<lambda>_. two_strings),
     rsa_verify = (\<lambda>_ _ _ b. Inr (True, b)), ecdsa_verify = (\<lambda>_ _ b. Inr (True, b)), ed25519_verify = (\<lambda>_ _ b. Inr (True, b)),
     sk_ecdsa_verify = (\<lambda>_ _ _ _ b. Inr (True, b)), sk_ed25519_verify = (\<lambda>_ _ _ _ b. Inr (True, b))\<rparr>"

lemma two_strings_only: "read_only two_strings"
  unfolding read_only_def
proof (intro allI impI)
  fix b x b' assume ok: "buf_ok b" and "two_strings b = Inr (x, b')"
  then obtain i b1 k where b1: "buf_getstring b = Inr (i, b1)" and b2: "buf_getstring b1 = Inr (k, b')"
    by (auto simp: two_strings_def elim!: bindr_InrE)
  obtain e where e: "bpos b \<le> e" "e \<le> blen b" "b1 = b\<lparr>bpos := e\<rparr>" using getstring_moves [OF ok b1] by blast
  have "buf_ok b1" using move_ok [OF ok e(2)] e(3) by simp
  then obtain e' where "bpos b1 \<le> e'" "e' \<le> blen b1" "b' = b1\<lparr>bpos := e'\<rparr>" using getstring_moves [OF _ b2] by blast
  then show "\<exists>e. bpos b \<le> e \<and> e \<le> blen b \<and> b' = b\<lparr>bpos := e\<rparr>" using e by (intro exI [of _ e']) auto
qed

lemma easy_ops_only: "keys_read_only easy_ops"
  using two_strings_only by (simp add: keys_read_only_def easy_ops_def)

text \<open>A request with \<open>some_key\<close>, and that it is accepted.\<close>

definition some_request :: "byte list" where
  "some_request = [CHR 0x01] @ enc_string ''ssh-ed25519'' @ enc_string (ak_blob some_key) @
     (STORE32H 20 @ enc_string ''ssh-ed25519'' @ enc_string ''s'')"

definition request_session :: sshsession where
  "request_session = (keys_session [some_key])\<lparr>payload := Some (packet_of some_request), session_id := Some (packet_of ''id'')\<rparr>"

lemma request_accepted:
  obtains s' where "svr_auth_pubkey some_globals easy_ops False True request_session = Inr s'" "authdone (authstate s')"
proof -
  let ?p = "packet_of some_request" and ?n = "length (ak_blob some_key)"
  have l: "length some_request = 64" by (simp add: some_request_def ak_blob_def some_key_def)
  note ok = packet_of_ok [of some_request, simplified l]
  have kt: "signature_type_from_name ''ssh-ed25519'' = 5" "signkey_type_from_signature 5 = Inr 5"
    "signkey_name_from_type 5 = Inr ''ssh-ed25519''" "signkey_type_from_name ''ssh-ed25519'' = 5"
    by (simp_all add: signature_type_from_name_def SSH_SIGNATURE_RSA_SHA256_def signkey_type_from_name_def signkey_names_def
        signkey_type_from_signature_def signkey_name_from_type_def signkey_consts)
  let ?q = "buf_skip ?p 20" and ?r = "buf_skip ?p 40"
  have s20: "buf_ok ?q" "buf_rest ?q = enc_string ''ssh-ed25519'' @ enc_string ''k'' @ (STORE32H 20 @ enc_string ''ssh-ed25519'' @ enc_string ''s'')"
    using skip_over [OF ok(1), of "[CHR 0x01] @ enc_string ''ssh-ed25519'' @ STORE32H (of_nat (length (ak_blob some_key)))"] ok(2)
    by (simp_all add: some_request_def ak_blob_def some_key_def enc_string_def)
  have g1: "buf_getstring ?q = Inr (''ssh-ed25519'', buf_skip ?p 35)"
    using buf_getstring_enc [OF s20(1) _ s20(2)] by (simp add: string_ok_def)
  have s35: "buf_ok (buf_skip ?p 35)" "buf_rest (buf_skip ?p 35) = enc_string ''k'' @ (STORE32H 20 @ enc_string ''ssh-ed25519'' @ enc_string ''s'')"
    using skip_over [OF s20] by simp_all
  have g2: "buf_getstring (buf_skip ?p 35) = Inr (''k'', ?r)"
    using buf_getstring_enc [OF s35(1) _ s35(2)] by (simp add: string_ok_def)
  have s40: "buf_ok ?r" "buf_rest ?r = STORE32H 20 @ enc_string ''ssh-ed25519'' @ enc_string ''s''"
    using skip_over [OF s35] by simp_all
  have small: "unat (bpos ?r) + 4 + unat (blen (packet_of ''id'')) \<le> 1000000000" by (simp add: buf_skip_def packet_of_def)
  have dec: "buf_decrpos (buf_skip ?p 35) 15 = Inr ?q"
    by (simp add: buf_decrpos_def buf_skip_def packet_of_def)
  have gk: "buf_get_pub_key easy_ops 5 new_sign_key ?q = Inr ((True, 5, new_sign_key\<lparr>ed25519key := Some ''k''\<rparr>), ?r)"
    using g1 g2 dec kt(4) by (simp add: buf_get_pub_key_def read_key_def easy_ops_def two_strings_def set_key_ptr_def signkey_consts signkey_is_ecdsa_def)
  have s44: "buf_ok (buf_skip ?p 44)" "buf_rest (buf_skip ?p 44) = enc_string ''ssh-ed25519'' @ enc_string ''s''"
    using skip_over [OF s40] by simp_all
  have v: "\<exists>b'. buf_verify easy_ops (new_sign_key\<lparr>ed25519key := Some ''k'', sk_flags_mask := m\<rparr>) 5 data ?r = Inr (True, b')" for m data
    using s40 kt buf_getstring_enc [OF s44(1) _ s44(2)]
    by (simp add: buf_verify_def buf_getint_eq string_ok_def easy_ops_def signkey_consts)
  have rd: "ready_to_send request_session"
    using plain_session_ok by (simp add: request_session_def keys_session_def ready_to_send_def trans_ok_def payload_ready_def)
  have chk: "checkpubkey some_globals False ''ssh-ed25519'' (ak_blob some_key) request_session =
      Inr (Some (zero_pubkey_options\<lparr>info_env := Some ''me@home''\<rparr>))"
    using some_key_found checkpubkey_cong [of request_session "keys_session [some_key]"] by (simp add: request_session_def)
  have "\<exists>s'. svr_auth_pubkey some_globals easy_ops False True request_session = Inr s' \<and> authdone (authstate s')"
    by (rule pubkey_accepts [where c = "CHR 0x01" and sigalgo = "''ssh-ed25519''" and keyblob = "ak_blob some_key" and p = ?p and q = ?r
          and rest = "STORE32H 20 @ enc_string ''ssh-ed25519'' @ enc_string ''s''" and sid = "packet_of ''id''" and keytype = 5
          and key = "new_sign_key\<lparr>ed25519key := Some ''k''\<rparr>"])
      (use ok kt gk s40 v rd chk small in \<open>simp_all add: request_session_def some_request_def string_ok_def ak_blob_def some_key_def
          signkey_consts packet_of_ok\<close>)
  then show thesis using that by blast
qed

section \<open>Properties\<close>

text \<open>
  C3. Soundness of public key authentication. A request that makes the session authenticated came
  for a valid user, with a key blob that \<open>authorized_keys\<close> lists for the key's own algorithm, asked for
  a real check (the first byte is not zero), and its signature was checked with the key read from
  that very blob, over the session identifier followed by all the bytes of the request from its
  beginning to the end of the key. Nothing but the routines of the algorithms is assumed, and of these
  only that reading a key moves the position of the buffer forward and changes nothing else.
\<close>

theorem pubkey_auth_sound:
  assumes "svr_auth_pubkey g ops stale valid_user s = Inr s'" "\<not> authdone (authstate s)" "authdone (authstate s')"
    and "payload s = Some p" "session_id s = Some sid" "buf_ok p" "buf_ok sid" "keys_read_only ops"
  shows "\<exists>c sigalgo keyblob rest q keytype keyalgo po t key e b'. valid_user \<and> c \<noteq> CHR 0x00
    \<and> reads p ([c] @ enc_string sigalgo @ STORE32H (of_nat (length keyblob))) q \<and> buf_rest q = keyblob @ rest
    \<and> signkey_type_from_signature (signature_type_from_name sigalgo) = Inr keytype
    \<and> signkey_name_from_type keytype = Inr keyalgo
    \<and> checkpubkey g stale keyalgo keyblob s = Inr (Some po)
    \<and> buf_get_pub_key ops keytype new_sign_key q = Inr ((True, t, key), q\<lparr>bpos := e\<rparr>)
    \<and> buf_verify ops (key\<lparr>sk_flags_mask := flags_mask po\<rparr>) (signature_type_from_name sigalgo)
        (enc_string (buf_content sid) @ drop (unat (payload_beginning s)) (take (unat e) (buf_content p)))
        (q\<lparr>bpos := e\<rparr>) = Inr (True, b')"
proof -
  obtain c sigalgo keyblob rest q where q: "reads p ([c] @ enc_string sigalgo @ STORE32H (of_nat (length keyblob))) q"
    "buf_ok q" "buf_rest q = keyblob @ rest"
    and r: "(if \<not> valid_user then send_msg_userauth_failure False False (s\<lparr>payload := Some q\<rparr>)
      else pubkey_attempt g ops stale (c = CHR 0x00) sigalgo keyblob (s\<lparr>payload := Some q\<rparr>)) = Inr s'"
    by (rule pubkey_fields [OF assms(1,4,6)])
  let ?s = "s\<lparr>payload := Some q\<rparr>" and ?t = "signature_type_from_name sigalgo"
  have nd: "\<not> authdone (authstate ?s)" using assms(2) by simp
  have valid: "valid_user" using r failure_effect(1) [of False False ?s s'] assms(2,3) by (auto split: if_splits)
  with r have att: "pubkey_attempt g ops stale (c = CHR 0x00) sigalgo keyblob ?s = Inr s'" by simp
  obtain keytype keyalgo po where k: "c \<noteq> CHR 0x00" "signkey_type_from_signature ?t = Inr keytype"
    "signkey_name_from_type keytype = Inr keyalgo" "checkpubkey g stale keyalgo keyblob ?s = Inr (Some po)"
    "verify_request ops ?t keytype po ?s = Inr s'"
    by (rule pubkey_attempt_done [OF att nd assms(3)])
  obtain t key e b' where v: "buf_get_pub_key ops keytype new_sign_key q = Inr ((True, t, key), q\<lparr>bpos := e\<rparr>)"
    "buf_verify ops (key\<lparr>sk_flags_mask := flags_mask po\<rparr>) ?t
       (enc_string (buf_content sid) @ drop (unat (payload_beginning ?s)) (take (unat e) (buf_content q))) (q\<lparr>bpos := e\<rparr>) = Inr (True, b')"
    by (rule verify_request_done [OF k(5) nd assms(3) _ _ q(2) assms(7,8)]) (use assms(5) in simp_all)
  have cq: "buf_content q = buf_content p" using q(1) by (auto simp: reads_def buf_content_def)
  have chk: "checkpubkey g stale keyalgo keyblob s = Inr (Some po)"
    using k(4) checkpubkey_cong [of s ?s] by simp
  show ?thesis
    by (rule exI [of _ c], rule exI [of _ sigalgo], rule exI [of _ keyblob], rule exI [of _ rest], rule exI [of _ q],
        rule exI [of _ keytype], rule exI [of _ keyalgo], rule exI [of _ po], rule exI [of _ t], rule exI [of _ key],
        rule exI [of _ e], rule exI [of _ b']) (use valid k(1-3) q chk v cq in simp)
qed

text \<open>
  C22. The lookup in a plain \<open>authorized_keys\<close> file of at most 300 entries is exact: it finds the first entry with the
  algorithm and the key of the request and returns its comment, and it rejects a key that no entry
  has, whatever its algorithm. It relies on base64 decoding undoing encoding and on its alphabet.
\<close>

theorem authorized_keys_lookup:
  assumes "base64_ok (libtom s)" "list_all (ak_ok (libtom s)) es" "length es \<le> 300" "algo \<in> set signkey_names"
    and "conf_files (world s) (conf_path g @ ''/authorized_keys'') =
      Some (concat (map (\<lambda>e. ak_text (libtom s) e @ [CHR 0x0A]) es))"
  shows "checkpubkey g stale algo keyblob s =
    Inr (map_option (\<lambda>e. zero_pubkey_options\<lparr>info_env := Some (ak_comment e)\<rparr>)
      (find (\<lambda>e. ak_algo e = algo \<and> ak_blob e = keyblob) es))"
  by (rule authorized_keys_exact) (fact assms)+

theorem authorized_keys_lookup_witness:
  "checkpubkey some_globals False ''ssh-ed25519'' (ak_blob some_key) (keys_session [some_key]) =
     Inr (Some (zero_pubkey_options\<lparr>info_env := Some ''me@home''\<rparr>))
   \<and> checkpubkey some_globals False ''ssh-rsa'' (ak_blob some_key) (keys_session [some_key]) = Inr None"
proof -
  have n: "''ssh-ed25519'' \<in> set signkey_names" "''ssh-rsa'' \<in> set signkey_names" by (simp_all add: signkey_names_def)
  have f: "find (\<lambda>e. ak_algo e = ''ssh-ed25519'' \<and> ak_blob e = ak_blob some_key) [some_key] = Some some_key"
    "find (\<lambda>e. ak_algo e = ''ssh-rsa'' \<and> ak_blob e = ak_blob some_key) [some_key] = None"
    by (simp_all add: some_key_def)
  have h: "base64_ok (libtom (keys_session [some_key]))" "list_all (ak_ok (libtom (keys_session [some_key]))) [some_key]"
    "length [some_key] \<le> 300"
    using hex_libtom_ok some_key_ok by (simp_all add: keys_session_def)
  have c: "conf_files (world (keys_session [some_key])) (conf_path some_globals @ ''/authorized_keys'') =
      Some (concat (map (\<lambda>e. ak_text (libtom (keys_session [some_key])) e @ [CHR 0x0A]) [some_key]))"
    by (simp add: keys_session_def)
  show ?thesis
    using authorized_keys_lookup [OF h n(1) c, of False "ak_blob some_key"]
      authorized_keys_lookup [OF h n(2) c, of False "ak_blob some_key"] f by (simp add: some_key_def)
qed



text \<open>
  A line of blanks ends the session: when the first line of the file has only blanks (at
  least as many as an algorithm name and three more), every public key attempt for a valid user and
  a known algorithm makes the process exit instead of failing, since the scan for the options asks for a byte
  behind the end of the line.
\<close>

theorem blank_line_exits:
  assumes "37 \<le> n" "n \<le> 3000" "algo \<in> set signkey_names"
    and "conf_files (world s) (conf_path g @ ''/authorized_keys'') = Some (replicate n (CHR '' '') @ [CHR 0x0A] @ r)"
  shows "checkpubkey g stale algo keyblob s = Inl (Exit ''Bad buf_getptr'')"
proof -
  note a = signkey_nameD [OF assms(3)]
  have "getline_loop DROPBEAR_MAX_LINE_LENGTH MAX_AUTHKEYS_LINE False [] (replicate n (CHR '' '') @ CHR 0x0A # r)
      = Some (False, rev [] @ replicate n (CHR '' ''), r)"
    by (rule getline_loop_line) (use assms(2) in \<open>auto simp: DROPBEAR_MAX_LINE_LENGTH_def MAX_AUTHKEYS_LINE_def\<close>)
  then have g: "buf_getline MAX_AUTHKEYS_LINE (replicate n (CHR '' '') @ CHR 0x0A # r) = Some (replicate n (CHR '' ''), r)"
    using assms(1) by (simp add: buf_getline_def)
  have "take (length algo) (replicate n (CHR '' '')) \<noteq> algo"
    using a(1,2,11) assms(1) by (metis in_set_takeD in_set_replicate)
  then have "checkpubkey_line (libtom s) stale algo keyblob (replicate n (CHR '' '')) = Inl (Exit ''Bad buf_getptr'')"
    using assms(1,2) a(11) by (simp add: checkpubkey_line_def MIN_AUTHKEYS_LINE_def MAX_AUTHKEYS_LINE_def dropWhile_replicate)
  then show ?thesis using g assms(4)
    by (simp add: checkpubkey_def conf_file_eq AUTHORIZED_KEYS_FILE_def MAX_AUTHKEYS_LINE_COUNT_def numeral_eq_Suc)
qed

theorem blank_line_exits_witness:
  "checkpubkey some_globals False ''ssh-ed25519'' (ak_blob some_key)
     (plain_session\<lparr>world := still_world\<lparr>conf_files :=
        [conf_path some_globals @ ''/authorized_keys'' \<mapsto> replicate 40 (CHR '' '') @ [CHR 0x0A] @ ak_text hex_libtom some_key]\<rparr>\<rparr>) =
   Inl (Exit ''Bad buf_getptr'')"
  by (rule blank_line_exits [of 40 _ _ _ "ak_text hex_libtom some_key"]) (simp_all add: signkey_names_def)

theorem pubkey_auth_sound_witness:
  "\<exists>s' c sigalgo keyblob keyalgo po. authdone (authstate s') \<and> c \<noteq> CHR 0x00
    \<and> svr_auth_pubkey some_globals easy_ops False True request_session = Inr s'
    \<and> checkpubkey some_globals False keyalgo keyblob request_session = Inr (Some po)
    \<and> (\<exists>q. reads (packet_of some_request) ([c] @ enc_string sigalgo @ STORE32H (of_nat (length keyblob))) q)"
proof -
  obtain s' where s': "svr_auth_pubkey some_globals easy_ops False True request_session = Inr s'" "authdone (authstate s')"
    by (rule request_accepted)
  have h: "\<not> authdone (authstate request_session)" "payload request_session = Some (packet_of some_request)"
    "session_id request_session = Some (packet_of ''id'')" "buf_ok (packet_of some_request)" "buf_ok (packet_of ''id'')"
    by (simp_all add: request_session_def zero_authstate_def packet_of_ok some_request_def ak_blob_def some_key_def)
  show ?thesis
    using pubkey_auth_sound [OF s'(1) h(1) s'(2) h(2-5) easy_ops_only] s' by blast
qed

text \<open>
  The two readers of the options disagree: the parser of the options takes a command with an
  escaped quote and a blank behind it, but the scan for the end of the options looks at the escape
  only after it has been cleared, so the escaped quote ends the quoting and the blank ends the
  options. The line is rejected for every key.
\<close>

theorem escaped_quote_rejected:
  assumes "algo \<in> set signkey_names"
  shows "svr_parse_pubkey_options False (Some (options_text [Command ([CHR 0x5C, CHR 0x22] @ '' y'' @ [CHR 0x5C, CHR 0x22])])) =
      Some (zero_pubkey_options\<lparr>forced_command := Some ([CHR 0x5C, CHR 0x22] @ '' y'' @ [CHR 0x5C, CHR 0x22])\<rparr>)
    \<and> checkpubkey_line lt stale algo keyblob
      (options_text [Command ([CHR 0x5C, CHR 0x22] @ '' y'' @ [CHR 0x5C, CHR 0x22])] @ '' '' @ ak_text lt e) = Inr None"
proof -
  have parsed: "svr_parse_pubkey_options False (Some (options_text [Command ([CHR 0x5C, CHR 0x22] @ '' y'' @ [CHR 0x5C, CHR 0x22])])) =
      Some (zero_pubkey_options\<lparr>forced_command := Some ([CHR 0x5C, CHR 0x22] @ '' y'' @ [CHR 0x5C, CHR 0x22])\<rparr>)"
    by (subst options_parsed) simp_all
  have hd: "hd algo \<noteq> CHR ''c'' \<and> hd algo \<noteq> CHR ''y''" using assms by (auto simp: signkey_names_def)
  obtain a as where a: "algo = a # as" "a \<noteq> CHR ''c''" "a \<noteq> CHR ''y''" using signkey_nameD(10) [OF assms] hd by (cases algo) auto
  have "checkpubkey_line lt stale algo keyblob
      (options_text [Command ([CHR 0x5C, CHR 0x22] @ '' y'' @ [CHR 0x5C, CHR 0x22])] @ '' '' @ ak_text lt e) = Inr None"
    using a by (simp add: checkpubkey_line_def)
  with parsed show ?thesis by blast
qed

theorem escaped_quote_rejected_witness:
  "checkpubkey_line hex_libtom False ''ssh-ed25519'' (ak_blob some_key)
     (options_text [Command ([CHR 0x5C, CHR 0x22] @ '' y'' @ [CHR 0x5C, CHR 0x22])] @ '' '' @ ak_text hex_libtom some_key) = Inr None"
  using escaped_quote_rejected [of "''ssh-ed25519''"] by (simp add: signkey_names_def)

end
