(* ===== verification/Userauth.thy ===== *)
theory Userauth
  imports Pubkey
begin

text \<open>
  The user authentication request, \<open>recv_msg_userauth_request\<close> of \<open>dropbear/src/svr-auth.c\<close>, and what holds of
  every sequence of requests: who gets in, how often a client may try, that the user name stays.
  Of the branches for passwords the one of Sshd4a is compiled, behind the one for public keys.
\<close>

section \<open>The request\<close>

definition blank_password_ok :: "bool \<Rightarrow> sshsession \<Rightarrow> bool res" where
  "blank_password_ok valid_user s =
     (if valid_user \<and> allowblankpass (svr_opts s) \<and> \<not> noauthpass (svr_opts s)
         \<and> \<not> (norootpass (svr_opts s) \<and> pw_uid (authstate s) = 0)
      then (case pw_passwd (authstate s) of None \<Rightarrow> Inl Mem_fault | Some p \<Rightarrow> Inr (cstr p = []))
      else Inr False)"

definition try_method :: "sshd4a_globals \<Rightarrow> signkey_ops \<Rightarrow> bool \<Rightarrow> byte list \<Rightarrow> bool \<Rightarrow> handler" where
  "try_method g ops stale methodname valid_user s =
     (if methodname = AUTH_METHOD_NONE then
        bindr (blank_password_ok valid_user s) (\<lambda>blank.
        if blank then send_msg_userauth_success s else send_msg_userauth_failure False False s)
      else if has_type AUTH_TYPE_PUBKEY s \<and> methodname = AUTH_METHOD_PUBKEY then svr_auth_pubkey g ops stale valid_user s
      else if has_type AUTH_TYPE_PASSWORD s \<and> methodname = AUTH_METHOD_PASSWORD then svr_auth_password g True s
      else send_msg_userauth_failure False True s)"

definition send_banner :: handler where
  "send_banner s =
     (case banner (svr_opts s) of
        None \<Rightarrow> Inr s
      | Some b \<Rightarrow> bindr (send_msg_userauth_banner b s) (\<lambda>s. Inr (s\<lparr>svr_opts := (svr_opts s)\<lparr>banner := None\<rparr>\<rparr>)))"

definition recv_msg_userauth_request :: "sshd4a_globals \<Rightarrow> signkey_ops \<Rightarrow> bool \<Rightarrow> handler" where
  "recv_msg_userauth_request g ops stale s =
     (case gettime_wrapper (world s) of (now, w) \<Rightarrow>
      let s = upd_auth (\<lambda>a. a\<lparr>auth_starttime := now\<rparr>) (s\<lparr>world := w\<rparr>) in
      if authdone (authstate s) then Inr s
      else
        bindr (send_banner s) (\<lambda>s.
        bindr (on_read buf_getstring s) (\<lambda>(user, s).
        bindr (on_read buf_getstring s) (\<lambda>(servicename, s).
        bindr (on_read buf_getstring s) (\<lambda>(methodname, s).
        if servicename \<noteq> SSH_SERVICE_CONNECTION then Inl (Exit ''unknown service in auth'')
        else
          bindr (checkusername g user s) (\<lambda>(valid_user, s).
          try_method g ops stale methodname valid_user s))))))"

section \<open>What a request changes\<close>

text \<open>
  The part of the state that a request treats as one: the options that do not change, the name, the
  counter and whether the user is in.
\<close>

text \<open>What the name check keeps of the state of authentication, and what it sets for a first name.\<close>

definition named :: "string \<Rightarrow> AuthState \<Rightarrow> AuthState \<Rightarrow> bool" where
  "named user a a' \<longleftrightarrow> username a' = Some user \<and> failcount a' = failcount a \<and> authdone a' = authdone a \<and> authtypes a' = authtypes a
     \<and> pw_passwd a' = (case pw_passwd a of None \<Rightarrow> Some ''!!'' | Some p \<Rightarrow> Some p)"

definition kept :: "AuthState \<Rightarrow> AuthState \<Rightarrow> bool" where
  "kept a a' \<longleftrightarrow> username a' = username a \<and> failcount a' = failcount a \<and> authdone a' = authdone a \<and> authtypes a' = authtypes a
     \<and> pw_passwd a' = pw_passwd a"

lemma fill_passwd_effect:
  assumes "fill_passwd g user s = Inr s'"
  shows "s' = s\<lparr>authstate := authstate s'\<rparr>"
    "named user (authstate s) ((authstate s')\<lparr>username := Some user\<rparr>)" "pw_name (authstate s') = Some user"
    "checkusername_failed (authstate s') = checkusername_failed (authstate s)"
  using assms by (auto simp: fill_passwd_def bindr_eq_Inr_iff upd_auth_def named_def Let_def split: if_splits)

lemma checkusername_effect:
  assumes "checkusername g user s = Inr (v, s')"
  shows "s' = s\<lparr>authstate := authstate s'\<rparr>"
    "length user \<le> 100 \<Longrightarrow> CHR 0x00 \<notin> set user"
    "if length user \<le> 100 \<and> username (authstate s) = None then named user (authstate s) (authstate s')
     else kept (authstate s) (authstate s')"
proof -
  have *: "s' = s\<lparr>authstate := authstate s'\<rparr> \<and> (length user \<le> 100 \<longrightarrow> CHR 0x00 \<notin> set user) \<and>
    (if length user \<le> 100 \<and> username (authstate s) = None then named user (authstate s) (authstate s')
     else kept (authstate s) (authstate s'))"
  proof (cases "length user > 100")
    case True
    then have "s' = s" using assms by (simp add: checkusername_def MAX_USERNAME_LEN_def)
    then show ?thesis using True by (simp add: kept_def)
  next
    case False
    have nul: "CHR 0x00 \<notin> set user"
      using assms False cstr_full_length [of user] by (auto simp: checkusername_def MAX_USERNAME_LEN_def split: if_splits)
    obtain t where t: "(case username (authstate s) of
            None \<Rightarrow> bindr (fill_passwd g user s) (\<lambda>s. Inr (upd_auth (\<lambda>a. a\<lparr>username := Some user\<rparr>) s))
          | Some u \<Rightarrow> if \<not> strcmp_eq user u then Inl (Exit ''Client trying multiple usernames'') else Inr s) = Inr t"
      and s': "s' = t \<or> s' = upd_auth (\<lambda>a. a\<lparr>checkusername_failed := True\<rparr>) t"
      using assms False by (auto simp: checkusername_def MAX_USERNAME_LEN_def bindr_eq_Inr_iff split: if_splits)
    show ?thesis
    proof (cases "username (authstate s)")
      case None
      obtain t0 where t0: "fill_passwd g user s = Inr t0" "t = upd_auth (\<lambda>a. a\<lparr>username := Some user\<rparr>) t0"
        using t None by (auto elim!: bindr_InrE)
      obtain a0 where e: "t0 = s\<lparr>authstate := a0\<rparr>" using fill_passwd_effect(1) [OF t0(1)] by blast
      have "s' = s\<lparr>authstate := authstate s'\<rparr>" using s' by (auto simp: t0(2) upd_auth_def e)
      moreover have "named user (authstate s) (authstate s')"
        using s' fill_passwd_effect(2) [OF t0(1)] by (auto simp: t0(2) upd_auth_def named_def)
      ultimately show ?thesis using None nul False by simp
    next
      case (Some u)
      then have "t = s" using t by (simp split: if_splits)
      then show ?thesis using s' Some nul by (auto simp: upd_auth_def kept_def)
    qed
  qed
  show "s' = s\<lparr>authstate := authstate s'\<rparr>" "length user \<le> 100 \<Longrightarrow> CHR 0x00 \<notin> set user"
    "if length user \<le> 100 \<and> username (authstate s) = None then named user (authstate s) (authstate s')
     else kept (authstate s) (authstate s')"
    using * by blast+
qed

section \<open>Passwords\<close>

text \<open>
  When a password is right: with an entry in the file, the base64 text of its SHA-512 hash is the
  text of the entry; without one, it is the stored password, which is not empty.
\<close>

definition password_matches :: "sshd4a_globals \<Rightarrow> byte list \<Rightarrow> sshsession \<Rightarrow> bool" where
  "password_matches g password s \<longleftrightarrow> length password \<le> 100 \<and> CHR 0x00 \<notin> set password \<and>
     (case sshd4a_find_user g (world s) (username (authstate s)) of
        Inl _ \<Rightarrow> False
      | Inr (Some (Some (c # cs), role)) \<Rightarrow> strcmp_eq (base64_encode (libtom s) (sha512 (libtom s) password)) (c # cs) \<and> c \<noteq> CHR 0x00
      | Inr _ \<Rightarrow> (case pw_passwd (authstate s) of None \<Rightarrow> False | Some p \<Rightarrow> cstr p = password \<and> password \<noteq> []))"

lemma find_user_cong: "conf_files w' = conf_files w \<Longrightarrow> sshd4a_find_user g w' u = sshd4a_find_user g w u"
  by (simp add: sshd4a_find_user_def)

lemma password_matches_cong:
  assumes "conf_files (world s') = conf_files (world s)" "libtom s' = libtom s" "username (authstate s') = username (authstate s)"
    "pw_passwd (authstate s') = pw_passwd (authstate s)"
  shows "password_matches g password s' = password_matches g password s"
  unfolding password_matches_def assms(2-4) find_user_cong [OF assms(1)] ..

definition with_pass :: "string option \<Rightarrow> buffer \<Rightarrow> sshsession \<Rightarrow> sshsession" where
  "with_pass p b s = s\<lparr>payload := Some b, authstate := (authstate s)\<lparr>pw_passwd := p\<rparr>\<rparr>"

definition password_right :: handler where
  "password_right s =
     (if multiauthmethod (svr_opts s) \<and> authtypes (authstate s) AND NOT AUTH_TYPE_PASSWORD \<noteq> 0
      then send_msg_userauth_failure True False (upd_auth (\<lambda>a. a\<lparr>authtypes := authtypes a AND NOT AUTH_TYPE_PASSWORD\<rparr>) s)
      else send_msg_userauth_success s)"

lemma with_pass_simps [simp]:
  "libtom (with_pass p b s) = libtom s" "svr_opts (with_pass p b s) = svr_opts s" "world (with_pass p b s) = world s"
  "authstate (with_pass p b s) = (authstate s)\<lparr>pw_passwd := p\<rparr>"
  by (simp_all add: with_pass_def)

lemma with_pass_same: "payload s = Some b \<Longrightarrow> with_pass (pw_passwd (authstate s)) b s = s"
  by (cases s) (simp add: with_pass_def)

text \<open>The check itself, once the password is read and fits.\<close>

definition password_verdict :: "string option \<times> string option \<times> sshsession \<Rightarrow> sshsession res" where
  "password_verdict v = (case v of (passwdcrypt, testcrypt, s) \<Rightarrow>
     (case testcrypt of
        None \<Rightarrow> send_msg_userauth_failure False True s
      | Some test \<Rightarrow>
          (case passwdcrypt of
             None \<Rightarrow> Inl Mem_fault
           | Some pass \<Rightarrow>
               if cstr pass = [] then send_msg_userauth_failure False True s
               else if cstr test = cstr pass then password_right s else send_msg_userauth_failure False True s)))"

lemma password_verdict_simps:
  "password_verdict (p, None, s) = send_msg_userauth_failure False True s"
  "password_verdict (None, Some q, s) = Inl Mem_fault"
  "password_verdict (Some r, Some q, s) = (if cstr q = cstr r \<and> cstr r \<noteq> [] then password_right s else send_msg_userauth_failure False True s)"
  by (simp_all add: password_verdict_def)

lemma svr_auth_password_eq:
  "svr_auth_password g True s = bindr (on_read buf_getbool s) (\<lambda>(changepw, s).
     if changepw then send_msg_userauth_failure False True s
     else bindr (on_read buf_getstring s) (\<lambda>(password, s).
       if length password > 100 then send_msg_userauth_failure False True s
       else bindr (sshd4a_svr_auth_password g password s) password_verdict))"
proof -
  have cmp: "bindr (constant_time_strcmp x y) (\<lambda>r. if r = 0 then A else B) = (if cstr x = cstr y then A else B)" for x y and A B :: "sshsession res"
    using constant_time_strcmp_eq [of x y] by auto
  have v: "password_verdict = (\<lambda>(passwdcrypt, testcrypt, s).
       case testcrypt of
         None \<Rightarrow> send_msg_userauth_failure False True s
       | Some test \<Rightarrow>
           (case passwdcrypt of
              None \<Rightarrow> Inl Mem_fault
            | Some pass \<Rightarrow>
                if cstr pass = [] then send_msg_userauth_failure False True s
                else bindr (constant_time_strcmp test pass) (\<lambda>r.
                  if r = 0 then
                    (if multiauthmethod (svr_opts s) \<and> authtypes (authstate s) AND NOT AUTH_TYPE_PASSWORD \<noteq> 0 then
                       send_msg_userauth_failure True False (upd_auth (\<lambda>a. a\<lparr>authtypes := authtypes a AND NOT AUTH_TYPE_PASSWORD\<rparr>) s)
                     else send_msg_userauth_success s)
                  else send_msg_userauth_failure False True s)))"
    unfolding cmp by (rule ext) (simp add: password_verdict_def password_right_def split: prod.splits option.splits)
  show ?thesis unfolding svr_auth_password_def DROPBEAR_MAX_PASSWORD_LEN_def v
    by (intro bindr_cong) (auto simp: not_less intro!: bindr_cong split: prod.splits)
qed

lemma password_checked:
  assumes "payload s = Some b" "length password \<le> 100" "sshd4a_find_user g (world s) (username (authstate s)) = Inr found"
  shows "bindr (sshd4a_svr_auth_password g password s) password_verdict = Inl Mem_fault \<and> pw_passwd (authstate s) = None
    \<or> (\<exists>p. bindr (sshd4a_svr_auth_password g password s) password_verdict =
         (if password_matches g password s then password_right (with_pass p b s) else send_msg_userauth_failure False True (with_pass p b s)))"
proof (cases "\<exists>c cs role. found = Some (Some (c # cs), role)")
  case True
  then obtain c cs role where found: "found = Some (Some (c # cs), role)" by blast
  let ?t = "base64_encode (libtom s) (sha512 (libtom s) password)"
  have u: "upd_auth (\<lambda>a. a\<lparr>pw_passwd := Some (c # cs)\<rparr>) s = with_pass (Some (c # cs)) b s"
    using assms(1) by (cases s) (simp add: upd_auth_def with_pass_def)
  have n: "cstr (c # cs) = [] \<longleftrightarrow> c = CHR 0x00" by (simp add: cstr_def)
  have w: "length password = length (cstr password) \<longleftrightarrow> CHR 0x00 \<notin> set password" using cstr_full_length [of password] by metis
  have v: "sshd4a_svr_auth_password g password s = Inr (Some (c # cs), if CHR 0x00 \<notin> set password then Some ?t else None, with_pass (Some (c # cs)) b s)"
    by (simp add: sshd4a_svr_auth_password_def assms(3) found Let_def u w)
  have m: "password_matches g password s \<longleftrightarrow> CHR 0x00 \<notin> set password \<and> cstr ?t = cstr (c # cs) \<and> c \<noteq> CHR 0x00"
    using assms(2) by (simp add: password_matches_def assms(3) found strcmp_eq_def)
  have "bindr (sshd4a_svr_auth_password g password s) password_verdict =
      (if password_matches g password s then password_right (with_pass (Some (c # cs)) b s)
       else send_msg_userauth_failure False True (with_pass (Some (c # cs)) b s))"
  proof (cases "CHR 0x00 \<in> set password")
    case True
    then show ?thesis unfolding v m by (simp add: password_verdict_simps)
  next
    case False
    then show ?thesis unfolding v m by (simp only: n password_verdict_simps bindr_Inr if_True not_False_eq_True simp_thms)
  qed
  then show ?thesis by blast
next
  case False
  have m: "password_matches g password s \<longleftrightarrow> CHR 0x00 \<notin> set password \<and> (case pw_passwd (authstate s) of None \<Rightarrow> False | Some p \<Rightarrow> cstr p = password \<and> password \<noteq> [])"
    using False assms(2) by (auto simp: password_matches_def assms(3) split: option.splits list.splits)
  have v: "sshd4a_svr_auth_password g password s =
      Inr (pw_passwd (authstate s), if CHR 0x00 \<notin> set password then Some password else None, s)"
  proof -
    have w: "length password = length (cstr password) \<longleftrightarrow> CHR 0x00 \<notin> set password" using cstr_full_length [of password] by metis
    have "sshd4a_svr_auth_password g password s =
        Inr (pw_passwd (authstate s), if length password = length (cstr password) then Some (cstr password) else None, s)"
      using False by (auto simp: sshd4a_svr_auth_password_def assms(3) split: option.splits list.splits)
    then show ?thesis unfolding w using cstr_no_nul [of password] by simp
  qed
  have "bindr (sshd4a_svr_auth_password g password s) password_verdict = Inl Mem_fault \<and> pw_passwd (authstate s) = None
    \<or> bindr (sshd4a_svr_auth_password g password s) password_verdict =
      (if password_matches g password s then password_right s else send_msg_userauth_failure False True s)"
    by (cases "CHR 0x00 \<in> set password"; cases "pw_passwd (authstate s)") (auto simp: v m password_verdict_simps)
  then show ?thesis using with_pass_same [OF assms(1)] by metis
qed

text \<open>The whole request with a password.\<close>

lemma password_request:
  assumes "svr_auth_password g True s = Inr s'"
  obtains b0 changepw b where "payload s = Some b0" "buf_getbool b0 = Inr (changepw, b)"
    "if changepw then send_msg_userauth_failure False True (s\<lparr>payload := Some b\<rparr>) = Inr s'
     else \<exists>password b' p. buf_getstring b = Inr (password, b')
       \<and> (if password_matches g password s then password_right (with_pass p b' s)
          else send_msg_userauth_failure False True (with_pass p b' s)) = Inr s'"
proof -
  obtain changepw s1 where s1: "on_read buf_getbool s = Inr (changepw, s1)" using assms by (auto simp: svr_auth_password_eq elim!: bindr_InrE)
  obtain b0 b where b: "payload s = Some b0" "buf_getbool b0 = Inr (changepw, b)" "s1 = s\<lparr>payload := Some b\<rparr>"
    using s1 by (rule on_read_effect)
  show thesis
  proof (cases changepw)
    case True
    then show thesis using assms that [OF b(1,2)] s1 b(3) by (auto simp: svr_auth_password_eq)
  next
    case False
    obtain password s2 where s2: "on_read buf_getstring s1 = Inr (password, s2)"
      using assms s1 False by (auto simp: svr_auth_password_eq elim!: bindr_InrE)
    obtain b' where b': "buf_getstring b = Inr (password, b')" "s2 = s\<lparr>payload := Some b'\<rparr>"
      using s2 b(3) by (auto elim!: on_read_effect)
    have pm: "password_matches g password s2 = password_matches g password s" using b'(2) by (intro password_matches_cong) simp_all
    have wp: "with_pass p b' s2 = with_pass p b' s" for p using b'(2) by (simp add: with_pass_def)
    have r: "(if length password > 100 then send_msg_userauth_failure False True s2
       else bindr (sshd4a_svr_auth_password g password s2) password_verdict) = Inr s'"
      using assms s1 False s2 by (simp add: svr_auth_password_eq)
    have "\<exists>p. (if password_matches g password s then password_right (with_pass p b' s)
          else send_msg_userauth_failure False True (with_pass p b' s)) = Inr s'"
    proof (cases "length password \<le> 100")
      case True
      obtain found where "sshd4a_find_user g (world s2) (username (authstate s2)) = Inr found"
        using r True by (auto simp: sshd4a_svr_auth_password_def elim!: bindr_InrE)
      then show ?thesis using password_checked [of s2 b' password g found] r True b'(2) unfolding pm wp by auto
    next
      case long: False
      then have "\<not> password_matches g password s" by (simp add: password_matches_def)
      moreover have "s2 = with_pass (pw_passwd (authstate s)) b' s" using b'(2) by (simp add: with_pass_def)
      ultimately show ?thesis using r long by auto
    qed
    then show thesis using that [OF b(1,2)] False b'(1) by simp
  qed
qed

section \<open>Stages of a request\<close>

text \<open>The options without the banner, which is sent once.\<close>

definition fixed_opts :: "sshsession \<Rightarrow> svr_runopts" where
  "fixed_opts s = (svr_opts s)\<lparr>banner := None\<rparr>"

lemma fixed_optsD:
  assumes "fixed_opts s' = fixed_opts s"
  shows "maxauthtries (svr_opts s') = maxauthtries (svr_opts s)" "multiauthmethod (svr_opts s') = multiauthmethod (svr_opts s)"
    "allowblankpass (svr_opts s') = allowblankpass (svr_opts s)" "noauthpass (svr_opts s') = noauthpass (svr_opts s)"
    "norootpass (svr_opts s') = norootpass (svr_opts s)"
  using assms unfolding fixed_opts_def
  by (cases "svr_opts s'"; cases "svr_opts s"; simp)+

lemma send_banner_effect:
  assumes "send_banner s = Inr s'"
  shows "authstate s' = authstate s" "payload s' = payload s" "conf_files (world s') = conf_files (world s)"
    "libtom s' = libtom s" "fixed_opts s' = fixed_opts s" "session_id s' = session_id s"
proof -
  have "\<exists>t. (s' = t \<or> s' = t\<lparr>svr_opts := (svr_opts t)\<lparr>banner := None\<rparr>\<rparr>) \<and> unwired t = unwired s"
  proof (cases "banner (svr_opts s)")
    case None
    then show ?thesis using assms by (auto simp: send_banner_def)
  next
    case (Some b)
    then obtain t where "send_msg_userauth_banner b s = Inr t" "s' = t\<lparr>svr_opts := (svr_opts t)\<lparr>banner := None\<rparr>\<rparr>"
      using assms by (auto simp: send_banner_def elim!: bindr_InrE)
    then show ?thesis unfolding send_msg_userauth_banner_def
      by (elim bindr_InrE) (metis put_wire(1,3) on_write_wire encrypt_packet_wire)
  qed
  then obtain t where t: "s' = t \<or> s' = t\<lparr>svr_opts := (svr_opts t)\<lparr>banner := None\<rparr>\<rparr>" "unwired t = unwired s" by blast
  note u = unwiredD(2,5,13,14,17,40) [OF t(2)]
  show "authstate s' = authstate s" "payload s' = payload s" "conf_files (world s') = conf_files (world s)"
    "libtom s' = libtom s" "fixed_opts s' = fixed_opts s" "session_id s' = session_id s"
    using t(1) u by (auto simp: fixed_opts_def)
qed

lemma userauth_stages:
  assumes "recv_msg_userauth_request g ops stale s = Inr s'" "\<not> authdone (authstate s)"
  obtains b b1 b2 b3 user methodname t where "payload s = Some b" "buf_getstring b = Inr (user, b1)"
    "buf_getstring b1 = Inr (SSH_SERVICE_CONNECTION, b2)" "buf_getstring b2 = Inr (methodname, b3)"
    "payload t = Some b3" "fixed_opts t = fixed_opts s" "conf_files (world t) = conf_files (world s)" "libtom t = libtom s"
    "session_id t = session_id s"
    "if length user \<le> 100 \<and> username (authstate s) = None then named user (authstate s) (authstate t)
     else kept (authstate s) (authstate t)"
    "\<exists>valid_user. try_method g ops stale methodname valid_user t = Inr s'"
proof -
  obtain now w where w: "gettime_wrapper (world s) = (now, w)" by (cases "gettime_wrapper (world s)")
  let ?s0 = "upd_auth (\<lambda>a. a\<lparr>auth_starttime := now\<rparr>) (s\<lparr>world := w\<rparr>)"
  have cf: "conf_files w = conf_files (world s)" using w by (auto simp: gettime_wrapper_def)
  obtain s1 user s2 service s3 methodname s4 v t where st: "send_banner ?s0 = Inr s1" "on_read buf_getstring s1 = Inr (user, s2)"
      "on_read buf_getstring s2 = Inr (service, s3)" "on_read buf_getstring s3 = Inr (methodname, s4)"
      "service = SSH_SERVICE_CONNECTION" "checkusername g user s4 = Inr (v, t)" "try_method g ops stale methodname v t = Inr s'"
    using assms unfolding recv_msg_userauth_request_def w
    by (auto simp: upd_auth_def elim!: bindr_InrE split: if_splits)
  note e1 = send_banner_effect [OF st(1)]
  obtain b b1 where b1: "payload s1 = Some b" "buf_getstring b = Inr (user, b1)" "s2 = s1\<lparr>payload := Some b1\<rparr>" using st(2) by (rule on_read_effect)
  obtain b2 where b2: "buf_getstring b1 = Inr (service, b2)" "s3 = s1\<lparr>payload := Some b2\<rparr>" using st(3) b1(3) by (auto elim!: on_read_effect)
  obtain b3 where b3: "buf_getstring b2 = Inr (methodname, b3)" "s4 = s1\<lparr>payload := Some b3\<rparr>" using st(4) b2(2) by (auto elim!: on_read_effect)
  note c = checkusername_effect [OF st(6)]
  obtain a where a: "t = s4\<lparr>authstate := a\<rparr>" using c(1) by blast
  have nk: "if length user \<le> 100 \<and> username (authstate s) = None then named user (authstate s) (authstate t) else kept (authstate s) (authstate t)"
    using c(3) b3(2) e1(1) by (simp add: upd_auth_def named_def kept_def split: if_splits)
  show thesis
  proof (rule that)
    show "payload s = Some b" using b1(1) e1(2) by (simp add: upd_auth_def)
    show "buf_getstring b = Inr (user, b1)" "buf_getstring b1 = Inr (SSH_SERVICE_CONNECTION, b2)" "buf_getstring b2 = Inr (methodname, b3)"
      using b1(2) b2(1) b3(1) st(5) by simp_all
    show "payload t = Some b3" "conf_files (world t) = conf_files (world s)" "libtom t = libtom s" "session_id t = session_id s"
      using a b3(2) e1(3,4,6) cf by (simp_all add: upd_auth_def)
    show "fixed_opts t = fixed_opts s" using a b3(2) e1(5) by (simp add: upd_auth_def fixed_opts_def)
    show "\<exists>valid_user. try_method g ops stale methodname valid_user t = Inr s'" using st(7) by blast
  qed (fact nk)
qed

section \<open>Attempts are counted\<close>

text \<open>
  \<open>alike\<close> relates states that agree in what the counting of attempts is about, \<open>fair\<close> a state with a
  later one: same options and name, and a counter that is the same or at most the limit.
\<close>

definition alike :: "sshsession \<Rightarrow> sshsession \<Rightarrow> bool" where
  "alike s t \<longleftrightarrow> fixed_opts t = fixed_opts s \<and> username (authstate t) = username (authstate s)
     \<and> failcount (authstate t) = failcount (authstate s) \<and> authdone (authstate t) = authdone (authstate s)"

definition fair :: "sshsession \<Rightarrow> sshsession \<Rightarrow> bool" where
  "fair s s' \<longleftrightarrow> fixed_opts s' = fixed_opts s \<and> username (authstate s') = username (authstate s)
     \<and> (failcount (authstate s') = failcount (authstate s) \<or> failcount (authstate s') \<le> maxauthtries (svr_opts s))"

lemma alike_refl: "alike s s"
  by (simp add: alike_def)

lemma alike_fair: "alike s t \<Longrightarrow> fair s t"
  by (simp add: alike_def fair_def)

lemma failure_fair: "send_msg_userauth_failure p i t = Inr s' \<Longrightarrow> alike s t \<Longrightarrow> fair s s'"
  using failure_effect [of p i t s'] fixed_optsD(1) [of t s] by (auto simp: alike_def fair_def fixed_opts_def)

lemma success_fair: "send_msg_userauth_success t = Inr s' \<Longrightarrow> alike s t \<Longrightarrow> fair s s'"
  using success_effect [of t s'] by (auto simp: alike_def fair_def fixed_opts_def)

lemma password_right_fair: "password_right t = Inr s' \<Longrightarrow> alike s t \<Longrightarrow> fair s s'"
  unfolding password_right_def
  by (auto split: if_splits intro: success_fair failure_fair [of _ _ "upd_auth _ _"] simp: alike_def upd_auth_def fixed_opts_def)

lemma svr_auth_password_fair:
  assumes "svr_auth_password g True s = Inr s'"
  shows "fair s s'"
proof -
  obtain b0 changepw b where rd: "payload s = Some b0" "buf_getbool b0 = Inr (changepw, b)"
    and c: "if changepw then send_msg_userauth_failure False True (s\<lparr>payload := Some b\<rparr>) = Inr s'
     else \<exists>password b' p. buf_getstring b = Inr (password, b')
       \<and> (if password_matches g password s then password_right (with_pass p b' s)
          else send_msg_userauth_failure False True (with_pass p b' s)) = Inr s'"
    by (rule password_request [OF assms])
  have a: "alike s (s\<lparr>payload := Some b\<rparr>)" "alike s (with_pass p b' s)" for p b'
    by (simp_all add: alike_def fixed_opts_def)
  show ?thesis using c failure_fair a password_right_fair by (auto split: if_splits)
qed

lemma pubkey_verified_fair:
  assumes "pubkey_verified po t = Inr s'" "alike s t"
  shows "fair s s'"
proof -
  let ?t = "if pubkey_options (authstate t) = None then upd_auth (\<lambda>a. a\<lparr>pubkey_options := Some po\<rparr>) t else t"
  have a: "alike s ?t" "alike s (upd_auth (\<lambda>a. a\<lparr>authtypes := authtypes a AND NOT AUTH_TYPE_PUBKEY\<rparr>) ?t)"
    using assms(2) by (simp_all add: alike_def upd_auth_def fixed_opts_def)
  have "send_msg_userauth_failure True False (upd_auth (\<lambda>a. a\<lparr>authtypes := authtypes a AND NOT AUTH_TYPE_PUBKEY\<rparr>) ?t) = Inr s'
      \<or> send_msg_userauth_success ?t = Inr s'"
    using assms(1) unfolding pubkey_verified_def Let_def by (metis (no_types, lifting))
  then show ?thesis using failure_fair [OF _ a(2)] success_fair [OF _ a(1)] by blast
qed

lemma svr_auth_pubkey_fair:
  assumes "svr_auth_pubkey g ops stale v s = Inr s'"
  shows "fair s s'"
proof -
  obtain real s1 sigalgo s2 n s3 keyblob s4 where st: "on_read buf_getbool s = Inr (real, s1)"
      "on_read buf_getstring s1 = Inr (sigalgo, s2)" "on_read buf_getint s2 = Inr (n, s3)" "on_read (peek n) s3 = Inr (keyblob, s4)"
    and r: "(if \<not> v then send_msg_userauth_failure False False s4
       else pubkey_attempt g ops stale (\<not> real) sigalgo keyblob s4) = Inr s'"
    using assms unfolding svr_auth_pubkey_def by (auto elim!: bindr_InrE)
  have a4: "alike s s4" using st by (auto elim!: on_read_effect simp: alike_def fixed_opts_def)
  have bad: "fair s s'" if bk: "bad_key s4 = Inr s'"
  proof -
    obtain i t where t: "send_msg_userauth_failure False i s4 = Inr t"
        "s' = upd_auth (\<lambda>a. a\<lparr>serv_pubkey_query_count := serv_pubkey_query_count a + 1\<rparr>) t"
      using bk by (auto simp: bad_key_def Let_def elim!: bindr_InrE)
    show ?thesis using failure_fair [OF t(1) a4] t(2) by (auto simp: fair_def upd_auth_def fixed_opts_def)
  qed
  have pk: "fair s s'" if "send_msg_userauth_pk_ok sigalgo keyblob s4 = Inr s'"
    using pk_ok_effect [OF that] a4 unwiredD(2,14) [of s' s4] by (simp add: alike_def fair_def fixed_opts_def)
  have ver: "fair s s'" if vr: "verify_request ops st kt po s4 = Inr s'" for st kt po
  proof -
    obtain found t key s5 where s5: "on_read (buf_get_pub_key ops kt new_sign_key) s4 = Inr ((found, t, key), s5)"
      using vr by (auto simp: verify_request_def elim!: bindr_InrE)
    have a5: "alike s s5" using s5 a4 by (auto elim!: on_read_effect simp: alike_def fixed_opts_def)
    show ?thesis
    proof (cases found)
      case False
      then show ?thesis using vr s5 failure_fair [OF _ a5] by (simp add: verify_request_def)
    next
      case True
      then obtain data s6 verified s7 where s6: "signed_data s5 = Inr (data, s6)"
          "on_read (buf_verify ops (key\<lparr>sk_flags_mask := flags_mask po\<rparr>) st data) s6 = Inr (verified, s7)"
        and fin: "(if verified then pubkey_verified po s7 else send_msg_userauth_failure False True s7) = Inr s'"
        using vr s5 by (auto simp: verify_request_def elim!: bindr_InrE)
      have "alike s s6" using s6(1) a5
        by (auto simp: signed_data_def Let_def alike_def fixed_opts_def elim!: bindr_InrE split: option.splits)
      then have a7: "alike s s7" using s6(2) by (auto elim!: on_read_effect simp: alike_def fixed_opts_def)
      show ?thesis using fin failure_fair [OF _ a7] pubkey_verified_fair [OF _ a7] by (simp split: if_splits)
    qed
  qed
  show ?thesis
    using r bad pk ver failure_fair [OF _ a4] unfolding pubkey_attempt_def Let_def
    by (auto elim!: bindr_InrE split: if_splits option.splits)
qed

lemma try_method_fair:
  assumes "try_method g ops stale m v t = Inr s'"
  shows "fair t s'"
  using assms svr_auth_password_fair svr_auth_pubkey_fair success_fair [OF _ alike_refl] failure_fair [OF _ alike_refl]
  unfolding try_method_def by (auto elim!: bindr_InrE split: if_splits)

lemma fair_trans_named:
  assumes "fair t s'" "fixed_opts t = fixed_opts s" "failcount (authstate t) = failcount (authstate s)"
  shows "fixed_opts s' = fixed_opts s" "failcount (authstate s') = failcount (authstate s) \<or> failcount (authstate s') \<le> maxauthtries (svr_opts s)"
    "username (authstate s') = username (authstate t)"
  using assms fixed_optsD(1) [of t s] by (auto simp: fair_def)

lemma request_effect:
  assumes "recv_msg_userauth_request g ops stale s = Inr s'"
  shows "fixed_opts s' = fixed_opts s" "failcount (authstate s') = failcount (authstate s) \<or> failcount (authstate s') \<le> maxauthtries (svr_opts s)"
    "username (authstate s) = Some u \<Longrightarrow> username (authstate s') = Some u"
    "authdone (authstate s) \<Longrightarrow> authdone (authstate s')"
proof -
  have *: "fixed_opts s' = fixed_opts s \<and> (failcount (authstate s') = failcount (authstate s) \<or> failcount (authstate s') \<le> maxauthtries (svr_opts s))
    \<and> (username (authstate s) = Some u \<longrightarrow> username (authstate s') = Some u) \<and> (authdone (authstate s) \<longrightarrow> authdone (authstate s'))"
  proof (cases "authdone (authstate s)")
    case True
    then show ?thesis using assms
      by (auto simp: recv_msg_userauth_request_def upd_auth_def fixed_opts_def split: prod.splits)
  next
    case False
    obtain b b1 b2 b3 user methodname t where st: "payload s = Some b" "buf_getstring b = Inr (user, b1)"
      "buf_getstring b1 = Inr (SSH_SERVICE_CONNECTION, b2)" "buf_getstring b2 = Inr (methodname, b3)"
      "payload t = Some b3" "fixed_opts t = fixed_opts s" "conf_files (world t) = conf_files (world s)" "libtom t = libtom s"
      "session_id t = session_id s"
      "if length user \<le> 100 \<and> username (authstate s) = None then named user (authstate s) (authstate t)
       else kept (authstate s) (authstate t)"
      "\<exists>valid_user. try_method g ops stale methodname valid_user t = Inr s'"
      by (rule userauth_stages [OF assms False])
    have "fair t s'" using st(11) try_method_fair by blast
    moreover have fc: "failcount (authstate t) = failcount (authstate s)" "username (authstate s) = Some u \<longrightarrow> username (authstate t) = Some u"
      using st(10) by (auto simp: named_def kept_def split: if_splits)
    ultimately show ?thesis using fair_trans_named [OF _ st(6) fc(1)] False by metis
  qed
  show "fixed_opts s' = fixed_opts s" "failcount (authstate s') = failcount (authstate s) \<or> failcount (authstate s') \<le> maxauthtries (svr_opts s)"
    "username (authstate s) = Some u \<Longrightarrow> username (authstate s') = Some u" "authdone (authstate s) \<Longrightarrow> authdone (authstate s')"
    using * by blast+
qed

text \<open>A step is a request that arrives, as the payload of a packet; the machine of all requests.\<close>

definition auth_step :: "sshd4a_globals \<Rightarrow> signkey_ops \<Rightarrow> bool \<Rightarrow> sshsession \<Rightarrow> buffer \<Rightarrow> sshsession res" where
  "auth_step g ops stale s b = recv_msg_userauth_request g ops stale (s\<lparr>payload := Some b\<rparr>)"

definition auth_inv :: "u32 \<Rightarrow> string option \<Rightarrow> sshsession \<Rightarrow> bool" where
  "auth_inv m u s \<longleftrightarrow> maxauthtries (svr_opts s) = m \<and> failcount (authstate s) \<le> m \<and> (u = None \<or> username (authstate s) = u)"

lemma auth_step_effect:
  assumes "auth_step g ops stale s b = Inr s'"
  shows "fixed_opts s' = fixed_opts s" "failcount (authstate s') = failcount (authstate s) \<or> failcount (authstate s') \<le> maxauthtries (svr_opts s)"
    "username (authstate s) = Some u \<Longrightarrow> username (authstate s') = Some u" "authdone (authstate s) \<Longrightarrow> authdone (authstate s')"
  using request_effect [OF assms [unfolded auth_step_def]] by (simp_all add: fixed_opts_def)

interpretation requests: invariant_machine "auth_step g ops stale" "auth_inv m u" for g ops stale m u
proof
  fix s b s' assume "auth_inv m u s" "auth_step g ops stale s b = Inr s'"
  then show "auth_inv m u s'"
    using auth_step_effect [of g ops stale s b s'] fixed_optsD(1) [of s' s] by (cases u) (auto simp: auth_inv_def)
qed

interpretation logged_in: invariant_machine "auth_step g ops stale" "\<lambda>s. authdone (authstate s)" for g ops stale
  by unfold_locales (rule auth_step_effect(4))

section \<open>Logging in with a password\<close>

text \<open>The session as it is for the password check, once the name of the first request is taken.\<close>

definition identified :: "string \<Rightarrow> sshsession \<Rightarrow> sshsession" where
  "identified user s = (if length user \<le> 100 \<and> username (authstate s) = None
     then upd_auth (\<lambda>a. a\<lparr>username := Some user, pw_passwd := (case pw_passwd a of None \<Rightarrow> Some ''!!'' | Some p \<Rightarrow> Some p)\<rparr>) s else s)"

lemma password_forward:
  assumes "payload s = Some b" "buf_ok b" "buf_rest b = CHR 0x00 # enc_string password @ r" "string_ok password"
    and "sshd4a_find_user g (world s) (username (authstate s)) = Inr found" "pw_passwd (authstate s) \<noteq> None"
  shows "\<exists>p b'. svr_auth_password g True s =
    (if password_matches g password s then password_right (with_pass p b' s) else send_msg_userauth_failure False True (with_pass p b' s))"
proof -
  have b1: "buf_getbool b = Inr (False, buf_skip b 1)" using assms(2,3) by (simp add: buf_getbool_eq)
  have ok1: "buf_ok (buf_skip b 1)" "buf_rest (buf_skip b 1) = enc_string password @ r"
    using skip_over [OF assms(2), of "[CHR 0x00]"] assms(3) by simp_all
  have b2: "buf_getstring (buf_skip b 1) = Inr (password, buf_skip b (5 + length password))"
    using buf_getstring_enc [OF ok1(1) assms(4) ok1(2)] by simp
  let ?b = "buf_skip b (5 + length password)" and ?s = "s\<lparr>payload := Some (buf_skip b (5 + length password))\<rparr>"
  have e: "svr_auth_password g True s = (if length password > 100 then send_msg_userauth_failure False True ?s
      else bindr (sshd4a_svr_auth_password g password ?s) password_verdict)"
    using assms(1) b1 b2 by (simp add: svr_auth_password_eq on_read_def)
  have pm: "password_matches g password ?s = password_matches g password s" by (intro password_matches_cong) simp_all
  have wp: "with_pass p ?b ?s = with_pass p ?b s" for p by (simp add: with_pass_def)
  show ?thesis
  proof (cases "length password \<le> 100")
    case False
    then have "\<not> password_matches g password s" by (simp add: password_matches_def)
    moreover have "with_pass (pw_passwd (authstate s)) ?b s = ?s" by (simp add: with_pass_def)
    ultimately show ?thesis using e False by (metis not_le)
  next
    case True
    obtain p where "bindr (sshd4a_svr_auth_password g password ?s) password_verdict =
        (if password_matches g password s then password_right (with_pass p ?b s) else send_msg_userauth_failure False True (with_pass p ?b s))"
      using password_checked [of ?s ?b password g found] assms(5,6) True unfolding pm wp by auto
    then show ?thesis using e True by (intro exI [of _ p] exI [of _ ?b]) simp
  qed
qed

text \<open>A fresh session is one before the first name, which can send; a request in its bytes.\<close>

definition fresh_auth :: "sshsession \<Rightarrow> bool" where
  "fresh_auth s \<longleftrightarrow> ready_to_send s \<and> banner (svr_opts s) = None \<and> \<not> authdone (authstate s) \<and> username (authstate s) = None
     \<and> \<not> checkusername_failed (authstate s) \<and> \<not> multiauthmethod (svr_opts s) \<and> failcount (authstate s) < maxauthtries (svr_opts s)"

definition request_bytes :: "string \<Rightarrow> string \<Rightarrow> byte list \<Rightarrow> byte list" where
  "request_bytes user methodname r = enc_string user @ enc_string ''ssh-connection'' @ enc_string methodname @ r"

lemma checkusername_first:
  assumes "username (authstate s) = None" "length user \<le> 100" "CHR 0x00 \<notin> set user" "\<not> checkusername_failed (authstate s)"
    and "sshd4a_find_user g (world s) (Some user) = Inr found"
  shows "\<exists>a. checkusername g user s = Inr (True, s\<lparr>authstate := a\<rparr>) \<and> named user (authstate s) a"
proof -
  have "\<exists>t. fill_passwd g user s = Inr t"
    using assms(5) by (auto simp: fill_passwd_def sshd4a_get_role_for_user_def Let_def split: option.splits prod.splits)
  then obtain t where t: "fill_passwd g user s = Inr t" by blast
  obtain a where a: "t = s\<lparr>authstate := a\<rparr>" using fill_passwd_effect(1) [OF t] by blast
  note e = fill_passwd_effect(2-4) [OF t]
  have "checkusername g user s = Inr (True, s\<lparr>authstate := a\<lparr>username := Some user\<rparr>\<rparr>)"
    using assms t a e(2,3) cstr_no_nul [OF assms(3)] by (simp add: checkusername_def MAX_USERNAME_LEN_def upd_auth_def)
  then show ?thesis using e(1) a by auto
qed

lemma three_strings:
  assumes "buf_ok b" "buf_rest b = request_bytes user m r" "string_ok user" "string_ok m"
  obtains b1 b2 b3 where "buf_getstring b = Inr (user, b1)" "buf_getstring b1 = Inr (SSH_SERVICE_CONNECTION, b2)"
    "buf_getstring b2 = Inr (m, b3)" "buf_ok b3" "buf_rest b3 = r"
proof -
  have sc: "SSH_SERVICE_CONNECTION = ''ssh-connection''" "string_ok ''ssh-connection''"
    by (simp_all add: SSH_SERVICE_CONNECTION_def string_ok_def)
  note r0 = assms(2) [unfolded request_bytes_def]
  note g1 = buf_getstring_enc [OF assms(1,3) r0] and s1 = skip_over [OF assms(1) r0]
  note g2 = buf_getstring_enc [OF s1(1) sc(2) s1(2)] and s2 = skip_over [OF s1]
  note g3 = buf_getstring_enc [OF s2(1) assms(4) s2(2)] and s3 = skip_over [OF s2]
  show thesis by (rule that [OF g1 g2 [folded sc(1)] g3 [folded sc(1)] s3 [folded sc(1)]])
qed

lemma request_forward:
  assumes "fresh_auth s" "payload s = Some b" "buf_ok b" "buf_rest b = request_bytes user m r" "string_ok m"
    and "length user \<le> 100" "CHR 0x00 \<notin> set user" "sshd4a_find_user g (world s) (Some user) = Inr found"
  obtains w a b' where "recv_msg_userauth_request g ops stale s = try_method g ops stale m True (s\<lparr>world := w, payload := Some b', authstate := a\<rparr>)"
    "conf_files w = conf_files (world s)" "named user (authstate s) a" "buf_ok b'" "buf_rest b' = r"
    "ready_to_send (s\<lparr>world := w, payload := Some b', authstate := a\<rparr>)"
proof -
  obtain now w where w: "gettime_wrapper (world s) = (now, w)" by (cases "gettime_wrapper (world s)")
  have cf: "conf_files w = conf_files (world s)" using w by (auto simp: gettime_wrapper_def)
  have su: "string_ok user" using assms(6) by (simp add: string_ok_def)
  obtain b1 b2 b3 where b: "buf_getstring b = Inr (user, b1)" "buf_getstring b1 = Inr (SSH_SERVICE_CONNECTION, b2)"
    "buf_getstring b2 = Inr (m, b3)" "buf_ok b3" "buf_rest b3 = r"
    by (rule three_strings [OF assms(3,4) su assms(5)])
  let ?s = "s\<lparr>world := w, authstate := (authstate s)\<lparr>auth_starttime := now\<rparr>, payload := Some b3\<rparr>"
  have fu: "sshd4a_find_user g (world ?s) (Some user) = Inr found" using find_user_cong [of "world ?s" "world s"] cf assms(8) by simp
  obtain a where a: "checkusername g user ?s = Inr (True, ?s\<lparr>authstate := a\<rparr>)" "named user (authstate ?s) a"
    using checkusername_first [OF _ assms(6,7) _ fu] assms(1) by (auto simp: fresh_auth_def)
  have "recv_msg_userauth_request g ops stale s = try_method g ops stale m True (?s\<lparr>authstate := a\<rparr>)"
    using assms(1,2) b(1-3) a(1) by (simp add: recv_msg_userauth_request_def w upd_auth_def fresh_auth_def send_banner_def on_read_def)
  then have "recv_msg_userauth_request g ops stale s = try_method g ops stale m True (s\<lparr>world := w, payload := Some b3, authstate := a\<rparr>)"
    by simp
  moreover have "named user (authstate s) a" using a(2) by (simp add: named_def)
  moreover have "ready_to_send (s\<lparr>world := w, payload := Some b3, authstate := a\<rparr>)"
    using assms(1) by (simp add: fresh_auth_def ready_to_send_def trans_ok_def payload_ready_def)
  ultimately show thesis using that cf b(4,5) by blast
qed

lemma failure_ok:
  assumes "ready_to_send s" "failcount (authstate s) + (if incrfail then 1 else 0) \<le> maxauthtries (svr_opts s)"
  shows "\<exists>s'. send_msg_userauth_failure partial incrfail s = Inr s'"
proof -
  obtain t where t: "send_msg_userauth_failure partial incrfail s =
      (let s' = (if incrfail then upd_auth (\<lambda>a. a\<lparr>failcount := failcount a + 1\<rparr>) (sleep_after_failure t) else t) in
       if failcount (authstate s') > maxauthtries (svr_opts s') then Inl (Exit ''Max auth tries reached'') else Inr s')"
    "sends (failure_message partial s) s t"
    by (rule failure_sends [OF assms(1)])
  have u: "unwired t = unwired s" using t(2) by (simp add: sends_def)
  let ?s = "if incrfail then upd_auth (\<lambda>a. a\<lparr>failcount := failcount a + 1\<rparr>) (sleep_after_failure t) else t"
  have "failcount (authstate ?s) = failcount (authstate s) + (if incrfail then 1 else 0)" "svr_opts ?s = svr_opts s"
    using unwiredD(2,14) [OF u] by (simp_all add: upd_auth_def sleep_after_failure_def split: prod.splits)
  then have "\<not> failcount (authstate ?s) > maxauthtries (svr_opts ?s)" using assms(2) by (simp only: not_less)
  then show ?thesis unfolding t(1) Let_def by (simp only: if_False) blast
qed

lemma password_login_decided:
  assumes "fresh_auth s" "payload s = Some b" "buf_ok b" "buf_rest b = request_bytes user ''password'' (CHR 0x00 # enc_string password @ r)"
    and "length user \<le> 100" "CHR 0x00 \<notin> set user" "string_ok password" "has_type AUTH_TYPE_PASSWORD s"
    and "sshd4a_find_user g (world s) (Some user) = Inr found"
  shows "\<exists>s'. recv_msg_userauth_request g ops stale s = Inr s'
    \<and> (authdone (authstate s') \<longleftrightarrow> password_matches g password (identified user s))
    \<and> failcount (authstate s') = failcount (authstate s) + (if authdone (authstate s') then 0 else 1)"
proof -
  have sm: "string_ok ''password''" by (simp add: string_ok_def)
  obtain w a b' where st: "recv_msg_userauth_request g ops stale s = try_method g ops stale ''password'' True (s\<lparr>world := w, payload := Some b', authstate := a\<rparr>)"
    "conf_files w = conf_files (world s)" "named user (authstate s) a" "buf_ok b'" "buf_rest b' = CHR 0x00 # enc_string password @ r"
    "ready_to_send (s\<lparr>world := w, payload := Some b', authstate := a\<rparr>)"
    by (rule request_forward [OF assms(1-4) sm assms(5,6,9)])
  let ?t = "s\<lparr>world := w, payload := Some b', authstate := a\<rparr>"
  have tr: "try_method g ops stale ''password'' True ?t = svr_auth_password g True ?t"
    using assms(8) st(3) by (simp add: try_method_def has_type_def named_def AUTH_METHOD_NONE_def AUTH_METHOD_PUBKEY_def AUTH_METHOD_PASSWORD_def)
  have fu: "sshd4a_find_user g (world ?t) (username (authstate ?t)) = Inr found"
    using find_user_cong [of "world ?t" "world s"] st(2,3) assms(9) by (simp add: named_def)
  have pw: "pw_passwd (authstate ?t) \<noteq> None" using st(3) by (simp add: named_def split: option.splits)
  obtain p b'' where d: "svr_auth_password g True ?t = (if password_matches g password ?t then password_right (with_pass p b'' ?t)
      else send_msg_userauth_failure False True (with_pass p b'' ?t))"
    using password_forward [OF _ st(4,5) assms(7) fu pw] by auto
  have pm: "password_matches g password ?t = password_matches g password (identified user s)"
    using st(2,3) assms(1,5) by (intro password_matches_cong) (simp_all add: identified_def upd_auth_def fresh_auth_def named_def)
  let ?u = "with_pass p b'' ?t"
  have ru: "ready_to_send ?u" using st(6) by (simp add: ready_to_send_def trans_ok_def payload_ready_def with_pass_def)
  have au: "failcount (authstate ?u) = failcount (authstate s)" "\<not> authdone (authstate ?u)" "svr_opts ?u = svr_opts s"
    using st(3) assms(1) by (simp_all add: named_def fresh_auth_def)
  obtain s1 where s1: "send_msg_userauth_success ?u = Inr s1" by (rule success_sends [OF ru])
  have "failcount (authstate s) + 1 \<le> maxauthtries (svr_opts s)" using assms(1) by (simp add: fresh_auth_def inc_le)
  then obtain s2 where s2: "send_msg_userauth_failure False True ?u = Inr s2" using failure_ok [OF ru, of True False] au by auto
  have ns: "\<not> multiauthmethod (svr_opts ?u)" using assms(1) au(3) by (simp add: fresh_auth_def)
  show ?thesis
    using st(1) tr d pm s1 s2 ns success_effect(1) [OF s1] failure_effect(1) [OF s2] au(1,2)
    by (cases "password_matches g password (identified user s)") (auto simp: password_right_def)
qed

lemma password_request_counts:
  assumes "auth_step g ops stale s b = Inr s'" "\<not> authdone (authstate s')" "\<not> multiauthmethod (svr_opts s)"
    and "buf_ok b" "buf_rest b = request_bytes user ''password'' r" "string_ok user"
  shows "failcount (authstate s') = failcount (authstate s) + 1" "failcount (authstate s') \<le> maxauthtries (svr_opts s)"
proof -
  have nd: "\<not> authdone (authstate (s\<lparr>payload := Some b\<rparr>))" using assms(1,2) auth_step_effect(4) by fastforce
  obtain b0 b1 b2 b3 u m t where st: "payload (s\<lparr>payload := Some b\<rparr>) = Some b0" "buf_getstring b0 = Inr (u, b1)"
    "buf_getstring b1 = Inr (SSH_SERVICE_CONNECTION, b2)" "buf_getstring b2 = Inr (m, b3)"
    "payload t = Some b3" "fixed_opts t = fixed_opts (s\<lparr>payload := Some b\<rparr>)" "conf_files (world t) = conf_files (world (s\<lparr>payload := Some b\<rparr>))"
    "libtom t = libtom (s\<lparr>payload := Some b\<rparr>)" "session_id t = session_id (s\<lparr>payload := Some b\<rparr>)"
    "if length u \<le> 100 \<and> username (authstate (s\<lparr>payload := Some b\<rparr>)) = None then named u (authstate (s\<lparr>payload := Some b\<rparr>)) (authstate t)
     else kept (authstate (s\<lparr>payload := Some b\<rparr>)) (authstate t)"
    "\<exists>v. try_method g ops stale m v t = Inr s'"
    by (rule userauth_stages [OF assms(1) [unfolded auth_step_def] nd])
  obtain c1 c2 c3 where c: "buf_getstring b = Inr (user, c1)" "buf_getstring c1 = Inr (SSH_SERVICE_CONNECTION, c2)"
    "buf_getstring c2 = Inr (''password'', c3)" "buf_ok c3" "buf_rest c3 = r"
    by (rule three_strings [OF assms(4,5,6)]) (simp add: string_ok_def)
  have m: "m = ''password''" using st(1-4) c(1-3) by auto
  have fo: "maxauthtries (svr_opts t) = maxauthtries (svr_opts s)" "multiauthmethod (svr_opts t) = multiauthmethod (svr_opts s)"
    using fixed_optsD(1,2) [OF st(6)] by simp_all
  have fc: "failcount (authstate t) = failcount (authstate s)" using st(10) by (auto simp: named_def kept_def split: if_splits)
  obtain v where v: "try_method g ops stale ''password'' v t = Inr s'" using st(11) m by blast
  have "\<exists>t'. authstate t' = (authstate t)\<lparr>pw_passwd := pw_passwd (authstate t')\<rparr> \<and> svr_opts t' = svr_opts t
      \<and> send_msg_userauth_failure False True t' = Inr s'"
  proof (cases "has_type AUTH_TYPE_PASSWORD t")
    case False
    then show ?thesis using v by (auto simp: try_method_def AUTH_METHOD_NONE_def AUTH_METHOD_PUBKEY_def intro!: exI [of _ t])
  next
    case True
    then have p: "svr_auth_password g True t = Inr s'"
      using v by (simp add: try_method_def AUTH_METHOD_NONE_def AUTH_METHOD_PUBKEY_def AUTH_METHOD_PASSWORD_def)
    obtain d0 changepw d where pr: "payload t = Some d0" "buf_getbool d0 = Inr (changepw, d)"
      "if changepw then send_msg_userauth_failure False True (t\<lparr>payload := Some d\<rparr>) = Inr s'
       else \<exists>password b' p. buf_getstring d = Inr (password, b')
         \<and> (if password_matches g password t then password_right (with_pass p b' t)
            else send_msg_userauth_failure False True (with_pass p b' t)) = Inr s'"
      by (rule password_request [OF p])
    have nr: "password_right (with_pass p b' t) \<noteq> Inr s'" for p b'
      using success_effect(1) [of "with_pass p b' t" s'] assms(2,3) fo by (auto simp: password_right_def)
    show ?thesis
    proof (cases changepw)
      case True
      then show ?thesis using pr(3) by (intro exI [of _ "t\<lparr>payload := Some d\<rparr>"]) simp
    next
      case False
      then obtain password b' p where "send_msg_userauth_failure False True (with_pass p b' t) = Inr s'"
        using pr(3) nr by (auto split: if_splits)
      then show ?thesis by (intro exI [of _ "with_pass p b' t"]) simp
    qed
  qed
  then obtain t' where t': "authstate t' = (authstate t)\<lparr>pw_passwd := pw_passwd (authstate t')\<rparr>" "svr_opts t' = svr_opts t"
    "send_msg_userauth_failure False True t' = Inr s'" by blast
  have "failcount (authstate t') = failcount (authstate t)" by (subst t'(1)) simp
  then show "failcount (authstate s') = failcount (authstate s) + 1" "failcount (authstate s') \<le> maxauthtries (svr_opts s)"
    using failure_effect(1,5) [OF t'(3)] t'(2) fc fo by simp_all
qed

text \<open>The two ways to become authenticated, in the state behind the name check.\<close>

lemma pubkey_login:
  assumes "svr_auth_pubkey g ops stale v t = Inr s'" "\<not> authdone (authstate t)" "authdone (authstate s')"
    and "payload t = Some b" "buf_ok b" "conf_files (world t) = conf_files (world s)" "libtom t = libtom s"
  shows "\<exists>keyalgo keyblob po sigtype keytype t'. checkpubkey g stale keyalgo keyblob s = Inr (Some po)
    \<and> verify_request ops sigtype keytype po t' = Inr s'"
proof -
  obtain c sigalgo keyblob rest q where q: "reads b ([c] @ enc_string sigalgo @ STORE32H (of_nat (length keyblob))) q"
    "buf_ok q" "buf_rest q = keyblob @ rest"
    and r: "(if \<not> v then send_msg_userauth_failure False False (t\<lparr>payload := Some q\<rparr>)
      else pubkey_attempt g ops stale (c = CHR 0x00) sigalgo keyblob (t\<lparr>payload := Some q\<rparr>)) = Inr s'"
    by (rule pubkey_fields [OF assms(1,4,5)])
  let ?t = "t\<lparr>payload := Some q\<rparr>"
  have nd: "\<not> authdone (authstate ?t)" using assms(2) by simp
  have "pubkey_attempt g ops stale (c = CHR 0x00) sigalgo keyblob ?t = Inr s'"
    using r failure_effect(1) [of False False ?t s'] assms(2,3) by (auto split: if_splits)
  then obtain keytype keyalgo po where k: "checkpubkey g stale keyalgo keyblob ?t = Inr (Some po)"
    "verify_request ops (signature_type_from_name sigalgo) keytype po ?t = Inr s'"
    using pubkey_attempt_done nd assms(3) by metis
  have "checkpubkey g stale keyalgo keyblob ?t = checkpubkey g stale keyalgo keyblob s"
    using assms(6,7) by (simp add: checkpubkey_def cong: option.case_cong)
  then show ?thesis using k by metis
qed

lemma password_login_match:
  assumes "svr_auth_password g True t = Inr s'" "\<not> authdone (authstate t)" "authdone (authstate s')"
  shows "\<exists>password. password_matches g password t"
proof -
  obtain d0 changepw d where pr: "payload t = Some d0" "buf_getbool d0 = Inr (changepw, d)"
    "if changepw then send_msg_userauth_failure False True (t\<lparr>payload := Some d\<rparr>) = Inr s'
     else \<exists>password b' p. buf_getstring d = Inr (password, b')
       \<and> (if password_matches g password t then password_right (with_pass p b' t)
          else send_msg_userauth_failure False True (with_pass p b' t)) = Inr s'"
    by (rule password_request [OF assms(1)])
  have nf: "send_msg_userauth_failure p i t' \<noteq> Inr s'" if "\<not> authdone (authstate t')" for p i t'
    using failure_effect(1) [of p i t' s'] assms(3) that by auto
  show ?thesis using pr(3) nf [of "t\<lparr>payload := Some d\<rparr>"] nf [of "with_pass _ _ t"] assms(2) by (auto split: if_splits)
qed

lemma identified_world: "world (identified user s) = world s" "libtom (identified user s) = libtom s"
  by (simp_all add: identified_def upd_auth_def)

lemma try_method_done:
  assumes "try_method g ops stale m v t = Inr s'" "\<not> authdone (authstate t)" "authdone (authstate s')"
  shows "m = ''none'' \<and> allowblankpass (svr_opts t) \<and> \<not> noauthpass (svr_opts t) \<and> (\<exists>p. pw_passwd (authstate t) = Some p \<and> cstr p = [])
    \<or> m = ''publickey'' \<and> has_type AUTH_TYPE_PUBKEY t \<and> svr_auth_pubkey g ops stale v t = Inr s'
    \<or> m = ''password'' \<and> has_type AUTH_TYPE_PASSWORD t \<and> svr_auth_password g True t = Inr s'"
proof -
  have nf: "send_msg_userauth_failure p i t \<noteq> Inr s'" for p i
    using failure_effect(1) [of p i t s'] assms(2,3) by auto
  consider "m = ''none''" | "m = ''publickey''" | "m = ''password''" | "m \<notin> {''none'', ''publickey'', ''password''}" by blast
  then show ?thesis
  proof cases
    case 1
    then obtain blank where b: "blank_password_ok v t = Inr blank" "(if blank then send_msg_userauth_success t else send_msg_userauth_failure False False t) = Inr s'"
      using assms(1) by (auto simp: try_method_def AUTH_METHOD_NONE_def elim!: bindr_InrE)
    then have "blank_password_ok v t = Inr True" using nf by (auto split: if_splits)
    then show ?thesis using 1 by (auto simp: blank_password_ok_def split: if_splits option.splits)
  next
    case 2
    then show ?thesis using assms(1) nf by (simp add: try_method_def AUTH_METHOD_NONE_def AUTH_METHOD_PUBKEY_def AUTH_METHOD_PASSWORD_def split: if_splits)
  next
    case 3
    then show ?thesis using assms(1) nf by (simp add: try_method_def AUTH_METHOD_NONE_def AUTH_METHOD_PUBKEY_def AUTH_METHOD_PASSWORD_def split: if_splits)
  next
    case 4
    then show ?thesis using assms(1) nf by (simp add: try_method_def AUTH_METHOD_NONE_def AUTH_METHOD_PUBKEY_def AUTH_METHOD_PASSWORD_def)
  qed
qed

text \<open>The three ways in, for the method of a request.\<close>

definition way_in :: "sshd4a_globals \<Rightarrow> signkey_ops \<Rightarrow> bool \<Rightarrow> string \<Rightarrow> string \<Rightarrow> sshsession \<Rightarrow> sshsession \<Rightarrow> bool" where
  "way_in g ops stale user methodname s s' \<longleftrightarrow>
    (methodname = ''publickey'' \<and> has_type AUTH_TYPE_PUBKEY s
       \<and> (\<exists>keyalgo keyblob po sigtype keytype t. checkpubkey g stale keyalgo keyblob s = Inr (Some po)
            \<and> verify_request ops sigtype keytype po t = Inr s')
     \<or> methodname = ''password'' \<and> has_type AUTH_TYPE_PASSWORD s
       \<and> (\<exists>password. password_matches g password (identified user s))
     \<or> methodname = ''none'' \<and> allowblankpass (svr_opts s) \<and> \<not> noauthpass (svr_opts s)
       \<and> (\<exists>p. pw_passwd (authstate (identified user s)) = Some p \<and> cstr p = []))"

text \<open>Sessions and requests for evaluations.\<close>

definition login_session :: "(string \<times> string \<times> string option) list \<Rightarrow> sshsession" where
  "login_session es = plain_session\<lparr>libtom := hex_libtom, authstate := zero_authstate\<lparr>authtypes := AUTH_TYPE_PASSWORD\<rparr>,
     world := still_world\<lparr>conf_files := [conf_path some_globals @ ''/master_password'' \<mapsto> users_file es]\<rparr>\<rparr>"

definition password_packet :: "string \<Rightarrow> string \<Rightarrow> buffer" where
  "password_packet user password = packet_of (request_bytes user ''password'' (CHR 0x00 # enc_string password))"

lemma password_packet_ok:
  assumes "length user \<le> 1000" "length password \<le> 1000"
  shows "buf_ok (password_packet user password)"
    "buf_rest (password_packet user password) = request_bytes user ''password'' (CHR 0x00 # enc_string password)"
  using packet_of_ok [of "request_bytes user ''password'' (CHR 0x00 # enc_string password)"] assms
  by (simp_all add: password_packet_def request_bytes_def)

lemma login_session_fresh:
  "fresh_auth ((login_session es)\<lparr>payload := Some b\<rparr>)" "has_type AUTH_TYPE_PASSWORD ((login_session es)\<lparr>payload := Some b\<rparr>)"
  "pw_passwd (authstate (login_session es)) = None" "libtom (login_session es) = hex_libtom"
  "conf_files (world (login_session es)) = [conf_path some_globals @ ''/master_password'' \<mapsto> users_file es]"
  "authstate (login_session es) = zero_authstate\<lparr>authtypes := AUTH_TYPE_PASSWORD\<rparr>"
  "svr_opts (login_session es) = plain_svr_opts"
proof -
  have "ready_to_send ((login_session es)\<lparr>payload := Some b\<rparr>)"
    using plain_session_ok by (simp add: login_session_def ready_to_send_def trans_ok_def payload_ready_def)
  then show "fresh_auth ((login_session es)\<lparr>payload := Some b\<rparr>)"
    by (simp add: fresh_auth_def login_session_def plain_session_def zero_session_def zero_authstate_def plain_svr_opts_def)
qed (simp_all add: login_session_def plain_session_def zero_session_def has_type_def zero_authstate_def AUTH_TYPE_PASSWORD_def)

lemma ann_entry: "\<forall>e\<in>set [(''ann'', ''x'', None)]. entry_ok e"
  by (simp add: entry_ok_def field_ok_def eol_def)

lemma hex_not_x: "hex bs \<noteq> ''x''"
  using length_hex [of bs] by (metis One_nat_def length_Cons list.size(3) nat_mult_eq_1_iff numeral_eq_one_iff semiring_norm(85))

lemma cstr_hex: "cstr (hex bs) = hex bs"
proof -
  have "list_all b64_char (hex bs)" using hex_libtom_ok by (simp add: base64_ok_def hex_libtom_def)
  then have "CHR 0x00 \<notin> set (hex bs)" using b64_not_special(4) unfolding list_all_iff by blast
  then show ?thesis by simp
qed

lemma ann_fails:
  obtains s' where "auth_step some_globals easy_ops False (login_session [(''ann'', ''x'', None)]) (password_packet ''ann'' ''no'') = Inr s'"
    "\<not> authdone (authstate s')"
proof -
  let ?s = "(login_session [(''ann'', ''x'', None)])\<lparr>payload := Some (password_packet ''ann'' ''no'')\<rparr>"
  have b: "buf_ok (password_packet ''ann'' ''no'')"
    "buf_rest (password_packet ''ann'' ''no'') = request_bytes ''ann'' ''password'' (CHR 0x00 # enc_string ''no'' @ [])"
    using password_packet_ok [of "''ann''" "''no''"] by simp_all
  have f: "sshd4a_find_user some_globals (world ?s) (Some ''ann'') = Inr (Some (Some ''x'', ''user''))"
    using find_user_file [OF ann_entry, of "''ann''"]
    by (simp add: sshd4a_find_user_def sshd4a_consts login_session_fresh(5) user_entry_def)
  have "\<not> password_matches some_globals ''no'' (identified ''ann'' ?s)"
    using f hex_not_x by (simp add: password_matches_def identified_def upd_auth_def login_session_fresh(4,6) zero_authstate_def
        hex_libtom_def strcmp_eq_def cstr_hex)
  then show thesis
    using password_login_decided [OF login_session_fresh(1) _ b _ _ _ login_session_fresh(2) f, of easy_ops False] that
    by (auto simp: auth_step_def string_ok_def)
qed

lemma eve_enters:
  obtains s' where "recv_msg_userauth_request some_globals easy_ops False
    ((login_session [(''ann'', ''x'', None)])\<lparr>payload := Some (password_packet ''eve'' ''!!'')\<rparr>) = Inr s'" "authdone (authstate s')"
proof -
  let ?s = "(login_session [(''ann'', ''x'', None)])\<lparr>payload := Some (password_packet ''eve'' ''!!'')\<rparr>"
  have b: "buf_ok (password_packet ''eve'' ''!!'')"
    "buf_rest (password_packet ''eve'' ''!!'') = request_bytes ''eve'' ''password'' (CHR 0x00 # enc_string ''!!'' @ [])"
    using password_packet_ok [of "''eve''" "''!!''"] by simp_all
  have f: "sshd4a_find_user some_globals (world ?s) (Some ''eve'') = Inr None"
    using find_user_file [OF ann_entry, of "''eve''"]
    by (simp add: sshd4a_find_user_def sshd4a_consts login_session_fresh(5) user_entry_def)
  have "password_matches some_globals ''!!'' (identified ''eve'' ?s)"
    using f by (simp add: password_matches_def identified_def upd_auth_def login_session_fresh(4,6) zero_authstate_def cstr_def)
  then show thesis
    using password_login_decided [OF login_session_fresh(1) _ b _ _ _ login_session_fresh(2) f, of easy_ops False] that
    by (auto simp: string_ok_def)
qed

lemma find_no_name:
  assumes "entry_ok e"
  shows "find_user_loop None (getlines (users_file (e # es))) = Inl Mem_fault"
proof -
  obtain n p r where e: "e = (n, p, r)" by (cases e)
  have f: "field_ok n" using assms e by (simp add: entry_ok_def)
  have nc: "n \<noteq> []" "CHR '':'' \<notin> set n" using f unfolding field_ok_def by blast+
  have nl: "CHR 0x0A \<notin> set (user_line e)" using user_line_chars [OF assms] by (auto simp: eol_def)
  have lines: "getlines (users_file (e # es)) = (user_line e @ [CHR 0x0A]) # getlines (users_file es)"
    using getlines_line [OF nl, of "users_file es"] by (simp add: users_file_def)
  have strip: "strip_eol (user_line e @ [CHR 0x0A]) = user_line e"
    using user_line_chars [OF assms] by (intro strip_eol_line) blast
  have cs: "cstr (user_line e) = user_line e" using user_line_chars [OF assms] by (intro cstr_no_nul) blast
  have has: "CHR '':'' \<in> set (user_line e)" "user_line e \<noteq> []" using e by (auto simp: user_line_def)
  have "\<exists>rest. strtok (user_line e) = (Some n, rest)" using strtok_field(1) [OF nc] e by (simp add: user_line_def)
  then show ?thesis using lines strip cs has by (auto simp: Let_def)
qed

section \<open>Properties\<close>

text \<open>
  C4. Password login for a listed user: with a well-formed password file, a first request that
  names a user of the file and sends a password (no NUL, at most 100 bytes) is accepted exactly when the base64 text of the
  SHA-512 hash of the password is the text in the file; otherwise the attempt is counted.
\<close>

theorem password_login:
  assumes "fresh_auth s" "payload s = Some b" "buf_ok b" "has_type AUTH_TYPE_PASSWORD s" "base64_ok (libtom s)"
    and "buf_rest b = request_bytes user ''password'' (CHR 0x00 # enc_string password @ r)"
    and "length user \<le> 100" "CHR 0x00 \<notin> set user" "length password \<le> 100" "CHR 0x00 \<notin> set password"
    and "\<forall>e\<in>set es. entry_ok e" "conf_files (world s) (conf_path g @ ''/master_password'') = Some (users_file es)"
    and "map_of es user = Some (h, role)"
  shows "\<exists>s'. recv_msg_userauth_request g ops stale s = Inr s'
    \<and> (authdone (authstate s') \<longleftrightarrow> base64_encode (libtom s) (sha512 (libtom s) password) = h)
    \<and> failcount (authstate s') = failcount (authstate s) + (if authdone (authstate s') then 0 else 1)"
proof -
  let ?role = "case role of Some r \<Rightarrow> r | None \<Rightarrow> SSHD4A_ROLE_USER" and ?t = "base64_encode (libtom s) (sha512 (libtom s) password)"
  have f: "sshd4a_find_user g w (Some user) = Inr (Some (Some h, ?role))" if "conf_files w = conf_files (world s)" for w
    using assms(12,13) find_user_file [OF assms(11,8)] that by (simp add: sshd4a_find_user_def sshd4a_consts user_entry_def)
  have "entry_ok (user, h, role)" using assms(11) map_of_SomeD [OF assms(13)] by blast
  then have h: "field_ok h" by (simp add: entry_ok_def)
  obtain c cs where hc: "h = c # cs" "c \<noteq> CHR 0x00" "CHR 0x00 \<notin> set h" using h by (cases h) (auto simp: field_ok_def)
  have t: "CHR 0x00 \<notin> set ?t"
    using assms(5) b64_not_special(4) unfolding base64_ok_def list_all_iff by blast
  have "password_matches g password (identified user s) \<longleftrightarrow> ?t = h"
    using assms(1,7,9,10) f [of "world s"] hc t by (simp add: password_matches_def identified_def upd_auth_def fresh_auth_def strcmp_eq_def)
  moreover have "string_ok password" using assms(9) by (simp add: string_ok_def)
  ultimately show ?thesis
    using password_login_decided [OF assms(1-3,6-8) _ assms(4) f [OF refl]] by simp
qed

theorem password_login_witness:
  "\<exists>s'. recv_msg_userauth_request some_globals easy_ops False
       ((login_session [(''ann'', ''x'', None)])\<lparr>payload := Some (password_packet ''ann'' ''no'')\<rparr>) = Inr s'
     \<and> \<not> authdone (authstate s') \<and> failcount (authstate s') = 1"
proof -
  have b: "buf_ok (password_packet ''ann'' ''no'')"
    "buf_rest (password_packet ''ann'' ''no'') = request_bytes ''ann'' ''password'' (CHR 0x00 # enc_string ''no'' @ [])"
    using password_packet_ok [of "''ann''" "''no''"] by simp_all
  let ?s = "(login_session [(''ann'', ''x'', None)])\<lparr>payload := Some (password_packet ''ann'' ''no'')\<rparr>"
  have "\<exists>s'. recv_msg_userauth_request some_globals easy_ops False ?s = Inr s'
    \<and> (authdone (authstate s') \<longleftrightarrow> base64_encode (libtom ?s) (sha512 (libtom ?s) ''no'') = ''x'')
    \<and> failcount (authstate s') = failcount (authstate ?s) + (if authdone (authstate s') then 0 else 1)"
    by (rule password_login [OF login_session_fresh(1) _ b(1) login_session_fresh(2) _ b(2) _ _ _ _ ann_entry])
      (simp_all add: login_session_fresh hex_libtom_ok)
  then show ?thesis using hex_not_x by (simp add: login_session_fresh zero_authstate_def hex_libtom_def cong: if_cong) auto
qed


text \<open>
  C35. A way in without a password of one's own: when the password file exists and single-use passwords are off,
  every user name that the file does not list is let in with the password \<open>!!\<close>, the placeholder that
  \<open>fill_passwd\<close> stores and the check compares as plain text. The options \<open>-s\<close> and \<open>-g\<close>, which should disable passwords,
  make no difference.
\<close>

theorem unknown_user_logs_in:
  assumes "fresh_auth s" "payload s = Some b" "buf_ok b" "has_type AUTH_TYPE_PASSWORD s" "pw_passwd (authstate s) = None"
    and "buf_rest b = request_bytes user ''password'' (CHR 0x00 # enc_string ''!!'' @ r)" "length user \<le> 100" "CHR 0x00 \<notin> set user"
    and "\<forall>e\<in>set es. entry_ok e" "conf_files (world s) (conf_path g @ ''/master_password'') = Some (users_file es)"
    and "user \<notin> fst ` set es"
  shows "\<exists>s'. recv_msg_userauth_request g ops stale s = Inr s' \<and> authdone (authstate s')"
proof -
  have "map_of es user = None" using assms(11) by (simp add: map_of_eq_None_iff)
  then have f: "sshd4a_find_user g (world s) (Some user) = Inr None"
    using assms(10) find_user_file [OF assms(9,8)] by (simp add: sshd4a_find_user_def sshd4a_consts user_entry_def)
  have "password_matches g ''!!'' (identified user s)"
    using assms(1,5,7) f by (simp add: password_matches_def identified_def upd_auth_def fresh_auth_def cstr_def)
  moreover have "string_ok ''!!''" by (simp add: string_ok_def)
  ultimately show ?thesis using password_login_decided [OF assms(1-3,6-8) _ assms(4) f] by blast
qed

theorem unknown_user_logs_in_witness:
  "\<exists>s'. recv_msg_userauth_request some_globals easy_ops False
       ((login_session [(''ann'', ''x'', None)])\<lparr>payload := Some (password_packet ''eve'' ''!!'')\<rparr>) = Inr s' \<and> authdone (authstate s')"
proof -
  have b: "buf_ok (password_packet ''eve'' ''!!'')"
    "buf_rest (password_packet ''eve'' ''!!'') = request_bytes ''eve'' ''password'' (CHR 0x00 # enc_string ''!!'' @ [])"
    using password_packet_ok [of "''eve''" "''!!''"] by simp_all
  show ?thesis
    by (rule unknown_user_logs_in [OF login_session_fresh(1) _ b(1) login_session_fresh(2) _ b(2) _ _ ann_entry])
      (simp_all add: login_session_fresh zero_authstate_def)
qed


text \<open>
  For every sequence of requests: the counter of failed attempts never exceeds the limit, and
  once a name is set every accepted request leaves it as it is.
\<close>

theorem requests_keep_limits:
  assumes "failcount (authstate s) \<le> maxauthtries (svr_opts s)" "run (auth_step g ops stale) s reqs = Inr s'"
  shows "failcount (authstate s') \<le> maxauthtries (svr_opts s) \<and> maxauthtries (svr_opts s') = maxauthtries (svr_opts s)
    \<and> (\<forall>u. username (authstate s) = Some u \<longrightarrow> username (authstate s') = Some u)"
proof -
  have "auth_inv (maxauthtries (svr_opts s)) (username (authstate s)) s" using assms(1) by (simp add: auth_inv_def)
  from requests.run_inv [OF this assms(2)] show ?thesis by (auto simp: auth_inv_def)
qed

theorem requests_keep_limits_witness:
  "\<exists>s'. run (auth_step some_globals easy_ops False) (login_session [(''ann'', ''x'', None)]) [password_packet ''ann'' ''no''] = Inr s'
     \<and> failcount (authstate s') \<le> 10"
proof -
  obtain s' where s': "auth_step some_globals easy_ops False (login_session [(''ann'', ''x'', None)]) (password_packet ''ann'' ''no'') = Inr s'"
    by (rule ann_fails)
  then have "run (auth_step some_globals easy_ops False) (login_session [(''ann'', ''x'', None)]) [password_packet ''ann'' ''no''] = Inr s'" by simp
  from this requests_keep_limits [OF _ this] show ?thesis by (simp add: login_session_fresh zero_authstate_def plain_svr_opts_def)
qed


text \<open>
  C5. Guessing passwords: a client that sends password requests one after the other and is neither
  let in nor disconnected has sent at most as many as the limit allows, each one counted.
\<close>

theorem guesses_bounded:
  assumes "run (auth_step g ops stale) s reqs = Inr s'" "\<not> authdone (authstate s')" "\<not> multiauthmethod (svr_opts s)"
    and "\<forall>b\<in>set reqs. buf_ok b \<and> (\<exists>user r. string_ok user \<and> buf_rest b = request_bytes user ''password'' r)"
    and "failcount (authstate s) \<le> maxauthtries (svr_opts s)" "maxauthtries (svr_opts s) < 0xFFFFFFFF"
  shows "unat (failcount (authstate s')) = unat (failcount (authstate s)) + length reqs
    \<and> unat (failcount (authstate s)) + length reqs \<le> unat (maxauthtries (svr_opts s))"
  using assms
proof (induction reqs arbitrary: s)
  case Nil
  then show ?case by (simp add: word_le_nat_alt)
next
  case (Cons b reqs)
  obtain s1 where s1: "auth_step g ops stale s b = Inr s1" "run (auth_step g ops stale) s1 reqs = Inr s'" using Cons.prems(1) by (auto elim: bindr_InrE)
  have nd: "\<not> authdone (authstate s1)" using logged_in.run_inv [OF _ s1(2)] Cons.prems(2) by blast
  obtain user r where u: "buf_ok b" "string_ok user" "buf_rest b = request_bytes user ''password'' r" using Cons.prems(4) by auto
  note c = password_request_counts [OF s1(1) nd Cons.prems(3) u(1,3,2)]
  note o1 = fixed_optsD(1,2) [OF auth_step_effect(1) [OF s1(1)]]
  have "unat (failcount (authstate s)) < 4294967295" using Cons.prems(5,6) by (simp add: word_le_nat_alt word_less_nat_alt)
  then have f1: "unat (failcount (authstate s1)) = unat (failcount (authstate s)) + 1" using c(1) by (simp add: unat_add_below)
  have "unat (failcount (authstate s')) = unat (failcount (authstate s1)) + length reqs
    \<and> unat (failcount (authstate s1)) + length reqs \<le> unat (maxauthtries (svr_opts s1))"
    by (rule Cons.IH [OF s1(2) Cons.prems(2)]) (use Cons.prems c(2) o1 in simp_all)
  then show ?case using f1 o1(1) by simp
qed

theorem guesses_bounded_witness:
  "\<exists>s'. run (auth_step some_globals easy_ops False) (login_session [(''ann'', ''x'', None)]) [password_packet ''ann'' ''no''] = Inr s'
     \<and> unat (failcount (authstate s')) = 1"
proof -
  obtain s' where s': "auth_step some_globals easy_ops False (login_session [(''ann'', ''x'', None)]) (password_packet ''ann'' ''no'') = Inr s'"
    "\<not> authdone (authstate s')" by (rule ann_fails)
  have r: "run (auth_step some_globals easy_ops False) (login_session [(''ann'', ''x'', None)]) [password_packet ''ann'' ''no''] = Inr s'"
    using s'(1) by simp
  have p: "\<forall>b\<in>set [password_packet ''ann'' ''no'']. buf_ok b \<and> (\<exists>user r. string_ok user \<and> buf_rest b = request_bytes user ''password'' r)"
  proof -
    have "string_ok ''ann''" by (simp add: string_ok_def)
    then show ?thesis using password_packet_ok [of "''ann''" "''no''"] by auto
  qed
  show ?thesis using guesses_bounded [OF r s'(2) _ p] r by (simp add: login_session_fresh zero_authstate_def plain_svr_opts_def)
qed




text \<open>
  C36. A name that is too long crashes the process: the name check then returns without storing a
  name, the password branch goes on regardless, and the comparison with the first entry of the
  password file follows a NULL pointer.
\<close>

theorem long_name_faults:
  assumes "fresh_auth s" "payload s = Some b" "buf_ok b" "has_type AUTH_TYPE_PASSWORD s"
    and "buf_rest b = request_bytes user ''password'' (CHR 0x00 # enc_string password @ r)"
    and "100 < length user" "string_ok user" "length password \<le> 100"
    and "entry_ok e" "conf_files (world s) (conf_path g @ ''/master_password'') = Some (users_file (e # es))"
  shows "recv_msg_userauth_request g ops stale s = Inl Mem_fault"
proof -
  obtain now w where w: "gettime_wrapper (world s) = (now, w)" by (cases "gettime_wrapper (world s)")
  have cf: "conf_files w = conf_files (world s)" using w by (auto simp: gettime_wrapper_def)
  obtain b1 b2 b3 where st: "buf_getstring b = Inr (user, b1)" "buf_getstring b1 = Inr (SSH_SERVICE_CONNECTION, b2)"
    "buf_getstring b2 = Inr (''password'', b3)" "buf_ok b3" "buf_rest b3 = CHR 0x00 # enc_string password @ r"
    by (rule three_strings [OF assms(3,5,7)]) (simp add: string_ok_def)
  let ?s = "s\<lparr>world := w, authstate := (authstate s)\<lparr>auth_starttime := now\<rparr>, payload := Some b3\<rparr>"
  have e: "recv_msg_userauth_request g ops stale s = svr_auth_password g True ?s"
    using assms(1,2,4,6) st(1-3)
    by (simp add: recv_msg_userauth_request_def w upd_auth_def fresh_auth_def send_banner_def on_read_def checkusername_def
        MAX_USERNAME_LEN_def try_method_def has_type_def AUTH_METHOD_NONE_def AUTH_METHOD_PUBKEY_def AUTH_METHOD_PASSWORD_def)
  have f: "sshd4a_find_user g w None = Inl Mem_fault"
    using assms(10) cf find_no_name [OF assms(9), of es] by (simp add: sshd4a_find_user_def sshd4a_consts)
  have g1: "buf_getbool b3 = Inr (False, buf_skip b3 1)" using st(4,5) by (simp add: buf_getbool_eq)
  have ok1: "buf_ok (buf_skip b3 1)" "buf_rest (buf_skip b3 1) = enc_string password @ r"
    using skip_over [OF st(4), of "[CHR 0x00]"] st(5) by simp_all
  have "string_ok password" using assms(8) by (simp add: string_ok_def)
  then have g2: "buf_getstring (buf_skip b3 1) = Inr (password, buf_skip (buf_skip b3 1) (length (enc_string password)))"
    using buf_getstring_enc [OF ok1(1) _ ok1(2)] by blast
  show ?thesis unfolding e using g1 g2 f assms(1,8)
    by (simp add: svr_auth_password_eq on_read_def sshd4a_svr_auth_password_def fresh_auth_def)
qed

theorem long_name_faults_witness:
  "recv_msg_userauth_request some_globals easy_ops False
     ((login_session [(''ann'', ''x'', None)])\<lparr>payload := Some (password_packet (replicate 101 (CHR ''a'')) ''no'')\<rparr>) = Inl Mem_fault"
proof -
  let ?u = "replicate 101 (CHR ''a'')"
  have b: "buf_ok (password_packet ?u ''no'')"
    "buf_rest (password_packet ?u ''no'') = request_bytes ?u ''password'' (CHR 0x00 # enc_string ''no'' @ [])"
    using password_packet_ok [of ?u "''no''"] by simp_all
  show ?thesis
    by (rule long_name_faults [OF login_session_fresh(1) _ b(1) login_session_fresh(2) b(2) _ _ _ ann_entry [THEN bspec]])
      (simp_all add: login_session_fresh string_ok_def)
qed

end
