(* ===== verification/Channel.thy ===== *)
theory Channel
  imports Listener
begin

text \<open>
  Channels, \<open>dropbear/src/common-channel.c\<close>: opening and confirming, data in both directions with
  its flow control, end of file and close. A pointer to a channel is its slot in \<open>ses.channels\<close>;
  a slot that is empty or out of range is a dangling pointer, and following it is \<open>Mem_fault\<close>.

  The functions that a channel type points to are an argument \<open>hs\<close>, one record of functions for
  each type; which of the pointers are NULL are the flags of the type. \<open>m_malloc\<close> clears memory, so
  the fields of a new channel that the code does not set are zero. \<open>read_mangler\<close> is set only by the
  client, here it is NULL throughout. Setting the priority of the socket and cancelling a
  connection in progress are calls of the system: only the fields they go with are kept.
\<close>

section \<open>Constants, slots and callbacks\<close>

definition MAX_CHANNELS :: nat where
  "MAX_CHANNELS = 1000"

definition CHAN_EXTEND_SIZE :: nat where
  "CHAN_EXTEND_SIZE = 3"

definition RECV_MAX_CHANNEL_DATA_LEN :: u32 where
  "RECV_MAX_CHANNEL_DATA_LEN = RECV_MAX_PAYLOAD_LEN - (1 + 4 + 4)"

definition RECV_WINDOWEXTEND :: "sshsession \<Rightarrow> u32" where
  "RECV_WINDOWEXTEND s = recv_window (opts s) div 3"

definition FD_UNINIT :: int where
  "FD_UNINIT = -2"

definition FD_CLOSED :: int where
  "FD_CLOSED = -1"

abbreviation (input) "SHUT_RD \<equiv> 0 :: int"
abbreviation (input) "SHUT_WR \<equiv> 1 :: int"
abbreviation (input) "SHUT_RDWR \<equiv> 2 :: int"

abbreviation (input) "SSH_OPEN_ADMINISTRATIVELY_PROHIBITED \<equiv> 1 :: int"
abbreviation (input) "SSH_OPEN_CONNECT_FAILED \<equiv> 2 :: int"
abbreviation (input) "SSH_OPEN_UNKNOWN_CHANNEL_TYPE \<equiv> 3 :: int"
abbreviation (input) "SSH_OPEN_RESOURCE_SHORTAGE \<equiv> 4 :: int"
abbreviation (input) "SSH_OPEN_IN_PROGRESS \<equiv> 99 :: int"

abbreviation (input) "SSH_EXTENDED_DATA_STDERR \<equiv> 1 :: u32"

definition ERRFD_IS_READ :: "Channel \<Rightarrow> bool" where
  "ERRFD_IS_READ c \<longleftrightarrow> extrabuf c = None"

definition ERRFD_IS_WRITE :: "Channel \<Rightarrow> bool" where
  "ERRFD_IS_WRITE c \<longleftrightarrow> \<not> ERRFD_IS_READ c"

record chan_handlers =
  inithandler :: "nat \<Rightarrow> sshsession \<Rightarrow> (int \<times> sshsession) res"
  type_check_close :: "nat \<Rightarrow> sshsession \<Rightarrow> (bool \<times> sshsession) res"
  reqhandler :: "nat \<Rightarrow> sshsession \<Rightarrow> sshsession res"
  closehandler :: "nat \<Rightarrow> sshsession \<Rightarrow> sshsession res"
  cleanup :: "nat \<Rightarrow> sshsession \<Rightarrow> sshsession res"

type_synonym handlers = "ChanType \<Rightarrow> chan_handlers"

definition get_chan :: "nat \<Rightarrow> sshsession \<Rightarrow> Channel res" where
  "get_chan i s =
     (if i < length (channels s)
      then (case channels s ! i of None \<Rightarrow> Inl Mem_fault | Some c \<Rightarrow> Inr c)
      else Inl Mem_fault)"

definition set_chan :: "nat \<Rightarrow> Channel \<Rightarrow> sshsession \<Rightarrow> sshsession" where
  "set_chan i c s = s\<lparr>channels := (channels s)[i := Some c]\<rparr>"

definition upd_chan :: "nat \<Rightarrow> (Channel \<Rightarrow> Channel) \<Rightarrow> sshsession \<Rightarrow> sshsession res" where
  "upd_chan i f s = bindr (get_chan i s) (\<lambda>c. Inr (set_chan i (f c) s))"

text \<open>A pointer to one of the two circular buffers of a channel.\<close>

datatype which_buf = Writebuf | Extrabuf

fun chan_buf :: "which_buf \<Rightarrow> Channel \<Rightarrow> circbuffer option" where
  "chan_buf Writebuf c = writebuf c"
| "chan_buf Extrabuf c = extrabuf c"

fun set_chan_buf :: "which_buf \<Rightarrow> circbuffer \<Rightarrow> Channel \<Rightarrow> Channel" where
  "set_chan_buf Writebuf cb c = c\<lparr>writebuf := Some cb\<rparr>"
| "set_chan_buf Extrabuf cb c = c\<lparr>extrabuf := Some cb\<rparr>"

section \<open>The table of channels\<close>

definition chaninitialise :: "ChanType list \<Rightarrow> sshsession \<Rightarrow> sshsession" where
  "chaninitialise types s = listeners_initialise (s\<lparr>channels := [None], chancount := 0, chantypes := types\<rparr>)"

definition update_channel_prio :: "sshsession \<Rightarrow> sshsession" where
  "update_channel_prio s =
     (if sock_out s < 0 then s
      else
        let used = List.map_filter (\<lambda>c. c) (channels s);
            new_prio = (if used = [] then DROPBEAR_PRIO_LOWDELAY
                        else if \<exists>c \<in> set used. prio c = DROPBEAR_PRIO_LOWDELAY then DROPBEAR_PRIO_LOWDELAY
                        else DROPBEAR_PRIO_NORMAL) in
        s\<lparr>socket_prio := new_prio\<rparr>)"

definition newchannel :: "u32 \<Rightarrow> ChanType \<Rightarrow> u32 \<Rightarrow> u32 \<Rightarrow> sshsession \<Rightarrow> (nat option \<times> sshsession) res" where
  "newchannel remotechan_arg type transwindow_arg transmaxpacket_arg s =
     (let i = first_free (channels s) in
      if i = length (channels s) \<and> length (channels s) \<ge> MAX_CHANNELS then Inr (None, s)
      else
        let chans = (if i = length (channels s) then channels s @ replicate CHAN_EXTEND_SIZE None else channels s) in
        bindr (cbuf_new (recv_window (opts s))) (\<lambda>wb.
        let newchan = \<lparr>index = of_nat i, remotechan = remotechan_arg, recvwindow = recv_window (opts s),
              transwindow = transwindow_arg, recvdonelen = 0, recvmaxpacket = RECV_MAX_CHANNEL_DATA_LEN,
              transmaxpacket = transmaxpacket_arg, writefd = FD_UNINIT, readfd = FD_UNINIT, errfd = FD_CLOSED,
              bidir_fd = False, writebuf = Some wb, extrabuf = None, sent_close = False, recv_close = False,
              recv_eof = False, sent_eof = False, flushing = False, conn_pending = False, initconn = False,
              await_open = False, chan_type = type, prio = DROPBEAR_PRIO_NORMAL\<rparr> in
        Inr (Some i, s\<lparr>channels := chans[i := Some newchan], chancount := chancount s + 1\<rparr>)))"

text \<open>\<open>kind\<close> is the name of the message, NULL in \<open>getchannel\<close>; it only shows in the log.\<close>

definition getchannel_msg :: "string option \<Rightarrow> sshsession \<Rightarrow> (nat \<times> sshsession) res" where
  "getchannel_msg kind s =
     bindr (on_read buf_getint s) (\<lambda>(chan, s).
     if unat chan \<ge> length (channels s) \<or> channels s ! unat chan = None
     then (case kind of
             Some k \<Rightarrow> Inl (Exit (k @ '' for unknown channel''))
           | None \<Rightarrow> Inl (Exit ''Unknown channel''))
     else Inr (unat chan, s))"

definition getchannel :: "sshsession \<Rightarrow> (nat \<times> sshsession) res" where
  "getchannel s = getchannel_msg None s"

section \<open>Closing descriptors\<close>

text \<open>The fields that become \<open>FD_CLOSED\<close>; each assignment depends only on the field it changes.\<close>

definition mark_closed :: "bool \<Rightarrow> bool \<Rightarrow> int \<Rightarrow> Channel \<Rightarrow> Channel" where
  "mark_closed closein closeout fd c = c\<lparr>
     writefd := (if closein \<and> fd = writefd c then FD_CLOSED else writefd c),
     readfd := (if closeout \<and> fd = readfd c then FD_CLOSED else readfd c),
     errfd := (if closeout \<and> ERRFD_IS_READ c \<and> fd = errfd c then FD_CLOSED
               else if closein \<and> ERRFD_IS_WRITE c \<and> fd = errfd c then FD_CLOSED else errfd c)\<rparr>"

definition close_chan_fd :: "nat \<Rightarrow> int \<Rightarrow> int \<Rightarrow> sshsession \<Rightarrow> sshsession res" where
  "close_chan_fd i fd how s =
     bindr (get_chan i s) (\<lambda>c.
     let closein = (if bidir_fd c then how \<noteq> 0 else True);
         closeout = (if bidir_fd c then how = 0 else True);
         w = (if bidir_fd c then (world s)\<lparr>shutdowns := (fd, how) # shutdowns (world s)\<rparr> else m_close fd (world s));
         c = mark_closed closein closeout fd c;
         w = (if bidir_fd c \<and> readfd c = FD_CLOSED \<and> writefd c = FD_CLOSED \<and> errfd c = FD_CLOSED
              then m_close fd w else w) in
     Inr (set_chan i c (s\<lparr>world := w\<rparr>)))"

section \<open>Messages about a channel\<close>

definition send_msg_channel_close :: "handlers \<Rightarrow> nat \<Rightarrow> sshsession \<Rightarrow> sshsession res" where
  "send_msg_channel_close hs i s =
     bindr (get_chan i s) (\<lambda>c.
     bindr (if has_closehandler (chan_type c) then closehandler (hs (chan_type c)) i s else Inr s) (\<lambda>s.
     bindr (put_byte SSH_MSG_CHANNEL_CLOSE s) (\<lambda>s.
     bindr (get_chan i s) (\<lambda>c.
     bindr (put_int (remotechan c) s) (\<lambda>s.
     bindr (encrypt_packet s) (\<lambda>s.
     bindr (upd_chan i (\<lambda>c. c\<lparr>sent_eof := True, sent_close := True\<rparr>) s) (\<lambda>s.
     bindr (get_chan i s) (\<lambda>c. bindr (close_chan_fd i (readfd c) SHUT_RD s) (\<lambda>s.
     bindr (get_chan i s) (\<lambda>c. bindr (close_chan_fd i (errfd c) SHUT_RDWR s) (\<lambda>s.
     bindr (get_chan i s) (\<lambda>c. close_chan_fd i (writefd c) SHUT_WR s))))))))))))"

definition send_msg_channel_eof :: "nat \<Rightarrow> sshsession \<Rightarrow> sshsession res" where
  "send_msg_channel_eof i s =
     bindr (get_chan i s) (\<lambda>c.
     bindr (put_byte SSH_MSG_CHANNEL_EOF s) (\<lambda>s.
     bindr (put_int (remotechan c) s) (\<lambda>s.
     bindr (encrypt_packet s) (\<lambda>s.
     upd_chan i (\<lambda>c. c\<lparr>sent_eof := True\<rparr>) s))))"

definition send_msg_channel_window_adjust :: "Channel \<Rightarrow> u32 \<Rightarrow> sshsession \<Rightarrow> sshsession res" where
  "send_msg_channel_window_adjust c incr s =
     bindr (put_byte SSH_MSG_CHANNEL_WINDOW_ADJUST s) (\<lambda>s.
     bindr (put_int (remotechan c) s) (\<lambda>s.
     bindr (put_int incr s) encrypt_packet))"

definition send_msg_channel_failure :: "Channel \<Rightarrow> sshsession \<Rightarrow> sshsession res" where
  "send_msg_channel_failure c s =
     (if sent_close c then Inr s
      else
        bindr (put_byte SSH_MSG_CHANNEL_FAILURE s) (\<lambda>s.
        bindr (put_int (remotechan c) s) encrypt_packet))"

definition send_msg_channel_success :: "Channel \<Rightarrow> sshsession \<Rightarrow> sshsession res" where
  "send_msg_channel_success c s =
     (if sent_close c then Inr s
      else
        bindr (put_byte SSH_MSG_CHANNEL_SUCCESS s) (\<lambda>s.
        bindr (put_int (remotechan c) s) encrypt_packet))"

definition send_msg_channel_open_failure :: "u32 \<Rightarrow> int \<Rightarrow> string \<Rightarrow> string \<Rightarrow> sshsession \<Rightarrow> sshsession res" where
  "send_msg_channel_open_failure remote reason txt lang s =
     bindr (put_byte SSH_MSG_CHANNEL_OPEN_FAILURE s) (\<lambda>s.
     bindr (put_int remote s) (\<lambda>s.
     bindr (put_int (of_int reason) s) (\<lambda>s.
     bindr (put_string txt s) (\<lambda>s.
     bindr (put_string lang s) encrypt_packet))))"

definition send_msg_channel_open_confirmation :: "Channel \<Rightarrow> u32 \<Rightarrow> u32 \<Rightarrow> sshsession \<Rightarrow> sshsession res" where
  "send_msg_channel_open_confirmation c window maxpacket s =
     bindr (put_byte SSH_MSG_CHANNEL_OPEN_CONFIRMATION s) (\<lambda>s.
     bindr (put_int (remotechan c) s) (\<lambda>s.
     bindr (put_int (index c) s) (\<lambda>s.
     bindr (put_int window s) (\<lambda>s.
     bindr (put_int maxpacket s) encrypt_packet))))"

definition send_msg_request_success :: "sshsession \<Rightarrow> sshsession res" where
  "send_msg_request_success s = bindr (put_byte SSH_MSG_REQUEST_SUCCESS s) encrypt_packet"

definition send_msg_request_failure :: "sshsession \<Rightarrow> sshsession res" where
  "send_msg_request_failure s = bindr (put_byte SSH_MSG_REQUEST_FAILURE s) encrypt_packet"

definition start_send_channel_request :: "Channel \<Rightarrow> string \<Rightarrow> sshsession \<Rightarrow> sshsession res" where
  "start_send_channel_request c type s =
     bindr (put_byte SSH_MSG_CHANNEL_REQUEST s) (\<lambda>s.
     bindr (put_int (remotechan c) s) (put_string type))"

section \<open>Removing and closing\<close>

text \<open>What \<open>cbuf_free\<close> releases; a NULL buffer is followed.\<close>

definition free_cbuf :: "circbuffer option \<Rightarrow> unit res" where
  "free_cbuf cb = (case cb of None \<Rightarrow> Inl Mem_fault | Some cb \<Rightarrow> bindr (cbuf_free cb) (\<lambda>_. Inr ()))"

definition remove_channel :: "handlers \<Rightarrow> nat \<Rightarrow> sshsession \<Rightarrow> sshsession res" where
  "remove_channel hs i s =
     bindr (get_chan i s) (\<lambda>c.
     bindr (free_cbuf (writebuf c)) (\<lambda>_.
     bindr (if extrabuf c = None then Inr () else free_cbuf (extrabuf c)) (\<lambda>_.
     let s = set_chan i (c\<lparr>writebuf := None, extrabuf := None\<rparr>) s;
         s = (if isserver s \<or> writefd c \<noteq> 1
              then upd_world (\<lambda>w. m_close (errfd c) (m_close (readfd c) (m_close (writefd c) w))) s else s) in
     bindr (if has_cleanup (chan_type c) then cleanup (hs (chan_type c)) i s else Inr s) (\<lambda>s.
     bindr (get_chan i s) (\<lambda>c.
     if unat (index c) < length (channels s)
     then Inr (update_channel_prio (s\<lparr>channels := (channels s)[unat (index c) := None], chancount := chancount s - 1\<rparr>))
     else Inl Mem_fault)))))"

fun remove_chans :: "handlers \<Rightarrow> nat list \<Rightarrow> sshsession \<Rightarrow> sshsession res" where
  "remove_chans hs [] s = Inr s"
| "remove_chans hs (i # is) s =
     bindr (if i < length (channels s) \<and> channels s ! i \<noteq> None then remove_channel hs i s else Inr s)
       (remove_chans hs is)"

definition chancleanup :: "handlers \<Rightarrow> sshsession \<Rightarrow> sshsession res" where
  "chancleanup hs s = bindr (remove_chans hs [0..<length (channels s)] s) (\<lambda>s. Inr (s\<lparr>channels := []\<rparr>))"

definition write_pending :: "Channel \<Rightarrow> bool res" where
  "write_pending c =
     bindr (if writefd c \<ge> 0
            then (case writebuf c of None \<Rightarrow> Inl Mem_fault | Some cb \<Rightarrow> Inr (cbuf_getused cb > 0))
            else Inr False) (\<lambda>pending.
     if pending then Inr True
     else if errfd c \<ge> 0
     then (case extrabuf c of None \<Rightarrow> Inr False | Some cb \<Rightarrow> Inr (cbuf_getused cb > 0))
     else Inr False)"

text \<open>\<open>fd_read_pending\<close> asks \<open>select\<close> without waiting, again when interrupted.\<close>

definition fd_read_pending :: "int \<Rightarrow> sshsession \<Rightarrow> (bool \<times> sshsession) res" where
  "fd_read_pending fd s =
     bindr (dropbear_fd_set fd []) (\<lambda>_.
     case select_answers (world s) of
       [] \<Rightarrow> Inr (False, s)
     | a # rest \<Rightarrow> Inr (a, upd_world (\<lambda>w. w\<lparr>select_answers := rest\<rparr>) s))"

definition flush_fds :: "nat \<Rightarrow> sshsession \<Rightarrow> sshsession res" where
  "flush_fds i s =
     bindr (get_chan i s) (\<lambda>c.
     bindr (if readfd c \<ge> 0
            then bindr (fd_read_pending (readfd c) s) (\<lambda>(pending, s).
                 if pending then Inr s else close_chan_fd i (readfd c) SHUT_RD s)
            else Inr s) (\<lambda>s.
     bindr (get_chan i s) (\<lambda>c.
     if ERRFD_IS_READ c \<and> errfd c \<ge> 0
     then bindr (fd_read_pending (errfd c) s) (\<lambda>(pending, s).
          if pending then Inr s else close_chan_fd i (errfd c) SHUT_RD s)
     else Inr s)))"

text \<open>The last part of \<open>check_close\<close>, for a channel that stays: half-closing and our own close.\<close>

definition half_close :: "handlers \<Rightarrow> bool \<Rightarrow> nat \<Rightarrow> sshsession \<Rightarrow> sshsession res" where
  "half_close hs close_allowed i s =
     bindr (get_chan i s) (\<lambda>c.
     bindr (if recv_eof c then bindr (write_pending c) (\<lambda>p. Inr (\<not> p)) else Inr False) (\<lambda>drained.
     bindr (if drained \<or> (writefd c \<noteq> FD_UNINIT \<and> has_check_close (chan_type c) \<and> close_allowed)
            then close_chan_fd i (writefd c) SHUT_WR s else Inr s) (\<lambda>s.
     bindr (get_chan i s) (\<lambda>c.
     bindr (if \<not> sent_eof c \<and> readfd c = FD_CLOSED \<and> (ERRFD_IS_WRITE c \<or> errfd c = FD_CLOSED)
            then send_msg_channel_eof i s else Inr s) (\<lambda>s.
     bindr (get_chan i s) (\<lambda>c.
     if readfd c = FD_CLOSED \<and> writefd c = FD_CLOSED \<and> (ERRFD_IS_WRITE c \<or> errfd c = FD_CLOSED)
        \<and> \<not> sent_close c \<and> close_allowed
     then bindr (write_pending c) (\<lambda>p. if p then Inr s else send_msg_channel_close hs i s)
     else Inr s))))))"

definition check_close :: "handlers \<Rightarrow> nat \<Rightarrow> sshsession \<Rightarrow> sshsession res" where
  "check_close hs i s =
     bindr (get_chan i s) (\<lambda>c.
     bindr (if \<not> has_check_close (chan_type c) \<or> sent_close c then Inr (True, s)
            else type_check_close (hs (chan_type c)) i s) (\<lambda>(close_allowed, s).
     bindr (get_chan i s) (\<lambda>c.
     bindr (if flushing c then flush_fds i s else Inr s) (\<lambda>s.
     bindr (get_chan i s) (\<lambda>c.
     bindr (if recv_close c then bindr (write_pending c) (\<lambda>p. Inr (\<not> p)) else Inr False) (\<lambda>drained.
     if drained \<and> close_allowed
     then bindr (if sent_close c then Inr s else send_msg_channel_close hs i s) (remove_channel hs i)
     else half_close hs close_allowed i s))))))"

definition channel_connect_done :: "handlers \<Rightarrow> bool \<Rightarrow> int \<Rightarrow> nat \<Rightarrow> string \<Rightarrow> sshsession \<Rightarrow> sshsession res" where
  "channel_connect_done hs success sock i errstring s =
     (if success then
        bindr (upd_chan i (\<lambda>c. c\<lparr>readfd := sock, writefd := sock, bidir_fd := True, conn_pending := False\<rparr>) s) (\<lambda>s.
        bindr (get_chan i s) (\<lambda>c.
        send_msg_channel_open_confirmation c (recvwindow c) (recvmaxpacket c) s))
      else
        bindr (get_chan i s) (\<lambda>c.
        bindr (send_msg_channel_open_failure (remotechan c) SSH_OPEN_CONNECT_FAILED errstring '''' s) (\<lambda>s.
        remove_channel hs i s)))"

section \<open>Data to the local side\<close>

text \<open>\<open>writev\<close> on a local descriptor; what it takes is recorded in \<open>fd_out\<close>.\<close>

definition sys_writev_fd :: "int \<Rightarrow> byte list \<Rightarrow> world \<Rightarrow> write_answer \<times> world" where
  "sys_writev_fd fd bytes w =
     (case sys_writev bytes w of
        (Wrote n, w) \<Rightarrow> (Wrote n, w\<lparr>fd_out := (fd_out w)(fd := fd_out w fd @ take n bytes)\<rparr>)
      | r \<Rightarrow> r)"

text \<open>
  \<open>moredata\<close> is \<open>None\<close> for NULL pointers. The result is whether writing succeeded, the number
  \<open>*morelen\<close> of bytes of \<open>moredata\<close> that were consumed, and the session.
\<close>

definition writechannel_writev :: "nat \<Rightarrow> int \<Rightarrow> which_buf \<Rightarrow> byte list option \<Rightarrow> sshsession
    \<Rightarrow> (bool \<times> u32 \<times> sshsession) res" where
  "writechannel_writev i fd which moredata s =
     bindr (get_chan i s) (\<lambda>c.
     case chan_buf which c of
       None \<Rightarrow> Inl Mem_fault
     | Some cb \<Rightarrow>
         (case cbuf_readptrs cb of (circ_p1, circ_len1, circ_p2, circ_len2) \<Rightarrow>
          if circ_len1 = 0 \<and> circ_len2 = 0 \<and> moredata = None then Inr (True, 0, s)
          else
            bindr (cbuf_readall cb) (\<lambda>circ.
            case sys_writev_fd fd (circ @ (case moredata of None \<Rightarrow> [] | Some d \<Rightarrow> d)) (world s) of
              (Wrote n, w) \<Rightarrow>
                let cbuf_written = min (circ_len1 + circ_len2) (of_nat n) in
                bindr (cbuf_incrread cb cbuf_written) (\<lambda>cb.
                let c = (set_chan_buf which cb c)\<lparr>recvdonelen := recvdonelen c + of_nat n\<rparr> in
                Inr (True, of_nat n - cbuf_written, set_chan i c (s\<lparr>world := w\<rparr>)))
            | (Write_again, w) \<Rightarrow> Inr (True, 0, s\<lparr>world := w\<rparr>)
            | (Write_error, w) \<Rightarrow>
                bindr (close_chan_fd i fd SHUT_WR (s\<lparr>world := w\<rparr>)) (\<lambda>s. Inr (False, 0, s)))))"

definition window_asserts :: "nat \<Rightarrow> sshsession \<Rightarrow> unit res" where
  "window_asserts i s =
     bindr (get_chan i s) (\<lambda>c.
     bindr (require (recvwindow c \<le> recv_window (opts s)) Assert_failed) (\<lambda>_.
     case writebuf c of
       None \<Rightarrow> Inl Mem_fault
     | Some cb \<Rightarrow>
         bindr (require (recvwindow c \<le> cbuf_getavail cb) Assert_failed) (\<lambda>_.
         require (case extrabuf c of None \<Rightarrow> True | Some eb \<Rightarrow> recvwindow c \<le> cbuf_getavail eb) Assert_failed)))"

definition writechannel :: "nat \<Rightarrow> int \<Rightarrow> which_buf \<Rightarrow> byte list option \<Rightarrow> sshsession
    \<Rightarrow> (bool \<times> u32 \<times> sshsession) res" where
  "writechannel i fd which moredata s =
     bindr (writechannel_writev i fd which moredata s) (\<lambda>(ret, morelen, s).
     bindr (get_chan i s) (\<lambda>c.
     bindr (if recvdonelen c \<ge> RECV_WINDOWEXTEND s
            then bindr (send_msg_channel_window_adjust c (recvdonelen c) s)
                   (upd_chan i (\<lambda>c. c\<lparr>recvwindow := recvwindow c + recvdonelen c, recvdonelen := 0\<rparr>))
            else Inr s) (\<lambda>s.
     bindr (window_asserts i s) (\<lambda>_.
     Inr (ret, morelen, s)))))"

text \<open>
  The loop that stores the rest of the data. A pass with no room in the buffer changes nothing,
  so it would be repeated forever.
\<close>

function store_data :: "nat \<Rightarrow> which_buf \<Rightarrow> u32 \<Rightarrow> sshsession \<Rightarrow> sshsession res" where
  "store_data i which len s =
     (if len = 0 then Inr s
      else
        bindr (get_chan i s) (\<lambda>c.
        case chan_buf which c of
          None \<Rightarrow> Inl Mem_fault
        | Some cb \<Rightarrow>
            bindr (cbuf_writelen cb) (\<lambda>room.
            let buflen = min room len in
            if buflen = 0 then Inl Loops
            else
              bindr (on_read (\<lambda>b. bindr (buf_peek b buflen) (\<lambda>d. bindr (buf_incrpos b buflen) (\<lambda>b. Inr (d, b)))) s) (\<lambda>(d, s).
              bindr (cbuf_write cb d) (\<lambda>cb.
              store_data i which (len - buflen) (set_chan i (set_chan_buf which cb c) s))))))"
  by pat_completeness auto

termination store_data
proof (relation "measure (\<lambda>(i, which, len, s). unat len)", goal_cases)
  case (2 i which len s c cb room buflen x d s' cb')
  then have "0 < buflen" "buflen \<le> len" by (auto simp: word_gt_0)
  then show ?case by (simp add: word_less_nat_alt word_le_nat_alt unat_sub)
qed simp

declare store_data.simps [simp del]

definition common_recv_msg_channel_data :: "nat \<Rightarrow> int \<Rightarrow> which_buf \<Rightarrow> sshsession \<Rightarrow> sshsession res" where
  "common_recv_msg_channel_data i fd which s =
     bindr (get_chan i s) (\<lambda>c.
     if recv_eof c then Inl (Exit ''Received data after eof'')
     else if fd < 0 then Inr s
     else case chan_buf which c of
       None \<Rightarrow> Inr s
     | Some cb \<Rightarrow>
         bindr (on_read buf_getint s) (\<lambda>(datalen, s).
         if datalen > cbuf_getavail cb then Inl (Exit ''Oversized packet'')
         else
           bindr (require (recvwindow c \<ge> datalen) Assert_failed) (\<lambda>_.
           bindr (upd_chan i (\<lambda>c. c\<lparr>recvwindow := recvwindow c - datalen\<rparr>) s) (\<lambda>s.
           bindr (require (recvwindow c - datalen \<le> recv_window (opts s)) Assert_failed) (\<lambda>_.
           bindr (on_read (\<lambda>b. bindr (buf_peek b datalen) (\<lambda>d. Inr (d, b))) s) (\<lambda>(d, s).
           bindr (writechannel i fd which (Some d) s) (\<lambda>(res, consumed, s).
           bindr (on_read (\<lambda>b. bindr (buf_incrpos b consumed) (\<lambda>b. Inr ((), b))) s) (\<lambda>(_, s).
           if res then store_data i which (datalen - consumed) s else Inr s))))))))"

definition recv_msg_channel_data :: "sshsession \<Rightarrow> sshsession res" where
  "recv_msg_channel_data s =
     bindr (getchannel s) (\<lambda>(i, s).
     bindr (get_chan i s) (\<lambda>c.
     common_recv_msg_channel_data i (writefd c) Writebuf s))"

section \<open>Data to the peer\<close>

definition recv_msg_channel_window_adjust :: "sshsession \<Rightarrow> sshsession res" where
  "recv_msg_channel_window_adjust s =
     bindr (getchannel s) (\<lambda>(i, s).
     bindr (on_read buf_getint s) (\<lambda>(incr, s).
     upd_chan i (\<lambda>c. let newwin = transwindow c + incr in
       c\<lparr>transwindow := (if newwin < transwindow c then 0xffffffff else newwin)\<rparr>) s))"

text \<open>\<open>reset_payload\<close> is what the error paths of \<open>send_msg_channel_data\<close> do to the payload buffer.\<close>

definition reset_payload :: "sshsession \<Rightarrow> sshsession res" where
  "reset_payload = on_write (\<lambda>b. bindr (buf_setpos b 0) (\<lambda>b. buf_setlen b 0))"

text \<open>
  Reading from the descriptor into the payload buffer, and sending. An interrupted call
  (\<open>Read_again\<close>) leaves the descriptor open; the end of the file and every other error, \<open>EAGAIN\<close> among
  them, close it.
\<close>

definition read_channel_data :: "nat \<Rightarrow> int \<Rightarrow> u32 \<Rightarrow> u32 \<Rightarrow> sshsession \<Rightarrow> sshsession res" where
  "read_channel_data i fd maxlen size_pos s =
     bindr (buf_getwriteptr (writepayload s) maxlen) (\<lambda>_.
     case sys_read (unat maxlen) (world s) of
       (Got d, w) \<Rightarrow>
         if d = [] then bindr (close_chan_fd i fd SHUT_RD (s\<lparr>world := w\<rparr>)) reset_payload
         else
           bindr (on_write (\<lambda>b. buf_poke b d) (s\<lparr>world := w\<rparr>)) (\<lambda>s.
           bindr (on_write (\<lambda>b. buf_incrwritepos b (of_nat (length d))) s) (\<lambda>s.
           bindr (on_write (\<lambda>b. buf_setpos b size_pos) s) (\<lambda>s.
           bindr (put_int (of_nat (length d)) s) (\<lambda>s.
           bindr (upd_chan i (\<lambda>c. c\<lparr>transwindow := transwindow c - of_nat (length d)\<rparr>) s) encrypt_packet))))
     | (Read_again, w) \<Rightarrow> reset_payload (s\<lparr>world := w\<rparr>)
     | (Read_error, w) \<Rightarrow> bindr (close_chan_fd i fd SHUT_RD (s\<lparr>world := w\<rparr>)) reset_payload)"

definition send_msg_channel_data :: "nat \<Rightarrow> bool \<Rightarrow> sshsession \<Rightarrow> sshsession res" where
  "send_msg_channel_data i isextended s =
     bindr (get_chan i s) (\<lambda>c.
     bindr (require (\<not> sent_close c) Assert_failed) (\<lambda>_.
     let fd = (if isextended then errfd c else readfd c) in
     bindr (require (fd \<ge> 0) Assert_failed) (\<lambda>_.
     let maxlen = min (min (transwindow c) (transmaxpacket c))
           (bsize (writepayload s) - 1 - 4 - 4 - (if isextended then 4 else 0)) in
     if maxlen = 0 then Inr s
     else
       bindr (put_byte (if isextended then SSH_MSG_CHANNEL_EXTENDED_DATA else SSH_MSG_CHANNEL_DATA) s) (\<lambda>s.
       bindr (put_int (remotechan c) s) (\<lambda>s.
       bindr (if isextended then put_int SSH_EXTENDED_DATA_STDERR s else Inr s) (\<lambda>s.
       let size_pos = bpos (writepayload s) in
       bindr (put_int 0 s) (read_channel_data i fd maxlen size_pos)))))))"

section \<open>Descriptors of the main loop\<close>

definition chan_fds :: "bool \<Rightarrow> bool \<Rightarrow> Channel \<Rightarrow> fd_set \<times> fd_set \<Rightarrow> (fd_set \<times> fd_set) res" where
  "chan_fds allowed allow_reads c fds =
     (case fds of (readfds, writefds) \<Rightarrow>
      bindr (if transwindow c > 0 \<and> allowed \<and> allow_reads
             then bindr (if readfd c \<ge> 0 then dropbear_fd_set (readfd c) readfds else Inr readfds) (\<lambda>readfds.
                  if ERRFD_IS_READ c \<and> errfd c \<ge> 0 then dropbear_fd_set (errfd c) readfds else Inr readfds)
             else Inr readfds) (\<lambda>readfds.
      bindr (if writefd c \<ge> 0
             then (case writebuf c of
                     None \<Rightarrow> Inl Mem_fault
                   | Some cb \<Rightarrow> if cbuf_getused cb > 0 then dropbear_fd_set (writefd c) writefds else Inr writefds)
             else Inr writefds) (\<lambda>writefds.
      bindr (if errfd c \<ge> 0
             then (case extrabuf c of
                     None \<Rightarrow> Inr writefds
                   | Some eb \<Rightarrow> if cbuf_getused eb > 0 then dropbear_fd_set (errfd c) writefds else Inr writefds)
             else Inr writefds) (\<lambda>writefds.
      Inr (readfds, writefds)))))"

fun chans_fds :: "bool \<Rightarrow> bool \<Rightarrow> Channel option list \<Rightarrow> fd_set \<times> fd_set \<Rightarrow> (fd_set \<times> fd_set) res" where
  "chans_fds allowed allow_reads [] fds = Inr fds"
| "chans_fds allowed allow_reads (None # cs) fds = chans_fds allowed allow_reads cs fds"
| "chans_fds allowed allow_reads (Some c # cs) fds =
     bindr (chan_fds allowed allow_reads c fds) (chans_fds allowed allow_reads cs)"

definition setchannelfds :: "fd_set \<Rightarrow> fd_set \<Rightarrow> bool \<Rightarrow> sshsession \<Rightarrow> (fd_set \<times> fd_set) res" where
  "setchannelfds readfds writefds allow_reads s =
     bindr (chans_fds (dataallowed s) allow_reads (channels s) (readfds, writefds)) (\<lambda>(readfds, writefds).
     bindr (set_listener_fds readfds s) (\<lambda>readfds.
     Inr (readfds, writefds)))"

text \<open>
  One channel of \<open>channelio\<close>. Every test reads the channel again, as the code does through its
  pointer; the flag collects whether there was any event.
\<close>

definition on_chan :: "nat \<Rightarrow> (Channel \<Rightarrow> bool) \<Rightarrow> (Channel \<Rightarrow> sshsession \<Rightarrow> sshsession res) \<Rightarrow> bool \<times> sshsession
    \<Rightarrow> (bool \<times> sshsession) res" where
  "on_chan i test act st =
     (case st of (do_check_close, s) \<Rightarrow>
      bindr (get_chan i s) (\<lambda>c.
      if test c then bindr (act c s) (\<lambda>s. Inr (True, s)) else Inr (do_check_close, s)))"

definition writechannel_only :: "nat \<Rightarrow> int \<Rightarrow> which_buf \<Rightarrow> sshsession \<Rightarrow> sshsession res" where
  "writechannel_only i fd which s = bindr (writechannel i fd which None s) (\<lambda>(_, _, s). Inr s)"

definition chan_io :: "handlers \<Rightarrow> fd_set \<Rightarrow> fd_set \<Rightarrow> nat \<Rightarrow> sshsession \<Rightarrow> sshsession res" where
  "chan_io hs readfds writefds i s =
     bindr (on_chan i (\<lambda>c. readfd c \<ge> 0 \<and> readfd c \<in> set readfds) (\<lambda>c. send_msg_channel_data i False) (False, s)) (\<lambda>st.
     bindr (on_chan i (\<lambda>c. ERRFD_IS_READ c \<and> errfd c \<ge> 0 \<and> errfd c \<in> set readfds)
              (\<lambda>c. send_msg_channel_data i True) st) (\<lambda>st.
     bindr (on_chan i (\<lambda>c. writefd c \<ge> 0 \<and> writefd c \<in> set writefds)
              (\<lambda>c. writechannel_only i (writefd c) Writebuf) st) (\<lambda>st.
     bindr (on_chan i (\<lambda>c. ERRFD_IS_WRITE c \<and> errfd c \<ge> 0 \<and> errfd c \<in> set writefds)
              (\<lambda>c. writechannel_only i (errfd c) Extrabuf) st) (\<lambda>(do_check_close, s).
     if do_check_close \<or> channel_signal_pending s then check_close hs i s else Inr s))))"

text \<open>The callbacks do not open channels, so the slots are those at the start of the loop.\<close>

fun chans_io :: "handlers \<Rightarrow> fd_set \<Rightarrow> fd_set \<Rightarrow> nat list \<Rightarrow> sshsession \<Rightarrow> sshsession res" where
  "chans_io hs readfds writefds [] s = Inr s"
| "chans_io hs readfds writefds (i # is) s =
     bindr (if i < length (channels s) \<and> channels s ! i \<noteq> None then chan_io hs readfds writefds i s else Inr s)
       (chans_io hs readfds writefds is)"

definition channelio :: "handlers \<Rightarrow> (nat \<Rightarrow> int \<Rightarrow> sshsession \<Rightarrow> sshsession res) \<Rightarrow> fd_set \<Rightarrow> fd_set \<Rightarrow> sshsession
    \<Rightarrow> sshsession res" where
  "channelio hs acceptor readfds writefds s =
     bindr (chans_io hs readfds writefds [0..<length (channels s)] s) (handle_listeners acceptor readfds)"

section \<open>The other messages of the peer\<close>

definition recv_msg_channel_eof :: "handlers \<Rightarrow> sshsession \<Rightarrow> sshsession res" where
  "recv_msg_channel_eof hs s =
     bindr (getchannel_msg (Some ''EOF'') s) (\<lambda>(i, s).
     bindr (upd_chan i (\<lambda>c. c\<lparr>recv_eof := True\<rparr>) s) (check_close hs i))"

definition recv_msg_channel_close :: "handlers \<Rightarrow> sshsession \<Rightarrow> sshsession res" where
  "recv_msg_channel_close hs s =
     bindr (getchannel_msg (Some ''Close'') s) (\<lambda>(i, s).
     bindr (upd_chan i (\<lambda>c. c\<lparr>recv_eof := True, recv_close := True\<rparr>) s) (check_close hs i))"

definition recv_msg_channel_request :: "handlers \<Rightarrow> sshsession \<Rightarrow> sshsession res" where
  "recv_msg_channel_request hs s =
     bindr (getchannel s) (\<lambda>(i, s).
     bindr (get_chan i s) (\<lambda>c.
     if has_reqhandler (chan_type c) then reqhandler (hs (chan_type c)) i s
     else
       bindr (on_read (\<lambda>b. bindr (buf_eatstring b) (\<lambda>b. Inr ((), b))) s) (\<lambda>(_, s).
       bindr (on_read buf_getbool s) (\<lambda>(wantreply, s).
       if wantreply then send_msg_channel_failure c s else Inr s))))"

text \<open>
  The types are compared with \<open>strcmp\<close>, so a name with a zero byte is known by the part before it.
  The end of the list of types is its NULL entry.
\<close>

definition create_channel :: "handlers \<Rightarrow> ChanType \<Rightarrow> u32 \<Rightarrow> u32 \<Rightarrow> u32 \<Rightarrow> sshsession \<Rightarrow> sshsession res" where
  "create_channel hs chantype remote window maxpacket s =
     bindr (newchannel remote chantype window maxpacket s) (\<lambda>(chan, s).
     case chan of
       None \<Rightarrow> send_msg_channel_open_failure remote SSH_OPEN_RESOURCE_SHORTAGE '''' '''' s
     | Some i \<Rightarrow>
         bindr (if has_inithandler chantype then inithandler (hs chantype) i s else Inr (0, s)) (\<lambda>(ret, s).
         if ret = SSH_OPEN_IN_PROGRESS then Inr s
         else if ret > 0 then bindr (remove_channel hs i s) (send_msg_channel_open_failure remote ret '''' '''')
         else
           let s = update_channel_prio s in
           bindr (get_chan i s) (\<lambda>c.
           send_msg_channel_open_confirmation c (recvwindow c) (recvmaxpacket c) s)))"

definition recv_msg_channel_open :: "handlers \<Rightarrow> sshsession \<Rightarrow> sshsession res" where
  "recv_msg_channel_open hs s =
     bindr (on_read buf_getstring s) (\<lambda>(type, s).
     bindr (on_read buf_getint s) (\<lambda>(remote, s).
     bindr (on_read buf_getint s) (\<lambda>(window, s).
     bindr (on_read buf_getint s) (\<lambda>(maxpacket, s).
     let maxpacket = min maxpacket TRANS_MAX_PAYLOAD_LEN in
     if length type > MAX_NAME_LEN
     then send_msg_channel_open_failure remote SSH_OPEN_UNKNOWN_CHANNEL_TYPE '''' '''' s
     else case find (\<lambda>t. strcmp_eq type (ct_name t)) (chantypes s) of
       None \<Rightarrow> send_msg_channel_open_failure remote SSH_OPEN_UNKNOWN_CHANNEL_TYPE '''' '''' s
     | Some chantype \<Rightarrow> create_channel hs chantype remote window maxpacket s))))"

definition send_msg_channel_open_init :: "int \<Rightarrow> ChanType \<Rightarrow> sshsession \<Rightarrow> (bool \<times> sshsession) res" where
  "send_msg_channel_open_init fd type s =
     bindr (newchannel 0 type 0 0 s) (\<lambda>(chan, s).
     case chan of
       None \<Rightarrow> Inr (False, s)
     | Some i \<Rightarrow>
         let s = s\<lparr>maxfd := max (maxfd s) fd\<rparr> in
         bindr (upd_chan i (\<lambda>c. c\<lparr>writefd := fd, readfd := fd, bidir_fd := True, await_open := True\<rparr>) s) (\<lambda>s.
         bindr (get_chan i s) (\<lambda>c.
         bindr (put_byte SSH_MSG_CHANNEL_OPEN s) (\<lambda>s.
         bindr (put_string (ct_name type) s) (\<lambda>s.
         bindr (put_int (index c) s) (\<lambda>s.
         bindr (put_int (recv_window (opts s)) s) (\<lambda>s.
         bindr (put_int RECV_MAX_CHANNEL_DATA_LEN s) (\<lambda>s.
         Inr (True, s)))))))))"

definition recv_msg_channel_open_confirmation :: "handlers \<Rightarrow> sshsession \<Rightarrow> sshsession res" where
  "recv_msg_channel_open_confirmation hs s =
     bindr (getchannel s) (\<lambda>(i, s).
     bindr (get_chan i s) (\<lambda>c.
     bindr (require (await_open c) (Exit ''Unexpected channel reply'')) (\<lambda>_.
     bindr (on_read buf_getint s) (\<lambda>(remote, s).
     bindr (on_read buf_getint s) (\<lambda>(window, s).
     bindr (on_read buf_getint s) (\<lambda>(maxpacket, s).
     bindr (upd_chan i (\<lambda>c. c\<lparr>remotechan := remote, transwindow := window, transmaxpacket := maxpacket,
              await_open := False\<rparr>) s) (\<lambda>s.
     if has_inithandler (chan_type c)
     then bindr (inithandler (hs (chan_type c)) i s) (\<lambda>(ret, s).
          if ret > 0 then remove_channel hs i s else Inr (update_channel_prio s))
     else Inr (update_channel_prio s))))))))"

definition recv_msg_channel_open_failure :: "handlers \<Rightarrow> sshsession \<Rightarrow> sshsession res" where
  "recv_msg_channel_open_failure hs s =
     bindr (getchannel s) (\<lambda>(i, s).
     bindr (get_chan i s) (\<lambda>c.
     bindr (require (await_open c) (Exit ''Unexpected channel reply'')) (\<lambda>_.
     bindr (upd_chan i (\<lambda>c. c\<lparr>await_open := False\<rparr>) s) (remove_channel hs i))))"

definition get_any_ready_channel :: "sshsession \<Rightarrow> nat option" where
  "get_any_ready_channel s =
     (if chancount s = 0 then None
      else find (\<lambda>i. case channels s ! i of
                  None \<Rightarrow> False
                | Some c \<Rightarrow> \<not> (sent_eof c \<or> recv_eof c) \<and> \<not> await_open c) [0..<length (channels s)])"

end
