(* ===== verification/Channel_Data.thy ===== *)
theory Channel_Data
  imports Channel Process_Packet
begin

text \<open>
  The stream of data from the peer to the local side of a channel: flow control and delivery. The
  window that the peer was granted, the bytes written since the last adjustment and the bytes
  still buffered never exceed the size of the receive window, so no assertion of \<open>writechannel\<close> fails
  for a peer that keeps to its window, and what comes out of the local descriptor together with
  what is buffered is what the peer sent.
\<close>

section \<open>Slots\<close>

lemma get_chan_Inr: "get_chan i s = Inr c \<longleftrightarrow> i < length (channels s) \<and> channels s ! i = Some c"
  by (auto simp: get_chan_def split: option.splits)

lemma get_set_chan [simp]: "i < length (channels s) \<Longrightarrow> get_chan i (set_chan i c s) = Inr c"
  by (simp add: get_chan_def set_chan_def)

lemma set_chan_simps [simp]:
  "length (channels (set_chan i c s)) = length (channels s)"
  "world (set_chan i c s) = world s" "opts (set_chan i c s) = opts s" "payload (set_chan i c s) = payload s"
  "dataallowed (set_chan i c s) = dataallowed s" "writepayload (set_chan i c s) = writepayload s"
  "set_chan i c (set_chan i c' s) = set_chan i c s"
  "world (s\<lparr>payload := p\<rparr>) = world s"
  by (simp_all add: set_chan_def)

lemma get_chan_cong [simp]:
  "get_chan i (s\<lparr>world := w\<rparr>) = get_chan i s" "get_chan i (s\<lparr>payload := p\<rparr>) = get_chan i s"
  "get_chan i (s\<lparr>writepayload := b\<rparr>) = get_chan i s"
  by (simp_all add: get_chan_def)

lemma upd_chan_eq: "get_chan i s = Inr c \<Longrightarrow> upd_chan i f s = Inr (set_chan i (f c) s)"
  by (simp add: upd_chan_def)

text \<open>Sending does not touch channels, and of the world only the random bytes.\<close>

lemma unwired_chan:
  assumes "unwired s' = unwired s"
  shows "get_chan i s' = get_chan i s" "fd_out (world s') = fd_out (world s)"
    "write_answers (world s') = write_answers (world s)" "opts s' = opts s" "payload s' = payload s"
    "dataallowed s' = dataallowed s" "length (channels s') = length (channels s)"
proof -
  show "get_chan i s' = get_chan i s" "opts s' = opts s" "payload s' = payload s" "dataallowed s' = dataallowed s"
    "write_answers (world s') = write_answers (world s)" "length (channels s') = length (channels s)"
    using unwiredD [OF assms] by (simp_all add: get_chan_def)
  show "fd_out (world s') = fd_out (world s)"
    using arg_cong [OF assms, of "\<lambda>s. fd_out (world s)"] by (simp add: unwired_def)
qed

section \<open>The window\<close>

text \<open>
  \<open>win_ok s m c\<close>: the channel has the buffer of a server's channel, and the window, the bytes
  written but not yet granted again, the bytes buffered and \<open>m\<close> bytes in hand fit the receive window.
\<close>

definition win_ok :: "sshsession \<Rightarrow> nat \<Rightarrow> Channel \<Rightarrow> bool" where
  "win_ok s m c \<longleftrightarrow> extrabuf c = None \<and> (case writebuf c of None \<Rightarrow> False
     | Some cb \<Rightarrow> cb_ok cb \<and> csize cb = recv_window (opts s)
        \<and> unat (recvwindow c) + unat (recvdonelen c) + unat (cused cb) + m \<le> unat (recv_window (opts s)))"

definition buffered :: "Channel \<Rightarrow> byte list" where
  "buffered c = (case writebuf c of None \<Rightarrow> [] | Some cb \<Rightarrow> cb_list cb)"

lemma win_okE:
  assumes "win_ok s m c"
  obtains cb where "writebuf c = Some cb" "extrabuf c = None" "cb_ok cb" "csize cb = recv_window (opts s)"
    "unat (recvwindow c) + unat (recvdonelen c) + unat (cused cb) + m \<le> unat (recv_window (opts s))"
    "buffered c = cb_list cb" "length (cb_list cb) = unat (cused cb)"
  using assms by (auto simp: win_ok_def buffered_def length_cb_list split: option.splits)

lemma win_ok_cong: "opts s' = opts s \<Longrightarrow> win_ok s' m c = win_ok s m c"
  by (simp add: win_ok_def split: option.splits)

lemma window_asserts_ok:
  assumes "get_chan i s = Inr c" and "win_ok s m c"
  shows "window_asserts i s = Inr ()"
proof -
  obtain cb where cb: "writebuf c = Some cb" "extrabuf c = None" "cb_ok cb" "csize cb = recv_window (opts s)"
    "unat (recvwindow c) + unat (recvdonelen c) + unat (cused cb) + m \<le> unat (recv_window (opts s))"
    by (rule win_okE [OF assms(2)])
  have "recvwindow c \<le> cbuf_getavail cb" using cb(4,5) by (simp add: word_le_nat_alt unat_getavail [OF cb(3)])
  moreover have "recvwindow c \<le> recv_window (opts s)" using cb(5) by (simp add: word_le_nat_alt)
  ultimately show ?thesis using assms(1) cb(1,2) by (simp add: window_asserts_def)
qed

section \<open>Writing to the local descriptor\<close>

lemma set_chan_same: "get_chan i s = Inr c \<Longrightarrow> set_chan i c s = s"
  by (cases s) (auto simp: set_chan_def get_chan_Inr list_update_same_conv)

lemma sys_writev_fd_cases:
  obtains (wrote) n w where "sys_writev_fd fd bytes w0 = (Wrote n, w)" "n \<le> length bytes"
      "fd_out w = (fd_out w0)(fd := fd_out w0 fd @ take n bytes)"
  | (again) w where "sys_writev_fd fd bytes w0 = (Write_again, w)" "fd_out w = fd_out w0"
  | (error) w where "sys_writev_fd fd bytes w0 = (Write_error, w)" "fd_out w = fd_out w0"
  by (cases "write_answers w0"; cases "hd (write_answers w0)")
    (auto simp: sys_writev_fd_def sys_writev_def)

lemma readptrs_length:
  assumes "cb_ok cb" and "cbuf_readptrs cb = (p1, len1, p2, len2)"
  shows "len1 + len2 = cused cb" "len1 = 0 \<and> len2 = 0 \<longleftrightarrow> cused cb = 0"
proof -
  show "len1 + len2 = cused cb" using assms(2) by (auto simp: cbuf_readptrs_def Let_def min_def split: if_splits)
  then show "len1 = 0 \<and> len2 = 0 \<longleftrightarrow> cused cb = 0"
    using assms by (auto simp: cbuf_readptrs_def Let_def cb_ok_def min_def split: if_splits)
qed

text \<open>
  After \<open>n\<close> bytes were taken from the buffer and then from the data in hand, the buffer holds the
  rest of what it held and the same total fits the window.
\<close>

lemma chan_wrote:
  assumes "win_ok s (length md) c" and "writebuf c = Some cb" and "n \<le> length (cb_list cb @ md)"
  defines "k \<equiv> min (cused cb) (of_nat n) :: u32"
  obtains cb' where "cbuf_incrread cb k = Inr cb'"
    "of_nat n - k = (of_nat (n - length (buffered c)) :: u32)"
    "win_ok s (length md - (n - length (buffered c))) (c\<lparr>writebuf := Some cb', recvdonelen := recvdonelen c + of_nat n\<rparr>)"
    "buffered (c\<lparr>writebuf := Some cb', recvdonelen := recvdonelen c + of_nat n\<rparr>) = drop n (buffered c)"
proof -
  have cb: "extrabuf c = None" "cb_ok cb" "csize cb = recv_window (opts s)" "buffered c = cb_list cb"
    "unat (recvwindow c) + unat (recvdonelen c) + unat (cused cb) + length md \<le> unat (recv_window (opts s))"
    "length (cb_list cb) = unat (cused cb)"
    using win_okE [OF assms(1)] assms(2) by auto
  have wmax: "unat (recv_window (opts s)) \<le> 100000000" using cb_ok_nat(2) [OF cb(2)] cb(3) by simp
  have nn: "n \<le> unat (cused cb) + length md" using assms(3) cb(6) by simp
  have un: "unat (of_nat n :: u32) = n" using nn cb(5) wmax by (intro unat_of_nat_u32) linarith
  have uk: "unat k = min (unat (cused cb)) n" by (simp add: k_def unat_min_u32 un)
  obtain cb' where cb': "cbuf_incrread cb k = Inr cb'" "cb_ok cb'" "csize cb' = csize cb" "cb_list cb' = drop (unat k) (cb_list cb)"
    using cbuf_incrread_eq [OF cb(2), of k] uk cb(6) by auto
  have used': "unat (cused cb') = unat (cused cb) - unat k"
    using length_cb_list [OF cb'(2)] cb'(4) cb(6) by simp
  have "unat (of_nat n - k) = n - unat (cused cb)" using uk un by (subst unat_sub_below) auto
  then have rest: "of_nat n - k = (of_nat (n - unat (cused cb)) :: u32)"
    by (metis of_nat_unat ucast_id)
  have rd: "unat (recvdonelen c + of_nat n) = unat (recvdonelen c) + n"
    using cb(5) nn wmax un by (subst unat_add_below) auto
  show thesis
  proof (rule that [OF cb'(1)])
    show "of_nat n - k = (of_nat (n - length (buffered c)) :: u32)" using rest cb(4,6) by simp
    show "win_ok s (length md - (n - length (buffered c))) (c\<lparr>writebuf := Some cb', recvdonelen := recvdonelen c + of_nat n\<rparr>)"
      using cb cb' rd used' uk nn by (auto simp: win_ok_def)
    show "buffered (c\<lparr>writebuf := Some cb', recvdonelen := recvdonelen c + of_nat n\<rparr>) = drop n (buffered c)"
      using cb'(4) cb(4,6) uk by (simp add: buffered_def min_def)
  qed
qed

abbreviation in_hand :: "byte list option \<Rightarrow> byte list" where
  "in_hand moredata \<equiv> (case moredata of None \<Rightarrow> [] | Some d \<Rightarrow> d)"

text \<open>
  What \<open>writechannel_writev\<close> does: it takes some bytes from the front of buffer and data in hand, or
  the write fails and the descriptor is closed.
\<close>

definition wrote :: "int \<Rightarrow> byte list \<Rightarrow> nat \<Rightarrow> Channel \<Rightarrow> Channel \<Rightarrow> world \<Rightarrow> world \<Rightarrow> bool" where
  "wrote fd md n c c' w w' \<longleftrightarrow> n \<le> length (buffered c @ md) \<and> buffered c' = drop n (buffered c)
     \<and> fd_out w' = (fd_out w)(fd := fd_out w fd @ take n (buffered c @ md))
     \<and> writefd c' = writefd c \<and> recv_eof c' = recv_eof c"

lemma wrote_nothing: "get_chan i s = Inr c \<Longrightarrow> win_ok s m c \<Longrightarrow> fd_out w' = fd_out (world s) \<Longrightarrow> wrote fd md 0 c c (world s) w'"
  by (simp add: wrote_def)

lemma writechannel_writev_cases:
  assumes "get_chan i s = Inr c" and "win_ok s (length (in_hand moredata)) c"
  obtains (ok) n c' w where "writechannel_writev i fd Writebuf moredata s
        = Inr (True, of_nat (n - length (buffered c)), set_chan i c' (s\<lparr>world := w\<rparr>))"
      "wrote fd (in_hand moredata) n c c' (world s) w" "win_ok s (length (in_hand moredata) - (n - length (buffered c))) c'"
  | (failed) w where "writechannel_writev i fd Writebuf moredata s
        = bindr (close_chan_fd i fd SHUT_WR (s\<lparr>world := w\<rparr>)) (\<lambda>s. Inr (False, 0, s))" "fd_out w = fd_out (world s)"
proof -
  let ?md = "in_hand moredata"
  obtain cb where cb: "writebuf c = Some cb" "cb_ok cb" "buffered c = cb_list cb" "length (cb_list cb) = unat (cused cb)"
    using assms(2) by (rule win_okE)
  obtain p1 len1 p2 len2 where ptrs: "cbuf_readptrs cb = (p1, len1, p2, len2)" by (metis prod_cases4)
  note lens = readptrs_length [OF cb(2) ptrs]
  show thesis
  proof (cases "cused cb = 0 \<and> moredata = None")
    case True
    then have "writechannel_writev i fd Writebuf moredata s = Inr (True, 0, s)"
      using assms(1) cb(1) ptrs lens(2) by (simp add: writechannel_writev_def)
    moreover have "set_chan i c (s\<lparr>world := world s\<rparr>) = s" using set_chan_same [OF assms(1)] by simp
    ultimately show thesis using ok [of 0 c "world s"] wrote_nothing [OF assms(1,2)] assms(2) by simp
  next
    case False
    then have go: "writechannel_writev i fd Writebuf moredata s
        = (case sys_writev_fd fd (cb_list cb @ ?md) (world s) of
              (Wrote n, w) \<Rightarrow>
                bindr (cbuf_incrread cb (min (cused cb) (of_nat n))) (\<lambda>cb'.
                Inr (True, of_nat n - min (cused cb) (of_nat n),
                     set_chan i (c\<lparr>writebuf := Some cb', recvdonelen := recvdonelen c + of_nat n\<rparr>) (s\<lparr>world := w\<rparr>)))
            | (Write_again, w) \<Rightarrow> Inr (True, 0, s\<lparr>world := w\<rparr>)
            | (Write_error, w) \<Rightarrow> bindr (close_chan_fd i fd SHUT_WR (s\<lparr>world := w\<rparr>)) (\<lambda>s. Inr (False, 0, s)))"
      using assms(1) cb(1) ptrs lens
      by (auto simp: writechannel_writev_def cbuf_readall_eq [OF cb(2)] Let_def split: prod.splits write_answer.splits)
    show thesis
    proof (cases rule: sys_writev_fd_cases [of fd "cb_list cb @ ?md" "world s"])
      case (wrote n w)
      obtain cb' where cb': "cbuf_incrread cb (min (cused cb) (of_nat n)) = Inr cb'"
        "of_nat n - min (cused cb) (of_nat n) = (of_nat (n - length (buffered c)) :: u32)"
        "win_ok s (length ?md - (n - length (buffered c))) (c\<lparr>writebuf := Some cb', recvdonelen := recvdonelen c + of_nat n\<rparr>)"
        "buffered (c\<lparr>writebuf := Some cb', recvdonelen := recvdonelen c + of_nat n\<rparr>) = drop n (buffered c)"
        using chan_wrote [OF assms(2) cb(1) wrote(2)] by blast
      show thesis by (rule ok [OF _ _ cb'(3)]) (use go wrote cb' cb(3) in \<open>auto simp: wrote_def\<close>)
    next
      case (again w)
      have "set_chan i c (s\<lparr>world := w\<rparr>) = s\<lparr>world := w\<rparr>" using assms(1) by (intro set_chan_same) simp
      then show thesis using ok [of 0 c w] go again wrote_nothing [OF assms again(2)] assms(2) by simp
    next
      case (error w)
      then show thesis using failed [of w] go by simp
    qed
  qed
qed

text \<open>Closing a descriptor only changes descriptors.\<close>

lemma close_chan_fd_shape:
  assumes "get_chan i s = Inr c"
  obtains r e v w where "close_chan_fd i fd how s = Inr (set_chan i (c\<lparr>writefd := v, readfd := r, errfd := e\<rparr>) (s\<lparr>world := w\<rparr>))"
    "fd_out w = fd_out (world s)"
    "v = (if (bidir_fd c \<longrightarrow> how \<noteq> 0) \<and> fd = writefd c then FD_CLOSED else writefd c)"
    "r = (if (bidir_fd c \<longrightarrow> how = 0) \<and> fd = readfd c then FD_CLOSED else readfd c)"
    "e = errfd c \<or> e = FD_CLOSED"
proof -
  let ?c = "mark_closed (if bidir_fd c then how \<noteq> 0 else True) (if bidir_fd c then how = 0 else True) fd c"
  let ?w1 = "if bidir_fd c then (world s)\<lparr>shutdowns := (fd, how) # shutdowns (world s)\<rparr> else m_close fd (world s)"
  let ?w = "if bidir_fd ?c \<and> readfd ?c = FD_CLOSED \<and> writefd ?c = FD_CLOSED \<and> errfd ?c = FD_CLOSED then m_close fd ?w1 else ?w1"
  have e: "close_chan_fd i fd how s = Inr (set_chan i ?c (s\<lparr>world := ?w\<rparr>))"
    using assms by (simp only: close_chan_fd_def Let_def bindr_Inr)
  have "fd_out ?w = fd_out (world s)" by (simp add: m_close_def)
  then show thesis by (intro that [OF e [unfolded mark_closed_def [of _ _ fd c]]]) (auto simp: mark_closed_def)
qed

lemma win_ok_fds [simp]:
  "win_ok s m (c\<lparr>writefd := v, readfd := r, errfd := e\<rparr>) = win_ok s m c"
  "buffered (c\<lparr>writefd := v, readfd := r, errfd := e\<rparr>) = buffered c"
  by (simp_all add: win_ok_def buffered_def split: option.splits)

text \<open>
  A step on channel \<open>i\<close>, which becomes \<open>c\<close>: the other channels, the options and the received packet
  stay, and the session can still send if it may send data at all.
\<close>

definition moved :: "nat \<Rightarrow> Channel \<Rightarrow> sshsession \<Rightarrow> sshsession \<Rightarrow> bool" where
  "moved i c s s' \<longleftrightarrow> i < length (channels s) \<and> channels s' = (channels s)[i := Some c] \<and> opts s' = opts s
     \<and> payload s' = payload s \<and> dataallowed s' = dataallowed s
     \<and> (dataallowed s \<and> ready_to_send s \<longrightarrow> ready_to_send s')"

lemma ready_to_send_cong [simp]:
  "ready_to_send (s\<lparr>world := w\<rparr>) = ready_to_send s" "ready_to_send (s\<lparr>payload := p\<rparr>) = ready_to_send s"
  "ready_to_send (set_chan i c s) = ready_to_send s"
  by (simp_all add: ready_to_send_def trans_ok_def payload_ready_def set_chan_def)

lemma moved_set_chan: "get_chan i s = Inr c0 \<Longrightarrow> moved i c s (set_chan i c (s\<lparr>world := w\<rparr>))"
  by (auto simp: moved_def get_chan_Inr set_chan_def ready_to_send_def trans_ok_def payload_ready_def)

lemma moved_same: "get_chan i s = Inr c \<Longrightarrow> moved i c s s"
  by (simp add: moved_def get_chan_Inr list_update_same_conv [THEN iffD2, symmetric])

lemma moved_trans: "moved i c s s' \<Longrightarrow> moved i c' s' s'' \<Longrightarrow> moved i c' s s''"
  by (auto simp: moved_def)

lemma moved_get: "moved i c s s' \<Longrightarrow> get_chan i s' = Inr c"
  by (auto simp: moved_def get_chan_Inr)

lemma moved_win: "moved i c s s' \<Longrightarrow> win_ok s' m c' = win_ok s m c'"
  by (rule win_ok_cong) (simp add: moved_def)

lemma sends_ready: "sends msg s s' \<Longrightarrow> ready_to_send s \<Longrightarrow> dataallowed s \<Longrightarrow> ready_to_send s'"
  by (auto simp: sends_def ready_to_send_def)

lemma sends_moved:
  assumes "sends msg s s'" and "get_chan i s = Inr c"
  shows "moved i c s s'"
proof -
  have u: "unwired s' = unwired s" using assms(1) by (simp add: sends_def)
  show ?thesis using moved_same [OF assms(2)] sends_ready [OF assms(1)]
    by (simp add: moved_def unwiredD(3,5,8,15) [OF u])
qed

lemma window_adjust_sends:
  assumes "ready_to_send s"
  obtains s' where "send_msg_channel_window_adjust c incr s = Inr s'"
    "sends (byte_of 93 # STORE32H (remotechan c) @ STORE32H incr) s s'"
  by (rule emits_sends [OF emits_byte [OF emits_int [OF emits_int [OF emits_encrypt]]] assms, of 93 "remotechan c" incr])
    (auto simp: send_msg_channel_window_adjust_def intro: that)

text \<open>The grant: what was written since the last one is added to the window and announced.\<close>

definition grant :: "nat \<Rightarrow> sshsession \<Rightarrow> sshsession res" where
  "grant i s = bindr (get_chan i s) (\<lambda>c.
     if recvdonelen c \<ge> RECV_WINDOWEXTEND s
     then bindr (send_msg_channel_window_adjust c (recvdonelen c) s)
            (upd_chan i (\<lambda>c. c\<lparr>recvwindow := recvwindow c + recvdonelen c, recvdonelen := 0\<rparr>))
     else Inr s)"

lemma grant_ok:
  assumes "get_chan i s = Inr c" and "win_ok s m c" and "ready_to_send s"
  obtains c' s' where "grant i s = Inr s'" "moved i c' s s'" "win_ok s m c'" "fd_out (world s') = fd_out (world s)"
    "buffered c' = buffered c" "writefd c' = writefd c" "recv_eof c' = recv_eof c"
    "unat (recvwindow c') + unat (recvdonelen c') = unat (recvwindow c) + unat (recvdonelen c)"
    "recvdonelen c' < RECV_WINDOWEXTEND s \<or> recvdonelen c' = 0"
proof (cases "recvdonelen c \<ge> RECV_WINDOWEXTEND s")
  case True
  let ?c = "c\<lparr>recvwindow := recvwindow c + recvdonelen c, recvdonelen := 0\<rparr>"
  obtain s1 where s1: "send_msg_channel_window_adjust c (recvdonelen c) s = Inr s1"
    "sends (byte_of 93 # STORE32H (remotechan c) @ STORE32H (recvdonelen c)) s s1"
    by (rule window_adjust_sends [OF assms(3)])
  have u: "unwired s1 = unwired s" using s1(2) by (simp add: sends_def)
  have g1: "get_chan i s1 = Inr c" using unwired_chan(1) [OF u] assms(1) by simp
  have e: "grant i s = Inr (set_chan i ?c s1)"
    using True assms(1) s1(1) g1 by (simp add: grant_def upd_chan_eq)
  obtain cb where cb: "writebuf c = Some cb" "extrabuf c = None" "cb_ok cb" "csize cb = recv_window (opts s)"
    "unat (recvwindow c) + unat (recvdonelen c) + unat (cused cb) + m \<le> unat (recv_window (opts s))"
    by (rule win_okE [OF assms(2)])
  have sum: "unat (recvwindow c + recvdonelen c) = unat (recvwindow c) + unat (recvdonelen c)"
    using cb(5) u32_bound [of "recv_window (opts s)"] by (intro unat_add_below) linarith
  have w: "win_ok s m ?c" using cb sum by (simp add: win_ok_def)
  have mv: "moved i ?c s (set_chan i ?c s1)"
    using moved_trans [OF sends_moved [OF s1(2) assms(1)] moved_set_chan [OF g1, of ?c "world s1"]] by simp
  show thesis by (rule that [OF e mv w]) (use unwired_chan(2) [OF u] sum in \<open>simp_all add: buffered_def\<close>)
next
  case False
  then have e: "grant i s = Inr s" using assms(1) by (simp add: grant_def)
  show thesis by (rule that [OF e moved_same [OF assms(1)] assms(2)]) (use False in \<open>simp_all add: not_le\<close>)
qed

lemma writechannel_grant:
  "writechannel i fd which moredata s =
     bindr (writechannel_writev i fd which moredata s) (\<lambda>(ret, morelen, s).
     bindr (grant i s) (\<lambda>s. bindr (window_asserts i s) (\<lambda>_. Inr (ret, morelen, s))))"
  unfolding writechannel_def grant_def
  by (rule bindr_cong [OF refl]) (auto simp: bindr_assoc get_chan_def split: option.splits)

text \<open>
  \<open>took fd md n c c' s s'\<close>: of the buffered bytes and the bytes in hand the first \<open>n\<close> went to the
  descriptor.
\<close>

definition took :: "int \<Rightarrow> byte list \<Rightarrow> nat \<Rightarrow> Channel \<Rightarrow> Channel \<Rightarrow> sshsession \<Rightarrow> sshsession \<Rightarrow> bool" where
  "took fd md n c c' s s' \<longleftrightarrow> n \<le> length (buffered c @ md) \<and> buffered c' = drop n (buffered c)
     \<and> fd_out (world s') = (fd_out (world s))(fd := fd_out (world s) fd @ take n (buffered c @ md))
     \<and> writefd c' = writefd c \<and> recv_eof c' = recv_eof c"

lemma writechannel_ok:
  assumes "get_chan i s = Inr c" and "win_ok s (length (in_hand moredata)) c" and "ready_to_send s"
    and "fd = writefd c" and "0 \<le> fd"
  obtains (ok) n c' s' where "writechannel i fd Writebuf moredata s = Inr (True, of_nat (n - length (buffered c)), s')"
      "moved i c' s s'" "win_ok s (length (in_hand moredata) - (n - length (buffered c))) c'"
      "took fd (in_hand moredata) n c c' s s'"
  | (failed) c' s' where "writechannel i fd Writebuf moredata s = Inr (False, 0, s')"
      "moved i c' s s'" "win_ok s 0 c'" "writefd c' = FD_CLOSED" "recv_eof c' = recv_eof c"
proof (rule writechannel_writev_cases [OF assms(1,2), of fd])
  fix n c1 w
  let ?m = "length (in_hand moredata) - (n - length (buffered c))" and ?s1 = "set_chan i c1 (s\<lparr>world := w\<rparr>)"
  assume e: "writechannel_writev i fd Writebuf moredata s = Inr (True, of_nat (n - length (buffered c)), ?s1)"
    and w: "wrote fd (in_hand moredata) n c c1 (world s) w" and k: "win_ok s ?m c1"
  have m1: "moved i c1 s ?s1" using assms(1) by (rule moved_set_chan)
  obtain c' s' where g: "grant i ?s1 = Inr s'" "moved i c' ?s1 s'" "win_ok ?s1 ?m c'" "fd_out (world s') = fd_out (world ?s1)"
    "buffered c' = buffered c1" "writefd c' = writefd c1" "recv_eof c' = recv_eof c1"
    by (rule grant_ok [OF moved_get [OF m1], of ?m]) (use k assms(3) in \<open>auto simp: win_ok_cong [of ?s1 s]\<close>)
  have mv: "moved i c' s s'" using moved_trans [OF m1 g(2)] .
  have k': "win_ok s ?m c'" using g(3) by (simp add: moved_win [OF m1])
  have a: "window_asserts i s' = Inr ()"
    by (rule window_asserts_ok [OF moved_get [OF mv]]) (use k' moved_win [OF mv] in auto)
  have c1: "writefd c1 = writefd c" "recv_eof c1 = recv_eof c" using w by (simp_all add: wrote_def)
  show thesis
    by (rule ok [OF _ mv k']) (use e g a c1 w in \<open>auto simp: writechannel_grant took_def wrote_def\<close>)
next
  fix w
  assume e: "writechannel_writev i fd Writebuf moredata s
        = bindr (close_chan_fd i fd SHUT_WR (s\<lparr>world := w\<rparr>)) (\<lambda>s. Inr (False, 0, s))" and w: "fd_out w = fd_out (world s)"
  obtain r v2 w1 where c: "close_chan_fd i fd SHUT_WR (s\<lparr>world := w\<rparr>)
      = Inr (set_chan i (c\<lparr>writefd := FD_CLOSED, readfd := r, errfd := v2\<rparr>) (s\<lparr>world := w1\<rparr>))"
    by (rule close_chan_fd_shape [of i "s\<lparr>world := w\<rparr>" c fd 1]) (use assms(1,4) in auto)
  let ?c1 = "c\<lparr>writefd := FD_CLOSED, readfd := r, errfd := v2\<rparr>" let ?s1 = "set_chan i ?c1 (s\<lparr>world := w1\<rparr>)"
  have m1: "moved i ?c1 s ?s1" using assms(1) by (rule moved_set_chan)
  have k: "win_ok s 0 ?c1" using assms(2) by (auto simp: win_ok_def split: option.splits)
  obtain c' s' where g: "grant i ?s1 = Inr s'" "moved i c' ?s1 s'" "win_ok ?s1 0 c'" "fd_out (world s') = fd_out (world ?s1)"
    "buffered c' = buffered ?c1" "writefd c' = writefd ?c1" "recv_eof c' = recv_eof ?c1"
    by (rule grant_ok [OF moved_get [OF m1], of 0]) (use k assms(3) in \<open>auto simp: win_ok_cong [of ?s1 s]\<close>)
  have mv: "moved i c' s s'" using moved_trans [OF m1 g(2)] .
  have k': "win_ok s 0 c'" using g(3) by (simp add: moved_win [OF m1])
  have a: "window_asserts i s' = Inr ()"
    by (rule window_asserts_ok [OF moved_get [OF mv]]) (use k' moved_win [OF mv] in auto)
  show thesis by (rule failed [OF _ mv k']) (use e c g a in \<open>simp_all add: writechannel_grant\<close>)
qed

section \<open>Storing what could not be written\<close>

lemma win_ok_room:
  assumes "win_ok s m c" and "writebuf c = Some cb" and "0 < m"
  shows "0 < writelen_nat cb" "cb_ok cb"
proof -
  obtain cb' where cb: "writebuf c = Some cb'" "cb_ok cb'" "csize cb' = recv_window (opts s)"
    "unat (recvwindow c) + unat (recvdonelen c) + unat (cused cb') + m \<le> unat (recv_window (opts s))"
    using assms(1) by (rule win_okE)
  then show "cb_ok cb" using assms(2) by simp
  have "0 < unat (cbuf_getavail cb)" using cb assms(2,3) by (simp add: unat_getavail)
  then show "0 < writelen_nat cb" using \<open>cb_ok cb\<close> by (rule writelen_nat_bounds(3) [rotated])
qed

text \<open>Taking bytes from the received packet.\<close>

lemma take_payload_bytes:
  assumes "payload s = Some b" and "buf_ok b" and "buf_rest b = d @ r" and "length d = unat l"
  shows "on_read (\<lambda>b. bindr (buf_peek b l) (\<lambda>d. bindr (buf_incrpos b l) (\<lambda>b. Inr (d, b)))) s
      = Inr (d, s\<lparr>payload := Some (buf_skip b (length d))\<rparr>)"
    "on_read (\<lambda>b. bindr (buf_peek b l) (\<lambda>d. Inr (d, b))) s = Inr (d, s)"
    "on_read (\<lambda>b. bindr (buf_incrpos b l) (\<lambda>b. Inr ((), b))) s = Inr ((), s\<lparr>payload := Some (buf_skip b (length d))\<rparr>)"
    "buf_ok (buf_skip b (length d))" "buf_rest (buf_skip b (length d)) = r"
proof -
  have p: "buf_peek b l = Inr d" "buf_incrpos b l = Inr (buf_skip b (length d))"
    using assms(2-4) by (simp_all add: buf_peek_eq buf_incrpos_eq)
  show "on_read (\<lambda>b. bindr (buf_peek b l) (\<lambda>d. bindr (buf_incrpos b l) (\<lambda>b. Inr (d, b)))) s
      = Inr (d, s\<lparr>payload := Some (buf_skip b (length d))\<rparr>)"
    "on_read (\<lambda>b. bindr (buf_incrpos b l) (\<lambda>b. Inr ((), b))) s = Inr ((), s\<lparr>payload := Some (buf_skip b (length d))\<rparr>)"
    using assms(1) p by (simp_all add: on_read_def)
  show "on_read (\<lambda>b. bindr (buf_peek b l) (\<lambda>d. Inr (d, b))) s = Inr (d, s)"
    using assms(1) p by (cases s) (simp add: on_read_def)
  show "buf_ok (buf_skip b (length d))" "buf_rest (buf_skip b (length d)) = r"
    using assms(2,3) by (simp_all add: buf_skip_ok buf_rest_skip)
qed

text \<open>One pass of the loop stores a chunk that fits up to the end of the block.\<close>

lemma store_chunk:
  assumes "win_ok s (length d) c" and "writebuf c = Some cb" and "length x \<le> writelen_nat cb" and "length x \<le> length d"
  obtains cb' where "cbuf_write cb x = Inr cb'" "win_ok s (length d - length x) (c\<lparr>writebuf := Some cb'\<rparr>)"
    "buffered (c\<lparr>writebuf := Some cb'\<rparr>) = buffered c @ x"
proof -
  have cb: "cb_ok cb" "extrabuf c = None" "csize cb = recv_window (opts s)" "length (cb_list cb) = unat (cused cb)"
    "unat (recvwindow c) + unat (recvdonelen c) + unat (cused cb) + length d \<le> unat (recv_window (opts s))"
    using win_okE [OF assms(1)] assms(2) by auto
  obtain cb' where cb': "cbuf_write cb x = Inr cb'" "cb_ok cb'" "csize cb' = csize cb" "cb_list cb' = cb_list cb @ x"
    using cbuf_write_eq [OF cb(1) assms(3)] by auto
  have "unat (cused cb') = unat (cused cb) + length x" using length_cb_list [OF cb'(2)] cb'(4) cb(4) by simp
  then show thesis using that [OF cb'(1)] cb cb' assms(2,4) by (simp add: win_ok_def buffered_def)
qed

lemma store_data_ok:
  assumes "get_chan i s = Inr c" and "payload s = Some b" and "buf_ok b" and "buf_rest b = d @ r"
    and "length d = unat len" and "win_ok s (length d) c"
  shows "\<exists>c' b'. store_data i Writebuf len s = Inr (set_chan i c' (s\<lparr>payload := Some b'\<rparr>)) \<and> win_ok s 0 c'
    \<and> buffered c' = buffered c @ d \<and> writefd c' = writefd c \<and> recv_eof c' = recv_eof c"
  using assms
proof (induction "length d" arbitrary: d c s b len rule: less_induct)
  case less
  show ?case
  proof (cases "len = 0")
    case True
    then have "store_data i Writebuf len s = Inr (set_chan i c (s\<lparr>payload := Some b\<rparr>))"
      using set_chan_same [of i "s\<lparr>payload := Some b\<rparr>" c] less.prems(1,2) by (cases s) (simp add: store_data.simps)
    then show ?thesis using True less.prems(5,6) by fastforce
  next
    case False
    obtain cb where cb: "writebuf c = Some cb" using less.prems(6) by (rule win_okE)
    have pos: "0 < length d" using False less.prems(5) by (metis unat_eq_zero neq0_conv)
    note room = win_ok_room [OF less.prems(6) cb pos]
    define buflen :: u32 where "buflen = min (of_nat (writelen_nat cb)) len"
    let ?x = "take (unat buflen) d"
    have ub: "unat buflen = min (writelen_nat cb) (length d)"
      using writelen_nat_bounds(4) [OF room(2)] less.prems(5) by (simp add: buflen_def unat_min_u32 unat_of_nat_u32)
    have lx: "length ?x = unat buflen" "0 < unat buflen" using ub room(1) pos by auto
    obtain cb' where cb': "cbuf_write cb ?x = Inr cb'" "win_ok s (length d - length ?x) (c\<lparr>writebuf := Some cb'\<rparr>)"
      "buffered (c\<lparr>writebuf := Some cb'\<rparr>) = buffered c @ ?x"
      by (rule store_chunk [OF less.prems(6) cb, of ?x]) (use ub in auto)
    let ?c = "c\<lparr>writebuf := Some cb'\<rparr>" and ?b = "buf_skip b (length ?x)"
    let ?s = "set_chan i ?c (s\<lparr>payload := Some ?b\<rparr>)"
    have rd: "buf_rest b = ?x @ (drop (unat buflen) d @ r)" using less.prems(4) by simp
    note tk = take_payload_bytes [OF less.prems(2,3) rd lx(1)]
    have nz: "buflen \<noteq> 0" using lx(2) by auto
    have e: "store_data i Writebuf len s = store_data i Writebuf (len - buflen) ?s"
      using False less.prems(1) cb nz cb'(1) tk(1)
      by (subst store_data.simps) (simp add: cbuf_writelen_eq [OF room(2)] buflen_def [symmetric])
    have "\<exists>c' b'. store_data i Writebuf (len - buflen) ?s = Inr (set_chan i c' (?s\<lparr>payload := Some b'\<rparr>)) \<and> win_ok ?s 0 c'
      \<and> buffered c' = buffered ?c @ drop (unat buflen) d \<and> writefd c' = writefd ?c \<and> recv_eof c' = recv_eof ?c"
    proof (rule less.hyps)
      show "length (drop (unat buflen) d) = unat (len - buflen)"
        using less.prems(5) ub by (subst unat_sub_below) auto
      show "win_ok ?s (length (drop (unat buflen) d)) ?c"
        using cb'(2) lx(1) win_ok_cong [of ?s s] by simp
    qed (use lx pos less.prems(1) tk in \<open>auto simp: get_chan_Inr\<close>)
    then obtain c' b' where ih: "store_data i Writebuf (len - buflen) ?s = Inr (set_chan i c' (?s\<lparr>payload := Some b'\<rparr>))"
      "win_ok ?s 0 c'" "buffered c' = buffered ?c @ drop (unat buflen) d" "writefd c' = writefd ?c" "recv_eof c' = recv_eof ?c"
      by blast
    show ?thesis
    proof (intro exI conjI)
      show "store_data i Writebuf len s = Inr (set_chan i c' (s\<lparr>payload := Some b'\<rparr>))"
        unfolding e ih(1) by (simp add: set_chan_def)
      show "win_ok s 0 c'" using ih(2) win_ok_cong [of ?s s] by simp
      show "buffered c' = buffered c @ d" unfolding ih(3) cb'(3) by simp
    qed (simp_all add: ih(4,5))
  qed
qed

section \<open>A data message\<close>

lemma read_int:
  assumes "payload s = Some b" and "buf_ok b" and "buf_rest b = STORE32H v @ r"
  shows "on_read buf_getint s = Inr (v, s\<lparr>payload := Some (buf_skip b 4)\<rparr>)"
    "buf_ok (buf_skip b 4)" "buf_rest (buf_skip b 4) = r"
  using assms by (simp_all add: on_read_def buf_getint_eq buf_skip_ok buf_rest_skip LOAD32H_STORE32H)

lemma getchannel_ok:
  assumes "payload s = Some b" and "buf_ok b" and "buf_rest b = STORE32H (of_nat i) @ r"
    and "get_chan i s = Inr c" and "i < 4294967296"
  shows "getchannel_msg kind s = Inr (i, s\<lparr>payload := Some (buf_skip b 4)\<rparr>)"
proof -
  have "unat (of_nat i :: u32) = i" using assms(5) by (rule unat_of_nat_u32)
  then show ?thesis using read_int(1) [OF assms(1-3)] assms(4) by (auto simp: getchannel_msg_def get_chan_Inr)
qed

definition data_message :: "nat \<Rightarrow> byte list \<Rightarrow> byte list" where
  "data_message i d = STORE32H (of_nat i) @ STORE32H (of_nat (length d)) @ d"

text \<open>
  \<open>delivers fd d c c' s s'\<close>: unless a failed write closed the descriptor, what came out of it and
  what is buffered is what it was with \<open>d\<close> behind it.
\<close>

definition delivers :: "int \<Rightarrow> byte list \<Rightarrow> Channel \<Rightarrow> Channel \<Rightarrow> sshsession \<Rightarrow> sshsession \<Rightarrow> bool" where
  "delivers fd d c c' s s' \<longleftrightarrow> recv_eof c' = recv_eof c \<and>
     (writefd c' = FD_CLOSED
      \<or> writefd c' = fd \<and> fd_out (world s') fd @ buffered c' = fd_out (world s) fd @ buffered c @ d)"

lemma took_delivers:
  assumes "took fd md n c c1 s s1" and "fd_out (world s') = fd_out (world s1)" and "fd = writefd c"
    and "buffered c' = buffered c1 @ drop (n - length (buffered c)) md" and "writefd c' = writefd c1" "recv_eof c' = recv_eof c1"
  shows "delivers fd md c c' s s'"
proof -
  have "take n (buffered c @ md) @ drop n (buffered c) @ drop (n - length (buffered c)) md = buffered c @ md"
    by (metis append_take_drop_id drop_append)
  then show ?thesis using assms by (auto simp: took_def delivers_def)
qed

text \<open>The part of the handler behind the checks.\<close>

lemma data_written:
  assumes "get_chan i s = Inr c" and "win_ok s (length d) c" and "ready_to_send s" and "fd = writefd c" and "0 \<le> fd"
    and "payload s = Some b" and "buf_ok b" and "buf_rest b = d @ r"
  obtains c' s' b' where
    "bindr (writechannel i fd Writebuf (Some d) s) (\<lambda>(res, consumed, s).
       bindr (on_read (\<lambda>b. bindr (buf_incrpos b consumed) (\<lambda>b. Inr ((), b))) s) (\<lambda>(_, s).
       if res then store_data i Writebuf (of_nat (length d) - consumed) s else Inr s)) = Inr s'"
    "moved i c' (s\<lparr>payload := Some b'\<rparr>) s'" "win_ok s 0 c'" "delivers fd d c c' s s'"
proof (rule writechannel_ok [OF assms(1) _ assms(3-5), of "Some d"])
  show "win_ok s (length (in_hand (Some d))) c" using assms(2) by simp
next
  fix n c1 s1
  assume w: "writechannel i fd Writebuf (Some d) s = Inr (True, of_nat (n - length (buffered c)), s1)"
    and m: "moved i c1 s s1" and k: "win_ok s (length (in_hand (Some d)) - (n - length (buffered c))) c1"
    and t: "took fd (in_hand (Some d)) n c c1 s s1"
  let ?k = "n - length (buffered c)"
  let ?u = "of_nat ?k :: u32"
  have kd: "?k \<le> length d" using t by (auto simp: took_def)
  have small: "length d \<le> 1000000000" using length_buf_rest_le [OF assms(7)] assms(8) by simp
  have uk: "unat ?u = ?k" "unat (of_nat (length d) - ?u) = length d - ?k"
    using kd small by (auto simp: unat_of_nat_u32 unat_sub_below)
  have p1: "payload s1 = Some b" using m assms(6) by (simp add: moved_def)
  have rd: "buf_rest b = take ?k d @ (drop ?k d @ r)" using assms(8) by simp
  have lt: "length (take ?k d) = unat ?u" using kd uk(1) by simp
  note tk = take_payload_bytes [OF p1 assms(7) rd lt]
  let ?b = "buf_skip b (length (take ?k d))" let ?s1 = "s1\<lparr>payload := Some ?b\<rparr>"
  obtain c' b' where st: "store_data i Writebuf (of_nat (length d) - ?u) ?s1 = Inr (set_chan i c' (?s1\<lparr>payload := Some b'\<rparr>))"
    "win_ok ?s1 0 c'" "buffered c' = buffered c1 @ drop ?k d" "writefd c' = writefd c1" "recv_eof c' = recv_eof c1"
    using store_data_ok [of i ?s1 c1 ?b "drop ?k d" r "of_nat (length d) - ?u"] moved_get [OF m] tk(4,5) uk k
      win_ok_cong [of ?s1 s] m by (auto simp: moved_def)
  let ?s' = "set_chan i c' (s1\<lparr>payload := Some b'\<rparr>)"
  show thesis
  proof (rule that [of ?s' c' b'])
    show "bindr (writechannel i fd Writebuf (Some d) s) (\<lambda>(res, consumed, s).
       bindr (on_read (\<lambda>b. bindr (buf_incrpos b consumed) (\<lambda>b. Inr ((), b))) s) (\<lambda>(_, s).
       if res then store_data i Writebuf (of_nat (length d) - consumed) s else Inr s)) = Inr ?s'"
      using w tk(3) st(1) by simp
    show "moved i c' (s\<lparr>payload := Some b'\<rparr>) ?s'" using m by (auto simp: moved_def set_chan_def ready_to_send_def trans_ok_def payload_ready_def)
    show "win_ok s 0 c'" using st(2) m win_ok_cong [of ?s1 s] by (simp add: moved_def)
    show "delivers fd d c c' s ?s'" by (rule took_delivers [of fd d n c c1 s s1]) (use t st assms(4) in simp_all)
  qed
next
  fix c1 s1
  assume w: "writechannel i fd Writebuf (Some d) s = Inr (False, 0, s1)" and m: "moved i c1 s s1" and k: "win_ok s 0 c1"
    and f: "writefd c1 = FD_CLOSED" "recv_eof c1 = recv_eof c"
  have p1: "payload s1 = Some b" using m assms(6) by (simp add: moved_def)
  then have r: "on_read (\<lambda>b. bindr (buf_incrpos b 0) (\<lambda>b. Inr ((), b))) s1 = Inr ((), s1\<lparr>payload := Some (buf_skip b 0)\<rparr>)"
    using assms(7) by (simp add: on_read_def buf_incrpos_eq)
  show thesis
    by (rule that [of "s1\<lparr>payload := Some (buf_skip b 0)\<rparr>" c1 "buf_skip b 0"])
      (use w r m k f in \<open>auto simp: moved_def delivers_def\<close>)
qed

lemma recv_data_ok:
  assumes "get_chan i s = Inr c" and "win_ok s 0 c" and "ready_to_send s" and "0 \<le> writefd c" and "\<not> recv_eof c"
    and "payload s = Some b" and "buf_ok b" and "buf_rest b = data_message i d @ r" and "i < 4294967296"
    and "length d \<le> unat (recvwindow c)"
  obtains c' s' b' where "recv_msg_channel_data s = Inr s'" "moved i c' (s\<lparr>payload := Some b'\<rparr>) s'" "win_ok s 0 c'"
    "delivers (writefd c) d c c' s s'"
proof -
  let ?len = "of_nat (length d) :: u32" and ?b1 = "buf_skip b 4" let ?b2 = "buf_skip ?b1 4"
  let ?s1 = "s\<lparr>payload := Some ?b1\<rparr>" and ?s2 = "s\<lparr>payload := Some ?b2\<rparr>"
  let ?c = "c\<lparr>recvwindow := recvwindow c - ?len\<rparr>" let ?s3 = "set_chan i ?c ?s2"
  have r0: "buf_rest b = STORE32H (of_nat i) @ (STORE32H ?len @ d @ r)" using assms(8) by (simp add: data_message_def)
  note rd1 = read_int [OF assms(6,7) r0]
  have rd2: "on_read buf_getint ?s1 = Inr (?len, ?s2)" "buf_ok ?b2" "buf_rest ?b2 = d @ r"
    using read_int [of ?s1 ?b1 ?len "d @ r"] rd1(2,3) by simp_all
  obtain cb where cb: "writebuf c = Some cb" "extrabuf c = None" "cb_ok cb" "csize cb = recv_window (opts s)"
    "unat (recvwindow c) + unat (recvdonelen c) + unat (cused cb) + 0 \<le> unat (recv_window (opts s))"
    by (rule win_okE [OF assms(2)])
  have ul: "unat ?len = length d" using assms(10) u32_bound [of "recvwindow c"] by (intro unat_of_nat_u32) linarith
  have us: "unat (recvwindow c - ?len) = unat (recvwindow c) - length d" using assms(10) ul by (subst unat_sub_below) auto
  have chk: "\<not> ?len > cbuf_getavail cb" "recvwindow c \<ge> ?len" "recvwindow c - ?len \<le> recv_window (opts s)"
    using assms(10) ul us cb(4,5) by (auto simp: word_le_nat_alt word_less_nat_alt unat_getavail [OF cb(3)])
  have k: "win_ok ?s3 (length d) ?c" using cb us assms(10) by (simp add: win_ok_def)
  have g3: "get_chan i ?s3 = Inr ?c" using assms(1) by (simp add: get_chan_Inr)
  have p3: "payload ?s3 = Some ?b2" by simp
  have tk: "on_read (\<lambda>b. bindr (buf_peek b ?len) (\<lambda>d. Inr (d, b))) ?s3 = Inr (d, ?s3)"
    by (rule take_payload_bytes(2) [OF p3 rd2(2,3)]) (simp add: ul)
  obtain c' s' b' where w: "bindr (writechannel i (writefd c) Writebuf (Some d) ?s3) (\<lambda>(res, consumed, s).
       bindr (on_read (\<lambda>b. bindr (buf_incrpos b consumed) (\<lambda>b. Inr ((), b))) s) (\<lambda>(_, s).
       if res then store_data i Writebuf (?len - consumed) s else Inr s)) = Inr s'"
    "moved i c' (?s3\<lparr>payload := Some b'\<rparr>) s'" "win_ok ?s3 0 c'" "delivers (writefd c) d ?c c' ?s3 s'"
    by (rule data_written [OF g3 k _ _ _ p3 rd2(2,3), of "writefd c"]) (use assms(3,4) in auto)
  have "recv_msg_channel_data s = common_recv_msg_channel_data i (writefd c) Writebuf ?s1"
    using getchannel_ok [OF assms(6,7) r0 assms(1,9)] assms(1) by (simp add: recv_msg_channel_data_def getchannel_def)
  also have "\<dots> = Inr s'"
    using assms(1,4,5) cb(1) rd2(1) chk tk w(1) by (simp add: common_recv_msg_channel_data_def upd_chan_eq not_less)
  finally show thesis
  proof (rule that)
    show "moved i c' (s\<lparr>payload := Some b'\<rparr>) s'"
      using w(2) by (auto simp: moved_def set_chan_def ready_to_send_def trans_ok_def payload_ready_def)
    show "win_ok s 0 c'" using w(3) win_ok_cong [of ?s3 s] by simp
    show "delivers (writefd c) d c c' s s'" using w(4) by (simp add: delivers_def buffered_def)
  qed
qed

section \<open>Runs\<close>

text \<open>
  A machine that passes on a stream: every input that fits is taken, and the content grows by what
  the input brings until the machine is closed, for good.
\<close>

fun all_fit :: "('s \<Rightarrow> 'i \<Rightarrow> 's res) \<Rightarrow> ('s \<Rightarrow> 'i \<Rightarrow> bool) \<Rightarrow> 's \<Rightarrow> 'i list \<Rightarrow> bool" where
  "all_fit step fits s [] = True"
| "all_fit step fits s (x # xs) = (fits s x \<and> (case step s x of Inl e \<Rightarrow> True | Inr s' \<Rightarrow> all_fit step fits s' xs))"

locale stream_machine =
  fixes step :: "'s \<Rightarrow> 'i \<Rightarrow> 's res"
    and inv :: "'s \<Rightarrow> bool"
    and fits :: "'s \<Rightarrow> 'i \<Rightarrow> bool"
    and closed :: "'s \<Rightarrow> bool"
    and content :: "'s \<Rightarrow> byte list"
    and input :: "'i \<Rightarrow> byte list"
  assumes step_ok: "inv s \<Longrightarrow> fits s x \<Longrightarrow>
    \<exists>s'. step s x = Inr s' \<and> inv s' \<and> (closed s' \<or> \<not> closed s \<and> content s' = content s @ input x)"
begin

lemma run_stream:
  "inv s \<Longrightarrow> all_fit step fits s xs \<Longrightarrow>
    \<exists>s'. run step s xs = Inr s' \<and> inv s' \<and> (closed s' \<or> \<not> closed s \<and> content s' = content s @ concat (map input xs))"
proof (induction xs arbitrary: s)
  case Nil
  then show ?case by simp
next
  case (Cons x xs)
  obtain s1 where s1: "step s x = Inr s1" "inv s1" "closed s1 \<or> \<not> closed s \<and> content s1 = content s @ input x"
    using step_ok [of s x] Cons.prems by auto
  obtain s' where "run step s1 xs = Inr s'" "inv s'" "closed s' \<or> \<not> closed s1 \<and> content s' = content s1 @ concat (map input xs)"
    using Cons.IH [OF s1(2)] Cons.prems(2) s1(1) by auto
  then show ?case using s1 by auto
qed

end

text \<open>
  What happens to the data of a channel: a data message arrives, with the packet at the channel
  number as the dispatcher leaves it, or the main loop finds the descriptor writable.
\<close>

datatype chan_input = Data "byte list" | Writable

definition chan_step :: "nat \<Rightarrow> sshsession \<Rightarrow> chan_input \<Rightarrow> sshsession res" where
  "chan_step i s x =
     (case x of
        Data d \<Rightarrow> recv_msg_channel_data (s\<lparr>payload := Some (packet_of (data_message i d))\<rparr>)
      | Writable \<Rightarrow> bindr (get_chan i s) (\<lambda>c. if writefd c \<ge> 0 then writechannel_only i (writefd c) Writebuf s else Inr s))"

fun chan_bytes :: "chan_input \<Rightarrow> byte list" where
  "chan_bytes (Data d) = d"
| "chan_bytes Writable = []"

text \<open>A peer that keeps to its window sends no more than the window of the channel.\<close>

definition in_window :: "nat \<Rightarrow> sshsession \<Rightarrow> chan_input \<Rightarrow> bool" where
  "in_window i s x = (case get_chan i s of Inl e \<Rightarrow> False | Inr c \<Rightarrow> length (chan_bytes x) \<le> unat (recvwindow c))"

definition flowing :: "nat \<Rightarrow> sshsession \<Rightarrow> bool" where
  "flowing i s \<longleftrightarrow> i < 4294967296 \<and> dataallowed s \<and> ready_to_send s
     \<and> (case get_chan i s of Inl e \<Rightarrow> False | Inr c \<Rightarrow> win_ok s 0 c \<and> \<not> recv_eof c)"

definition no_local_side :: "nat \<Rightarrow> sshsession \<Rightarrow> bool" where
  "no_local_side i s = (case get_chan i s of Inl e \<Rightarrow> True | Inr c \<Rightarrow> writefd c < 0)"

definition stream :: "nat \<Rightarrow> sshsession \<Rightarrow> byte list" where
  "stream i s = (case get_chan i s of Inl e \<Rightarrow> [] | Inr c \<Rightarrow> fd_out (world s) (writefd c) @ buffered c)"

lemma flowingE:
  assumes "flowing i s"
  obtains c where "get_chan i s = Inr c" "win_ok s 0 c" "\<not> recv_eof c" "i < 4294967296" "dataallowed s" "ready_to_send s"
  using assms by (auto simp: flowing_def split: sum.splits)

lemma packet_of_data:
  assumes "length d \<le> 100000000"
  shows "buf_ok (packet_of (data_message i d))" "buf_rest (packet_of (data_message i d)) = data_message i d"
proof -
  have "unat (of_nat (length (data_message i d)) :: u32) = length (data_message i d)"
    using assms by (intro unat_of_nat_u32) (simp add: data_message_def)
  then show "buf_ok (packet_of (data_message i d))" "buf_rest (packet_of (data_message i d)) = data_message i d"
    using assms by (auto simp: packet_of_def buf_rest_def data_message_def intro!: buf_okI)
qed

lemma moved_flowing:
  assumes "moved i c' (s\<lparr>payload := p\<rparr>) s'" and "win_ok s 0 c'" and "\<not> recv_eof c'" and "flowing i s"
  shows "flowing i s'"
  using assms moved_get [OF assms(1)] moved_win [OF assms(1), of 0 c'] win_ok_cong [of "s\<lparr>payload := p\<rparr>" s 0 c']
  by (auto simp: flowing_def moved_def)

lemma delivers_stream:
  assumes "delivers (writefd c) d c c' s s'" and "get_chan i s = Inr c" and "get_chan i s' = Inr c'"
  shows "no_local_side i s' \<or> stream i s' = stream i s @ d"
  using assms by (auto simp: delivers_def no_local_side_def stream_def FD_CLOSED_def)

lemma data_step:
  assumes "flowing i s" and "in_window i s (Data d)"
  shows "\<exists>s'. chan_step i s (Data d) = Inr s' \<and> flowing i s'
    \<and> (no_local_side i s' \<or> \<not> no_local_side i s \<and> stream i s' = stream i s @ d)"
proof -
  obtain c where c: "get_chan i s = Inr c" "win_ok s 0 c" "\<not> recv_eof c" "i < 4294967296" "dataallowed s" "ready_to_send s"
    using assms(1) by (rule flowingE)
  have len: "length d \<le> unat (recvwindow c)" using assms(2) c(1) by (simp add: in_window_def)
  obtain cb where cb: "writebuf c = Some cb" "cb_ok cb" "csize cb = recv_window (opts s)"
    "unat (recvwindow c) + unat (recvdonelen c) + unat (cused cb) + 0 \<le> unat (recv_window (opts s))"
    by (rule win_okE [OF c(2)])
  have small: "length d \<le> 100000000" using len cb(3,4) cb_ok_nat(2) [OF cb(2)] by simp
  let ?b = "packet_of (data_message i d)" let ?s = "s\<lparr>payload := Some ?b\<rparr>"
  note pk = packet_of_data [OF small, of i]
  have g: "get_chan i ?s = Inr c" "win_ok ?s 0 c" "ready_to_send ?s" "payload ?s = Some ?b" "buf_rest ?b = data_message i d @ []"
    using c pk(2) win_ok_cong [of ?s s 0 c] by simp_all
  show ?thesis
  proof (cases "0 \<le> writefd c")
    case True
    obtain c' s' b' where r: "recv_msg_channel_data ?s = Inr s'" "moved i c' (?s\<lparr>payload := Some b'\<rparr>) s'" "win_ok ?s 0 c'"
      "delivers (writefd c) d c c' ?s s'"
      by (rule recv_data_ok [OF g(1-3) True c(3) g(4) pk(1) g(5) c(4) len])
    have mv: "moved i c' (s\<lparr>payload := Some b'\<rparr>) s'" using r(2) by simp
    have "delivers (writefd c) d c c' s s'" using r(4) by (simp add: delivers_def)
    then have "no_local_side i s' \<or> stream i s' = stream i s @ d" using c(1) moved_get [OF mv] by (rule delivers_stream)
    moreover have "flowing i s'"
      by (rule moved_flowing [OF mv _ _ assms(1)]) (use r(3,4) c(3) win_ok_cong [of ?s s] in \<open>auto simp: delivers_def\<close>)
    moreover have "\<not> no_local_side i s" using True c(1) by (simp add: no_local_side_def)
    ultimately show ?thesis using r(1) by (simp add: chan_step_def)
  next
    case False
    have "getchannel_msg None ?s = Inr (i, s\<lparr>payload := Some (buf_skip ?b 4)\<rparr>)"
      using getchannel_ok [OF g(4) pk(1) _ g(1) c(4)] pk(2) by (simp add: data_message_def)
    then have "chan_step i s (Data d) = Inr (s\<lparr>payload := Some (buf_skip ?b 4)\<rparr>)"
      using False c(1,3) by (simp add: chan_step_def recv_msg_channel_data_def getchannel_def common_recv_msg_channel_data_def)
    moreover have "flowing i (s\<lparr>payload := Some (buf_skip ?b 4)\<rparr>)"
      using assms(1) win_ok_cong [of "s\<lparr>payload := Some (buf_skip ?b 4)\<rparr>" s] by (auto simp: flowing_def split: sum.splits)
    ultimately show ?thesis using False c(1) by (simp add: no_local_side_def)
  qed
qed

lemma writable_step:
  assumes "flowing i s"
  shows "\<exists>s'. chan_step i s Writable = Inr s' \<and> flowing i s'
    \<and> (no_local_side i s' \<or> \<not> no_local_side i s \<and> stream i s' = stream i s @ [])"
proof -
  obtain c where c: "get_chan i s = Inr c" "win_ok s 0 c" "\<not> recv_eof c" "ready_to_send s"
    using assms by (rule flowingE)
  show ?thesis
  proof (cases "0 \<le> writefd c")
    case False
    then show ?thesis using c(1) assms by (simp add: chan_step_def no_local_side_def)
  next
    case True
    then have op: "\<not> no_local_side i s" using c(1) by (simp add: no_local_side_def)
    have k: "win_ok s (length (in_hand None)) c" using c(2) by simp
    show ?thesis
    proof (rule writechannel_ok [OF c(1) k c(4) refl True])
      fix n c' s'
      assume r: "writechannel i (writefd c) Writebuf None s = Inr (True, of_nat (n - length (buffered c)), s')"
        "moved i c' s s'" "win_ok s (length (in_hand None) - (n - length (buffered c))) c'"
        "took (writefd c) (in_hand None) n c c' s s'"
      have "delivers (writefd c) [] c c' s s'" by (rule took_delivers [of "writefd c" "[]" n c c' s s']) (use r(4) in simp_all)
      then have "no_local_side i s' \<or> stream i s' = stream i s @ []" using c(1) moved_get [OF r(2)] by (rule delivers_stream)
      moreover have "flowing i s'"
        by (rule moved_flowing [of i c' "payload s" s]) (use r(2-4) c(3) assms in \<open>simp_all add: took_def\<close>)
      ultimately show ?thesis using r(1) True c(1) op by (simp add: chan_step_def writechannel_only_def)
    next
      fix c' s'
      assume r: "writechannel i (writefd c) Writebuf None s = Inr (False, 0, s')" "moved i c' s s'" "win_ok s 0 c'"
        "writefd c' = FD_CLOSED" "recv_eof c' = recv_eof c"
      have "flowing i s'" by (rule moved_flowing [of i c' "payload s" s]) (use r c(3) assms in simp_all)
      moreover have "no_local_side i s'" using moved_get [OF r(2)] r(4) by (simp add: no_local_side_def FD_CLOSED_def)
      ultimately show ?thesis using r(1) True c(1) by (simp add: chan_step_def writechannel_only_def)
    qed
  qed
qed

interpretation channel: stream_machine "chan_step i" "flowing i" "in_window i" "no_local_side i" "stream i" chan_bytes for i
proof
  fix s x assume "flowing i s" "in_window i s x"
  then show "\<exists>s'. chan_step i s x = Inr s' \<and> flowing i s'
      \<and> (no_local_side i s' \<or> \<not> no_local_side i s \<and> stream i s' = stream i s @ chan_bytes x)"
    using data_step writable_step by (cases x) auto
qed

section \<open>Properties\<close>

text \<open>A session with one open channel of a type without callbacks, whose local side is descriptor 5.\<close>

definition plain_type :: ChanType where
  "plain_type = \<lparr>ct_name = ''session'', has_inithandler = False, has_check_close = False, has_reqhandler = False,
     has_closehandler = False, has_cleanup = False\<rparr>"

definition plain_cbuf :: circbuffer where
  "plain_cbuf = \<lparr>csize = 524288, creadpos = 0, cwritepos = 0, cused = 0, cdata = None\<rparr>"

definition plain_channel :: Channel where
  "plain_channel = \<lparr>index = 0, remotechan = 7, recvwindow = 524288, transwindow = 100, recvdonelen = 0,
     recvmaxpacket = RECV_MAX_CHANNEL_DATA_LEN, transmaxpacket = 50, writefd = 5, readfd = 5, errfd = FD_CLOSED,
     bidir_fd = True, writebuf = Some plain_cbuf, extrabuf = None, sent_close = False,
     recv_close = False, recv_eof = False, sent_eof = False, flushing = False, conn_pending = False, initconn = False,
     await_open = False, chan_type = plain_type, prio = DROPBEAR_PRIO_NORMAL\<rparr>"

definition channel_session :: sshsession where
  "channel_session = plain_session\<lparr>channels := [Some plain_channel], chancount := 1, chantypes := [plain_type]\<rparr>"

lemma channel_session_simps [simp]:
  "channels channel_session = [Some plain_channel]" "dataallowed channel_session" "opts channel_session = plain_opts"
  "fd_out (world channel_session) fd = []"
  by (simp_all add: channel_session_def plain_session_def zero_session_def still_world_def)

lemma channel_session_ready: "ready_to_send channel_session"
  using plain_session_ok by (simp add: ready_to_send_def channel_session_def trans_ok_def payload_ready_def plain_session_def zero_session_def)

lemma plain_cbuf_ok [simp]: "cb_ok plain_cbuf" "cb_list plain_cbuf = []" "csize plain_cbuf = 524288" "cused plain_cbuf = 0"
  by (simp_all add: plain_cbuf_def cb_ok_def MAX_CBUF_SIZE_def cb_list_def)

lemma plain_channel_ok:
  "get_chan 0 channel_session = Inr plain_channel" "win_ok channel_session 0 plain_channel"
  "flowing 0 channel_session" "\<not> no_local_side 0 channel_session" "stream 0 channel_session = []"
  "recvwindow plain_channel = 524288"
proof -
  show g: "get_chan 0 channel_session = Inr plain_channel" by (simp add: get_chan_def)
  show w: "win_ok channel_session 0 plain_channel" by (simp add: win_ok_def plain_channel_def plain_opts_def)
  show "flowing 0 channel_session" using g w channel_session_ready by (simp add: flowing_def plain_channel_def)
  show "\<not> no_local_side 0 channel_session" "stream 0 channel_session = []" "recvwindow plain_channel = 524288"
    using g by (simp_all add: no_local_side_def stream_def buffered_def plain_channel_def)
qed

text \<open>
  C18. The data of a channel arrives complete and in order. For every sequence of data messages and
  of writes by the main loop, in which the peer never sends more than the window the channel has
  at that time: every step succeeds, so no assertion about the windows fails and no loop runs
  forever; the window together with what was not yet granted again and what is buffered stays
  within the receive window; and, unless a failed write closed the local side, the bytes that came
  out of the local descriptor followed by the buffered bytes are those from before followed by
  the data of all messages.
\<close>

theorem channel_stream_intact:
  assumes "flowing i s" and "all_fit (chan_step i) (in_window i) s xs"
  shows "\<exists>s'. run (chan_step i) s xs = Inr s' \<and> flowing i s'
    \<and> (no_local_side i s' \<or> \<not> no_local_side i s \<and> stream i s' = stream i s @ concat (map chan_bytes xs))"
  using assms by (rule channel.run_stream)

theorem channel_stream_intact_witness:
  "\<exists>s'. run (chan_step 0) channel_session [Data ''abcd'', Writable] = Inr s' \<and> flowing 0 s'
    \<and> (no_local_side 0 s' \<or> stream 0 s' = ''abcd'')"
proof -
  have f: "in_window 0 channel_session (Data ''abcd'')" by (simp add: in_window_def plain_channel_ok)
  obtain s1 where s1: "chan_step 0 channel_session (Data ''abcd'') = Inr s1" "flowing 0 s1"
    using data_step [OF plain_channel_ok(3) f] by blast
  then have "in_window 0 s1 Writable" by (auto simp: in_window_def elim!: flowingE)
  then have "all_fit (chan_step 0) (in_window 0) channel_session [Data ''abcd'', Writable]"
    using f s1(1) by (simp split: sum.splits)
  from channel_stream_intact [OF plain_channel_ok(3) this] show ?thesis by (simp add: plain_channel_ok(4,5))
qed

text \<open>
  C40. Data past the window hits an assertion, not the check for oversized packets. The check
  compares with the room in the buffer, which is larger than the window by the bytes that were
  written and not yet granted again: a peer that sends more than its window but no more than that
  room makes the process fail the assertion on the window.
\<close>

theorem data_past_window_asserts:
  assumes "get_chan i s = Inr c" and "writebuf c = Some cb" and "0 \<le> writefd c" and "\<not> recv_eof c"
    and "payload s = Some b" and "buf_ok b" and "buf_rest b = data_message i d @ r" and "i < 4294967296"
    and "unat (recvwindow c) < length d" and "length d \<le> unat (cbuf_getavail cb)"
  shows "recv_msg_channel_data s = Inl Assert_failed"
proof -
  let ?len = "of_nat (length d) :: u32" and ?b1 = "buf_skip b 4"
  let ?s1 = "s\<lparr>payload := Some ?b1\<rparr>"
  have r0: "buf_rest b = STORE32H (of_nat i) @ (STORE32H ?len @ d @ r)" using assms(7) by (simp add: data_message_def)
  note rd1 = read_int [OF assms(5,6) r0]
  have rd2: "on_read buf_getint ?s1 = Inr (?len, s\<lparr>payload := Some (buf_skip ?b1 4)\<rparr>)"
    using read_int(1) [of ?s1 ?b1 ?len "d @ r"] rd1(2,3) by simp
  have ul: "unat ?len = length d" using assms(10) u32_bound [of "cbuf_getavail cb"] by (intro unat_of_nat_u32) linarith
  have chk: "\<not> ?len > cbuf_getavail cb" "\<not> recvwindow c \<ge> ?len"
    using assms(9,10) ul by (auto simp: word_le_nat_alt word_less_nat_alt)
  show ?thesis
    using getchannel_ok [OF assms(5,6) r0 assms(1,8)] assms(1-4) rd2 chk
    by (simp add: recv_msg_channel_data_def getchannel_def common_recv_msg_channel_data_def not_less)
qed

theorem data_past_window_asserts_witness:
  "recv_msg_channel_data ((set_chan 0 (plain_channel\<lparr>recvwindow := 2, recvdonelen := 1000\<rparr>) channel_session)
      \<lparr>payload := Some (packet_of (data_message 0 ''abc''))\<rparr>) = Inl Assert_failed"
proof -
  let ?c = "plain_channel\<lparr>recvwindow := 2, recvdonelen := 1000\<rparr>" let ?b = "packet_of (data_message 0 ''abc'')"
  let ?s = "(set_chan 0 ?c channel_session)\<lparr>payload := Some ?b\<rparr>"
  have b: "buf_ok ?b" "buf_rest ?b = data_message 0 ''abc'' @ []" using packet_of_data [of "''abc''" 0] by simp_all
  have g: "get_chan 0 ?s = Inr ?c" by simp
  have c: "writebuf ?c = Some plain_cbuf" "0 \<le> writefd ?c" "\<not> recv_eof ?c" "unat (recvwindow ?c) < length ''abc''"
    "length ''abc'' \<le> unat (cbuf_getavail plain_cbuf)"
    by (simp_all add: plain_channel_def cbuf_getavail_def)
  show ?thesis by (rule data_past_window_asserts [OF g c(1-3) _ b _ c(4,5)]) simp_all
qed

end
