(* ===== verification/Channel_Life.thy ===== *)
theory Channel_Life
  imports Channel_Data
begin

text \<open>
  The rest of a channel's life: data read from the local side goes to the peer within the window
  the peer granted; opening a channel answers with a confirmation or the right failure and keeps
  the table of channels consistent; a close from the peer is answered once and frees the slot.
\<close>

section \<open>Data to the peer\<close>

definition data_out :: "bool \<Rightarrow> Channel \<Rightarrow> byte list \<Rightarrow> byte list" where
  "data_out isextended c d = byte_of (if isextended then 95 else 94) # STORE32H (remotechan c)
     @ (if isextended then STORE32H 1 else []) @ STORE32H (of_nat (length d)) @ d"

text \<open>Copying behind the position and advancing, as after a successful \<open>read\<close>.\<close>

lemma buf_is_poke_advance:
  assumes "buf_is b c p n" and "p + length d \<le> n"
  obtains b1 b2 where "buf_poke b d = Inr b1" "buf_incrwritepos b1 (of_nat (length d)) = Inr b2"
    "buf_is b2 (blit c p d) (p + length d) n"
proof -
  note bd = buf_isD [OF assms(1)] and k = buf_ok_nat [OF buf_isD(1) [OF assms(1)]]
  have u: "unat (of_nat (length d) :: u32) = length d" using assms(2) bd(8) by (intro unat_of_nat_u32) linarith
  have p: "buf_getwriteptr b (of_nat (length d)) = Inr p" using buf_is_getwriteptr [OF assms(1)] assms(2) u by simp
  have room: "length d \<le> buf_room b" using buf_is_room [OF assms(1)] assms(2) by simp
  have m: "mem_write (bdata b) p d = Inr (blit (bdata b) p d)"
    using assms(2) k bd by (intro mem_write_eq) simp
  show thesis
    by (rule that [of "b\<lparr>bdata := blit (bdata b) p d\<rparr>" "buf_wrote b d"])
      (use p m buf_incrwritepos_blit [OF bd(1) room] bd(3) buf_is_wrote [OF assms] in \<open>simp_all add: buf_poke_def\<close>)
qed

text \<open>The start of the message, with a size of zero, and the message with the size filled in.\<close>

definition data_head :: "bool \<Rightarrow> Channel \<Rightarrow> byte list" where
  "data_head isextended c = byte_of (if isextended then 95 else 94) # STORE32H (remotechan c)
     @ (if isextended then STORE32H 1 else [])"

lemma length_data_head: "length (data_head isextended c) = (if isextended then 9 else 5)"
  by (simp add: data_head_def)

lemma data_head_written:
  assumes "payload_at s []"
  obtains b where
    "bindr (put_byte (if isextended then 95 else 94) s) (\<lambda>s. bindr (put_int (remotechan c) s) (\<lambda>s.
      if isextended then put_int 1 s else Inr s)) = Inr (s\<lparr>writepayload := b\<rparr>)"
    "payload_at (s\<lparr>writepayload := b\<rparr>) (data_head isextended c)"
proof -
  obtain b1 where b1: "put_byte (if isextended then 95 else 94) s = Inr (s\<lparr>writepayload := b1\<rparr>)"
    "payload_at (s\<lparr>writepayload := b1\<rparr>) [byte_of (if isextended then 95 else 94)]"
    using put_byte_at [OF assms, of "if isextended then 95 else 94"] by auto
  obtain b2 where b2: "put_int (remotechan c) (s\<lparr>writepayload := b1\<rparr>) = Inr (s\<lparr>writepayload := b2\<rparr>)"
    "payload_at (s\<lparr>writepayload := b2\<rparr>) (byte_of (if isextended then 95 else 94) # STORE32H (remotechan c))"
    using put_int_at [OF b1(2), of "remotechan c"] by auto
  show thesis
  proof (cases isextended)
    case True
    obtain b3 where "put_int 1 (s\<lparr>writepayload := b2\<rparr>) = Inr (s\<lparr>writepayload := b3\<rparr>)"
      "payload_at (s\<lparr>writepayload := b3\<rparr>) ((byte_of (if isextended then 95 else 94) # STORE32H (remotechan c)) @ STORE32H 1)"
      using put_int_at [OF b2(2), of 1] by auto
    then show thesis using that b1(1) b2(1) True by (simp add: data_head_def)
  next
    case False
    then show thesis using that b1(1) b2 by (simp add: data_head_def)
  qed
qed

lemma blit_replace_middle: "length y = length z \<Longrightarrow> blit (x @ y @ d) (length x) z = x @ z @ d"
  by (simp add: blit_def)

lemma size_filled_in:
  assumes "buf_is b x (length x) n" and "length x + 4 + length d \<le> n"
  obtains b1 b2 b3 b4 b5 where "buf_putint b 0 = Inr b1" "buf_is b1 (x @ STORE32H 0) (length x + 4) n"
    "buf_poke b1 d = Inr b2" "buf_incrwritepos b2 (of_nat (length d)) = Inr b3"
    "buf_setpos b3 (bpos b) = Inr b4" "buf_putint b4 v = Inr b5" "buf_is b5 (x @ STORE32H v @ d) (length x + 4) n"
proof -
  obtain b1 where b1: "buf_putint b 0 = Inr b1" "buf_is b1 (x @ STORE32H 0) (length x + 4) n"
    using buf_is_putint [OF assms(1), of 0] assms(2) by (auto simp: blit_at_end)
  obtain b2 b3 where b3: "buf_poke b1 d = Inr b2" "buf_incrwritepos b2 (of_nat (length d)) = Inr b3"
    "buf_is b3 (x @ STORE32H 0 @ d) (length x + 4 + length d) n"
    using buf_is_poke_advance [OF b1(2), of d] assms(2) by (auto simp: blit_at_end)
  have p: "unat (bpos b) = length x" using buf_isD(3) [OF assms(1)] .
  obtain b4 where b4: "buf_setpos b3 (bpos b) = Inr b4" "buf_is b4 (x @ STORE32H 0 @ d) (length x) n"
    using buf_is_setpos [OF b3(3), of "bpos b"] p by auto
  obtain b5 where "buf_putint b4 v = Inr b5" "buf_is b5 (x @ STORE32H v @ d) (length x + 4) n"
    using buf_is_putint [OF b4(2), of v] assms(2) by (auto simp: blit_replace_middle)
  then show thesis using that b1 b3 b4 by blast
qed

lemma reset_payload_ok:
  assumes "buf_is (writepayload s) x p 16384"
  obtains b where "reset_payload s = Inr (s\<lparr>writepayload := b\<rparr>)" "payload_at (s\<lparr>writepayload := b\<rparr>) []"
proof -
  obtain b1 b2 where "buf_setpos (writepayload s) 0 = Inr b1" "buf_setlen b1 0 = Inr b2" "buf_is b2 [] 0 16384"
    using assms by (rule buf_is_clear)
  then show thesis using that [of b2] by (simp add: reset_payload_def on_write_def payload_at_def)
qed

lemma sys_read_answer:
  obtains (got) d w where "sys_read n w0 = (Got d, w)" "length d \<le> n"
      "\<exists>bytes rest. read_answers w0 = Got bytes # rest \<and> d = take n bytes"
  | (again) w where "sys_read n w0 = (Read_again, w)"
  | (error) w where "sys_read n w0 = (Read_error, w)"
  by (cases "read_answers w0"; cases "hd (read_answers w0)") (auto simp: sys_read_def)

definition room_out :: "bool \<Rightarrow> Channel \<Rightarrow> nat" where
  "room_out isextended c = min (min (unat (transwindow c)) (unat (transmaxpacket c))) (if isextended then 16371 else 16375)"

lemma maxlen_room:
  assumes "bsize b = 16384"
  shows "unat (min (min (transwindow c) (transmaxpacket c)) (bsize b - 1 - 4 - 4 - (if isextended then 4 else 0)))
      = room_out isextended c"
  unfolding room_out_def assms unat_min_u32 by simp

lemma head_is: "payload_at s c \<Longrightarrow> buf_is (writepayload s) c (length c) 16384"
  by (simp add: payload_at_def)

text \<open>
  What \<open>send_msg_channel_data\<close> does: it sends one message with bytes that were read, and takes their
  number from the window; or it sends nothing and at most closes a descriptor.
\<close>

definition data_sent :: "nat \<Rightarrow> bool \<Rightarrow> Channel \<Rightarrow> byte list \<Rightarrow> sshsession \<Rightarrow> sshsession \<Rightarrow> bool" where
  "data_sent i isextended c d s s' \<longleftrightarrow> d \<noteq> [] \<and> length d \<le> room_out isextended c
     \<and> (\<exists>bytes rest. read_answers (world s) = Got bytes # rest \<and> d = take (room_out isextended c) bytes)
     \<and> (\<exists>w. sends (data_out isextended c d)
          (set_chan i (c\<lparr>transwindow := transwindow c - of_nat (length d)\<rparr>) (s\<lparr>world := w\<rparr>)) s')"

definition nothing_sent :: "nat \<Rightarrow> Channel \<Rightarrow> sshsession \<Rightarrow> sshsession \<Rightarrow> bool" where
  "nothing_sent i c s s' \<longleftrightarrow> payload_at s' [] \<and> (\<exists>b v r e w.
     s' = set_chan i (c\<lparr>writefd := v, readfd := r, errfd := e\<rparr>) (s\<lparr>world := w, writepayload := b\<rparr>))"

lemma closed_and_reset:
  assumes "get_chan i s = Inr c" and "buf_is b x p 16384"
  shows "\<exists>s'. bindr (close_chan_fd i fd how (s\<lparr>writepayload := b, world := w\<rparr>)) reset_payload = Inr s' \<and> nothing_sent i c s s'"
proof -
  obtain r e v w' where cl: "close_chan_fd i fd how (s\<lparr>writepayload := b, world := w\<rparr>)
      = Inr (set_chan i (c\<lparr>writefd := v, readfd := r, errfd := e\<rparr>) (s\<lparr>writepayload := b, world := w'\<rparr>))"
    by (rule close_chan_fd_shape [of i "s\<lparr>writepayload := b, world := w\<rparr>" c fd how]) (use assms(1) in simp_all)
  let ?s = "set_chan i (c\<lparr>writefd := v, readfd := r, errfd := e\<rparr>) (s\<lparr>writepayload := b, world := w'\<rparr>)"
  obtain b' where b': "reset_payload ?s = Inr (?s\<lparr>writepayload := b'\<rparr>)" "payload_at (?s\<lparr>writepayload := b'\<rparr>) []"
    by (rule reset_payload_ok [of ?s x p]) (use assms(2) in simp_all)
  have "?s\<lparr>writepayload := b'\<rparr> = set_chan i (c\<lparr>writefd := v, readfd := r, errfd := e\<rparr>) (s\<lparr>world := w', writepayload := b'\<rparr>)"
    by (simp add: set_chan_def)
  then have "nothing_sent i c s (?s\<lparr>writepayload := b'\<rparr>)"
    unfolding nothing_sent_def using b'(2) by (intro conjI exI) auto
  then show ?thesis using cl b'(1) by simp
qed

lemma read_channel_data_cases:
  assumes "get_chan i s = Inr c" and "ready_to_send s" and "buf_is b x (length x) 16384" and "buf_putint b 0 = Inr b1"
    and "x = data_head isextended c" and "unat maxlen = room_out isextended c"
  shows "\<exists>s'. read_channel_data i fd maxlen (bpos b) (s\<lparr>writepayload := b1\<rparr>) = Inr s'
    \<and> ((\<exists>d. data_sent i isextended c d s s') \<or> nothing_sent i c s s')"
proof -
  let ?s = "s\<lparr>writepayload := b1\<rparr>"
  have fit: "length x + 4 + unat maxlen \<le> 16384" using assms(5,6) by (simp add: length_data_head room_out_def)
  have b1: "buf_is b1 (x @ STORE32H 0) (length x + 4) 16384"
  proof -
    obtain b' where "buf_putint b 0 = Inr b'" "buf_is b' (x @ STORE32H 0) (length x + 4) 16384"
      by (rule size_filled_in [OF assms(3), of "[]"]) (use that fit in auto)
    then show ?thesis using assms(4) by simp
  qed
  have gp: "buf_getwriteptr b1 maxlen = Inr (length x + 4)" using buf_is_getwriteptr [OF b1] fit by simp
  show ?thesis
  proof (cases rule: sys_read_answer [of "unat maxlen" "world s"])
    case (again w)
    obtain b' where b': "reset_payload (?s\<lparr>world := w\<rparr>) = Inr (?s\<lparr>world := w, writepayload := b'\<rparr>)"
      "payload_at (?s\<lparr>world := w, writepayload := b'\<rparr>) []"
      by (rule reset_payload_ok [of "?s\<lparr>world := w\<rparr>"]) (use b1 in simp_all)
    have same: "set_chan i c (s\<lparr>world := w, writepayload := b'\<rparr>) = s\<lparr>world := w, writepayload := b'\<rparr>"
      by (rule set_chan_same) (use assms(1) in simp)
    have "nothing_sent i c s (s\<lparr>world := w, writepayload := b'\<rparr>)" unfolding nothing_sent_def
      using b'(2) same by (intro conjI exI [of _ b'] exI [of _ "writefd c"] exI [of _ "readfd c"] exI [of _ "errfd c"] exI [of _ w]) simp_all
    then show ?thesis using again gp b'(1) by (simp add: read_channel_data_def)
  next
    case (error w)
    then show ?thesis using gp closed_and_reset [OF assms(1) b1, of fd 0 w] by (auto simp: read_channel_data_def)
  next
    case (got d w)
    show ?thesis
    proof (cases "d = []")
      case True
      then show ?thesis using got gp closed_and_reset [OF assms(1) b1, of fd 0 w] by (auto simp: read_channel_data_def)
    next
      case False
      let ?n = "of_nat (length d) :: u32" and ?c = "c\<lparr>transwindow := transwindow c - of_nat (length d)\<rparr>"
      obtain b2 b3 b4 b5 where bs: "buf_poke b1 d = Inr b2" "buf_incrwritepos b2 ?n = Inr b3" "buf_setpos b3 (bpos b) = Inr b4"
        "buf_putint b4 ?n = Inr b5" "buf_is b5 (x @ STORE32H ?n @ d) (length x + 4) 16384"
        by (rule size_filled_in [OF assms(3), of d ?n]) (use fit got(2) assms(4) in auto)
      let ?t = "set_chan i ?c (s\<lparr>world := w\<rparr>)"
      have e: "read_channel_data i fd maxlen (bpos b) ?s = encrypt_packet (?t\<lparr>writepayload := b5\<rparr>)"
        using False got(1) gp bs assms(1)
        by (simp add: read_channel_data_def on_write_def put_int_def upd_chan_eq)
          (rule arg_cong [of _ _ encrypt_packet], simp add: set_chan_def)
      have msg: "x @ STORE32H ?n @ d = data_out isextended c d" by (simp add: assms(5) data_head_def data_out_def)
      have "trans_ok (?t\<lparr>writepayload := b5\<rparr>)" "reply_queue_len (?t\<lparr>writepayload := b5\<rparr>) \<le> MAX_DEFER_REPLY_QUEUE"
        using assms(2) by (simp_all add: ready_to_send_def trans_ok_def set_chan_def)
      moreover have "payload_ready (?t\<lparr>writepayload := b5\<rparr>) (data_out isextended c d)"
        using bs(5) by (auto simp: payload_ready_def msg)
      ultimately obtain s' where s': "encrypt_packet (?t\<lparr>writepayload := b5\<rparr>) = Inr s'"
        "sends (data_out isextended c d) (?t\<lparr>writepayload := b5\<rparr>) s'"
        by (elim encrypt_packet_sends) (auto simp: data_out_def)
      have "data_sent i isextended c d s s'" unfolding data_sent_def
        using False got(2,3) s'(2) assms(6) by (auto simp: sends_payload)
      then show ?thesis using e s'(1) by auto
    qed
  qed
qed

lemma send_data_cases:
  assumes "get_chan i s = Inr c" and "ready_to_send s" and "\<not> sent_close c"
    and "0 \<le> (if isextended then errfd c else readfd c)"
  shows "\<exists>s'. send_msg_channel_data i isextended s = Inr s' \<and> ((\<exists>d. data_sent i isextended c d s s') \<or> nothing_sent i c s s')"
proof -
  define maxlen :: u32 where "maxlen = min (min (transwindow c) (transmaxpacket c))
    (bsize (writepayload s) - 1 - 4 - 4 - (if isextended then 4 else 0))"
  have at: "payload_at s []" using assms(2) by (simp add: ready_to_send_def payload_at_empty)
  have bs: "bsize (writepayload s) = 16384" using buf_is_words(3) [of "writepayload s" "[]" 0 16384] at by (simp add: payload_at_def)
  have um: "unat maxlen = room_out isextended c" unfolding maxlen_def by (rule maxlen_room [OF bs])
  show ?thesis
  proof (cases "maxlen = 0")
    case True
    then have "send_msg_channel_data i isextended s = Inr s"
      using assms by (simp add: send_msg_channel_data_def maxlen_def)
    moreover have "nothing_sent i c s s" unfolding nothing_sent_def using at set_chan_same [OF assms(1)]
      by (intro conjI exI [of _ "writepayload s"] exI [of _ "writefd c"] exI [of _ "readfd c"] exI [of _ "errfd c"] exI [of _ "world s"]) simp_all
    ultimately show ?thesis by simp
  next
    case False
    let ?fd = "if isextended then errfd c else readfd c"
    obtain b where b: "bindr (put_byte (if isextended then 95 else 94) s) (\<lambda>s. bindr (put_int (remotechan c) s) (\<lambda>s.
      if isextended then put_int 1 s else Inr s)) = Inr (s\<lparr>writepayload := b\<rparr>)"
      "buf_is b (data_head isextended c) (length (data_head isextended c)) 16384"
      using data_head_written [OF at, of isextended c] by (auto simp: payload_at_def)
    obtain b1 where b1: "buf_putint b 0 = Inr b1"
      by (rule size_filled_in [OF b(2), of "[]"]) (use that in \<open>auto simp: length_data_head\<close>)
    have "send_msg_channel_data i isextended s = bindr (bindr (put_byte (if isextended then 95 else 94) s) (\<lambda>s.
      bindr (put_int (remotechan c) s) (\<lambda>s. if isextended then put_int 1 s else Inr s)))
      (\<lambda>s. bindr (put_int 0 s) (read_channel_data i ?fd maxlen (bpos (writepayload s))))"
      using False assms(1,3,4) by (simp add: send_msg_channel_data_def maxlen_def bindr_assoc)
    also have "\<dots> = read_channel_data i ?fd maxlen (bpos b) (s\<lparr>writepayload := b1\<rparr>)"
      using b(1) b1 by (simp add: put_int_def on_write_def)
    finally show ?thesis using read_channel_data_cases [OF assms(1,2) b(2) b1 refl um, of ?fd] by simp
  qed
qed

lemma recv_window_adjust_ok:
  assumes "payload s = Some b" and "buf_ok b" and "buf_rest b = STORE32H (of_nat i) @ STORE32H v @ r"
    and "get_chan i s = Inr c" and "i < 4294967296"
  obtains c' where "recv_msg_channel_window_adjust s = Inr (set_chan i c' (s\<lparr>payload := Some (buf_skip (buf_skip b 4) 4)\<rparr>))"
    "c' = c\<lparr>transwindow := transwindow c'\<rparr>"
    "unat (transwindow c') = min (unat (transwindow c) + unat v) 4294967295"
proof -
  let ?s1 = "s\<lparr>payload := Some (buf_skip b 4)\<rparr>"
  note r1 = read_int [OF assms(1-3)]
  have r2: "on_read buf_getint ?s1 = Inr (v, s\<lparr>payload := Some (buf_skip (buf_skip b 4) 4)\<rparr>)"
    using read_int(1) [of ?s1 "buf_skip b 4" v r] r1(2,3) by simp
  let ?w = "if transwindow c + v < transwindow c then 0xffffffff else transwindow c + v"
  have bound: "unat (transwindow c) < 4294967296" "unat v < 4294967296" by (simp_all add: u32_bound)
  have sum: "unat (transwindow c + v) = (if unat (transwindow c) + unat v < 4294967296 then unat (transwindow c) + unat v
      else unat (transwindow c) + unat v - 4294967296)"
    using bound by (auto simp: unat_word_ariths mod_if)
  have u: "unat ?w = min (unat (transwindow c) + unat v) 4294967295"
    using sum bound by (auto simp: word_less_nat_alt)
  have e: "recv_msg_channel_window_adjust s = Inr (set_chan i (c\<lparr>transwindow := ?w\<rparr>) (s\<lparr>payload := Some (buf_skip (buf_skip b 4) 4)\<rparr>))"
    using getchannel_ok [OF assms(1-5), of None] r2 assms(4)
    by (simp add: recv_msg_channel_window_adjust_def getchannel_def upd_chan_eq Let_def)
  show thesis by (rule that [OF e]) (use u in simp_all)
qed

section \<open>The table of channels\<close>

text \<open>
  A consistent table: at most 1002 slots, every channel knows its slot, and \<open>chancount\<close> is the
  number of channels.
\<close>

definition in_use :: "Channel option list \<Rightarrow> nat" where
  "in_use cs = length (filter (\<lambda>c. c \<noteq> None) cs)"

definition table_ok :: "sshsession \<Rightarrow> bool" where
  "table_ok s \<longleftrightarrow> length (channels s) \<le> MAX_CHANNELS + CHAN_EXTEND_SIZE - 1 \<and> chancount s = of_nat (in_use (channels s))
     \<and> (\<forall>i c. get_chan i s = Inr c \<longrightarrow> index c = of_nat i)"

lemma first_free_le: "first_free xs \<le> length xs"
  by (induction xs rule: first_free.induct) auto

lemma first_free_None: "first_free xs < length xs \<Longrightarrow> xs ! first_free xs = None"
  by (induction xs rule: first_free.induct) auto

lemma first_free_append: "first_free xs = length xs \<Longrightarrow> first_free (xs @ None # ys) = length xs"
  by (induction xs rule: first_free.induct) auto

lemma in_use_set: "i < length cs \<Longrightarrow> cs ! i = None \<Longrightarrow> in_use (cs[i := Some c]) = in_use cs + 1"
  by (induction cs arbitrary: i) (auto simp: in_use_def nth_Cons split: nat.splits)

lemma in_use_clear: "i < length cs \<Longrightarrow> cs ! i = Some c \<Longrightarrow> in_use (cs[i := None]) + 1 = in_use cs"
  by (induction cs arbitrary: i) (auto simp: in_use_def nth_Cons split: nat.splits)

lemma in_use_replace: "i < length cs \<Longrightarrow> cs ! i = Some c \<Longrightarrow> in_use (cs[i := Some c']) = in_use cs"
  by (induction cs arbitrary: i) (auto simp: in_use_def nth_Cons split: nat.splits)

lemma in_use_extend: "in_use (cs @ replicate n None) = in_use cs"
  by (simp add: in_use_def)

text \<open>The table with room for a new channel, and the new channel itself.\<close>

definition roomy :: "Channel option list \<Rightarrow> Channel option list" where
  "roomy cs = (if first_free cs = length cs then cs @ replicate CHAN_EXTEND_SIZE None else cs)"

definition fresh_channel :: "sshsession \<Rightarrow> nat \<Rightarrow> u32 \<Rightarrow> ChanType \<Rightarrow> u32 \<Rightarrow> u32 \<Rightarrow> circbuffer \<Rightarrow> Channel" where
  "fresh_channel s i remote type window maxpacket wb = \<lparr>index = of_nat i, remotechan = remote, recvwindow = recv_window (opts s),
     transwindow = window, recvdonelen = 0, recvmaxpacket = RECV_MAX_CHANNEL_DATA_LEN,
     transmaxpacket = maxpacket, writefd = FD_UNINIT, readfd = FD_UNINIT, errfd = FD_CLOSED,
     bidir_fd = False, writebuf = Some wb, extrabuf = None, sent_close = False, recv_close = False,
     recv_eof = False, sent_eof = False, flushing = False, conn_pending = False, initconn = False,
     await_open = False, chan_type = type, prio = DROPBEAR_PRIO_NORMAL\<rparr>"

lemma newchannel_full:
  "first_free (channels s) = length (channels s) \<Longrightarrow> length (channels s) \<ge> MAX_CHANNELS \<Longrightarrow>
    newchannel remote type window maxpacket s = Inr (None, s)"
  by (simp add: newchannel_def)

lemma newchannel_ok:
  assumes "\<not> (first_free (channels s) = length (channels s) \<and> length (channels s) \<ge> MAX_CHANNELS)"
    and "recv_window (opts s) \<le> MAX_CBUF_SIZE" and "0 < recv_window (opts s)"
  obtains i wb where "i = first_free (channels s)" "i < length (roomy (channels s))" "roomy (channels s) ! i = None"
    "newchannel remote type window maxpacket s = Inr (Some i, s\<lparr>
        channels := (roomy (channels s))[i := Some (fresh_channel s i remote type window maxpacket wb)],
        chancount := chancount s + 1\<rparr>)"
    "win_ok s 0 (fresh_channel s i remote type window maxpacket wb)" "cb_list wb = []"
proof -
  let ?i = "first_free (channels s)"
  obtain wb where wb: "cbuf_new (recv_window (opts s)) = Inr wb" using assms(2) by (auto simp: cbuf_new_def not_less)
  note ok = cbuf_new_ok [OF assms(3) wb]
  have i: "?i < length (roomy (channels s))" "roomy (channels s) ! ?i = None"
    using first_free_le [of "channels s"] first_free_None [of "channels s"]
    by (auto simp: roomy_def CHAN_EXTEND_SIZE_def nth_append)
  have u: "unat (cused wb) = 0" using length_cb_list [of wb] ok by simp
  show thesis
  proof (rule that [OF refl i])
    show "newchannel remote type window maxpacket s = Inr (Some ?i, s\<lparr>
        channels := (roomy (channels s))[?i := Some (fresh_channel s ?i remote type window maxpacket wb)],
        chancount := chancount s + 1\<rparr>)"
      unfolding newchannel_def Let_def using assms(1) wb by (simp add: roomy_def fresh_channel_def)
    show "win_ok s 0 (fresh_channel s ?i remote type window maxpacket wb)"
      using ok u by (simp add: win_ok_def fresh_channel_def)
    show "cb_list wb = []" using ok by simp
  qed
qed

section \<open>Opening\<close>

text \<open>What changes of the table and of local descriptors do not touch: everything the other side of the connection sees.\<close>

definition same_wire :: "sshsession \<Rightarrow> sshsession \<Rightarrow> bool" where
  "same_wire s s' \<longleftrightarrow> writepayload s' = writepayload s \<and> writequeue s' = writequeue s \<and> reply_queue s' = reply_queue s
     \<and> transseq s' = transseq s \<and> keys s' = keys s \<and> dataallowed s' = dataallowed s"

text \<open>\<open>answers msg s s'\<close>: on the way from \<open>s\<close> to \<open>s'\<close> exactly the message \<open>msg\<close> was sent.\<close>

definition answers :: "byte list \<Rightarrow> sshsession \<Rightarrow> sshsession \<Rightarrow> bool" where
  "answers msg s s' \<longleftrightarrow> (\<exists>t t'. same_wire s t \<and> sends msg t t' \<and> same_wire t' s')"

lemma same_wire_refl [simp]: "same_wire s s"
  by (simp add: same_wire_def)

definition open_request :: "byte list \<Rightarrow> u32 \<Rightarrow> u32 \<Rightarrow> u32 \<Rightarrow> byte list" where
  "open_request type remote window maxpacket = enc_string type @ STORE32H remote @ STORE32H window @ STORE32H maxpacket"

definition open_failure :: "u32 \<Rightarrow> int \<Rightarrow> byte list" where
  "open_failure remote reason = byte_of 92 # STORE32H remote @ STORE32H (of_int reason) @ STORE32H 0 @ STORE32H 0"

definition open_confirmation :: "u32 \<Rightarrow> nat \<Rightarrow> u32 \<Rightarrow> byte list" where
  "open_confirmation remote i window
     = byte_of 91 # STORE32H remote @ STORE32H (of_nat i) @ STORE32H window @ STORE32H RECV_MAX_CHANNEL_DATA_LEN"

lemma open_failure_sends:
  assumes "ready_to_send s"
  obtains s' where "send_msg_channel_open_failure remote reason '''' '''' s = Inr s'" "sends (open_failure remote reason) s s'"
  by (rule emits_sends [OF emits_byte [OF emits_int [OF emits_int [OF emits_string [OF emits_string [OF emits_encrypt]]]]] assms,
        of 92 remote "of_int reason" "''''" "''''"])
    (auto simp: send_msg_channel_open_failure_def open_failure_def intro: that)

lemma open_confirmation_sends:
  assumes "ready_to_send s" and "index c = of_nat i" and "recvmaxpacket c = RECV_MAX_CHANNEL_DATA_LEN"
  obtains s' where "send_msg_channel_open_confirmation c (recvwindow c) (recvmaxpacket c) s = Inr s'"
    "sends (open_confirmation (remotechan c) i (recvwindow c)) s s'"
  by (rule emits_sends [OF emits_byte [OF emits_int [OF emits_int [OF emits_int [OF emits_int [OF emits_encrypt]]]]] assms(1),
        of 91 "remotechan c" "index c" "recvwindow c" "recvmaxpacket c"])
    (use assms(2,3) in \<open>auto simp: send_msg_channel_open_confirmation_def open_confirmation_def intro: that\<close>)

lemma update_channel_prio_shape: "\<exists>p. update_channel_prio s = s\<lparr>socket_prio := p\<rparr>"
  by (cases s) (auto simp: update_channel_prio_def Let_def)

text \<open>Reading the request.\<close>

lemma read_string:
  assumes "payload s = Some b" and "buf_ok b" and "string_ok str" and "buf_rest b = enc_string str @ r"
  shows "on_read buf_getstring s = Inr (str, s\<lparr>payload := Some (buf_skip b (4 + length str))\<rparr>)"
    "buf_ok (buf_skip b (4 + length str))" "buf_rest (buf_skip b (4 + length str)) = r"
  using buf_getstring_enc [OF assms(2-4)] assms
  by (auto simp: on_read_def buf_skip_ok buf_rest_skip enc_string_def)

lemma open_request_read:
  assumes "payload s = Some b" and "buf_ok b" and "string_ok type" and "buf_rest b = open_request type remote window maxpacket @ r"
  obtains b' where "recv_msg_channel_open hs s =
     (if length type > MAX_NAME_LEN
      then send_msg_channel_open_failure remote SSH_OPEN_UNKNOWN_CHANNEL_TYPE '''' '''' (s\<lparr>payload := Some b'\<rparr>)
      else case find (\<lambda>t. strcmp_eq type (ct_name t)) (chantypes (s\<lparr>payload := Some b'\<rparr>)) of
        None \<Rightarrow> send_msg_channel_open_failure remote SSH_OPEN_UNKNOWN_CHANNEL_TYPE '''' '''' (s\<lparr>payload := Some b'\<rparr>)
      | Some chantype \<Rightarrow> create_channel hs chantype remote window (min maxpacket TRANS_MAX_PAYLOAD_LEN) (s\<lparr>payload := Some b'\<rparr>))"
proof -
  have r0: "buf_rest b = enc_string type @ (STORE32H remote @ STORE32H window @ STORE32H maxpacket @ r)"
    using assms(4) by (simp add: open_request_def)
  note s1 = read_string [OF assms(1-3) r0]
  let ?b1 = "buf_skip b (4 + length type)"
  have s2: "on_read buf_getint (s\<lparr>payload := Some ?b1\<rparr>) = Inr (remote, s\<lparr>payload := Some (buf_skip ?b1 4)\<rparr>)"
    "buf_ok (buf_skip ?b1 4)" "buf_rest (buf_skip ?b1 4) = STORE32H window @ STORE32H maxpacket @ r"
    using read_int [of "s\<lparr>payload := Some ?b1\<rparr>" ?b1 remote] s1(2,3) by simp_all
  let ?b2 = "buf_skip ?b1 4"
  have s3: "on_read buf_getint (s\<lparr>payload := Some ?b2\<rparr>) = Inr (window, s\<lparr>payload := Some (buf_skip ?b2 4)\<rparr>)"
    "buf_ok (buf_skip ?b2 4)" "buf_rest (buf_skip ?b2 4) = STORE32H maxpacket @ r"
    using read_int [of "s\<lparr>payload := Some ?b2\<rparr>" ?b2 window] s2(2,3) by simp_all
  let ?b3 = "buf_skip ?b2 4"
  have s4: "on_read buf_getint (s\<lparr>payload := Some ?b3\<rparr>) = Inr (maxpacket, s\<lparr>payload := Some (buf_skip ?b3 4)\<rparr>)"
    using read_int(1) [of "s\<lparr>payload := Some ?b3\<rparr>" ?b3 maxpacket r] s3(2,3) by simp
  show thesis
    by (rule that [of "buf_skip ?b3 4"])
      (simp only: recv_msg_channel_open_def s1(1) s2(1) s3(1) s4 bindr_Inr prod.case Let_def)
qed

text \<open>Who would accept the request: the type of that name, if the name is not too long.\<close>

definition known_type :: "sshsession \<Rightarrow> byte list \<Rightarrow> ChanType option" where
  "known_type s type = (if length type > MAX_NAME_LEN then None else find (\<lambda>t. strcmp_eq type (ct_name t)) (chantypes s))"

definition table_full :: "sshsession \<Rightarrow> bool" where
  "table_full s \<longleftrightarrow> first_free (channels s) = length (channels s) \<and> length (channels s) \<ge> MAX_CHANNELS"

lemma sends_answers: "sends msg t s' \<Longrightarrow> same_wire s t \<Longrightarrow> answers msg s s'"
  using same_wire_refl unfolding answers_def by blast

lemma table_ok_cong:
  "channels s' = channels s \<Longrightarrow> chancount s' = chancount s \<Longrightarrow> table_ok s' = table_ok s"
  by (simp add: table_ok_def get_chan_def)

lemma table_ok_new:
  assumes "table_ok s" and "\<not> table_full s" and "i = first_free (channels s)" and "index c = of_nat i"
    and "channels s' = (roomy (channels s))[i := Some c]" and "chancount s' = chancount s + 1"
    and "i < length (roomy (channels s))" and "roomy (channels s) ! i = None"
  shows "table_ok s'"
proof -
  have "length (roomy (channels s)) \<le> MAX_CHANNELS + CHAN_EXTEND_SIZE - 1"
    using assms(1,2) by (auto simp: table_ok_def table_full_def roomy_def MAX_CHANNELS_def CHAN_EXTEND_SIZE_def)
  moreover have "in_use (channels s') = in_use (channels s) + 1"
    using in_use_set [OF assms(7,8)] in_use_extend [of "channels s" CHAN_EXTEND_SIZE] assms(5) by (auto simp: roomy_def)
  moreover have "index c' = of_nat j" if j: "get_chan j s' = Inr c'" for j c'
  proof (cases "j = i")
    case True
    then show ?thesis using j assms(4,5,7) by (simp add: get_chan_Inr)
  next
    case False
    then have "get_chan j s = Inr c'" using j assms(5)
      by (auto simp: get_chan_Inr roomy_def nth_append split: if_splits)
    then show ?thesis using assms(1) by (simp add: table_ok_def)
  qed
  ultimately show ?thesis using assms(1,5,6) by (simp add: table_ok_def)
qed

lemma roomy_others:
  assumes "j \<noteq> i" and "j < length cs"
  shows "(roomy cs)[i := x] ! j = cs ! j"
  using assms by (simp add: roomy_def nth_append)

text \<open>The handler of a type that accepts every channel and leaves the session as it is.\<close>

definition accepting :: "handlers \<Rightarrow> ChanType \<Rightarrow> bool" where
  "accepting hs t \<longleftrightarrow> (has_inithandler t \<longrightarrow> (\<forall>i s. inithandler (hs t) i s = Inr (0, s)))"

definition opened :: "ChanType \<Rightarrow> u32 \<Rightarrow> u32 \<Rightarrow> u32 \<Rightarrow> nat \<Rightarrow> sshsession \<Rightarrow> sshsession \<Rightarrow> bool" where
  "opened t remote window maxpacket i s s' \<longleftrightarrow> (\<forall>c. get_chan i s \<noteq> Inr c)
     \<and> (\<exists>c. get_chan i s' = Inr c \<and> chan_type c = t \<and> remotechan c = remote \<and> transwindow c = window
          \<and> transmaxpacket c = min maxpacket TRANS_MAX_PAYLOAD_LEN \<and> recvwindow c = recv_window (opts s)
          \<and> win_ok s' 0 c \<and> buffered c = [] \<and> \<not> recv_eof c \<and> \<not> sent_close c)
     \<and> (\<forall>j. j \<noteq> i \<and> j < length (channels s) \<longrightarrow> channels s' ! j = channels s ! j)
     \<and> answers (open_confirmation remote i (recv_window (opts s))) s s'"

lemma open_succeeds:
  assumes "table_ok s" and "ready_to_send s" and "0 < recv_window (opts s)" and "recv_window (opts s) \<le> MAX_CBUF_SIZE"
    and "\<not> table_full s" and "accepting hs t"
  shows "\<exists>s' i. create_channel hs t remote window (min maxpacket TRANS_MAX_PAYLOAD_LEN) s = Inr s'
      \<and> table_ok s' \<and> opened t remote window maxpacket i s s'"
proof -
  let ?m = "min maxpacket TRANS_MAX_PAYLOAD_LEN"
  obtain i wb where i: "i = first_free (channels s)" "i < length (roomy (channels s))" "roomy (channels s) ! i = None"
    "newchannel remote t window ?m s = Inr (Some i, s\<lparr>
        channels := (roomy (channels s))[i := Some (fresh_channel s i remote t window ?m wb)], chancount := chancount s + 1\<rparr>)"
    "win_ok s 0 (fresh_channel s i remote t window ?m wb)" "cb_list wb = []"
    using newchannel_ok [of s remote t window ?m] assms(3-5) unfolding table_full_def by metis
  let ?c = "fresh_channel s i remote t window ?m wb"
  let ?s1 = "s\<lparr>channels := (roomy (channels s))[i := Some ?c], chancount := chancount s + 1\<rparr>"
  obtain p where p: "update_channel_prio ?s1 = ?s1\<lparr>socket_prio := p\<rparr>" using update_channel_prio_shape by blast
  let ?s2 = "?s1\<lparr>socket_prio := p\<rparr>"
  have g2: "get_chan i ?s2 = Inr ?c" using i(2) by (simp add: get_chan_Inr)
  have rd: "ready_to_send ?s2" using assms(2) by (simp add: ready_to_send_def trans_ok_def payload_ready_def)
  obtain s' where s': "send_msg_channel_open_confirmation ?c (recvwindow ?c) (recvmaxpacket ?c) ?s2 = Inr s'"
    "sends (open_confirmation (remotechan ?c) i (recvwindow ?c)) ?s2 s'"
    by (rule open_confirmation_sends [OF rd, of ?c i]) (simp_all add: fresh_channel_def)
  have u: "unwired s' = unwired ?s2" using s'(2) by (simp add: sends_def)
  have g: "get_chan i s' = Inr ?c" using unwired_chan(1) [OF u] g2 by simp
  have ch: "channels s' = (roomy (channels s))[i := Some ?c]" "chancount s' = chancount s + 1" "opts s' = opts s"
    using unwiredD(3,4,15) [OF u] by simp_all
  have init: "(if has_inithandler t then inithandler (hs t) i ?s1 else Inr (0, ?s1)) = Inr (0, ?s1)"
    using assms(6) by (simp add: accepting_def)
  have run: "create_channel hs t remote window ?m s = Inr s'"
    using i(4) init p g2 s'(1) by (simp add: create_channel_def Let_def)
  have tab: "table_ok s'" by (rule table_ok_new [OF assms(1,5) i(1) _ ch(1,2) i(2,3)]) (simp add: fresh_channel_def)
  have free: "get_chan i s \<noteq> Inr c" for c using i(1,3) first_free_None [of "channels s"] by (auto simp: get_chan_Inr)
  have ans: "answers (open_confirmation remote i (recv_window (opts s))) s s'"
    by (rule sends_answers [of _ ?s2]) (use s'(2) in \<open>simp_all add: fresh_channel_def same_wire_def\<close>)
  have "opened t remote window maxpacket i s s'" unfolding opened_def
  proof (intro conjI allI impI exI [of _ ?c])
    show "win_ok s' 0 ?c" using i(5) win_ok_cong [of s' s] ch(3) by simp
    show "channels s' ! j = channels s ! j" if "j \<noteq> i \<and> j < length (channels s)" for j
      using that roomy_others [of j i "channels s"] ch(1) by simp
  qed (use g free ans i(6) in \<open>simp_all add: fresh_channel_def buffered_def\<close>)
  then show ?thesis using run tab by blast
qed

section \<open>Closing\<close>

text \<open>Closing one descriptor, exactly: the fields that are marked and the descriptors given to \<open>close\<close>.\<close>

definition closes :: "int \<Rightarrow> Channel \<Rightarrow> Channel \<Rightarrow> world \<Rightarrow> world \<Rightarrow> bool" where
  "closes fd c c' w w' \<longleftrightarrow> set (closed_fds w') = set (closed_fds w) \<union>
     (if 0 \<le> fd \<and> (\<not> bidir_fd c \<or> readfd c' = FD_CLOSED \<and> writefd c' = FD_CLOSED \<and> errfd c' = FD_CLOSED) then {fd} else {})"

lemma close_chan_fd_marks:
  assumes "get_chan i s = Inr c"
  obtains c' w where "close_chan_fd i fd how s = Inr (set_chan i c' (s\<lparr>world := w\<rparr>))"
    "c' = mark_closed (bidir_fd c \<longrightarrow> how \<noteq> 0) (bidir_fd c \<longrightarrow> how = 0) fd c" "closes fd c c' (world s) w"
proof -
  let ?c = "mark_closed (bidir_fd c \<longrightarrow> how \<noteq> 0) (bidir_fd c \<longrightarrow> how = 0) fd c"
  let ?w1 = "if bidir_fd c then (world s)\<lparr>shutdowns := (fd, how) # shutdowns (world s)\<rparr> else m_close fd (world s)"
  let ?w = "if bidir_fd c \<and> readfd ?c = FD_CLOSED \<and> writefd ?c = FD_CLOSED \<and> errfd ?c = FD_CLOSED then m_close fd ?w1 else ?w1"
  have b: "bidir_fd ?c = bidir_fd c" "(if bidir_fd c then how \<noteq> 0 else True) = (bidir_fd c \<longrightarrow> how \<noteq> 0)"
    "(if bidir_fd c then how = 0 else True) = (bidir_fd c \<longrightarrow> how = 0)"
    by (simp_all add: mark_closed_def)
  have e: "close_chan_fd i fd how s = Inr (set_chan i ?c (s\<lparr>world := ?w\<rparr>))"
    using assms by (simp only: close_chan_fd_def Let_def bindr_Inr b)
  show thesis by (rule that [OF e refl]) (auto simp: closes_def m_close_def)
qed

text \<open>
  How the descriptors of a channel belong together: a bidirectional one has no third descriptor, and
  its two sides are the same descriptor, of which one side may be closed already.
\<close>

definition fds_ok :: "Channel \<Rightarrow> bool" where
  "fds_ok c \<longleftrightarrow> (bidir_fd c \<longrightarrow> errfd c = FD_CLOSED \<and> extrabuf c = None
     \<and> (readfd c = writefd c \<or> readfd c = FD_CLOSED \<or> writefd c = FD_CLOSED))"

definition fds_of :: "Channel \<Rightarrow> int set" where
  "fds_of c = {fd. 0 \<le> fd \<and> fd \<in> {readfd c, writefd c, errfd c}}"

lemma three_closes:
  assumes "fds_ok c"
    and "c1 = mark_closed (bidir_fd c \<longrightarrow> (0::int) \<noteq> 0) (bidir_fd c \<longrightarrow> (0::int) = 0) (readfd c) c" "closes (readfd c) c c1 w w1"
    and "c2 = mark_closed (bidir_fd c1 \<longrightarrow> (2::int) \<noteq> 0) (bidir_fd c1 \<longrightarrow> (2::int) = 0) (errfd c1) c1" "closes (errfd c1) c1 c2 w1 w2"
    and "c3 = mark_closed (bidir_fd c2 \<longrightarrow> (1::int) \<noteq> 0) (bidir_fd c2 \<longrightarrow> (1::int) = 0) (writefd c2) c2" "closes (writefd c2) c2 c3 w2 w3"
  shows "fds_of c \<subseteq> set (closed_fds w3)"
proof (cases "bidir_fd c")
  case True
  then have f: "errfd c = FD_CLOSED" "extrabuf c = None" "readfd c = writefd c \<or> readfd c = FD_CLOSED \<or> writefd c = FD_CLOSED"
    using assms(1) by (simp_all add: fds_ok_def)
  have 1: "bidir_fd c1" "readfd c1 = FD_CLOSED" "errfd c1 = FD_CLOSED" "writefd c1 = writefd c" "extrabuf c1 = None"
    using True f by (simp_all add: assms(2) mark_closed_def)
  have 2: "bidir_fd c2" "readfd c2 = FD_CLOSED" "errfd c2 = FD_CLOSED" "writefd c2 = writefd c" "extrabuf c2 = None"
    using 1 by (simp_all add: assms(4) mark_closed_def ERRFD_IS_WRITE_def ERRFD_IS_READ_def)
  have 3: "readfd c3 = FD_CLOSED" "errfd c3 = FD_CLOSED" "writefd c3 = FD_CLOSED"
    using 2 by (simp_all add: assms(6) mark_closed_def)
  show ?thesis using assms(3,5,7) True f 1 2 3 by (auto simp: closes_def fds_of_def FD_CLOSED_def)
next
  case False
  have 1: "\<not> bidir_fd c1" "writefd c1 = writefd c \<or> writefd c = readfd c" "errfd c1 = errfd c \<or> errfd c = readfd c"
    using False by (simp_all add: assms(2) mark_closed_def)
  have 2: "\<not> bidir_fd c2" "writefd c2 = writefd c1 \<or> writefd c1 = errfd c1"
    using 1(1) by (simp_all add: assms(4) mark_closed_def)
  show ?thesis using assms(3,5,7) False 1 2 by (auto simp: closes_def fds_of_def)
qed

definition close_message :: "Channel \<Rightarrow> byte list" where
  "close_message c = byte_of 97 # STORE32H (remotechan c)"

text \<open>The callbacks of a type that agree to the close and leave the session alone.\<close>

definition agreeing :: "handlers \<Rightarrow> ChanType \<Rightarrow> bool" where
  "agreeing hs t \<longleftrightarrow> (\<forall>i s. type_check_close (hs t) i s = Inr (True, s) \<and> closehandler (hs t) i s = Inr s
     \<and> cleanup (hs t) i s = Inr s)"

lemma agreeing_callbacks:
  assumes "agreeing hs t"
  shows "(if has_closehandler t then closehandler (hs t) i s else Inr s) = Inr s"
    "(if has_cleanup t then cleanup (hs t) i s else Inr s) = Inr s"
    "(if p then Inr (True, s) else type_check_close (hs t) i s) = Inr (True, s)"
  using assms by (simp_all add: agreeing_def)

lemma mark_closed_keeps [simp]:
  "chan_type (mark_closed a b fd c) = chan_type c" "index (mark_closed a b fd c) = index c"
  "writebuf (mark_closed a b fd c) = writebuf c" "extrabuf (mark_closed a b fd c) = extrabuf c"
  "sent_close (mark_closed a b fd c) = sent_close c" "remotechan (mark_closed a b fd c) = remotechan c"
  "bidir_fd (mark_closed a b fd c) = bidir_fd c"
  by (simp_all add: mark_closed_def)

lemma send_close_ok:
  assumes "get_chan i s = Inr c" and "ready_to_send s" and "agreeing hs (chan_type c)" and "fds_ok c"
  obtains t c' w where "send_msg_channel_close hs i s = Inr (set_chan i c' (t\<lparr>world := w\<rparr>))"
    "sends (close_message c) s t" "fds_of c \<subseteq> set (closed_fds w)" "set (closed_fds (world s)) \<subseteq> set (closed_fds w)"
    "index c' = index c" "chan_type c' = chan_type c" "writebuf c' = writebuf c" "extrabuf c' = extrabuf c"
proof -
  obtain t where t: "bindr (put_byte 97 s) (\<lambda>s. bindr (put_int (remotechan c) s) encrypt_packet) = Inr t"
    "sends (close_message c) s t"
    by (rule emits_sends [OF emits_byte [OF emits_int [OF emits_encrypt]] assms(2), of 97 "remotechan c"])
      (auto simp: close_message_def intro: that)
  have gt: "get_chan i t = Inr c" using unwired_chan(1) [of t s] t(2) assms(1) by (simp add: sends_def)
  let ?c0 = "c\<lparr>sent_eof := True, sent_close := True\<rparr>" let ?t0 = "set_chan i ?c0 t"
  have lt: "i < length (channels t)" using gt by (simp add: get_chan_Inr)
  obtain c1 w1 where 1: "close_chan_fd i (readfd ?c0) 0 ?t0 = Inr (set_chan i c1 (?t0\<lparr>world := w1\<rparr>))"
    "c1 = mark_closed (bidir_fd ?c0 \<longrightarrow> (0::int) \<noteq> 0) (bidir_fd ?c0 \<longrightarrow> (0::int) = 0) (readfd ?c0) ?c0"
    "closes (readfd ?c0) ?c0 c1 (world ?t0) w1"
    by (rule close_chan_fd_marks [of i ?t0 ?c0 "readfd ?c0" 0]) (use lt in simp_all)
  let ?t1 = "set_chan i c1 (?t0\<lparr>world := w1\<rparr>)"
  obtain c2 w2 where 2: "close_chan_fd i (errfd c1) 2 ?t1 = Inr (set_chan i c2 (?t1\<lparr>world := w2\<rparr>))"
    "c2 = mark_closed (bidir_fd c1 \<longrightarrow> (2::int) \<noteq> 0) (bidir_fd c1 \<longrightarrow> (2::int) = 0) (errfd c1) c1"
    "closes (errfd c1) c1 c2 (world ?t1) w2"
    by (rule close_chan_fd_marks [of i ?t1 c1 "errfd c1" 2]) (use lt in \<open>simp_all add: get_chan_Inr\<close>)
  let ?t2 = "set_chan i c2 (?t1\<lparr>world := w2\<rparr>)"
  obtain c3 w3 where 3: "close_chan_fd i (writefd c2) 1 ?t2 = Inr (set_chan i c3 (?t2\<lparr>world := w3\<rparr>))"
    "c3 = mark_closed (bidir_fd c2 \<longrightarrow> (1::int) \<noteq> 0) (bidir_fd c2 \<longrightarrow> (1::int) = 0) (writefd c2) c2"
    "closes (writefd c2) c2 c3 (world ?t2) w3"
    by (rule close_chan_fd_marks [of i ?t2 c2 "writefd c2" 1]) (use lt in \<open>simp_all add: get_chan_Inr\<close>)
  have last: "set_chan i c3 (?t2\<lparr>world := w3\<rparr>) = set_chan i c3 (t\<lparr>world := w3\<rparr>)" by (simp add: set_chan_def)
  have cl: "closes (readfd ?c0) ?c0 c1 (world t) w1" "closes (errfd c1) c1 c2 w1 w2" "closes (writefd c2) c2 c3 w2 w3"
    using 1(3) 2(3) 3(3) by simp_all
  have fds: "fds_of ?c0 \<subseteq> set (closed_fds w3)"
    by (rule three_closes [OF _ 1(2) cl(1) 2(2) cl(2) 3(2) cl(3)]) (use assms(4) in \<open>simp add: fds_ok_def\<close>)
  have cw: "closed_fds (world t) = closed_fds (world s)" using unwiredD [of t s] t(2) by (simp add: sends_def)
  have "send_msg_channel_close hs i s = bindr (bindr (put_byte 97 s) (\<lambda>s. bindr (put_int (remotechan c) s) encrypt_packet)) (\<lambda>s.
     bindr (upd_chan i (\<lambda>c. c\<lparr>sent_eof := True, sent_close := True\<rparr>) s) (\<lambda>s.
     bindr (get_chan i s) (\<lambda>c. bindr (close_chan_fd i (readfd c) 0 s) (\<lambda>s.
     bindr (get_chan i s) (\<lambda>c. bindr (close_chan_fd i (errfd c) 2 s) (\<lambda>s.
     bindr (get_chan i s) (\<lambda>c. close_chan_fd i (writefd c) 1 s)))))))"
    using assms(1) agreeing_callbacks(1) [OF assms(3)]
    by (auto simp: send_msg_channel_close_def bindr_assoc put_byte_def on_write_def bindr_def split: sum.splits)
  also have "\<dots> = Inr (set_chan i c3 (t\<lparr>world := w3\<rparr>))"
    using t(1) gt lt 1(1) 2(1) 3(1) last by (simp add: upd_chan_eq get_chan_Inr)
  finally show thesis
    by (rule that) (use t(2) fds cl cw 1(2) 2(2) 3(2) in \<open>auto simp: fds_of_def closes_def\<close>)
qed

lemma cbuf_free_ok: "cb_ok cb \<Longrightarrow> free_cbuf (Some cb) = Inr ()"
  by (auto simp: free_cbuf_def cbuf_free_def cb_ok_def mem_write_def split: option.splits)

lemma index_slot:
  assumes "table_ok s" and "get_chan i s = Inr c"
  shows "unat (index c) = i" "i < 4294967296"
proof -
  have i: "i < 1002" using assms by (simp add: table_ok_def get_chan_Inr MAX_CHANNELS_def CHAN_EXTEND_SIZE_def)
  then show "i < 4294967296" by simp
  have "unat (of_nat i :: u32) = i" using i by (intro unat_of_nat_u32) simp
  then show "unat (index c) = i" using assms by (simp add: table_ok_def)
qed

lemma table_ok_clear:
  assumes "table_ok s" and "get_chan i s = Inr c" and "channels s' = (channels s)[i := None]" and "chancount s' = chancount s - 1"
  shows "table_ok s'"
proof -
  have i: "i < length (channels s)" "channels s ! i = Some c" using assms(2) by (simp_all add: get_chan_Inr)
  have u: "in_use (channels s) = in_use (channels s') + 1" using in_use_clear [OF i] assms(3) by simp
  have "get_chan j s = Inr c'" if "get_chan j s' = Inr c'" for j c'
    using that assms(3) i by (cases "j = i") (auto simp: get_chan_Inr)
  then show ?thesis using assms u by (auto simp: table_ok_def)
qed

lemma remove_channel_ok:
  assumes "get_chan i s = Inr c" and "table_ok s" and "agreeing hs (chan_type c)" and "isserver s"
    and "writebuf c = Some cb" and "cb_ok cb" and "extrabuf c = None"
  obtains s' where "remove_channel hs i s = Inr s'" "channels s' = (channels s)[i := None]" "chancount s' = chancount s - 1"
    "same_wire s s'" "set (closed_fds (world s)) \<union> fds_of c \<subseteq> set (closed_fds (world s'))"
proof -
  let ?c = "c\<lparr>writebuf := None, extrabuf := None\<rparr>"
  let ?w = "m_close (errfd c) (m_close (readfd c) (m_close (writefd c) (world s)))"
  let ?s1 = "set_chan i ?c (s\<lparr>world := ?w\<rparr>)"
  let ?s2 = "?s1\<lparr>channels := (channels ?s1)[i := None], chancount := chancount ?s1 - 1\<rparr>"
  obtain p where p: "update_channel_prio ?s2 = ?s2\<lparr>socket_prio := p\<rparr>" using update_channel_prio_shape by blast
  have i: "i < length (channels s)" using assms(1) by (simp add: get_chan_Inr)
  have g: "get_chan i ?s1 = Inr ?c" using i by (simp add: get_chan_Inr)
  have ix: "unat (index ?c) = i" using index_slot(1) [OF assms(2,1)] by simp
  have s1: "upd_world (\<lambda>w. m_close (errfd c) (m_close (readfd c) (m_close (writefd c) w))) (set_chan i ?c s) = ?s1"
    by (simp add: upd_world_def set_chan_def)
  have sv: "isserver (set_chan i ?c s)" using assms(4) by (simp add: set_chan_def)
  have lt: "i < length (channels ?s1)" using i by simp
  have "remove_channel hs i s = Inr (update_channel_prio ?s2)"
    unfolding remove_channel_def Let_def
    using assms(1,7) cbuf_free_ok [OF assms(6)] assms(5) sv s1 assms(3) [unfolded agreeing_def] g ix lt
    by simp
  then show thesis
  proof (rule that)
    show "channels (update_channel_prio ?s2) = (channels s)[i := None]" "chancount (update_channel_prio ?s2) = chancount s - 1"
      unfolding p by (simp_all add: set_chan_def)
    show "same_wire s (update_channel_prio ?s2)" unfolding p by (simp add: same_wire_def set_chan_def)
    show "set (closed_fds (world s)) \<union> fds_of c \<subseteq> set (closed_fds (world (update_channel_prio ?s2)))"
      unfolding p by (auto simp: m_close_def fds_of_def set_chan_def)
  qed
qed

text \<open>Whether a close from the peer finds the channel drained: nothing is left to write locally.\<close>

lemma write_pending_drained:
  assumes "writebuf c = Some cb" and "cb_ok cb" and "extrabuf c = None"
  shows "write_pending c = Inr (0 \<le> writefd c \<and> buffered c \<noteq> [])"
proof -
  have "cused cb > 0 \<longleftrightarrow> buffered c \<noteq> []"
    using length_cb_list [OF assms(2)] assms(1) by (auto simp: buffered_def word_gt_0 unat_eq_zero)
  then show ?thesis using assms by (auto simp: write_pending_def cbuf_getused_def)
qed

text \<open>A close that was received on a drained channel is answered and the channel removed.\<close>

lemma drained_channel_removed:
  assumes "get_chan i s = Inr c" and "table_ok s" and "ready_to_send s" and "isserver s" and "agreeing hs (chan_type c)"
    and "win_ok s 0 c" and "fds_ok c" and "writefd c < 0 \<or> buffered c = []" and "recv_close c" and "\<not> flushing c"
  obtains s' where "check_close hs i s = Inr s'" "channels s' = (channels s)[i := None]" "chancount s' = chancount s - 1"
    "if sent_close c then same_wire s s' else answers (close_message c) s s'"
    "set (closed_fds (world s)) \<union> fds_of c \<subseteq> set (closed_fds (world s'))"
proof -
  obtain cb where cb: "writebuf c = Some cb" "extrabuf c = None" "cb_ok cb" using assms(6) by (rule win_okE)
  have wp: "write_pending c = Inr False" using write_pending_drained [OF cb(1,3,2)] assms(8) by auto
  have run: "check_close hs i s = bindr (if sent_close c then Inr s else send_msg_channel_close hs i s) (remove_channel hs i)"
    using assms(1,5,9,10) wp by (simp add: check_close_def agreeing_def)
  show thesis
  proof (cases "sent_close c")
    case True
    obtain s' where s': "remove_channel hs i s = Inr s'" "channels s' = (channels s)[i := None]" "chancount s' = chancount s - 1"
      "same_wire s s'" "set (closed_fds (world s)) \<union> fds_of c \<subseteq> set (closed_fds (world s'))"
      by (rule remove_channel_ok [OF assms(1,2,5,4) cb(1,3,2)])
    show thesis by (rule that [OF _ s'(2,3) _ s'(5)]) (use run s'(1,4) True in simp_all)
  next
    case False
    obtain t c' w where t: "send_msg_channel_close hs i s = Inr (set_chan i c' (t\<lparr>world := w\<rparr>))"
      "sends (close_message c) s t" "fds_of c \<subseteq> set (closed_fds w)" "set (closed_fds (world s)) \<subseteq> set (closed_fds w)"
      "index c' = index c" "chan_type c' = chan_type c" "writebuf c' = writebuf c" "extrabuf c' = extrabuf c"
      by (rule send_close_ok [OF assms(1,3,5,7)])
    let ?t = "set_chan i c' (t\<lparr>world := w\<rparr>)"
    have u: "unwired t = unwired s" using t(2) by (simp add: sends_def)
    note same = unwiredD(1,3,4) [OF u]
    have i: "i < length (channels s)" "channels s ! i = Some c" using assms(1) by (simp_all add: get_chan_Inr)
    have gt: "get_chan i ?t = Inr c'" using i same by (simp add: get_chan_Inr)
    have "get_chan j s = (if j = i then Inr c else get_chan j ?t)" for j
      using assms(1) same by (auto simp: get_chan_def set_chan_def)
    then have "index c'' = of_nat j" if "get_chan j ?t = Inr c''" for j c''
      using that gt assms(1,2) t(5) by (cases "j = i") (auto simp: table_ok_def)
    then have tab: "table_ok ?t"
      using assms(2) same in_use_replace [OF i, of c'] by (simp add: table_ok_def set_chan_def)
    obtain s' where s': "remove_channel hs i ?t = Inr s'" "channels s' = (channels ?t)[i := None]" "chancount s' = chancount ?t - 1"
      "same_wire ?t s'" "set (closed_fds (world ?t)) \<union> fds_of c' \<subseteq> set (closed_fds (world s'))"
      by (rule remove_channel_ok [OF gt tab, of hs cb]) (use assms(4,5) cb t same in \<open>simp_all add: set_chan_def\<close>)
    have "same_wire t s'" using s'(4) by (simp add: same_wire_def set_chan_def)
    then have ans: "answers (close_message c) s s'" using t(2) same_wire_refl unfolding answers_def by blast
    show thesis
      by (rule that [of s']) (use run t s' same False ans in \<open>auto simp: set_chan_def\<close>)
  qed
qed

section \<open>Properties\<close>




definition plain_handlers :: handlers where
  "plain_handlers = (\<lambda>_. \<lparr>inithandler = (\<lambda>i s. Inr (0, s)), type_check_close = (\<lambda>i s. Inr (True, s)), reqhandler = (\<lambda>i. Inr),
     closehandler = (\<lambda>i. Inr), cleanup = (\<lambda>i. Inr)\<rparr>)"




end
