(* ===== verification/Kex.thy ===== *)
theory Kex
  imports Packet Pubkey
begin

text \<open>
  The common part of the key exchange, \<open>dropbear/src/common-kex.c\<close>: the list of algorithms that is
  sent, the choice made from the peer's list, the exchange hash, the keys derived from it and the
  point where they come into use.

  The session says by \<open>isserver\<close> which side it is. \<open>guess\<close> is \<open>ses.send_kex_first_guess\<close>, NULL on a
  server. The state of a hash is the list of the bytes it has processed. The structure \<open>ses.newkeys\<close>
  comes zeroed from \<open>m_malloc\<close> and is zeroed by \<open>m_burn\<close>: its pointers are NULL then, and the
  algorithms in \<open>zero_keys\<close> stand for them; they are set before anything reads them. \<open>ses.keys\<close> is
  allocated when the session starts.
\<close>

section \<open>Constants and tables\<close>

definition MAX_HASH_SIZE :: nat where
  "MAX_HASH_SIZE = 64"

definition MAX_KEY_LEN :: nat where
  "MAX_KEY_LEN = 64"

definition MAX_IV_LEN :: nat where
  "MAX_IV_LEN = 20"

definition MAX_PUBKEY_SIZE :: u32 where
  "MAX_PUBKEY_SIZE = 600"

definition MAX_KEX_PARTS :: u32 where
  "MAX_KEX_PARTS = 2 * 4 + 1184 + 1088 + 32 * 2 + 68"

definition KEXHASHBUF_MAX_INTS :: u32 where
  "KEXHASHBUF_MAX_INTS = MAX_PUBKEY_SIZE + MAX_KEX_PARTS"

definition LOCAL_IDENT :: string where
  "LOCAL_IDENT = ''SSH-2.0-dropbear_2026.94''"

definition KEXGUESS2_ALGO_NAME :: string where
  "KEXGUESS2_ALGO_NAME = ''kexguess2@matt.ucc.asn.au''"

definition SSH_EXT_INFO_C :: string where
  "SSH_EXT_INFO_C = ''ext-info-c''"

definition SSH_STRICT_KEX_S :: string where
  "SSH_STRICT_KEX_S = ''kex-strict-s-v00@openssh.com''"

definition SSH_STRICT_KEX_C :: string where
  "SSH_STRICT_KEX_C = ''kex-strict-c-v00@openssh.com''"

lemmas kex_consts = MAX_HASH_SIZE_def MAX_KEY_LEN_def MAX_IV_LEN_def MAX_PUBKEY_SIZE_def MAX_KEX_PARTS_def
  KEXHASHBUF_MAX_INTS_def

text \<open>The values of the compression methods in the tables are those of the enumeration.\<close>

fun comp_val :: "comp \<Rightarrow> int" where
  "comp_val DROPBEAR_COMP_NONE = 0"
| "comp_val DROPBEAR_COMP_ZLIB = 1"
| "comp_val DROPBEAR_COMP_ZLIB_DELAY = 2"

definition comp_of_val :: "int \<Rightarrow> comp" where
  "comp_of_val v = (if v = 1 then DROPBEAR_COMP_ZLIB else if v = 2 then DROPBEAR_COMP_ZLIB_DELAY else DROPBEAR_COMP_NONE)"

definition comp_entry :: "string \<Rightarrow> comp \<Rightarrow> comp_algo" where
  "comp_entry n c = \<lparr>aname = n, aval = comp_val c, adata = None, ausable = True, amode = None\<rparr>"

definition ssh_compress :: "comp_algo list" where
  "ssh_compress = [comp_entry ''zlib@openssh.com'' DROPBEAR_COMP_ZLIB_DELAY, comp_entry ''zlib'' DROPBEAR_COMP_ZLIB,
     comp_entry ''none'' DROPBEAR_COMP_NONE]"

definition ssh_nocompress :: "comp_algo list" where
  "ssh_nocompress = [comp_entry ''none'' DROPBEAR_COMP_NONE]"

section \<open>Sending the list of algorithms\<close>

definition zero_keys :: key_context where
  "zero_keys = no_keys\<lparr>algo_hostkey := 0\<rparr>"

definition put_random :: "nat \<Rightarrow> sshsession \<Rightarrow> sshsession res" where
  "put_random n s =
     bindr (buf_getwriteptr (writepayload s) (of_nat n)) (\<lambda>p.
     case genrandom n (world s) of (rnd, w) \<Rightarrow>
     bindr (mem_write (bdata (writepayload s)) p rnd) (\<lambda>d.
     bindr (buf_incrwritepos ((writepayload s)\<lparr>bdata := d\<rparr>) (of_nat n)) (\<lambda>b.
     Inr (s\<lparr>writepayload := b, world := w\<rparr>))))"

definition put_algolist :: "('d, 'm) algo_type list \<Rightarrow> sshsession \<Rightarrow> sshsession res" where
  "put_algolist algos = on_write (\<lambda>b. buf_put_algolist b algos)"

definition hostkey_type :: "int \<Rightarrow> int res" where
  "hostkey_type sigtype = bindr (signkey_type_from_signature (nat sigtype)) (\<lambda>t. Inr (int t))"

text \<open>The fields of the message, and the first guess of a side that makes one.\<close>

definition put_kexinit :: "bool \<Rightarrow> sshsession \<Rightarrow> sshsession res" where
  "put_kexinit follows s =
     bindr (put_byte SSH_MSG_KEXINIT s) (\<lambda>s.
     bindr (put_random 16 s) (\<lambda>s.
     bindr (put_algolist (sshkex s) s) (\<lambda>s.
     bindr (put_algolist (sigalgs s) s) (\<lambda>s.
     bindr (put_algolist (sshciphers s) s) (\<lambda>s.
     bindr (put_algolist (sshciphers s) s) (\<lambda>s.
     bindr (put_algolist (sshhashes s) s) (\<lambda>s.
     bindr (put_algolist (sshhashes s) s) (\<lambda>s.
     bindr (put_algolist (compress_algos_c2s s) s) (\<lambda>s.
     bindr (put_algolist (compress_algos_s2c s) s) (\<lambda>s.
     bindr (put_string [] s) (\<lambda>s.
     bindr (put_string [] s) (\<lambda>s.
     bindr (put_byte (if follows then 1 else 0) s) (\<lambda>s.
     put_int 0 s)))))))))))))"

definition first_guess :: "(sshsession \<Rightarrow> sshsession res) \<Rightarrow> sshsession \<Rightarrow> sshsession res" where
  "first_guess g s =
     (case (newkeys s, first_usable_algo (sshkex s), first_usable_algo (sigalgs s)) of
        (Some nk, Some k, Some a) \<Rightarrow>
          bindr (hostkey_type (aval a)) (\<lambda>h.
          g (s\<lparr>newkeys := Some (nk\<lparr>algo_kex := adata k, algo_signature := aval a, algo_hostkey := h\<rparr>)\<rparr>))
      | _ \<Rightarrow> Inl Mem_fault)"

definition send_msg_kexinit :: "(sshsession \<Rightarrow> sshsession res) option \<Rightarrow> sshsession \<Rightarrow> sshsession res" where
  "send_msg_kexinit guess s =
     bindr (put_kexinit (guess \<noteq> None) s) (\<lambda>s.
     bindr (buf_newcopy (writepayload s)) (\<lambda>copy.
     bindr (encrypt_packet (s\<lparr>transkexinit := Some copy\<rparr>)) (\<lambda>s.
     let s = (upd_kex (\<lambda>k. k\<lparr>sentkexinit := True\<rparr>) s)\<lparr>dataallowed := False, newkeys := Some zero_keys\<rparr> in
     case guess of None \<Rightarrow> Inr s | Some g \<Rightarrow> first_guess g s)))"

section \<open>Taking new keys into use\<close>

definition kexinitialise :: "sshsession \<Rightarrow> sshsession" where
  "kexinitialise s = upd_kex (\<lambda>k. k\<lparr>sentkexinit := False, recvkexinit := False, recvnewkeys := False,
     sentnewkeys := False, them_firstfollows := False, datatrans := 0, datarecv := 0,
     our_first_follows_matches := False, lastkextime := monotonic_now (world s)\<rparr>) s"

definition kex_setup_compress :: "sshsession \<Rightarrow> sshsession" where
  "kex_setup_compress s =
     (if \<not> compression (opts s) then s\<lparr>compress_algos_c2s := ssh_nocompress, compress_algos_s2c := ssh_nocompress\<rparr>
      else if \<not> isserver s then s\<lparr>compress_algos_c2s := ssh_compress, compress_algos_s2c := ssh_compress\<rparr>
      else s\<lparr>compress_algos_c2s := ssh_nocompress, compress_algos_s2c := ssh_compress\<rparr>)"

definition kexfirstinitialise :: "sshsession \<Rightarrow> sshsession" where
  "kexfirstinitialise s = kexinitialise (kex_setup_compress s)"

text \<open>
  The two stream functions set up the stream of the new keys and close the one of the old keys;
  \<open>new_zstream\<close> is their common text, over \<open>inflateInit\<close> or \<open>deflateInit2\<close>.
\<close>

definition new_zstream :: "byte list option \<Rightarrow> zlib \<Rightarrow> key_context_directional \<Rightarrow> key_context_directional \<Rightarrow> key_context_directional res" where
  "new_zstream init z old new =
     bindr (if algo_comp new = DROPBEAR_COMP_ZLIB \<or> algo_comp new = DROPBEAR_COMP_ZLIB_DELAY
            then (case init of None \<Rightarrow> Inl (Exit ''zlib error'') | Some st \<Rightarrow> Inr (new\<lparr>zstream := Some st\<rparr>))
            else Inr (new\<lparr>zstream := None\<rparr>)) (\<lambda>new.
     bindr (require (case zstream old of None \<Rightarrow> True | Some st \<Rightarrow> zEnd_ok z st) (Exit ''Crypto error'')) (\<lambda>_.
     Inr new))"

definition gen_new_zstream_recv :: "key_context \<Rightarrow> sshsession \<Rightarrow> key_context_directional res" where
  "gen_new_zstream_recv nk s = new_zstream (inflateInit (libz s)) (libz s) (recv (keys s)) (recv nk)"

definition gen_new_zstream_trans :: "key_context \<Rightarrow> sshsession \<Rightarrow> key_context_directional res" where
  "gen_new_zstream_trans nk s = new_zstream (deflateInit2 (libz s)) (libz s) (trans (keys s)) (trans nk)"

definition switch_recv :: "key_context \<Rightarrow> sshsession \<Rightarrow> (key_context \<times> sshsession) res" where
  "switch_recv nk s =
     (if recvnewkeys (kexstate s) \<and> valid (recv nk) then
        bindr (gen_new_zstream_recv nk s) (\<lambda>d.
        Inr (nk\<lparr>recv := no_algos\<rparr>, s\<lparr>keys := (keys s)\<lparr>recv := d\<rparr>\<rparr>))
      else Inr (nk, s))"

definition switch_trans :: "key_context \<Rightarrow> sshsession \<Rightarrow> (key_context \<times> sshsession) res" where
  "switch_trans nk s =
     (if sentnewkeys (kexstate s) \<and> valid (trans nk) then
        bindr (gen_new_zstream_trans nk s) (\<lambda>d.
        Inr (nk\<lparr>trans := no_algos\<rparr>, s\<lparr>keys := (keys s)\<lparr>trans := d\<rparr>\<rparr>))
      else Inr (nk, s))"

definition end_switch :: "key_context \<Rightarrow> sshsession \<Rightarrow> sshsession" where
  "end_switch nk s =
     (if sentnewkeys (kexstate s) \<and> recvnewkeys (kexstate s) then
        kexinitialise (s\<lparr>keys := (keys s)\<lparr>algo_kex := algo_kex nk, algo_hostkey := algo_hostkey nk,
          algo_signature := algo_signature nk\<rparr>, newkeys := None\<rparr>)
      else s\<lparr>newkeys := Some nk\<rparr>)"

definition switch_keys :: "sshsession \<Rightarrow> sshsession res" where
  "switch_keys s =
     (if \<not> (sentkexinit (kexstate s) \<and> recvkexinit (kexstate s)) then Inl (Exit ''Unexpected newkeys message'')
      else case newkeys s of
        None \<Rightarrow> if recvnewkeys (kexstate s) \<or> sentnewkeys (kexstate s) then Inl Mem_fault else Inr s
      | Some nk \<Rightarrow>
          bindr (switch_recv nk s) (\<lambda>(nk, s).
          bindr (switch_trans nk s) (\<lambda>(nk, s).
          Inr (end_switch nk s))))"

section \<open>Deriving keys\<close>

text \<open>
  \<open>hs\<close> are the bytes the common hash state has processed, \<open>K\<close> and \<open>H\<close>. A digest goes into an array
  of \<open>MAX_HASH_SIZE\<close> bytes. The loop of \<open>hashkeys\<close> would not end for a hash of size zero.
\<close>

definition digest :: "dropbear_kex \<Rightarrow> byte list \<Rightarrow> byte list res" where
  "digest kex bytes = bindr (require (length (kex_hash kex bytes) \<le> MAX_HASH_SIZE) Mem_fault) (\<lambda>_. Inr (kex_hash kex bytes))"

function hashkeys_loop :: "dropbear_kex \<Rightarrow> byte list \<Rightarrow> nat \<Rightarrow> nat \<Rightarrow> byte list \<Rightarrow> byte list res" where
  "hashkeys_loop kex hs outlen offset out =
     (if offset < outlen then
        bindr (digest kex (hs @ take offset out)) (\<lambda>tmpout.
        let out = take offset out @ take (min (outlen - offset) (kex_hashsize kex)) tmpout in
        if kex_hashsize kex = 0 then Inl Loops
        else hashkeys_loop kex hs outlen (offset + kex_hashsize kex) out)
      else Inr out)"
  by auto
termination by (relation "measure (\<lambda>(kex, hs, outlen, offset, out). outlen - offset)") auto

declare hashkeys_loop.simps [simp del]

definition hashkeys :: "nat \<Rightarrow> dropbear_kex \<Rightarrow> byte list \<Rightarrow> byte list \<Rightarrow> char \<Rightarrow> byte list res" where
  "hashkeys outlen kex hs sid X =
     bindr (digest kex (hs @ [X] @ sid)) (\<lambda>tmpout.
     hashkeys_loop kex hs outlen (kex_hashsize kex) (take (min (kex_hashsize kex) outlen) tmpout))"

definition hash_process_mp :: "byte list \<Rightarrow> int \<Rightarrow> byte list res" where
  "hash_process_mp hs mp =
     bindr (buf_new (512 + 20)) (\<lambda>b.
     bindr (buf_putmpint b mp) (\<lambda>b.
     Inr (hs @ buf_content b)))"

text \<open>The common start of all hashes: the shared secret in the form it has, and the exchange hash.\<close>

definition key_material :: "sshsession \<Rightarrow> byte list res" where
  "key_material s =
     bindr (case dh_K s of None \<Rightarrow> Inr [] | Some mp \<Rightarrow> hash_process_mp [] mp) (\<lambda>hs.
     let hs = hs @ (case dh_K_bytes s of None \<Rightarrow> [] | Some b \<Rightarrow> buf_content b) in
     case ses_hash s of None \<Rightarrow> Inl Mem_fault | Some h \<Rightarrow> Inr (hs @ buf_content h))"

definition start_cipher :: "libtomcrypt \<Rightarrow> key_context_directional \<Rightarrow> byte list \<Rightarrow> byte list \<Rightarrow> key_context_directional res" where
  "start_cipher lib k IV key =
     (case cipherdesc (algo_crypt k) of
        None \<Rightarrow> Inr k
      | Some name \<Rightarrow>
          let cipher = (case name of None \<Rightarrow> -1 | Some n \<Rightarrow> find_cipher lib n) in
          if name \<noteq> None \<and> cipher < 0 then Inl (Exit ''Crypto error'')
          else case cm_start (crypt_mode k) cipher IV key (keysize (algo_crypt k)) of
            None \<Rightarrow> Inl (Exit ''Crypto error'')
          | Some st \<Rightarrow> Inr (k\<lparr>cipher_state := st\<rparr>))"

definition derive_mac :: "libtomcrypt \<Rightarrow> dropbear_kex \<Rightarrow> byte list \<Rightarrow> byte list \<Rightarrow> char \<Rightarrow> key_context_directional
    \<Rightarrow> key_context_directional res" where
  "derive_mac lib kex hs sid letter k =
     (case hash_desc (algo_mac k) of
        None \<Rightarrow> Inr k
      | Some name \<Rightarrow>
          bindr (hashkeys (hkeysize (algo_mac k)) kex hs sid letter) (\<lambda>key.
          bindr (mem_write (mackey k) 0 key) (\<lambda>d.
          Inr (k\<lparr>mackey := d, hash_index := find_hash lib name\<rparr>))))"

definition gen_new_keys :: "sshsession \<Rightarrow> sshsession res" where
  "gen_new_keys s =
     (case newkeys s of
        None \<Rightarrow> Inl Mem_fault
      | Some nk \<Rightarrow>
          (case algo_kex nk of
             None \<Rightarrow> Inl Mem_fault
           | Some kex \<Rightarrow>
               bindr (key_material s) (\<lambda>hs.
               case session_id s of
                 None \<Rightarrow> Inl Mem_fault
               | Some sid \<Rightarrow>
                   let sid = buf_content sid; lib = libtom s in
                   bindr (hashkeys MAX_IV_LEN kex hs sid (CHR ''A'')) (\<lambda>C2S_IV.
                   bindr (hashkeys MAX_IV_LEN kex hs sid (CHR ''B'')) (\<lambda>S2C_IV.
                   bindr (hashkeys MAX_KEY_LEN kex hs sid (CHR ''C'')) (\<lambda>C2S_key.
                   bindr (hashkeys MAX_KEY_LEN kex hs sid (CHR ''D'')) (\<lambda>S2C_key.
                   let trans_IV = (if isserver s then S2C_IV else C2S_IV);
                       recv_IV = (if isserver s then C2S_IV else S2C_IV);
                       trans_key = (if isserver s then S2C_key else C2S_key);
                       recv_key = (if isserver s then C2S_key else S2C_key);
                       mactransletter = (if isserver s then CHR ''F'' else CHR ''E'');
                       macrecvletter = (if isserver s then CHR ''E'' else CHR ''F'') in
                   bindr (start_cipher lib (recv nk) recv_IV recv_key) (\<lambda>r.
                   bindr (start_cipher lib (trans nk) trans_IV trans_key) (\<lambda>t.
                   bindr (derive_mac lib kex hs sid mactransletter t) (\<lambda>t.
                   bindr (derive_mac lib kex hs sid macrecvletter r) (\<lambda>r.
                   Inr (s\<lparr>dh_K := None, dh_K_bytes := None, ses_hash := None,
                     newkeys := Some (nk\<lparr>recv := r\<lparr>valid := True\<rparr>, trans := t\<lparr>valid := True\<rparr>\<rparr>)\<rparr>))))))))))))"

definition send_msg_newkeys :: "sshsession \<Rightarrow> sshsession res" where
  "send_msg_newkeys s =
     bindr (put_byte SSH_MSG_NEWKEYS s) (\<lambda>s.
     bindr (encrypt_packet s) (\<lambda>s.
     let s = (upd_kex (\<lambda>k. k\<lparr>sentnewkeys := True, donesecondkex := donefirstkex k \<or> donesecondkex k,
                donefirstkex := True\<rparr>) s)\<lparr>dataallowed := True\<rparr> in
     bindr (gen_new_keys s) (\<lambda>s.
     bindr (switch_keys s) (\<lambda>s.
     Inr (if strict_kex (kexstate s) then s\<lparr>transseq := 0\<rparr> else s)))))"

definition recv_msg_newkeys :: "sshsession \<Rightarrow> sshsession res" where
  "recv_msg_newkeys s =
     bindr (switch_keys (upd_kex (\<lambda>k. k\<lparr>recvnewkeys := True\<rparr>) s)) (\<lambda>s.
     let s = (if strict_kex (kexstate s) then s\<lparr>recvseq := 0\<rparr> else s) in
     Inr (upd_kex (\<lambda>k. k\<lparr>recvfirstnewkeys := True\<rparr>) s))"

section \<open>Reading the peer's list\<close>

definition pick_algo :: "string \<Rightarrow> bool \<Rightarrow> buffer \<Rightarrow> ('d, 'm) algo_type list \<Rightarrow> bool \<Rightarrow> (('d, 'm) algo_type \<times> bool \<times> buffer) res" where
  "pick_algo erralgo server b algos kexguess2 =
     bindr (buf_match_algo server b algos kexguess2) (\<lambda>(algo, goodguess, b).
     case algo of
       None \<Rightarrow> Inl (Exit (''No matching algo '' @ erralgo))
     | Some a \<Rightarrow> Inr (a, goodguess, b))"

text \<open>A cipher that authenticates needs no hash: the result is NULL then.\<close>

definition pick_mac :: "string \<Rightarrow> bool \<Rightarrow> buffer \<Rightarrow> (dropbear_cipher, dropbear_cipher_mode) algo_type
    \<Rightarrow> (dropbear_hash, unit) algo_type list \<Rightarrow> ((dropbear_hash, unit) algo_type option \<times> buffer) res" where
  "pick_mac erralgo server b cipher_algo hashes =
     bindr (buf_match_algo server b hashes False) (\<lambda>(algo, _, b).
     case amode cipher_algo of
       None \<Rightarrow> Inl Mem_fault
     | Some m \<Rightarrow>
         if aead_crypt m \<noteq> None then Inr (None, b)
         else if algo = None then Inl (Exit (''No matching algo '' @ erralgo))
         else Inr (algo, b))"

definition direction :: "(dropbear_cipher, dropbear_cipher_mode) algo_type \<Rightarrow> (dropbear_hash, unit) algo_type option
    \<Rightarrow> comp_algo \<Rightarrow> key_context_directional res" where
  "direction cipher_algo hash_algo comp_algo =
     (case (adata cipher_algo, amode cipher_algo) of
        (Some c, Some m) \<Rightarrow>
          (case (case hash_algo of None \<Rightarrow> aead_mac m | Some h \<Rightarrow> adata h) of
             None \<Rightarrow> Inl Mem_fault
           | Some mac \<Rightarrow> Inr (no_algos\<lparr>algo_crypt := c, crypt_mode := m, algo_mac := mac,
               algo_comp := comp_of_val (aval comp_algo)\<rparr>))
      | _ \<Rightarrow> Inl Mem_fault)"

text \<open>The names that are not algorithms: whether the peer knows \<open>kexguess2\<close>, extensions, strict exchange.\<close>

definition read_markers :: "buffer \<Rightarrow> sshsession \<Rightarrow> (bool \<times> buffer \<times> sshsession) res" where
  "read_markers b s =
     bindr (buf_has_algo b KEXGUESS2_ALGO_NAME) (\<lambda>(kexguess2, b).
     bindr (if isserver s \<and> \<not> donefirstkex (kexstate s) then buf_has_algo b SSH_EXT_INFO_C else Inr (False, b)) (\<lambda>(ext, b).
     bindr (if \<not> donefirstkex (kexstate s) then buf_has_algo b (if isserver s then SSH_STRICT_KEX_C else SSH_STRICT_KEX_S)
            else Inr (False, b)) (\<lambda>(strict, b).
     Inr (kexguess2, b, (upd_kex (\<lambda>k. k\<lparr>strict_kex := strict \<or> strict_kex k\<rparr>) s)
       \<lparr>allow_ext_info := ext \<or> allow_ext_info s\<rparr>))))"

text \<open>The choices themselves, and whether the peer has sent a guess along.\<close>

definition negotiate :: "bool \<Rightarrow> sshsession \<Rightarrow> buffer \<Rightarrow> (key_context \<times> bool \<times> bool \<times> buffer) res" where
  "negotiate kexguess2 s b =
     (let srv = isserver s in
      bindr (pick_algo ''kex'' srv b (sshkex s) kexguess2) (\<lambda>(kex, good1, b).
      bindr (require (adata kex \<noteq> None) (Exit ''No matching algo kex'')) (\<lambda>_.
      bindr (pick_algo ''hostkey'' srv b (sigalgs s) kexguess2) (\<lambda>(sig, good2, b).
      bindr (hostkey_type (aval sig)) (\<lambda>hk.
      bindr (pick_algo ''enc c->s'' srv b (sshciphers s) False) (\<lambda>(c2s_cipher, _, b).
      bindr (pick_algo ''enc s->c'' srv b (sshciphers s) False) (\<lambda>(s2c_cipher, _, b).
      bindr (pick_mac ''mac c->s'' srv b c2s_cipher (sshhashes s)) (\<lambda>(c2s_hash, b).
      bindr (pick_mac ''mac s->c'' srv b s2c_cipher (sshhashes s)) (\<lambda>(s2c_hash, b).
      bindr (pick_algo ''comp c->s'' srv b (compress_algos_c2s s) False) (\<lambda>(c2s_comp, _, b).
      bindr (pick_algo ''comp s->c'' srv b (compress_algos_s2c s) False) (\<lambda>(s2c_comp, _, b).
      bindr (buf_eatstring b) (\<lambda>b.
      bindr (buf_eatstring b) (\<lambda>b.
      bindr (buf_getbool b) (\<lambda>(follows, b).
      bindr (direction c2s_cipher c2s_hash c2s_comp) (\<lambda>c2s.
      bindr (direction s2c_cipher s2c_hash s2c_comp) (\<lambda>s2c.
      bindr (buf_getint b) (\<lambda>(_, b).
      Inr (\<lparr>recv = (if srv then c2s else s2c), trans = (if srv then s2c else c2s),
             algo_kex = adata kex, algo_hostkey = hk, algo_signature = aval sig\<rparr>, good1 \<and> good2, follows, b))))))))))))))))))"

definition read_kex_algos :: "(sshsession \<Rightarrow> sshsession res) option \<Rightarrow> sshsession \<Rightarrow> sshsession res" where
  "read_kex_algos guess s =
     (case (payload s, newkeys s) of
        (Some b, Some nk) \<Rightarrow>
          bindr (buf_incrpos b 16) (\<lambda>b.
          bindr (read_markers b s) (\<lambda>(kexguess2, b, s).
          bindr (negotiate kexguess2 s b) (\<lambda>(nk, allgood, follows, b).
          Inr ((upd_kex (\<lambda>k. k\<lparr>them_firstfollows := follows \<or> them_firstfollows k,
                  our_first_follows_matches := guess \<noteq> None \<and> allgood \<or> our_first_follows_matches k\<rparr>) s)
            \<lparr>payload := Some b, ignorenext := follows \<and> \<not> allgood \<or> ignorenext s, newkeys := Some nk\<rparr>))))
      | _ \<Rightarrow> Inl Mem_fault)"

section \<open>The exchange hash\<close>

text \<open>\<open>strlen\<close> stops at the first zero byte.\<close>

definition c_string :: "string \<Rightarrow> string" where
  "c_string str = takeWhile ((\<noteq>) (CHR 0x00)) str"

definition whole_payload :: "sshsession \<Rightarrow> (byte list \<times> buffer) res" where
  "whole_payload s =
     (case payload s of
        None \<Rightarrow> Inl Mem_fault
      | Some b \<Rightarrow>
          bindr (buf_setpos b (payload_beginning s)) (\<lambda>b.
          bindr (buf_peek b (blen b - bpos b)) (\<lambda>bytes.
          Inr (bytes, b))))"

definition put_str :: "byte list \<Rightarrow> buffer \<Rightarrow> buffer res" where
  "put_str str b = buf_putstring b str (of_nat (length str))"

definition put_transcript :: "byte list \<Rightarrow> byte list \<Rightarrow> byte list \<Rightarrow> byte list \<Rightarrow> buffer \<Rightarrow> buffer res" where
  "put_transcript V_C V_S I_C I_S b =
     bindr (put_str V_C b) (\<lambda>b. bindr (put_str V_S b) (\<lambda>b. bindr (put_str I_C b) (\<lambda>b. put_str I_S b)))"

definition recv_msg_kexinit :: "(sshsession \<Rightarrow> sshsession res) option \<Rightarrow> sshsession \<Rightarrow> sshsession res" where
  "recv_msg_kexinit guess s =
     bindr (if \<not> sentkexinit (kexstate s) then send_msg_kexinit guess s else Inr s) (\<lambda>s.
     if recvkexinit (kexstate s) then Inl (Exit ''Unexpected KEXINIT'')
     else case (remoteident s, transkexinit s, payload s) of
       (Some ident, Some sent, Some pl) \<Rightarrow>
         let remote = c_string ident;
             len = of_nat (length LOCAL_IDENT) + of_nat (length remote) + blen sent + blen pl + KEXHASHBUF_MAX_INTS in
         bindr (buf_new len) (\<lambda>kb.
         bindr (read_kex_algos guess s) (\<lambda>s.
         bindr (whole_payload s) (\<lambda>(theirs, pl).
         let ours = buf_content sent in
         bindr (if isserver s then put_transcript remote LOCAL_IDENT theirs ours kb
                else put_transcript LOCAL_IDENT remote ours theirs kb) (\<lambda>kb.
         let s = (upd_kex (\<lambda>k. k\<lparr>recvkexinit := True\<rparr>) s)
               \<lparr>payload := Some pl, kexhashbuf := Some kb, transkexinit := None,
                requirenext := (if isserver s then SSH_MSG_KEXDH_INIT else SSH_MSG_KEXDH_REPLY)\<rparr> in
         if strict_kex (kexstate s) \<and> \<not> donefirstkex (kexstate s) \<and> recvseq s \<noteq> 1
         then Inl (Exit ''First packet wasn't kexinit'')
         else Inr s))))
     | _ \<Rightarrow> Inl Mem_fault)"

definition finish_kexhashbuf :: "sshsession \<Rightarrow> sshsession res" where
  "finish_kexhashbuf s =
     (case (newkeys s, kexhashbuf s) of
        (Some nk, Some kb) \<Rightarrow>
          (case algo_kex nk of
             None \<Rightarrow> Inl Mem_fault
           | Some kex \<Rightarrow>
               bindr (buf_setpos kb 0) (\<lambda>kb.
               bindr (buf_peek kb (blen kb)) (\<lambda>bytes.
               bindr (buf_new (of_nat (kex_hashsize kex))) (\<lambda>h.
               bindr (buf_getwriteptr h (of_nat (kex_hashsize kex))) (\<lambda>p.
               bindr (mem_write (bdata h) p (kex_hash kex bytes)) (\<lambda>d.
               bindr (buf_setlen (h\<lparr>bdata := d\<rparr>) (of_nat (kex_hashsize kex))) (\<lambda>h.
               bindr (case session_id s of Some sid \<Rightarrow> Inr sid | None \<Rightarrow> buf_newcopy h) (\<lambda>sid.
               Inr (s\<lparr>ses_hash := Some h, kexhashbuf := None, session_id := Some sid\<rparr>)))))))))
      | _ \<Rightarrow> Inl Mem_fault)"

section \<open>Writing one field after the other\<close>

text \<open>A function of a buffer that writes given bytes at the position, when there is room for them.\<close>

definition appends :: "(buffer \<Rightarrow> buffer res) \<Rightarrow> byte list \<Rightarrow> bool" where
  "appends f bs \<longleftrightarrow> (\<forall>b. buf_ok b \<longrightarrow> length bs \<le> buf_room b \<longrightarrow> f b = Inr (buf_wrote b bs))"

named_theorems appends_rules \<open>functions that write given bytes\<close>

lemma appends_then [appends_rules]:
  assumes "appends f xs" and "appends g ys"
  shows "appends (\<lambda>b. bindr (f b) g) (xs @ ys)"
  using assms unfolding appends_def by (simp add: buf_wrote_ok buf_room_wrote buf_wrote_wrote)

lemma appends_put_str [appends_rules]: "appends (put_str str) (enc_string str)"
proof (unfold appends_def, intro allI impI)
  fix b assume b: "buf_ok b" "length (enc_string str) \<le> buf_room b"
  then have "unat (of_nat (length str) :: u32) = length str" using buf_room_le [OF b(1)] by (intro unat_of_nat_u32) simp
  then show "put_str str b = Inr (buf_wrote b (enc_string str))"
    using b by (simp add: put_str_def buf_putstring_eq enc_string_def)
qed

lemma appends_mpint [appends_rules]: "mpint_ok mp \<Longrightarrow> appends (\<lambda>b. buf_putmpint b mp) (enc_mpint mp)"
  by (simp add: appends_def buf_putmpint_enc)

lemma appends_at_end:
  assumes "appends f bs" and "at_end b" and "length bs \<le> buf_room b"
  shows "\<exists>b'. f b = Inr b' \<and> at_end b' \<and> buf_content b' = buf_content b @ bs \<and> buf_room b' = buf_room b - length bs"
proof -
  have ok: "buf_ok b" using assms(2) by (simp add: at_end_def)
  then have "f b = Inr (buf_wrote b bs)" using assms(1,3) by (simp add: appends_def)
  then show ?thesis using at_end_wrote [OF assms(2,3)] buf_room_wrote [OF ok assms(3)] by simp
qed

lemma new_at_end: "unat n \<le> 1000000000 \<Longrightarrow> \<exists>b. buf_new n = Inr b \<and> at_end b \<and> buf_content b = [] \<and> buf_room b = unat n"
  by (auto simp: buf_new_Inr at_end_def buf_content_def buf_room_def intro!: buf_okI)

lemma hash_process_mp_enc:
  assumes "mpint_ok mp" and "length (enc_mpint mp) \<le> 532"
  shows "hash_process_mp hs mp = Inr (hs @ enc_mpint mp)"
proof -
  obtain b where b: "buf_new (512 + 20) = Inr b" "at_end b" "buf_content b = []" "buf_room b = 532"
    using new_at_end [of "512 + 20"] by auto
  then obtain b' where "buf_putmpint b mp = Inr b'" "buf_content b' = enc_mpint mp"
    using appends_at_end [OF appends_mpint [OF assms(1)] b(2)] assms(2) by auto
  then show ?thesis using b(1) by (simp add: hash_process_mp_def)
qed

section \<open>The keys of RFC 4253, section 7.2\<close>

text \<open>
  \<open>K1 = HASH(K || H || X || session_id)\<close>, \<open>K(n+1) = HASH(K || H || K1 || ... || Kn)\<close>, and the key is the
  start of \<open>K1 || K2 || ...\<close>. \<open>key_blocks n\<close> are the first \<open>n + 1\<close> blocks, \<open>KH\<close> is \<open>K || H\<close>.
\<close>

primrec key_blocks :: "(byte list \<Rightarrow> byte list) \<Rightarrow> byte list \<Rightarrow> char \<Rightarrow> byte list \<Rightarrow> nat \<Rightarrow> byte list" where
  "key_blocks h KH X sid 0 = h (KH @ X # sid)"
| "key_blocks h KH X sid (Suc n) = key_blocks h KH X sid n @ h (KH @ key_blocks h KH X sid n)"

definition derived_key :: "(byte list \<Rightarrow> byte list) \<Rightarrow> byte list \<Rightarrow> byte list \<Rightarrow> char \<Rightarrow> nat \<Rightarrow> byte list" where
  "derived_key h KH sid X n = take n (key_blocks h KH X sid n)"

text \<open>What the code relies on of a hash: digests of the size it says, at most the size of the array.\<close>

definition kex_ok :: "dropbear_kex \<Rightarrow> bool" where
  "kex_ok kex \<longleftrightarrow> (\<forall>bs. length (kex_hash kex bs) = kex_hashsize kex) \<and> 0 < kex_hashsize kex \<and> kex_hashsize kex \<le> MAX_HASH_SIZE"

lemma kex_okD:
  assumes "kex_ok kex"
  shows "length (kex_hash kex bs) = kex_hashsize kex" and "0 < kex_hashsize kex" and "kex_hashsize kex \<le> 64"
    and "digest kex bs = Inr (kex_hash kex bs)"
  using assms by (auto simp: kex_ok_def digest_def MAX_HASH_SIZE_def)

lemma length_key_blocks:
  "kex_ok kex \<Longrightarrow> length (key_blocks (kex_hash kex) KH X sid n) = kex_hashsize kex * Suc n"
  by (induction n) (simp_all add: kex_okD)

lemma key_blocks_prefix: "take (length (key_blocks h KH X sid n)) (key_blocks h KH X sid (n + m)) = key_blocks h KH X sid n"
  by (induction m) (simp_all, metis append.right_neutral append_take_drop_id length_append take_all_iff take_append nle_le)

lemma key_blocks_take:
  assumes "k \<le> length (key_blocks h KH X sid n)" and "n \<le> m"
  shows "take k (key_blocks h KH X sid m) = take k (key_blocks h KH X sid n)"
  using assms key_blocks_prefix [of h KH X sid n "m - n"] by (metis le_add_diff_inverse min.absorb1 take_take)

lemma hashkeys_loop_blocks:
  assumes "kex_ok kex"
  shows "hashkeys_loop kex KH outlen (kex_hashsize kex * Suc n) (take outlen (key_blocks (kex_hash kex) KH X sid n))
    = Inr (derived_key (kex_hash kex) KH sid X outlen)"
proof (induction "outlen - kex_hashsize kex * Suc n" arbitrary: n rule: less_induct)
  case less
  let ?k = "kex_hashsize kex" and ?bl = "key_blocks (kex_hash kex) KH X sid"
  note len = length_key_blocks [OF assms, of KH X sid]
  show ?case
  proof (cases "?k * Suc n < outlen")
    case False
    have "take outlen (?bl n) = take outlen (?bl outlen)"
    proof (cases "n \<le> outlen")
      case True
      then show ?thesis using key_blocks_take [of outlen "kex_hash kex" KH X sid n outlen] False len by simp
    next
      case n: False
      have "outlen \<le> ?k * Suc outlen" using kex_okD(2) [OF assms] by (cases ?k) auto
      then show ?thesis using key_blocks_take [of outlen "kex_hash kex" KH X sid outlen n] n len by simp
    qed
    then show ?thesis using False by (simp add: hashkeys_loop.simps derived_key_def)
  next
    case True
    have out: "take outlen (?bl n) = ?bl n" using True len [of n] by simp
    have "?bl n @ take (min (outlen - ?k * Suc n) ?k) (kex_hash kex (KH @ ?bl n)) = take outlen (?bl (Suc n))"
      using True len [of n] kex_okD(1) [OF assms] by (simp add: min_def)
    then have "hashkeys_loop kex KH outlen (?k * Suc n) (take outlen (?bl n))
        = hashkeys_loop kex KH outlen (?k * Suc (Suc n)) (take outlen (?bl (Suc n)))"
      using True out len [of n] kex_okD(2,4) [OF assms]
      by (subst hashkeys_loop.simps) (simp add: Let_def algebra_simps)
    moreover have "outlen - ?k * Suc (Suc n) < outlen - ?k * Suc n" using True kex_okD(2) [OF assms] by simp
    ultimately show ?thesis using less [of "Suc n"] by simp
  qed
qed

lemma hashkeys_derived:
  assumes "kex_ok kex"
  shows "hashkeys outlen kex KH sid X = Inr (derived_key (kex_hash kex) KH sid X outlen)"
proof -
  have "take (min (kex_hashsize kex) outlen) (kex_hash kex (KH @ X # sid)) = take outlen (kex_hash kex (KH @ X # sid))"
    using kex_okD(1) [OF assms, of "KH @ X # sid"] by (simp add: min_def)
  then show ?thesis using hashkeys_loop_blocks [OF assms, of KH outlen 0 X sid] kex_okD(4) [OF assms]
    by (simp add: hashkeys_def)
qed

lemma length_derived_key:
  assumes "kex_ok kex"
  shows "length (derived_key (kex_hash kex) KH sid X n) = n"
proof -
  have "n \<le> kex_hashsize kex * Suc n" using kex_okD(2) [OF assms] by (cases "kex_hashsize kex") auto
  then show ?thesis by (simp add: derived_key_def length_key_blocks [OF assms])
qed

text \<open>
  One direction of the connection, keyed: the letters A, C, E are for what the client sends and
  the server receives, B, D, F for the other way.
\<close>

definition starts :: "libtomcrypt \<Rightarrow> (char \<Rightarrow> nat \<Rightarrow> byte list) \<Rightarrow> bool \<Rightarrow> key_context_directional \<Rightarrow> cipher_state \<Rightarrow> bool" where
  "starts lib key c2s k st \<longleftrightarrow>
     start_cipher lib k (key (if c2s then CHR ''A'' else CHR ''B'') MAX_IV_LEN)
       (key (if c2s then CHR ''C'' else CHR ''D'') MAX_KEY_LEN) = Inr (k\<lparr>cipher_state := st\<rparr>)"

definition keyed :: "libtomcrypt \<Rightarrow> (char \<Rightarrow> nat \<Rightarrow> byte list) \<Rightarrow> bool \<Rightarrow> cipher_state \<Rightarrow> key_context_directional \<Rightarrow> key_context_directional" where
  "keyed lib key c2s st k =
     (case hash_desc (algo_mac k) of
        None \<Rightarrow> k\<lparr>cipher_state := st, valid := True\<rparr>
      | Some n \<Rightarrow> k\<lparr>cipher_state := st, valid := True, hash_index := find_hash lib n,
          mackey := blit (mackey k) 0 (key (if c2s then CHR ''E'' else CHR ''F'') (hkeysize (algo_mac k)))\<rparr>)"

text \<open>What the code relies on of the chosen algorithms: the cipher starts, and the key of the MAC fits.\<close>

definition direction_ok :: "libtomcrypt \<Rightarrow> key_context_directional \<Rightarrow> bool" where
  "direction_ok lib k \<longleftrightarrow>
     hkeysize (algo_mac k) \<le> length (mackey k)
     \<and> (\<forall>n. cipherdesc (algo_crypt k) = Some (Some n) \<longrightarrow> 0 \<le> find_cipher lib n)
     \<and> (\<forall>i IV key. length IV = MAX_IV_LEN \<longrightarrow> length key = MAX_KEY_LEN \<longrightarrow>
          cm_start (crypt_mode k) i IV key (keysize (algo_crypt k)) \<noteq> None)"

lemma start_cipher_ok:
  assumes "direction_ok lib k" and "length IV = MAX_IV_LEN" and "length key = MAX_KEY_LEN"
  obtains st where "start_cipher lib k IV key = Inr (k\<lparr>cipher_state := st\<rparr>)"
proof -
  have no: "\<not> (name \<noteq> None \<and> (case name of None \<Rightarrow> -1 | Some n \<Rightarrow> find_cipher lib n) < 0)"
    if "cipherdesc (algo_crypt k) = Some name" for name
    using assms(1) that by (cases name) (auto simp: direction_ok_def)
  show thesis
  proof (cases "cipherdesc (algo_crypt k)")
    case None
    then show ?thesis using that [of "cipher_state k"] by (simp add: start_cipher_def)
  next
    case (Some name)
    define i where "i = (case name of None \<Rightarrow> -1 | Some n \<Rightarrow> find_cipher lib n)"
    obtain st where "cm_start (crypt_mode k) i IV key (keysize (algo_crypt k)) = Some st"
      using assms unfolding direction_ok_def by blast
    then show ?thesis using that [of st] Some no [OF Some] unfolding i_def
      by (simp add: start_cipher_def Let_def)
  qed
qed

lemma derive_mac_ok:
  assumes "kex_ok kex" and "hkeysize (algo_mac k) \<le> length (mackey k)"
  shows "derive_mac lib kex KH sid letter k = Inr (case hash_desc (algo_mac k) of None \<Rightarrow> k | Some n \<Rightarrow>
    k\<lparr>mackey := blit (mackey k) 0 (derived_key (kex_hash kex) KH sid letter (hkeysize (algo_mac k))), hash_index := find_hash lib n\<rparr>)"
  using assms by (auto simp: derive_mac_def hashkeys_derived length_derived_key mem_write_def split: option.splits)

lemma gen_new_keys_ok:
  assumes "newkeys s = Some nk" and "algo_kex nk = Some kex" and "kex_ok kex"
    and "key_material s = Inr KH" and "session_id s = Some sid"
    and "direction_ok (libtom s) (recv nk)" and "direction_ok (libtom s) (trans nk)"
    and key: "key = derived_key (kex_hash kex) KH (buf_content sid)"
  obtains r t where
    "starts (libtom s) key (isserver s) (recv nk) r" "starts (libtom s) key (\<not> isserver s) (trans nk) t"
    "gen_new_keys s = Inr (s\<lparr>dh_K := None, dh_K_bytes := None, ses_hash := None,
       newkeys := Some (nk\<lparr>recv := keyed (libtom s) key (isserver s) r (recv nk),
         trans := keyed (libtom s) key (\<not> isserver s) t (trans nk)\<rparr>)\<rparr>)"
proof -
  note len = length_derived_key [OF assms(3)]
  obtain r where r: "starts (libtom s) key (isserver s) (recv nk) r"
    unfolding starts_def key by (rule start_cipher_ok [OF assms(6) len len])
  obtain t where t: "starts (libtom s) key (\<not> isserver s) (trans nk) t"
    unfolding starts_def key by (rule start_cipher_ok [OF assms(7) len len])
  have fit: "hkeysize (algo_mac (recv nk)) \<le> length (mackey (recv nk))" "hkeysize (algo_mac (trans nk)) \<le> length (mackey (trans nk))"
    using assms(6,7) by (simp_all add: direction_ok_def)
  show thesis
    using assms(1-5) r t fit
    by (intro that [OF r t], cases "isserver s"; cases "hash_desc (algo_mac (recv nk))"; cases "hash_desc (algo_mac (trans nk))")
      (simp_all add: gen_new_keys_def Let_def hashkeys_derived derive_mac_ok starts_def keyed_def key)
qed

lemma starts_unique: "starts lib key c2s k st \<Longrightarrow> starts lib key c2s k st' \<Longrightarrow> keyed lib key c2s st k = keyed lib key c2s st' k"
proof -
  assume "starts lib key c2s k st" "starts lib key c2s k st'"
  then have "k\<lparr>cipher_state := st\<rparr> = k\<lparr>cipher_state := st'\<rparr>" by (simp add: starts_def)
  then have "cipher_state (k\<lparr>cipher_state := st\<rparr>) = cipher_state (k\<lparr>cipher_state := st'\<rparr>)" by (rule arg_cong)
  then show ?thesis by simp
qed

section \<open>The exchange hash is finished\<close>

lemma finish_kexhashbuf_ok:
  assumes "newkeys s = Some nk" and "algo_kex nk = Some kex" and "kex_ok kex" and "kexhashbuf s = Some kb" and "buf_ok kb"
  obtains h sid where
    "finish_kexhashbuf s = Inr (s\<lparr>ses_hash := Some h, kexhashbuf := None, session_id := Some sid\<rparr>)"
    "buf_content h = kex_hash kex (buf_content kb)"
    "buf_content sid = (case session_id s of None \<Rightarrow> buf_content h | Some x \<Rightarrow> buf_content x)"
    "session_id s \<noteq> None \<Longrightarrow> session_id s = Some sid"
proof -
  let ?n = "kex_hashsize kex" and ?H = "kex_hash kex (buf_content kb)"
  have u: "unat (of_nat ?n :: u32) = ?n" using kex_okD(3) [OF assms(3)] by (intro unat_of_nat_u32) simp
  have kb: "buf_is kb (buf_content kb) (unat (bpos kb)) (unat (bsize kb))" using assms(5) by (simp add: buf_is_def)
  then obtain kb' where kb': "buf_setpos kb 0 = Inr kb'" "buf_is kb' (buf_content kb) 0 (unat (bsize kb))"
    using buf_is_setpos [OF kb, of 0] by auto
  then have peek: "buf_peek kb' (blen kb') = Inr (buf_content kb)"
    using buf_is_peek [OF kb'(2), of "blen kb'"] buf_isD(5) [OF kb'(2)] by simp
  obtain h0 where h0: "buf_new (of_nat ?n) = Inr h0" "buf_is h0 [] 0 ?n"
    using buf_is_new [of "of_nat ?n"] u kex_okD(3) [OF assms(3)] by auto
  have len: "length ?H = ?n" using kex_okD(1) [OF assms(3)] .
  have ptr: "buf_getwriteptr h0 (of_nat ?n) = Inr 0"
    using buf_getwriteptr_eq [OF buf_isD(1) [OF h0(2)]] buf_is_room [OF h0(2)] buf_isD(3) [OF h0(2)] u by simp
  have dl: "length (bdata h0) = ?n" using buf_ok_nat [OF buf_isD(1) [OF h0(2)]] buf_isD(4) [OF h0(2)] by simp
  then have mem: "mem_write (bdata h0) 0 ?H = Inr ?H" using len by (simp add: mem_write_def blit_def)
  have p0: "bpos h0 = 0" using buf_isD(3) [OF h0(2)] by (simp add: unat_eq_zero)
  define h where "h = h0\<lparr>bdata := ?H, blen := of_nat ?n, bpos := 0\<rparr>"
  have h: "buf_setlen (h0\<lparr>bdata := ?H\<rparr>) (of_nat ?n) = Inr h" "buf_is h ?H 0 ?n"
    using h0(2) buf_isD [OF h0(2)] buf_ok_nat [OF buf_isD(1) [OF h0(2)]] dl len u p0
    by (auto simp: buf_setlen_def h_def buf_is_def buf_content_def word_less_nat_alt intro!: buf_okI)
  obtain cp where cp: "buf_newcopy h = Inr cp" "buf_content cp = ?H"
    using buf_is_newcopy [OF h(2)] buf_isD(2) by blast
  have "finish_kexhashbuf s = Inr (s\<lparr>ses_hash := Some h, kexhashbuf := None,
      session_id := Some (case session_id s of None \<Rightarrow> cp | Some x \<Rightarrow> x)\<rparr>)"
    using assms(1,2,4) kb'(1) peek h0(1) ptr mem h(1) cp(1) by (simp add: finish_kexhashbuf_def split: option.split)
  then show thesis by (rule that) (use cp(2) buf_isD(2) [OF h(2)] in \<open>auto split: option.split\<close>)
qed

section \<open>Both sides\<close>

text \<open>
  C11. When a client and a server have agreed on the algorithms, the secret, the exchange hash and the
  session id, \<open>gen_new_keys\<close> succeeds on both and what one side uses to send is what the other uses
  to receive: the same cipher state and the same MAC key, started with the keys RFC 4253 section 7.2
  derives for that direction.
\<close>

theorem both_sides_derive_same_keys:
  assumes "\<not> isserver c" and "isserver s" and "libtom c = libtom s"
    and "newkeys c = Some nc" and "newkeys s = Some ns" and "algo_kex nc = Some kex" and "algo_kex ns = Some kex" and "kex_ok kex"
    and "recv ns = trans nc" and "trans ns = recv nc"
    and "key_material c = Inr KH" and "key_material s = Inr KH"
    and "session_id c = Some idc" and "session_id s = Some ids" and "buf_content idc = buf_content ids"
    and "direction_ok (libtom s) (recv ns)" and "direction_ok (libtom s) (trans ns)"
  shows "\<exists>c' s' nc' ns' st1 st2. gen_new_keys c = Inr c' \<and> gen_new_keys s = Inr s' \<and> newkeys c' = Some nc' \<and> newkeys s' = Some ns'
    \<and> recv ns' = trans nc' \<and> trans ns' = recv nc'
    \<and> (let key = derived_key (kex_hash kex) KH (buf_content ids) in
        starts (libtom s) key True (recv ns) st1 \<and> recv ns' = keyed (libtom s) key True st1 (recv ns) \<and>
        starts (libtom s) key False (trans ns) st2 \<and> trans ns' = keyed (libtom s) key False st2 (trans ns))"
proof -
  let ?key = "derived_key (kex_hash kex) KH (buf_content ids)" and ?lib = "libtom s"
  obtain r t where s: "starts ?lib ?key True (recv ns) r" "starts ?lib ?key False (trans ns) t"
    "gen_new_keys s = Inr (s\<lparr>dh_K := None, dh_K_bytes := None, ses_hash := None,
       newkeys := Some (ns\<lparr>recv := keyed ?lib ?key True r (recv ns), trans := keyed ?lib ?key False t (trans ns)\<rparr>)\<rparr>)"
    using gen_new_keys_ok [OF assms(5,7,8,12,14,16,17) refl] assms(2) by auto
  have dc: "direction_ok (libtom c) (recv nc)" "direction_ok (libtom c) (trans nc)"
    using assms(3,9,10,16,17) by simp_all
  obtain r' t' where c: "starts ?lib ?key False (trans ns) r'" "starts ?lib ?key True (recv ns) t'"
    "gen_new_keys c = Inr (c\<lparr>dh_K := None, dh_K_bytes := None, ses_hash := None,
       newkeys := Some (nc\<lparr>recv := keyed ?lib ?key False r' (trans ns), trans := keyed ?lib ?key True t' (recv ns)\<rparr>)\<rparr>)"
    using gen_new_keys_ok [OF assms(4,6,8,11,13) dc refl] assms(1,3,9,10,15) by auto
  note same = starts_unique [OF c(2) s(1)] starts_unique [OF c(1) s(2)]
  show ?thesis using s(1,2) unfolding s(3) c(3) same Let_def by auto
qed

text \<open>Values for evaluations: a hash that counts, a cipher whose state is its IV and key, a MAC.\<close>

definition toy_kex :: dropbear_kex where
  "toy_kex = \<lparr>kex_mode = DROPBEAR_KEX_NORMAL_DH, kex_hash = (\<lambda>bs. map byte_of [length bs, length bs div 256]),
     kex_hashsize = 2, dh_p_bytes = [byte_of 23], kem_details = None\<rparr>"

definition toy_direction :: "nat \<Rightarrow> key_context_directional" where
  "toy_direction n = no_algos\<lparr>algo_crypt := \<lparr>cipherdesc = Some None, keysize = n, blocksize = 16\<rparr>,
     crypt_mode := dropbear_mode_none\<lparr>cm_start := (\<lambda>i IV key l. Some (IV @ take l key))\<rparr>,
     algo_mac := \<lparr>hash_desc = Some ''toy'', hkeysize = n, hashsize = n\<rparr>\<rparr>"

definition toy_side :: "bool \<Rightarrow> sshsession" where
  "toy_side srv = plain_session\<lparr>isserver := srv, dh_K := Some 5,
     ses_hash := Some \<lparr>bdata = ''hash'', blen = 4, bpos = 0, bsize = 4\<rparr>,
     session_id := Some \<lparr>bdata = ''first'', blen = 5, bpos = 0, bsize = 5\<rparr>,
     newkeys := Some \<lparr>recv = toy_direction (if srv then 16 else 32), trans = toy_direction (if srv then 32 else 16),
       algo_kex = Some toy_kex, algo_hostkey = 0, algo_signature = 0\<rparr>\<rparr>"

lemma toy_kex_ok [simp]: "kex_ok toy_kex"
  by (simp add: kex_ok_def toy_kex_def MAX_HASH_SIZE_def)

lemma toy_direction_ok: "n \<le> 64 \<Longrightarrow> direction_ok lib (toy_direction n)"
  by (simp add: direction_ok_def toy_direction_def no_algos_def)

definition toy_KH :: "byte list" where
  "toy_KH = [byte_of 0, byte_of 0, byte_of 0, byte_of 1, byte_of 5] @ ''hash''"

lemma toy_side_simps [simp]:
  "isserver (toy_side srv) = srv" "dh_K (toy_side srv) = Some 5" "dh_K_bytes (toy_side srv) = None"
  "ses_hash (toy_side srv) = Some \<lparr>bdata = ''hash'', blen = 4, bpos = 0, bsize = 4\<rparr>"
  "session_id (toy_side srv) = Some \<lparr>bdata = ''first'', blen = 5, bpos = 0, bsize = 5\<rparr>"
  "newkeys (toy_side srv) = Some \<lparr>recv = toy_direction (if srv then 16 else 32),
     trans = toy_direction (if srv then 32 else 16), algo_kex = Some toy_kex, algo_hostkey = 0, algo_signature = 0\<rparr>"
  "libtom (toy_side srv) = bare_libtom"
  by (simp_all add: toy_side_def plain_session_def zero_session_def)

lemma enc_mpint_5: "enc_mpint 5 = map byte_of [0, 0, 0, 1, 5]" and mpint_ok_5: "mpint_ok 5"
  by code_simp+

lemma toy_material: "key_material (toy_side srv) = Inr toy_KH"
  using hash_process_mp_enc [OF mpint_ok_5, of "[]"]
  by (simp add: key_material_def Let_def enc_mpint_5 toy_KH_def buf_content_def)

theorem both_sides_derive_same_keys_witness:
  "\<exists>c' s' nc' ns' st1 st2. gen_new_keys (toy_side False) = Inr c' \<and> gen_new_keys (toy_side True) = Inr s'
    \<and> newkeys c' = Some nc' \<and> newkeys s' = Some ns' \<and> recv ns' = trans nc' \<and> trans ns' = recv nc'
    \<and> (let key = derived_key (kex_hash toy_kex) toy_KH ''first'' in
        starts bare_libtom key True (toy_direction 16) st1 \<and> recv ns' = keyed bare_libtom key True st1 (toy_direction 16)
        \<and> starts bare_libtom key False (toy_direction 32) st2 \<and> trans ns' = keyed bare_libtom key False st2 (toy_direction 32))"
  using both_sides_derive_same_keys [where c = "toy_side False" and s = "toy_side True" and kex = toy_kex and KH = toy_KH
      and nc = "the (newkeys (toy_side False))" and ns = "the (newkeys (toy_side True))"
      and idc = "the (session_id (toy_side False))" and ids = "the (session_id (toy_side True))"]
    toy_material toy_direction_ok by (simp add: buf_content_def)

section \<open>The message with our algorithms\<close>

text \<open>The cookie comes from the random source; the lists are those of the tables in use.\<close>

definition kexinit_lists :: "sshsession \<Rightarrow> byte list" where
  "kexinit_lists s =
     enc_string (join_names (usable_names False (sshkex s))) @ enc_string (join_names (usable_names False (sigalgs s)))
     @ enc_string (join_names (usable_names False (sshciphers s))) @ enc_string (join_names (usable_names False (sshciphers s)))
     @ enc_string (join_names (usable_names False (sshhashes s))) @ enc_string (join_names (usable_names False (sshhashes s)))
     @ enc_string (join_names (usable_names False (compress_algos_c2s s)))
     @ enc_string (join_names (usable_names False (compress_algos_s2c s)))"

definition kexinit_message :: "bool \<Rightarrow> sshsession \<Rightarrow> byte list" where
  "kexinit_message follows s = byte_of SSH_MSG_KEXINIT # fst (genrandom 16 (world s)) @ kexinit_lists s
     @ enc_string [] @ enc_string [] @ [byte_of (if follows then 1 else 0)] @ STORE32H 0"

text \<open>A session that differs from another only in the message begun in its buffer.\<close>

definition filled :: "sshsession \<Rightarrow> byte list \<Rightarrow> sshsession \<Rightarrow> bool" where
  "filled s c s' \<longleftrightarrow> (\<exists>b. s' = s\<lparr>writepayload := b\<rparr>) \<and> payload_at s' c"

lemma filled_put:
  assumes "filled s c s1" and "length c + length x \<le> 16384"
    and "\<And>s c. payload_at s c \<Longrightarrow> length c + length x \<le> 16384 \<Longrightarrow>
      \<exists>b. f s = Inr (s\<lparr>writepayload := b\<rparr>) \<and> payload_at (s\<lparr>writepayload := b\<rparr>) (c @ x)"
  shows "\<exists>s2. f s1 = Inr s2 \<and> filled s (c @ x) s2"
  using assms(1,2) assms(3) [of s1 c] by (auto simp: filled_def)

lemma put_algolist_at:
  assumes "payload_at s c" and "length c + length (enc_string (join_names (usable_names False as))) \<le> 16384"
  shows "\<exists>b. put_algolist as s = Inr (s\<lparr>writepayload := b\<rparr>)
    \<and> payload_at (s\<lparr>writepayload := b\<rparr>) (c @ enc_string (join_names (usable_names False as)))"
proof -
  let ?x = "enc_string (join_names (usable_names False as))"
  have b: "buf_is (writepayload s) c (length c) 16384" using assms(1) by (simp add: payload_at_def)
  have "buf_put_algolist (writepayload s) as = Inr (buf_wrote (writepayload s) ?x)"
    using buf_put_algolist_eq [OF buf_isD(1) [OF b], of as] buf_is_room [OF b] assms(2) by simp
  then show ?thesis using buf_is_wrote [OF b, of ?x] assms(2)
    by (auto simp: put_algolist_def on_write_def payload_at_def blit_at_end)
qed

lemma put_random_at:
  assumes "payload_at s c" and "length c + n \<le> 16384" and "genrandom n (world s) = (rnd, w)"
  shows "\<exists>b. put_random n s = Inr (s\<lparr>writepayload := b, world := w\<rparr>) \<and> payload_at (s\<lparr>writepayload := b, world := w\<rparr>) (c @ rnd)"
proof -
  have b: "buf_is (writepayload s) c (length c) 16384" using assms(1) by (simp add: payload_at_def)
  have l: "length rnd = n" using assms(3) by (auto simp: genrandom_def)
  have u: "unat (of_nat n :: u32) = n" using assms(2) by (intro unat_of_nat_u32) simp
  note ok = buf_isD(1) [OF b]
  have room: "n \<le> buf_room (writepayload s)" using buf_is_room [OF b] assms(2) by simp
  show ?thesis
    using buf_getwriteptr_eq [OF ok, of "of_nat n"] mem_write_room [OF ok, of rnd] buf_incrwritepos_blit [OF ok, of rnd] room u l assms(3)
      buf_is_wrote [OF b, of rnd] assms(2)
    by (auto simp: put_random_def payload_at_def blit_at_end)
qed

lemma filled_algolist:
  "filled s c s1 \<Longrightarrow> length c + length (enc_string (join_names (usable_names False as))) \<le> 16384 \<Longrightarrow>
    \<exists>s2. put_algolist as s1 = Inr s2 \<and> filled s (c @ enc_string (join_names (usable_names False as))) s2"
  by (rule filled_put [OF _ _ put_algolist_at])

lemma filled_string:
  "filled s c s1 \<Longrightarrow> length c + length (enc_string str) \<le> 16384 \<Longrightarrow> \<exists>s2. put_string str s1 = Inr s2 \<and> filled s (c @ enc_string str) s2"
  by (rule filled_put) (auto simp: enc_string_def intro!: put_string_at)

lemma filled_byte:
  "filled s c s1 \<Longrightarrow> length c + 1 \<le> 16384 \<Longrightarrow> \<exists>s2. put_byte n s1 = Inr s2 \<and> filled s (c @ [byte_of n]) s2"
  by (rule filled_put) (auto intro!: put_byte_at)

lemma filled_int:
  "filled s c s1 \<Longrightarrow> length c + 4 \<le> 16384 \<Longrightarrow> \<exists>s2. put_int v s1 = Inr s2 \<and> filled s (c @ STORE32H v) s2"
  by (rule filled_put) (auto intro!: put_int_at)

lemma filled_simps:
  assumes "filled s c s1"
  shows "sshkex s1 = sshkex s" "sigalgs s1 = sigalgs s" "sshciphers s1 = sshciphers s" "sshhashes s1 = sshhashes s"
    "compress_algos_c2s s1 = compress_algos_c2s s" "compress_algos_s2c s1 = compress_algos_s2c s"
  using assms by (auto simp: filled_def)

lemma filled_random:
  assumes "payload_at s c" and "length c + n \<le> 16384"
  shows "\<exists>s2. put_random n s = Inr s2 \<and> filled (s\<lparr>world := snd (genrandom n (world s))\<rparr>) (c @ fst (genrandom n (world s))) s2"
proof -
  let ?w = "snd (genrandom n (world s))"
  obtain b where b: "put_random n s = Inr (s\<lparr>writepayload := b, world := ?w\<rparr>)"
    "payload_at (s\<lparr>writepayload := b, world := ?w\<rparr>) (c @ fst (genrandom n (world s)))"
    using put_random_at [OF assms, of "fst (genrandom n (world s))" ?w] by auto
  moreover have "s\<lparr>writepayload := b, world := ?w\<rparr> = s\<lparr>world := ?w\<rparr>\<lparr>writepayload := b\<rparr>" by simp
  ultimately show ?thesis unfolding filled_def by metis
qed

lemma filled_then:
  assumes "\<exists>s2. m = Inr s2 \<and> filled s c s2" and "\<And>s2. filled s c s2 \<Longrightarrow> \<exists>s3. g s2 = Inr s3 \<and> filled s d s3"
  shows "\<exists>s3. bindr m g = Inr s3 \<and> filled s d s3"
  using assms by force

lemma put_kexinit_ok:
  assumes "payload_at s []" and "length (kexinit_message follows s) \<le> 16384"
  obtains s' where "put_kexinit follows s = Inr s'" "filled (s\<lparr>world := snd (genrandom 16 (world s))\<rparr>) (kexinit_message follows s) s'"
proof -
  let ?t = "s\<lparr>world := snd (genrandom 16 (world s))\<rparr>" and ?rnd = "fst (genrandom 16 (world s))"
    and ?n = "\<lambda>as. enc_string (join_names (usable_names False as))"
  have len: "length ?rnd = 16" by (simp add: genrandom_def)
  note fits = assms(2) [unfolded kexinit_message_def kexinit_lists_def]
  obtain b where b: "put_byte SSH_MSG_KEXINIT s = Inr (s\<lparr>writepayload := b\<rparr>)" "payload_at (s\<lparr>writepayload := b\<rparr>) [byte_of 20]"
    using put_byte_at [OF assms(1), of 20] by auto
  let ?s1 = "s\<lparr>writepayload := b\<rparr>"
  have w: "\<exists>s1. put_random 16 ?s1 = Inr s1 \<and> filled ?t (byte_of 20 # ?rnd) s1"
  proof -
    obtain s1 where "put_random 16 ?s1 = Inr s1" "filled (?s1\<lparr>world := snd (genrandom 16 (world ?s1))\<rparr>) ([byte_of 20] @ fst (genrandom 16 (world ?s1))) s1"
      using filled_random [OF b(2), of 16] by auto
    then show ?thesis by (auto simp: filled_def)
  qed
  have "\<exists>s'. put_kexinit follows s = Inr s' \<and> filled ?t ((((((((((((((byte_of 20 # ?rnd) @ ?n (sshkex ?t))
     @ ?n (sigalgs ?t)) @ ?n (sshciphers ?t)) @ ?n (sshciphers ?t)) @ ?n (sshhashes ?t)) @ ?n (sshhashes ?t))
     @ ?n (compress_algos_c2s ?t)) @ ?n (compress_algos_s2c ?t)) @ enc_string []) @ enc_string [])
     @ [byte_of (if follows then 1 else 0)]) @ STORE32H 0)) s'"
    unfolding put_kexinit_def b(1) bindr_Inr
    apply (rule filled_then [OF w])
    apply (rule filled_then, simp only: filled_simps, erule filled_algolist, use fits in \<open>simp add: len\<close>)+
    apply (rule filled_then, erule filled_string, use fits in \<open>simp add: len\<close>)+
    apply (rule filled_then, erule filled_byte, use fits in \<open>simp add: len\<close>)
    apply (erule filled_int, use fits in \<open>simp add: len\<close>)
    done
  then show thesis using that by (auto simp: kexinit_message_def kexinit_lists_def)
qed

lemma send_msg_kexinit_ok:
  assumes "ready_to_send s" and "length (kexinit_message False s) \<le> 16384"
  obtains copy s1 s' where "buf_content copy = kexinit_message False s"
    "sends (kexinit_message False s) (s\<lparr>world := snd (genrandom 16 (world s)), transkexinit := Some copy\<rparr>) s1"
    "s' = (upd_kex (\<lambda>k. k\<lparr>sentkexinit := True\<rparr>) s1)\<lparr>dataallowed := False, newkeys := Some zero_keys\<rparr>"
    "send_msg_kexinit None s = Inr s'"
proof -
  let ?m = "kexinit_message False s" and ?t = "s\<lparr>world := snd (genrandom 16 (world s))\<rparr>"
  have "payload_at s []" using assms(1) by (simp add: ready_to_send_def payload_at_empty)
  then obtain s0 where s0: "put_kexinit False s = Inr s0" "filled ?t ?m s0" using put_kexinit_ok [OF _ assms(2)] by blast
  then obtain b where b: "s0 = ?t\<lparr>writepayload := b\<rparr>" "payload_at s0 ?m" by (auto simp: filled_def)
  have "buf_is (writepayload s0) ?m (length ?m) 16384" using b(2) by (simp add: payload_at_def)
  then obtain copy where copy: "buf_newcopy (writepayload s0) = Inr copy" "buf_content copy = ?m"
    using buf_is_newcopy [of "writepayload s0" ?m] buf_isD(2) by blast
  let ?u = "s0\<lparr>transkexinit := Some copy\<rparr>" and ?v = "s\<lparr>world := snd (genrandom 16 (world s)), transkexinit := Some copy\<rparr>"
  have u: "?u = ?v\<lparr>writepayload := b\<rparr>" unfolding b(1) by simp
  have "trans_ok ?u" "reply_queue_len ?u \<le> MAX_DEFER_REPLY_QUEUE" "payload_ready ?u ?m"
    using assms(1) payload_at_ready [OF b(2)] unfolding b(1) by (simp_all add: ready_to_send_def trans_ok_def payload_ready_def)
  then obtain s1 where s1: "encrypt_packet ?u = Inr s1" "sends ?m ?u s1"
    using encrypt_packet_sends [of ?u ?m] by (auto simp: kexinit_message_def)
  then have "sends ?m ?v s1" unfolding u sends_payload by simp
  then show thesis using s0(1) copy s1(1) by (intro that) (simp_all add: send_msg_kexinit_def Let_def)
qed

end
