(* ===== verification/Svr_Kex.thy ===== *)
theory Svr_Kex
  imports Kex
begin

text \<open>
  The server's side of the key exchange, \<open>dropbear/src/svr-kex.c\<close>, and the four ways to agree on a
  secret, \<open>kex-dh.c\<close>, \<open>kex-x25519.c\<close>, \<open>kex-ecdh.c\<close> and \<open>kex-pqhybrid.c\<close>, which serve both sides.

  Bignums are integers and \<open>mp_exptmod\<close> is exponentiation modulo. The multiplication on Curve25519, key
  generation and multiplication on the NIST curves, and the host key (its public part as it is
  written, its signatures, and reading or generating it on demand) are the argument \<open>ops\<close>.
\<close>

section \<open>What the methods rest on\<close>

record dropbear_ecc_curve =
  ec_size :: nat
  ec_prime :: int
  ec_B :: int

text \<open>A key on a curve: the point and, for one's own key, the private number.\<close>

record ecc_key =
  ec_x :: int
  ec_y :: int
  ec_k :: "int option"

record kex_ops =
  scalarmult :: "byte list \<Rightarrow> byte list \<Rightarrow> byte list"
  ecc_curve :: "dropbear_kex \<Rightarrow> dropbear_ecc_curve"
  ecc_make_key :: "dropbear_ecc_curve \<Rightarrow> (nat \<Rightarrow> byte) \<Rightarrow> (ecc_key \<times> (nat \<Rightarrow> byte)) option"
  ecc_ptmul :: "dropbear_ecc_curve \<Rightarrow> int \<Rightarrow> int \<times> int \<Rightarrow> int option"
  host_pub :: "int \<Rightarrow> byte list res"
  host_sign :: "int \<Rightarrow> byte list \<Rightarrow> (nat \<Rightarrow> byte) \<Rightarrow> (byte list \<times> (nat \<Rightarrow> byte)) res"
  delay_hostkey :: bool
  have_hostkey :: "int \<Rightarrow> bool"
  readhostkey :: "bool \<Rightarrow> string \<Rightarrow> bool"
  signkey_generate :: "int \<Rightarrow> string \<Rightarrow> bool"

text \<open>
  \<open>host_pub\<close> and \<open>host_sign\<close> are what the functions of the key's type put into an empty buffer;
  nothing in it is the error both functions check for.
\<close>

definition buf_put_pub_key :: "kex_ops \<Rightarrow> int \<Rightarrow> buffer \<Rightarrow> buffer res" where
  "buf_put_pub_key ops type b =
     bindr (host_pub ops type) (\<lambda>blob.
     bindr (require (blob \<noteq> []) (Exit ''Bad key types in buf_put_pub_key'')) (\<lambda>_.
     put_str blob b))"

definition buf_put_sign :: "kex_ops \<Rightarrow> int \<Rightarrow> byte list \<Rightarrow> sshsession \<Rightarrow> sshsession res" where
  "buf_put_sign ops sigtype data s =
     bindr (host_sign ops sigtype data (entropy (world s))) (\<lambda>(blob, rest).
     bindr (require (blob \<noteq> []) (Exit ''Non-matching signing type'')) (\<lambda>_.
     put_string blob (upd_world (\<lambda>w. w\<lparr>entropy := rest\<rparr>) s)))"

definition on_kexhash :: "(buffer \<Rightarrow> buffer res) \<Rightarrow> sshsession \<Rightarrow> sshsession res" where
  "on_kexhash f s =
     (case kexhashbuf s of None \<Rightarrow> Inl Mem_fault | Some b \<Rightarrow> bindr (f b) (\<lambda>b. Inr (s\<lparr>kexhashbuf := Some b\<rparr>)))"

definition current_kex :: "sshsession \<Rightarrow> dropbear_kex res" where
  "current_kex s =
     (case newkeys s of
        None \<Rightarrow> Inl Mem_fault
      | Some nk \<Rightarrow> (case algo_kex nk of None \<Rightarrow> Inl Mem_fault | Some kex \<Rightarrow> Inr kex))"

definition current_hostkey :: "sshsession \<Rightarrow> int" where
  "current_hostkey s = (case newkeys s of None \<Rightarrow> 0 | Some nk \<Rightarrow> algo_hostkey nk)"

section \<open>Random numbers below a bound\<close>

text \<open>
  \<open>gen_random_mpint\<close> of \<open>dbrandom.c\<close> draws until the number is in range. \<open>None\<close> is a loop that does
  not end, which depends on the random bytes.
\<close>

definition random_masks :: "nat list" where
  "random_masks = [0xff, 0x01, 0x03, 0x07, 0x0f, 0x1f, 0x3f, 0x7f]"

definition mask_first :: "nat \<Rightarrow> byte list \<Rightarrow> byte list" where
  "mask_first size_bits bs = bs[0 := byte_of (byte_val (bs ! 0) AND random_masks ! (size_bits mod 8))]"

partial_function (option) random_loop :: "int \<Rightarrow> nat \<Rightarrow> nat \<Rightarrow> world \<Rightarrow> (int \<times> world) option" where
  [code]: "random_loop bound size_bits len w =
     (case genrandom len w of (bs, w') \<Rightarrow>
      let rand = mp_from_ubin (mask_first size_bits bs) in
      if rand < bound \<and> 0 < rand then Some (rand, w')
      else random_loop bound size_bits len w')"

definition random_len :: "nat \<Rightarrow> nat" where
  "random_len size_bits = (if size_bits mod 8 \<noteq> 0 then size_bits div 8 + 1 else size_bits div 8)"

definition gen_random_mpint :: "int \<Rightarrow> world \<Rightarrow> (int \<times> world) res" where
  "gen_random_mpint bound w =
     (let size_bits = mp_count_bits bound; len = random_len size_bits in
      if len = 0 then Inl (Exit ''m_malloc failed'')
      else case random_loop bound size_bits len w of None \<Rightarrow> Inl Loops | Some r \<Rightarrow> Inr r)"

section \<open>Diffie-Hellman groups\<close>

record kex_dh_param =
  dh_pub :: int
  dh_priv :: int

definition DH_G_VAL :: int where
  "DH_G_VAL = 2"

definition mp_exptmod :: "int \<Rightarrow> int \<Rightarrow> int \<Rightarrow> int option" where
  "mp_exptmod g x p = (if p \<le> 0 \<or> x < 0 then None else Some (g ^ nat x mod p))"

definition load_dh_p :: "dropbear_kex \<Rightarrow> int" where
  "load_dh_p kex = mp_from_ubin (dh_p_bytes kex)"

definition gen_kexdh_param :: "sshsession \<Rightarrow> (kex_dh_param \<times> sshsession) res" where
  "gen_kexdh_param s =
     bindr (current_kex s) (\<lambda>kex.
     let p = load_dh_p kex; q = (p - 1) div 2 in
     bindr (gen_random_mpint q (world s)) (\<lambda>(x, w).
     case mp_exptmod DH_G_VAL x p of
       None \<Rightarrow> Inl (Exit ''Diffie-Hellman error'')
     | Some e \<Rightarrow> Inr (\<lparr>dh_pub = e, dh_priv = x\<rparr>, s\<lparr>world := w\<rparr>)))"

definition kexdh_comb_key :: "kex_ops \<Rightarrow> kex_dh_param \<Rightarrow> int \<Rightarrow> sshsession \<Rightarrow> sshsession res" where
  "kexdh_comb_key ops param dh_pub_them s =
     bindr (current_kex s) (\<lambda>kex.
     let p = load_dh_p kex in
     if \<not> dh_pub_them < p - 1 \<or> \<not> dh_pub_them > 1 then Inl (Exit ''Diffie-Hellman error'')
     else case mp_exptmod dh_pub_them (dh_priv param) p of
       None \<Rightarrow> Inl (Exit ''Diffie-Hellman error'')
     | Some K \<Rightarrow>
         let dh_e = (if isserver s then dh_pub_them else dh_pub param);
             dh_f = (if isserver s then dh_pub param else dh_pub_them) in
         bindr (on_kexhash (\<lambda>b.
            bindr (buf_put_pub_key ops (current_hostkey s) b) (\<lambda>b.
            bindr (buf_putmpint b dh_e) (\<lambda>b.
            bindr (buf_putmpint b dh_f) (\<lambda>b.
            buf_putmpint b K)))) (s\<lparr>dh_K := Some K\<rparr>)) finish_kexhashbuf)"

section \<open>Curve25519\<close>

definition CURVE25519_LEN :: nat where
  "CURVE25519_LEN = 32"

record kex_curve25519_param =
  c25519_priv :: "byte list"
  c25519_pub :: "byte list"

definition basepoint :: "byte list" where
  "basepoint = byte_of 9 # replicate 31 (byte_of 0)"

definition gen_kexcurve25519_param :: "kex_ops \<Rightarrow> sshsession \<Rightarrow> kex_curve25519_param \<times> sshsession" where
  "gen_kexcurve25519_param ops s =
     (case genrandom CURVE25519_LEN (world s) of (priv, w) \<Rightarrow>
      (\<lparr>c25519_priv = priv, c25519_pub = scalarmult ops priv basepoint\<rparr>, s\<lparr>world := w\<rparr>))"

definition kexcurve25519_derive :: "kex_ops \<Rightarrow> kex_curve25519_param \<Rightarrow> buffer \<Rightarrow> byte list res" where
  "kexcurve25519_derive ops param buf_pub_them =
     (if unat (blen buf_pub_them) \<noteq> CURVE25519_LEN then Inl (Exit ''Bad curve25519'')
      else
        let out = scalarmult ops (c25519_priv param) (buf_content buf_pub_them) in
        if out = replicate CURVE25519_LEN (byte_of 0) then Inl (Exit ''Bad curve25519'') else Inr out)"

definition kexcurve25519_comb_key :: "kex_ops \<Rightarrow> kex_curve25519_param \<Rightarrow> buffer \<Rightarrow> sshsession \<Rightarrow> sshsession res" where
  "kexcurve25519_comb_key ops param buf_pub_them s =
     bindr (kexcurve25519_derive ops param buf_pub_them) (\<lambda>out.
     let K = mp_from_ubin out;
         them = buf_content buf_pub_them;
         Q_C = (if isserver s then them else c25519_pub param);
         Q_S = (if isserver s then c25519_pub param else them) in
     bindr (on_kexhash (\<lambda>b.
        bindr (buf_put_pub_key ops (current_hostkey s) b) (\<lambda>b.
        bindr (put_str Q_C b) (\<lambda>b.
        bindr (put_str Q_S b) (\<lambda>b.
        buf_putmpint b K)))) (s\<lparr>dh_K := Some K\<rparr>)) finish_kexhashbuf)"

section \<open>NIST curves\<close>

definition ecc_is_point :: "dropbear_ecc_curve \<Rightarrow> ecc_key \<Rightarrow> bool" where
  "ecc_is_point curve key \<longleftrightarrow>
     (ec_y key * ec_y key - ec_x key * (ec_x key * ec_x key mod ec_prime curve) + 3 * ec_x key) mod ec_prime curve = ec_B curve"

text \<open>\<open>None\<close> is the result NULL, which makes the caller exit.\<close>

definition buf_get_ecc_raw_pubkey :: "dropbear_ecc_curve \<Rightarrow> buffer \<Rightarrow> ecc_key option res" where
  "buf_get_ecc_raw_pubkey curve b =
     bindr (buf_setpos b 0) (\<lambda>b.
     bindr (buf_getbyte b) (\<lambda>(first, b).
     if byte_val first = 2 \<or> byte_val first = 3 then Inr None
     else if byte_val first \<noteq> 4 \<or> unat (blen b) \<noteq> 1 + 2 * ec_size curve then Inr None
     else
       bindr (buf_peek b (of_nat (ec_size curve))) (\<lambda>xs.
       bindr (buf_incrpos b (of_nat (ec_size curve))) (\<lambda>b.
       bindr (buf_peek b (of_nat (ec_size curve))) (\<lambda>ys.
       let key = \<lparr>ec_x = mp_from_ubin xs, ec_y = mp_from_ubin ys, ec_k = None\<rparr> in
       if \<not> ecc_is_point curve key \<or> ec_x key = 0 \<or> ec_y key = 0 then Inr None else Inr (Some key))))))"

definition raw_pubkey :: "dropbear_ecc_curve \<Rightarrow> ecc_key \<Rightarrow> byte list" where
  "raw_pubkey curve key = byte_of 4 # ubin (ec_size curve) (nat (ec_x key)) @ ubin (ec_size curve) (nat (ec_y key))"

definition buf_put_ecc_raw_pubkey_string :: "dropbear_ecc_curve \<Rightarrow> ecc_key \<Rightarrow> buffer \<Rightarrow> buffer res" where
  "buf_put_ecc_raw_pubkey_string curve key b =
     (let len = 2 * ec_size curve + 1 in
      bindr (buf_putint b (of_nat len)) (\<lambda>b.
      bindr (buf_getwriteptr b (of_nat len)) (\<lambda>p.
      bindr (require (mp_ubin_size (ec_x key) \<le> ec_size curve \<and> mp_ubin_size (ec_y key) \<le> ec_size curve)
               (Exit ''ECC error'')) (\<lambda>_.
      bindr (mem_write (bdata b) p (raw_pubkey curve key)) (\<lambda>d.
      buf_incrwritepos (b\<lparr>bdata := d\<rparr>) (of_nat len))))))"

definition dropbear_ecc_shared_secret :: "kex_ops \<Rightarrow> dropbear_ecc_curve \<Rightarrow> ecc_key \<Rightarrow> ecc_key \<Rightarrow> int res" where
  "dropbear_ecc_shared_secret ops curve public_key private_key =
     (case ec_k private_key of
        None \<Rightarrow> Inl (Exit ''ECC error'')
      | Some k \<Rightarrow>
          (case ecc_ptmul ops curve k (ec_x public_key, ec_y public_key) of
             None \<Rightarrow> Inl (Exit ''ECC error'')
           | Some x \<Rightarrow> Inr x))"

definition gen_kexecdh_param :: "kex_ops \<Rightarrow> sshsession \<Rightarrow> (ecc_key \<times> sshsession) res" where
  "gen_kexecdh_param ops s =
     bindr (current_kex s) (\<lambda>kex.
     case ecc_make_key ops (ecc_curve ops kex) (entropy (world s)) of
       None \<Rightarrow> Inl (Exit ''ECC error'')
     | Some (key, rest) \<Rightarrow> Inr (key, upd_world (\<lambda>w. w\<lparr>entropy := rest\<rparr>) s))"

definition kexecdh_comb_key :: "kex_ops \<Rightarrow> ecc_key \<Rightarrow> buffer \<Rightarrow> sshsession \<Rightarrow> sshsession res" where
  "kexecdh_comb_key ops param pub_them s =
     bindr (current_kex s) (\<lambda>kex.
     let curve = ecc_curve ops kex in
     bindr (buf_get_ecc_raw_pubkey curve pub_them) (\<lambda>Q.
     case Q of
       None \<Rightarrow> Inl (Exit ''ECC error'')
     | Some Q_them \<Rightarrow>
         bindr (dropbear_ecc_shared_secret ops curve Q_them param) (\<lambda>K.
         let Q_C = (if isserver s then Q_them else param);
             Q_S = (if isserver s then param else Q_them) in
         bindr (on_kexhash (\<lambda>b.
            bindr (buf_put_pub_key ops (current_hostkey s) b) (\<lambda>b.
            bindr (buf_put_ecc_raw_pubkey_string curve Q_C b) (\<lambda>b.
            bindr (buf_put_ecc_raw_pubkey_string curve Q_S b) (\<lambda>b.
            buf_putmpint b K)))) (s\<lparr>dh_K := Some K\<rparr>)) finish_kexhashbuf)))"

section \<open>Post-quantum hybrids\<close>

record kex_pqhybrid_param =
  pq_curve25519 :: kex_curve25519_param
  concat_public :: "buffer option"
  kem_cli_secret :: "buffer option"

definition current_kem :: "sshsession \<Rightarrow> dropbear_kem_desc res" where
  "current_kem s =
     bindr (current_kex s) (\<lambda>kex. case kem_details kex of None \<Rightarrow> Inl Mem_fault | Some kem \<Rightarrow> Inr kem)"

text \<open>A function that fills \<open>n\<close> bytes at the write position, and the move past them.\<close>

definition fill :: "nat \<Rightarrow> byte list \<Rightarrow> buffer \<Rightarrow> buffer res" where
  "fill n bytes b =
     bindr (buf_getwriteptr b (of_nat n)) (\<lambda>p.
     bindr (mem_write (bdata b) p bytes) (\<lambda>d.
     buf_incrwritepos (b\<lparr>bdata := d\<rparr>) (of_nat n)))"

definition gen_kexpqhybrid_param :: "kex_ops \<Rightarrow> sshsession \<Rightarrow> (kex_pqhybrid_param \<times> sshsession) res" where
  "gen_kexpqhybrid_param ops s =
     bindr (current_kem s) (\<lambda>kem.
     case gen_kexcurve25519_param ops s of (c, s) \<Rightarrow>
     if isserver s then Inr (\<lparr>pq_curve25519 = c, concat_public = None, kem_cli_secret = None\<rparr>, s)
     else
       bindr (buf_new (of_nat (secret_len kem))) (\<lambda>sk.
       bindr (buf_new (of_nat (public_len kem + CURVE25519_LEN))) (\<lambda>pk.
       case kem_gen kem (entropy (world s)) of (pub, secret, rest) \<Rightarrow>
       bindr (fill (public_len kem) pub pk) (\<lambda>pk.
       bindr (fill (secret_len kem) secret sk) (\<lambda>sk.
       bindr (buf_setpos sk 0) (\<lambda>sk.
       bindr (buf_putbytes pk (c25519_pub c) (of_nat CURVE25519_LEN)) (\<lambda>pk.
       Inr (\<lparr>pq_curve25519 = c, concat_public = Some pk, kem_cli_secret = Some sk\<rparr>,
         upd_world (\<lambda>w. w\<lparr>entropy := rest\<rparr>) s))))))))"

text \<open>
  The part of the secret from the encapsulation: the client opens the ciphertext with its secret,
  the server makes one for the client's public key and sends it back before its curve point.
\<close>

definition kem_part :: "dropbear_kem_desc \<Rightarrow> kex_pqhybrid_param \<Rightarrow> byte list \<Rightarrow> sshsession
    \<Rightarrow> (byte list \<times> kex_pqhybrid_param \<times> sshsession) res" where
  "kem_part kem param remote_pub s =
     (if \<not> isserver s then
        (case kem_cli_secret param of
           None \<Rightarrow> Inl Mem_fault
         | Some sk \<Rightarrow>
             bindr (buf_peek sk (of_nat (secret_len kem))) (\<lambda>secret.
             Inr (kem_dec kem remote_pub secret, param\<lparr>kem_cli_secret := None\<rparr>, s)))
      else
        bindr (require (concat_public param = None) Assert_failed) (\<lambda>_.
        bindr (buf_new (of_nat (ciphertext_len kem + CURVE25519_LEN))) (\<lambda>ct.
        case kem_enc kem remote_pub (entropy (world s)) of (c, k, rest) \<Rightarrow>
        bindr (fill (ciphertext_len kem) c ct) (\<lambda>ct.
        bindr (buf_putbytes ct (c25519_pub (pq_curve25519 param)) (of_nat CURVE25519_LEN)) (\<lambda>ct.
        Inr (k, param\<lparr>concat_public := Some ct\<rparr>, upd_world (\<lambda>w. w\<lparr>entropy := rest\<rparr>) s))))))"

definition kexpqhybrid_comb_key :: "kex_ops \<Rightarrow> kex_pqhybrid_param \<Rightarrow> buffer \<Rightarrow> sshsession
    \<Rightarrow> (kex_pqhybrid_param \<times> sshsession) res" where
  "kexpqhybrid_comb_key ops param buf_pub s =
     bindr (current_kex s) (\<lambda>kex.
     bindr (current_kem s) (\<lambda>kem.
     let remote_len = of_nat (if isserver s then public_len kem else ciphertext_len kem) in
     bindr (buf_peek buf_pub remote_len) (\<lambda>remote_pub.
     bindr (buf_incrpos buf_pub remote_len) (\<lambda>buf_pub.
     bindr (buf_getptrcopy buf_pub (of_nat CURVE25519_LEN)) (\<lambda>pub_25519.
     bindr (buf_incrpos buf_pub (of_nat CURVE25519_LEN)) (\<lambda>buf_pub.
     if bpos buf_pub \<noteq> blen buf_pub then Inl (Exit ''Bad sntrup'')
     else
       bindr (buf_new (of_nat (output_len kem + CURVE25519_LEN))) (\<lambda>k_out.
       bindr (kem_part kem param remote_pub s) (\<lambda>(K_PQ, param, s).
       bindr (fill (output_len kem) K_PQ k_out) (\<lambda>k_out.
       bindr (kexcurve25519_derive ops (pq_curve25519 param) pub_25519) (\<lambda>K_CL.
       bindr (fill CURVE25519_LEN K_CL k_out) (\<lambda>k_out.
       bindr (buf_new (4 + of_nat (kex_hashsize kex))) (\<lambda>Kb.
       bindr (buf_putint Kb (of_nat (kex_hashsize kex))) (\<lambda>Kb.
       bindr (fill (kex_hashsize kex) (kex_hash kex (buf_content k_out)) Kb) (\<lambda>Kb.
       case concat_public param of
         None \<Rightarrow> Inl Mem_fault
       | Some own \<Rightarrow>
           let Q_C = (if isserver s then buf_pub else own);
               Q_S = (if isserver s then own else buf_pub) in
           bindr (on_kexhash (\<lambda>b.
              bindr (buf_put_pub_key ops (current_hostkey s) b) (\<lambda>b.
              bindr (buf_putbufstring b Q_C) (\<lambda>b.
              bindr (buf_putbufstring b Q_S) (\<lambda>b.
              buf_putbytes b (buf_content Kb) (blen Kb))))) (s\<lparr>dh_K_bytes := Some Kb\<rparr>)) (\<lambda>s.
           bindr (finish_kexhashbuf s) (\<lambda>s.
           Inr (param, s)))))))))))))))))"

section \<open>The server's messages\<close>

definition SSH_SERVER_SIG_ALGS :: string where
  "SSH_SERVER_SIG_ALGS = ''server-sig-algs''"

definition disable_sig_except :: "int \<Rightarrow> sshsession \<Rightarrow> sshsession" where
  "disable_sig_except allow_type s =
     s\<lparr>sigalgs := map (\<lambda>a. if aval a \<noteq> allow_type then a\<lparr>ausable := False\<rparr> else a) (sigalgs s)\<rparr>"

text \<open>
  A server that makes its host keys on demand reads the file of the key's type and, when that fails,
  generates the key and reads it again. The flag of \<open>readhostkey\<close> says whether a key was generated
  before; the names are those under the configuration directory.
\<close>

definition hostkey_file :: "int \<Rightarrow> string option" where
  "hostkey_file type =
     (if nat type = DROPBEAR_SIGNKEY_RSA then Some ''dropbear_rsa_host_key''
      else if signkey_is_ecdsa (nat type) then Some ''dropbear_ecdsa_host_key''
      else if nat type = DROPBEAR_SIGNKEY_ED25519 then Some ''dropbear_ed25519_host_key''
      else None)"

definition svr_ensure_hostkey :: "kex_ops \<Rightarrow> int \<Rightarrow> unit res" where
  "svr_ensure_hostkey ops type =
     (if have_hostkey ops type then Inr ()
      else case hostkey_file type of
        None \<Rightarrow> Inl Assert_failed
      | Some fn \<Rightarrow>
          require (readhostkey ops False fn \<or> signkey_generate ops type fn \<and> readhostkey ops True fn)
            (Exit ''Couldn't read or generate hostkey''))"

text \<open>What each method adds to the reply: its own public value.\<close>

definition put_exchange_value :: "kex_ops \<Rightarrow> int \<Rightarrow> buffer option \<Rightarrow> sshsession \<Rightarrow> sshsession res" where
  "put_exchange_value ops dh_e q_c s =
     bindr (current_kex s) (\<lambda>kex.
     case kex_mode kex of
       DROPBEAR_KEX_NORMAL_DH \<Rightarrow>
         bindr (gen_kexdh_param s) (\<lambda>(param, s).
         bindr (kexdh_comb_key ops param dh_e s) (\<lambda>s.
         on_write (\<lambda>b. buf_putmpint b (dh_pub param)) s))
     | mode \<Rightarrow>
         (case q_c of
            None \<Rightarrow> Inl Mem_fault
          | Some q \<Rightarrow>
              if mode = DROPBEAR_KEX_ECDH then
                bindr (gen_kexecdh_param ops s) (\<lambda>(param, s).
                bindr (kexecdh_comb_key ops param q s) (\<lambda>s.
                on_write (buf_put_ecc_raw_pubkey_string (ecc_curve ops kex) param) s))
              else if mode = DROPBEAR_KEX_CURVE25519 then
                (case gen_kexcurve25519_param ops s of (param, s) \<Rightarrow>
                 bindr (kexcurve25519_comb_key ops param q s) (\<lambda>s.
                 on_write (\<lambda>b. buf_putstring b (c25519_pub param) (of_nat CURVE25519_LEN)) s))
              else
                bindr (gen_kexpqhybrid_param ops s) (\<lambda>(param, s).
                bindr (kexpqhybrid_comb_key ops param q s) (\<lambda>(param, s).
                case concat_public param of
                  None \<Rightarrow> Inl Mem_fault
                | Some own \<Rightarrow> on_write (\<lambda>b. buf_putbufstring b own) s))))"

definition send_msg_kexdh_reply :: "kex_ops \<Rightarrow> int \<Rightarrow> buffer option \<Rightarrow> sshsession \<Rightarrow> sshsession res" where
  "send_msg_kexdh_reply ops dh_e q_c s =
     bindr (if delay_hostkey ops then svr_ensure_hostkey ops (current_hostkey s) else Inr ()) (\<lambda>_.
     bindr (put_byte SSH_MSG_KEXDH_REPLY s) (\<lambda>s.
     bindr (on_write (buf_put_pub_key ops (current_hostkey s)) s) (\<lambda>s.
     bindr (put_exchange_value ops dh_e q_c s) (\<lambda>s.
     case (newkeys s, ses_hash s) of
       (Some nk, Some h) \<Rightarrow> bindr (buf_put_sign ops (algo_signature nk) (buf_content h) s) encrypt_packet
     | _ \<Rightarrow> Inl Mem_fault))))"

definition send_msg_ext_info :: "sshsession \<Rightarrow> sshsession res" where
  "send_msg_ext_info s =
     bindr (put_byte SSH_MSG_EXT_INFO s) (\<lambda>s.
     bindr (put_int 1 s) (\<lambda>s.
     bindr (put_string SSH_SERVER_SIG_ALGS s) (\<lambda>s.
     bindr (on_write (\<lambda>b. buf_put_algolist_all b (sigalgs s) True) s) encrypt_packet)))"

definition read_exchange_value :: "dropbear_kex \<Rightarrow> sshsession \<Rightarrow> (int \<times> buffer option \<times> sshsession) res" where
  "read_exchange_value kex s =
     (if kex_mode kex = DROPBEAR_KEX_NORMAL_DH then
        bindr (on_read buf_getmpint s) (\<lambda>(e, s).
        case e of None \<Rightarrow> Inl (Exit ''Bad kex value'') | Some e \<Rightarrow> Inr (e, None, s))
      else bindr (on_read buf_getstringbuf s) (\<lambda>(q, s). Inr (0, Some q, s)))"

text \<open>
  The signature that stays allowed is read from \<open>ses.newkeys\<close> after \<open>send_msg_newkeys\<close>, which leaves
  it in place until the peer's message has come.
\<close>

definition recv_msg_kexdh_init :: "kex_ops \<Rightarrow> sshsession \<Rightarrow> sshsession res" where
  "recv_msg_kexdh_init ops s =
     (if \<not> recvkexinit (kexstate s) then Inl (Exit ''Premature kexdh_init message received'')
      else
        bindr (current_kex s) (\<lambda>kex.
        bindr (read_exchange_value kex s) (\<lambda>(dh_e, q_c, s).
        case payload s of
          None \<Rightarrow> Inl Mem_fault
        | Some pl \<Rightarrow>
            if bpos pl \<noteq> blen pl then Inl (Exit ''Bad kex value'')
            else
              bindr (send_msg_kexdh_reply ops dh_e q_c s) (\<lambda>s.
              bindr (send_msg_newkeys s) (\<lambda>s.
              bindr (if \<not> donesecondkex (kexstate s) \<and> allow_ext_info s then send_msg_ext_info s else Inr s) (\<lambda>s.
              bindr (if \<not> donesecondkex (kexstate s)
                     then (case newkeys s of None \<Rightarrow> Inl Mem_fault | Some nk \<Rightarrow> Inr (disable_sig_except (algo_signature nk) s))
                     else Inr s) (\<lambda>s.
              Inr (s\<lparr>requirenext := SSH_MSG_NEWKEYS\<rparr>))))))))"

section \<open>Random numbers: when the loop ends\<close>

definition nth_draw :: "nat \<Rightarrow> nat \<Rightarrow> world \<Rightarrow> nat \<Rightarrow> int" where
  "nth_draw size_bits len w n = mp_from_ubin (mask_first size_bits (map (\<lambda>i. entropy w (i + n * len)) [0..<len]))"

definition skip_draws :: "nat \<Rightarrow> nat \<Rightarrow> world \<Rightarrow> world" where
  "skip_draws len n w = w\<lparr>entropy := (\<lambda>i. entropy w (i + n * len))\<rparr>"

lemma nth_draw_skip: "nth_draw bits len (skip_draws len m w) n = nth_draw bits len w (n + m)"
  by (simp add: nth_draw_def skip_draws_def add_mult_distrib add.assoc)

lemma skip_draws_0: "skip_draws len 0 w = w"
  by (simp add: skip_draws_def)

lemma random_loop_step:
  "random_loop bound bits len w =
     (if nth_draw bits len w 0 < bound \<and> 0 < nth_draw bits len w 0 then Some (nth_draw bits len w 0, skip_draws len 1 w)
      else random_loop bound bits len (skip_draws len 1 w))"
  by (subst random_loop.simps) (simp add: genrandom_def nth_draw_def skip_draws_def Let_def)

lemma skip_draws_add: "skip_draws len m (skip_draws len n w) = skip_draws len (m + n) w"
  by (simp add: skip_draws_def add_mult_distrib add.assoc)

lemma random_loop_first:
  assumes "\<forall>m<n. \<not> (nth_draw bits len w m < bound \<and> 0 < nth_draw bits len w m)"
    and "nth_draw bits len w n < bound" and "0 < nth_draw bits len w n"
  shows "random_loop bound bits len w = Some (nth_draw bits len w n, skip_draws len (Suc n) w)"
  using assms
proof (induction n arbitrary: w)
  case 0
  then show ?case by (subst random_loop_step) simp
next
  case (Suc n)
  have "random_loop bound bits len (skip_draws len 1 w)
      = Some (nth_draw bits len (skip_draws len 1 w) n, skip_draws len (Suc n) (skip_draws len 1 w))"
    using Suc.prems by (intro Suc.IH) (simp_all add: nth_draw_skip)
  then show ?case using Suc.prems(1) by (subst random_loop_step) (auto simp: nth_draw_skip skip_draws_add)
qed

lemma random_loop_Some:
  assumes "random_loop bound bits len w = Some (r, w')"
  shows "0 < r \<and> r < bound"
proof -
  have "0 < fst y \<and> fst y < bound" if "random_loop bound bits len w = Some y" for y
    by (rule random_loop.raw_induct [of "\<lambda>bound bits len w y. 0 < fst y \<and> fst y < bound", OF _ that])
      (auto simp: Let_def split: prod.splits if_splits)
  then show ?thesis using assms by fastforce
qed

lemma random_len_pos: "0 < bound \<Longrightarrow> 0 < random_len (mp_count_bits bound)"
proof -
  assume "0 < bound"
  then have "mp_count_bits bound \<noteq> 0" using less_exp_count_bits [of "nat bound"] by (auto simp: mp_count_bits_def intro: ccontr)
  then show ?thesis unfolding random_len_def by presburger
qed

lemma gen_random_range:
  "gen_random_mpint bound w = Inr (r, w') \<Longrightarrow> 0 < r \<and> r < bound"
  by (auto simp: gen_random_mpint_def Let_def split: if_splits option.splits dest: random_loop_Some)

text \<open>The world is otherwise as before.\<close>

lemma random_loop_world:
  assumes "random_loop bound bits len w = Some (r, w')"
  shows "\<exists>e. w' = w\<lparr>entropy := e\<rparr>"
proof -
  have "\<exists>e. snd y = w\<lparr>entropy := e\<rparr>" if "random_loop bound bits len w = Some y" for y
    by (rule random_loop.raw_induct [of "\<lambda>bound bits len w y. \<exists>e. snd y = w\<lparr>entropy := e\<rparr>", OF _ that])
      (fastforce simp: Let_def genrandom_def split: prod.splits if_splits)
  then show ?thesis using assms by fastforce
qed

lemma random_masks_nth: "k < 8 \<Longrightarrow> random_masks ! k = mask (if k = 0 then 8 else k)"
proof -
  have "\<forall>k\<in>set [0..<8]. random_masks ! k = mask (if k = 0 then 8 else k)" by code_simp
  then show "k < 8 \<Longrightarrow> random_masks ! k = mask (if k = 0 then 8 else k)" by simp
qed

lemma mp_from_ubin_Cons: "mp_from_ubin (c # bs) = of_char c * 256 ^ length bs + mp_from_ubin bs"
proof (induction bs rule: rev_induct)
  case Nil
  then show ?case by (simp add: mp_from_ubin_def)
next
  case (snoc b bs)
  then show ?case using mp_from_ubin_snoc [of "c # bs" b] by (simp add: mp_from_ubin_snoc algebra_simps)
qed

lemma of_char_int_range: "(of_char c :: int) < 256" "0 \<le> (of_char c :: int)"
proof -
  have "(of_char c :: nat) < 256" by simp
  moreover have "(of_char c :: int) = int (of_char c)" by (rule of_nat_of_char [symmetric])
  ultimately show "(of_char c :: int) < 256" "0 \<le> (of_char c :: int)" by linarith+
qed

lemma mp_from_ubin_range: "0 \<le> mp_from_ubin bs \<and> mp_from_ubin bs < 256 ^ length bs"
proof (induction bs rule: rev_induct)
  case Nil
  then show ?case by (simp add: mp_from_ubin_def)
next
  case (snoc c bs)
  then show ?case using of_char_int_range [of c] by (simp add: mp_from_ubin_snoc)
qed

lemma count_bits_lower: "0 < n \<Longrightarrow> 2 ^ (count_bits n - 1) \<le> n"
proof (induction n rule: count_bits.induct)
  case (1 n)
  have c: "count_bits n = Suc (count_bits (n div 2))" using 1(2) by (subst count_bits.simps) simp
  show ?case
  proof (cases "n div 2 = 0")
    case True
    then show ?thesis using 1(2) c by simp
  next
    case False
    then have "2 ^ (count_bits (n div 2) - 1) \<le> n div 2" using 1 by simp
    moreover have "count_bits (n div 2) \<noteq> 0" using False by (subst count_bits.simps) simp
    ultimately show ?thesis using c by (cases "count_bits (n div 2)") auto
  qed
qed

text \<open>The mask leaves \<open>size_bits\<close> bits, so that a draw is below twice the bound.\<close>

lemma mask_first_range:
  assumes "length bs = random_len bits" and "0 < random_len bits"
  shows "mp_from_ubin (mask_first bits bs) < 2 ^ bits"
proof -
  obtain c cs where bs: "bs = c # cs" using assms by (cases bs) auto
  define k where "k = (if bits mod 8 = 0 then 8 else bits mod 8)"
  have k: "k \<le> 8" "bits = k + 8 * length cs" using assms bs by (auto simp: k_def random_len_def split: if_splits)
  let ?v = "byte_val c AND random_masks ! (bits mod 8)"
  have "?v = take_bit k (byte_val c)" using random_masks_nth [of "bits mod 8"] by (simp add: take_bit_eq_mask k_def)
  then have v: "?v < 2 ^ k" by (simp add: take_bit_nat_less_exp)
  moreover have "(2::nat) ^ k \<le> 2 ^ 8" using k(1) by (intro power_increasing) simp_all
  ultimately have "?v < 256" by simp
  then have "(of_char (byte_of ?v) :: int) = int ?v" by (rule of_char_byte_of_int)
  moreover have "int ?v + 1 \<le> 2 ^ k" using v by (metis add.commute int_one_le_iff_zero_less of_nat_Suc of_nat_le_iff of_nat_numeral of_nat_power Suc_leI)
  ultimately have "mp_from_ubin (mask_first bits bs) < (int ?v + 1) * 256 ^ length cs"
    using mp_from_ubin_range [of cs] by (simp add: mask_first_def bs mp_from_ubin_Cons algebra_simps)
  also have "\<dots> \<le> 2 ^ k * 256 ^ length cs" using \<open>int ?v + 1 \<le> 2 ^ k\<close> by (intro mult_right_mono) simp_all
  also have "\<dots> = 2 ^ bits" by (simp add: k(2) power_add power_mult)
  finally show ?thesis .
qed

lemma nth_draw_less:
  assumes "0 < bound"
  shows "nth_draw (mp_count_bits bound) (random_len (mp_count_bits bound)) w n < 2 * bound"
proof -
  let ?b = "mp_count_bits bound"
  have b: "?b \<noteq> 0" using random_len_pos [OF assms] by (intro notI) (simp add: random_len_def)
  have "(2::nat) ^ (?b - 1) \<le> nat bound" using count_bits_lower [of "nat bound"] assms by (simp add: mp_count_bits_def)
  then have "(2::int) ^ (?b - 1) \<le> bound" using assms by (metis int_nat_eq of_nat_le_iff of_nat_numeral of_nat_power order_less_imp_le)
  moreover have "(2::int) ^ ?b = 2 * 2 ^ (?b - 1)" using b by (cases ?b) simp_all
  moreover have "nth_draw ?b (random_len ?b) w n < 2 ^ ?b"
    unfolding nth_draw_def by (rule mask_first_range) (simp_all add: random_len_pos [OF assms])
  ultimately show ?thesis by linarith
qed

text \<open>
  C14. \<open>gen_random_mpint\<close> returns whenever one of the draws from the random source is in range, with the
  first such draw, which is above zero and below the bound. The mask keeps every draw below twice
  the bound, so that a draw from a uniform source is in range about every second time at worst.
\<close>

theorem random_number_found:
  assumes "0 < bound" and "bits = mp_count_bits bound" and "len = random_len bits"
    and "0 < nth_draw bits len w n" and "nth_draw bits len w n < bound"
  shows "\<exists>m\<le>n. gen_random_mpint bound w = Inr (nth_draw bits len w m, skip_draws len (Suc m) w)
    \<and> 0 < nth_draw bits len w m \<and> nth_draw bits len w m < bound
    \<and> (\<forall>k<m. nth_draw bits len w k = 0 \<or> bound \<le> nth_draw bits len w k)
    \<and> (\<forall>k. nth_draw bits len w k < 2 * bound)"
proof -
  let ?P = "\<lambda>k. nth_draw bits len w k < bound \<and> 0 < nth_draw bits len w k"
  define m where "m = (LEAST k. ?P k)"
  have P: "?P m" unfolding m_def by (rule LeastI [of _ n]) (use assms in simp)
  have "m \<le> n" unfolding m_def by (rule Least_le) (use assms in simp)
  have first: "\<forall>k<m. \<not> ?P k" using not_less_Least [of _ ?P] unfolding m_def by blast
  have "gen_random_mpint bound w = Inr (nth_draw bits len w m, skip_draws len (Suc m) w)"
    using random_loop_first [OF first] P random_len_pos [OF assms(1)] assms(2,3)
    by (simp add: gen_random_mpint_def Let_def)
  moreover have "nth_draw bits len w k = 0 \<or> bound \<le> nth_draw bits len w k" if "k < m" for k
    using first that mp_from_ubin_range unfolding nth_draw_def by (meson linorder_not_le order_le_imp_less_or_eq)
  moreover have "nth_draw bits len w k < 2 * bound" for k using nth_draw_less [OF assms(1)] assms(2,3) by simp
  ultimately show ?thesis using P \<open>m \<le> n\<close> by blast
qed

theorem random_number_found_witness:
  "let w = still_world\<lparr>entropy := (\<lambda>i. byte_of (i * 9))\<rparr> in
   0 < nth_draw 4 1 w 1 \<and> nth_draw 4 1 w 1 < 11
   \<and> (\<exists>m\<le>1. gen_random_mpint 11 w = Inr (nth_draw 4 1 w m, skip_draws 1 (Suc m) w))"
proof -
  have e: "mp_count_bits 11 = 4" "random_len 4 = 1" "nth_draw 4 1 (still_world\<lparr>entropy := (\<lambda>i. byte_of (i * 9))\<rparr>) 1 = 9"
    by code_simp+
  show ?thesis using random_number_found [of 11 4 1 "still_world\<lparr>entropy := (\<lambda>i. byte_of (i * 9))\<rparr>" 1] e
    by (auto simp: Let_def)
qed

section \<open>Diffie-Hellman: both sides agree\<close>

lemma count_bits_mono: "m \<le> n \<Longrightarrow> count_bits m \<le> count_bits n"
  using less_exp_count_bits [of n] by (intro count_bits_le) simp

lemma enc_mpint_mono:
  assumes "0 \<le> v" and "v \<le> p"
  shows "length (enc_mpint v) \<le> length (enc_mpint p)" and "mpint_ok p \<Longrightarrow> mpint_ok v"
proof -
  have "mp_count_bits v \<le> mp_count_bits p" using assms by (simp add: mp_count_bits_def count_bits_mono)
  then have "length (mpint_body v) \<le> length (mpint_body p)"
    using assms by (auto simp: length_mpint_body intro: div_le_mono)
  then show "length (enc_mpint v) \<le> length (enc_mpint p)" "mpint_ok p \<Longrightarrow> mpint_ok v"
    using assms(1) by (simp_all add: enc_mpint_def mpint_ok_def)
qed

text \<open>The bytes each method appends to the transcript, and what the hash of all of it becomes.\<close>

lemma appends_pub_key [appends_rules]:
  "host_pub ops t = Inr blob \<Longrightarrow> blob \<noteq> [] \<Longrightarrow> appends (buf_put_pub_key ops t) (enc_string blob)"
  using appends_put_str [of blob] by (simp add: appends_def buf_put_pub_key_def)

lemma kexhash_finished:
  assumes "newkeys s = Some nk" and "algo_kex nk = Some kex" and "kex_ok kex"
    and "kexhashbuf s = Some kb" and "at_end kb" and "appends f bs" and "length bs \<le> buf_room kb"
  obtains h sid where
    "bindr (on_kexhash f s) finish_kexhashbuf = Inr (s\<lparr>ses_hash := Some h, kexhashbuf := None, session_id := Some sid\<rparr>)"
    "buf_content h = kex_hash kex (buf_content kb @ bs)"
    "buf_content sid = (case session_id s of None \<Rightarrow> buf_content h | Some x \<Rightarrow> buf_content x)"
proof -
  obtain kb' where kb': "f kb = Inr kb'" "at_end kb'" "buf_content kb' = buf_content kb @ bs"
    using appends_at_end [OF assms(6,5,7)] by auto
  let ?s = "s\<lparr>kexhashbuf := Some kb'\<rparr>"
  obtain h sid where "finish_kexhashbuf ?s = Inr (?s\<lparr>ses_hash := Some h, kexhashbuf := None, session_id := Some sid\<rparr>)"
    "buf_content h = kex_hash kex (buf_content kb')"
    "buf_content sid = (case session_id ?s of None \<Rightarrow> buf_content h | Some x \<Rightarrow> buf_content x)"
    by (rule finish_kexhashbuf_ok [of ?s nk kex kb']) (use assms kb' in \<open>simp_all add: at_end_def\<close>)
  then show thesis using assms(4) kb' by (intro that [of sid h]) (simp_all add: on_kexhash_def)
qed

definition dh_parts :: "byte list \<Rightarrow> int \<Rightarrow> int \<Rightarrow> int \<Rightarrow> byte list" where
  "dh_parts K_S e f K = enc_string K_S @ enc_mpint e @ enc_mpint f @ enc_mpint K"

lemma appends_dh_parts:
  assumes "host_pub ops t = Inr K_S" and "K_S \<noteq> []" and "mpint_ok e" and "mpint_ok f" and "mpint_ok K"
  shows "appends (\<lambda>b. bindr (buf_put_pub_key ops t b) (\<lambda>b. bindr (buf_putmpint b e) (\<lambda>b. bindr (buf_putmpint b f) (\<lambda>b.
    buf_putmpint b K)))) (dh_parts K_S e f K)"
  unfolding dh_parts_def using assms by (intro appends_rules)

text \<open>A session in the middle of a key exchange: the method, the host key and the transcript so far.\<close>

definition exchanging :: "sshsession \<Rightarrow> kex_ops \<Rightarrow> dropbear_kex \<Rightarrow> byte list \<Rightarrow> byte list \<Rightarrow> nat \<Rightarrow> bool" where
  "exchanging s ops kex K_S transcript room \<longleftrightarrow>
     (\<exists>nk kb. newkeys s = Some nk \<and> algo_kex nk = Some kex \<and> kex_ok kex \<and> host_pub ops (algo_hostkey nk) = Inr K_S \<and> K_S \<noteq> []
        \<and> kexhashbuf s = Some kb \<and> at_end kb \<and> buf_content kb = transcript \<and> room \<le> buf_room kb)"

lemma kexdh_comb_key_ok:
  assumes "exchanging s ops kex K_S transcript (4 + length K_S + 3 * length (enc_mpint p))"
    and p: "p = load_dh_p kex" "mpint_ok p"
    and "1 < them" and "them < p - 1" and "0 \<le> dh_priv param" and "0 \<le> dh_pub param" and "dh_pub param < p"
    and K: "K = them ^ nat (dh_priv param) mod p"
    and e: "e = (if isserver s then them else dh_pub param)" and f: "f = (if isserver s then dh_pub param else them)"
  obtains h sid where
    "kexdh_comb_key ops param them s = Inr (s\<lparr>dh_K := Some K, ses_hash := Some h, kexhashbuf := None, session_id := Some sid\<rparr>)"
    "buf_content h = kex_hash kex (transcript @ dh_parts K_S e f K)"
    "buf_content sid = (case session_id s of None \<Rightarrow> buf_content h | Some x \<Rightarrow> buf_content x)"
proof -
  obtain nk kb where nk: "newkeys s = Some nk" "algo_kex nk = Some kex" "kex_ok kex" "host_pub ops (algo_hostkey nk) = Inr K_S" "K_S \<noteq> []"
    and kb: "kexhashbuf s = Some kb" "at_end kb" "buf_content kb = transcript" "4 + length K_S + 3 * length (enc_mpint p) \<le> buf_room kb"
    using assms(1) unfolding exchanging_def by blast
  have "0 \<le> K" "K < p" using assms(4,5) by (auto simp: K)
  then have small: "0 \<le> e" "e \<le> p" "0 \<le> f" "f \<le> p" "0 \<le> K" "K \<le> p"
    using assms(4,5,7,8) unfolding e f by simp_all
  have ok: "mpint_ok e" "mpint_ok f" "mpint_ok K" using enc_mpint_mono(2) p(2) small by blast+
  have len: "length (dh_parts K_S e f K) \<le> buf_room kb"
    using enc_mpint_mono(1) [OF small(1,2)] enc_mpint_mono(1) [OF small(3,4)] enc_mpint_mono(1) [OF small(5,6)] kb(4)
    by (simp add: dh_parts_def)
  let ?s = "s\<lparr>dh_K := Some K\<rparr>"
  obtain h sid where h: "bindr (on_kexhash (\<lambda>b. bindr (buf_put_pub_key ops (algo_hostkey nk) b) (\<lambda>b. bindr (buf_putmpint b e)
      (\<lambda>b. bindr (buf_putmpint b f) (\<lambda>b. buf_putmpint b K)))) ?s) finish_kexhashbuf
      = Inr (?s\<lparr>ses_hash := Some h, kexhashbuf := None, session_id := Some sid\<rparr>)"
    "buf_content h = kex_hash kex (buf_content kb @ dh_parts K_S e f K)"
    "buf_content sid = (case session_id ?s of None \<Rightarrow> buf_content h | Some x \<Rightarrow> buf_content x)"
    by (rule kexhash_finished [OF _ nk(2,3) _ kb(2) appends_dh_parts [OF nk(4,5) ok] len, of ?s]) (use nk kb in simp_all)
  have "mp_exptmod them (dh_priv param) p = Some K" using assms(4-6) by (simp add: mp_exptmod_def K)
  then have "kexdh_comb_key ops param them s = Inr (s\<lparr>dh_K := Some K, ses_hash := Some h, kexhashbuf := None, session_id := Some sid\<rparr>)"
    using h(1) nk(1,2) assms(4,5)
    by (simp add: kexdh_comb_key_def current_kex_def current_hostkey_def p(1) [symmetric] Let_def e [symmetric] f [symmetric])
  then show thesis by (rule that) (use h(2,3) kb(3) in simp_all)
qed

lemma gen_kexdh_param_ok:
  assumes "gen_kexdh_param s = Inr (param, s')" and "current_kex s = Inr kex"
  shows "0 < dh_priv param" and "dh_pub param = 2 ^ nat (dh_priv param) mod load_dh_p kex" and "\<exists>w. s' = s\<lparr>world := w\<rparr>"
    and "0 < load_dh_p kex"
  using assms gen_random_range
  by (auto simp: gen_kexdh_param_def Let_def bindr_eq_Inr_iff mp_exptmod_def DH_G_VAL_def split: option.splits if_splits)

text \<open>
  C13. Diffie-Hellman on both sides: a client and a server that agree on the group and on the transcript
  so far generate their values and each combines its own with the other's. Both succeed when
  the values are in the range \<open>[2, p-2]\<close> and there is room; they have the same shared secret \<open>2\<close>
  to the product of the private values, and the same exchange hash, which is the hash of the
  transcript, the host key, the client's value, the server's value and the secret, RFC 4253 section 8.
\<close>

theorem dh_both_sides_agree:
  assumes "\<not> isserver c0" and "isserver s0"
    and gc: "gen_kexdh_param c0 = Inr (pc, c)" and gs: "gen_kexdh_param s0 = Inr (ps, s)"
    and p: "p = load_dh_p kex" "mpint_ok p" and room: "room = 4 + length K_S + 3 * length (enc_mpint p)"
    and ec: "exchanging c0 opsc kex K_S transcript room" and es: "exchanging s0 opss kex K_S transcript room"
    and "1 < dh_pub pc" and "dh_pub pc < p - 1" and "1 < dh_pub ps" and "dh_pub ps < p - 1"
  shows "\<exists>c' s' hc hs. kexdh_comb_key opsc pc (dh_pub ps) c = Inr c' \<and> kexdh_comb_key opss ps (dh_pub pc) s = Inr s'
    \<and> (let K = 2 ^ (nat (dh_priv pc) * nat (dh_priv ps)) mod p in
       dh_K c' = Some K \<and> dh_K s' = Some K \<and> ses_hash c' = Some hc \<and> ses_hash s' = Some hs \<and> buf_content hc = buf_content hs
       \<and> buf_content hs = kex_hash kex (transcript @ enc_string K_S @ enc_mpint (dh_pub pc) @ enc_mpint (dh_pub ps) @ enc_mpint K))"
proof -
  let ?K = "2 ^ (nat (dh_priv pc) * nat (dh_priv ps)) mod p"
  have "current_kex c0 = Inr kex" "current_kex s0 = Inr kex"
    using ec es by (auto simp: exchanging_def current_kex_def)
  note c = gen_kexdh_param_ok [OF gc this(1)] and s = gen_kexdh_param_ok [OF gs this(2)]
  have same: "exchanging (x\<lparr>world := w\<rparr>) = exchanging x" for x w by (rule ext)+ (simp add: exchanging_def)
  have Kc: "?K = dh_pub ps ^ nat (dh_priv pc) mod p" and Ks: "?K = dh_pub pc ^ nat (dh_priv ps) mod p"
    using c(2) s(2) p(1) by (simp_all add: power_mod power_mult [symmetric] mult.commute)
  have lt: "dh_pub pc < p" "dh_pub ps < p" "0 \<le> dh_pub pc" "0 \<le> dh_pub ps" using assms(10-13) by linarith+
  have exc: "exchanging c opsc kex K_S transcript room" "\<not> isserver c" using ec c(3) assms(1) same by auto
  obtain hc idc where 1: "kexdh_comb_key opsc pc (dh_pub ps) c
      = Inr (c\<lparr>dh_K := Some ?K, ses_hash := Some hc, kexhashbuf := None, session_id := Some idc\<rparr>)"
    "buf_content hc = kex_hash kex (transcript @ dh_parts K_S (dh_pub pc) (dh_pub ps) ?K)"
    by (rule kexdh_comb_key_ok [OF _ p assms(12,13) _ lt(3,1) Kc refl refl, of c opsc K_S transcript]) (use exc c(1) room in simp_all)
  have exs: "exchanging s opss kex K_S transcript room" "isserver s" using es s(3) assms(2) same by auto
  obtain hs ids where 2: "kexdh_comb_key opss ps (dh_pub pc) s
      = Inr (s\<lparr>dh_K := Some ?K, ses_hash := Some hs, kexhashbuf := None, session_id := Some ids\<rparr>)"
    "buf_content hs = kex_hash kex (transcript @ dh_parts K_S (dh_pub pc) (dh_pub ps) ?K)"
    by (rule kexdh_comb_key_ok [OF _ p assms(10,11) _ lt(4,2) Ks refl refl, of s opss K_S transcript]) (use exs s(1) room in simp_all)
  show ?thesis using 1(2) 2(2) unfolding 1(1) 2(1) Let_def dh_parts_def by simp
qed

definition toy_ops :: kex_ops where
  "toy_ops = \<lparr>scalarmult = (\<lambda>k p. p), ecc_curve = (\<lambda>_. \<lparr>ec_size = 1, ec_prime = 23, ec_B = 1\<rparr>),
     ecc_make_key = (\<lambda>_ _. None), ecc_ptmul = (\<lambda>_ _ _. None), host_pub = (\<lambda>_. Inr ''host''),
     host_sign = (\<lambda>_ data e. Inr (data, e)), delay_hostkey = False,
     have_hostkey = (\<lambda>_. True), readhostkey = (\<lambda>_ _. True), signkey_generate = (\<lambda>_ _. True)\<rparr>"

definition toy_party :: "bool \<Rightarrow> nat \<Rightarrow> sshsession" where
  "toy_party srv n = plain_session\<lparr>isserver := srv, world := still_world\<lparr>entropy := (\<lambda>_. byte_of n)\<rparr>,
     newkeys := Some (zero_keys\<lparr>algo_kex := Some toy_kex\<rparr>),
     kexhashbuf := Some \<lparr>bdata = replicate 100 (CHR 0x00), blen = 0, bpos = 0, bsize = 100\<rparr>\<rparr>"

lemma toy_party_simps [simp]:
  "isserver (toy_party srv n) = srv" "world (toy_party srv n) = still_world\<lparr>entropy := (\<lambda>_. byte_of n)\<rparr>"
  "newkeys (toy_party srv n) = Some (zero_keys\<lparr>algo_kex := Some toy_kex\<rparr>)"
  "kexhashbuf (toy_party srv n) = Some \<lparr>bdata = replicate 100 (CHR 0x00), blen = 0, bpos = 0, bsize = 100\<rparr>"
  by (simp_all add: toy_party_def)

lemma toy_p: "load_dh_p toy_kex = 23" "mpint_ok 23" "enc_mpint 23 = map byte_of [0, 0, 0, 1, 23]"
  by code_simp+

lemma toy_exchanging: "exchanging (toy_party srv n) toy_ops toy_kex ''host'' [] 23"
  by (auto simp: exchanging_def zero_keys_def toy_ops_def at_end_def buf_content_def buf_room_def intro!: buf_okI)

lemma toy_random:
  "gen_random_mpint 11 (still_world\<lparr>entropy := (\<lambda>_. byte_of 5)\<rparr>) = Inr (5, still_world\<lparr>entropy := (\<lambda>_. byte_of 5)\<rparr>)"
  "gen_random_mpint 11 (still_world\<lparr>entropy := (\<lambda>_. byte_of 7)\<rparr>) = Inr (7, still_world\<lparr>entropy := (\<lambda>_. byte_of 7)\<rparr>)"
proof -
  have d: "mp_count_bits 11 = 4" "random_len 4 = 1" "nth_draw 4 1 (still_world\<lparr>entropy := (\<lambda>_. byte_of 5)\<rparr>) 0 = 5"
    "nth_draw 4 1 (still_world\<lparr>entropy := (\<lambda>_. byte_of 7)\<rparr>) 0 = 7" by code_simp+
  show "gen_random_mpint 11 (still_world\<lparr>entropy := (\<lambda>_. byte_of 5)\<rparr>) = Inr (5, still_world\<lparr>entropy := (\<lambda>_. byte_of 5)\<rparr>)"
    "gen_random_mpint 11 (still_world\<lparr>entropy := (\<lambda>_. byte_of 7)\<rparr>) = Inr (7, still_world\<lparr>entropy := (\<lambda>_. byte_of 7)\<rparr>)"
    using d by (simp_all add: gen_random_mpint_def Let_def random_loop_step skip_draws_def)
qed

lemma toy_param:
  "gen_kexdh_param (toy_party False 5) = Inr (\<lparr>dh_pub = 9, dh_priv = 5\<rparr>, toy_party False 5)"
  "gen_kexdh_param (toy_party True 7) = Inr (\<lparr>dh_pub = 13, dh_priv = 7\<rparr>, toy_party True 7)"
  using toy_random
  by (simp_all add: gen_kexdh_param_def current_kex_def toy_p Let_def mp_exptmod_def DH_G_VAL_def)

theorem dh_both_sides_agree_witness:
  "\<exists>c' s' hc hs. kexdh_comb_key toy_ops \<lparr>dh_pub = 9, dh_priv = 5\<rparr> 13 (toy_party False 5) = Inr c'
    \<and> kexdh_comb_key toy_ops \<lparr>dh_pub = 13, dh_priv = 7\<rparr> 9 (toy_party True 7) = Inr s'
    \<and> dh_K c' = Some 4 \<and> dh_K s' = Some 4 \<and> ses_hash c' = Some hc \<and> ses_hash s' = Some hs \<and> buf_content hc = buf_content hs"
  using dh_both_sides_agree [OF _ _ toy_param toy_p(1) [symmetric] toy_p(2) _ toy_exchanging toy_exchanging]
  by (auto simp: toy_p(3) Let_def)

end
