(* ===== verification/Kex_Machine.thy ===== *)
theory Kex_Machine
  imports Svr_Kex Process_Packet
begin

text \<open>
  The key exchange of a server as a state machine, \<open>common-kex.c\<close> and \<open>svr-kex.c\<close> under the dispatcher
  of \<open>process-packet.c\<close>: what each handler does to the state of the exchange, the steps of a session,
  an invariant of the states they reach, and what it gives: the order of the messages, a session id
  that never changes, new receive keys only after the peer's NEWKEYS.
\<close>

section \<open>The state of the exchange\<close>

record kview =
  v_sent :: bool
  v_recv :: bool
  v_sentnk :: bool
  v_recvnk :: bool
  v_done :: bool
  v_strict :: bool
  v_new :: "key_context option"
  v_id :: "buffer option"
  v_hashbuf :: "buffer option"
  v_trans :: "buffer option"
  v_allowed :: bool
  v_require :: nat
  v_keys :: key_context_directional
  v_server :: bool

definition kview :: "sshsession \<Rightarrow> kview" where
  "kview s = \<lparr>v_sent = sentkexinit (kexstate s), v_recv = recvkexinit (kexstate s), v_sentnk = sentnewkeys (kexstate s),
     v_recvnk = recvnewkeys (kexstate s), v_done = donefirstkex (kexstate s), v_strict = strict_kex (kexstate s),
     v_new = newkeys s, v_id = session_id s, v_hashbuf = kexhashbuf s, v_trans = transkexinit s,
     v_allowed = dataallowed s, v_require = requirenext s, v_keys = (recv (keys s))\<lparr>cipher_state := [], zstream := None\<rparr>, v_server = isserver s\<rparr>"

text \<open>
  Of the keys in use for receiving, the state of the cipher and of the stream change with every packet
  and are left out. Sending leaves all of it alone, and so do the fields that \<open>kview\<close> does not have.
\<close>

lemma kview_wire: "unwired s' = unwired s \<Longrightarrow> kview s' = kview s"
  by (frule unwiredD(1), frule unwiredD(8), frule unwiredD(9), frule unwiredD(12), frule unwiredD(13), frule unwiredD(26), frule unwiredD(27),
      frule unwiredD(39), frule unwiredD(44), frule unwiredD(45), frule unwiredD(47), frule unwiredD(48), frule unwiredD(49),
      drule unwiredD(52)) (simp add: kview_def)

lemma kview_updates [simp]:
  "kview (s\<lparr>payload := x1\<rparr>) = kview s" "kview (s\<lparr>lastpacket := x2\<rparr>) = kview s" "kview (s\<lparr>ignorenext := x3\<rparr>) = kview s"
  "kview (s\<lparr>last_packet_time_idle := x4\<rparr>) = kview s" "kview (s\<lparr>last_packet_time_keepalive_recv := x4\<rparr>) = kview s"
  "kview (s\<lparr>world := x5\<rparr>) = kview s" "kview (s\<lparr>dh_K := x6\<rparr>) = kview s" "kview (s\<lparr>dh_K_bytes := x7\<rparr>) = kview s"
  "kview (s\<lparr>ses_hash := x7\<rparr>) = kview s" "kview (s\<lparr>sigalgs := x8\<rparr>) = kview s" "kview (s\<lparr>allow_ext_info := x9\<rparr>) = kview s"
  "kview (s\<lparr>recvseq := xa\<rparr>) = kview s" "kview (s\<lparr>transseq := xa\<rparr>) = kview s" "kview (s\<lparr>writepayload := xb\<rparr>) = kview s"
  "kview (upd_world f s) = kview s"
  "kview (s\<lparr>requirenext := n\<rparr>) = (kview s)\<lparr>v_require := n\<rparr>"
  "kview (s\<lparr>newkeys := xc\<rparr>) = (kview s)\<lparr>v_new := xc\<rparr>"
  "kview (s\<lparr>session_id := xd\<rparr>) = (kview s)\<lparr>v_id := xd\<rparr>"
  "kview (s\<lparr>kexhashbuf := xd\<rparr>) = (kview s)\<lparr>v_hashbuf := xd\<rparr>"
  "kview (s\<lparr>transkexinit := xd\<rparr>) = (kview s)\<lparr>v_trans := xd\<rparr>"
  "kview (s\<lparr>dataallowed := xe\<rparr>) = (kview s)\<lparr>v_allowed := xe\<rparr>"
  by (simp_all add: kview_def upd_defs)

lemma kview_simps [simp]:
  "v_sent (kview s) = sentkexinit (kexstate s)" "v_recv (kview s) = recvkexinit (kexstate s)"
  "v_sentnk (kview s) = sentnewkeys (kexstate s)" "v_recvnk (kview s) = recvnewkeys (kexstate s)"
  "v_done (kview s) = donefirstkex (kexstate s)" "v_strict (kview s) = strict_kex (kexstate s)"
  "v_new (kview s) = newkeys s" "v_id (kview s) = session_id s" "v_hashbuf (kview s) = kexhashbuf s"
  "v_trans (kview s) = transkexinit s" "v_allowed (kview s) = dataallowed s" "v_require (kview s) = requirenext s"
  "v_keys (kview s) = (recv (keys s))\<lparr>cipher_state := [], zstream := None\<rparr>" "v_server (kview s) = isserver s"
  by (simp_all add: kview_def)

section \<open>What each step does to it\<close>

lemma put_random_wire: "put_random n s = Inr s' \<Longrightarrow> unwired s' = unwired s"
  by (auto simp: put_random_def bindr_eq_Inr_iff genrandom_def unwired_def)

lemma put_algolist_wire: "put_algolist as s = Inr s' \<Longrightarrow> unwired s' = unwired s"
  by (auto simp: put_algolist_def dest: on_write_wire)

lemmas write_wires = put_wire put_random_wire put_algolist_wire on_write_wire encrypt_packet_wire

lemma put_kexinit_wire: "put_kexinit g s = Inr s' \<Longrightarrow> unwired s' = unwired s"
  unfolding put_kexinit_def by (elim bindr_InrE) (auto dest!: write_wires)

lemma send_msg_kexinit_view:
  assumes "send_msg_kexinit None s = Inr s'"
  obtains copy where "kview s' = (kview s)\<lparr>v_sent := True, v_allowed := False, v_new := Some zero_keys, v_trans := Some copy\<rparr>"
proof -
  obtain s1 copy s2 where 1: "put_kexinit False s = Inr s1" "encrypt_packet (s1\<lparr>transkexinit := Some copy\<rparr>) = Inr s2"
    "s' = (upd_kex (\<lambda>k. k\<lparr>sentkexinit := True\<rparr>) s2)\<lparr>dataallowed := False, newkeys := Some zero_keys\<rparr>"
    using assms unfolding send_msg_kexinit_def by (auto simp: Let_def elim!: bindr_InrE)
  have "kview s1 = kview s" "kview s2 = (kview s1)\<lparr>v_trans := Some copy\<rparr>"
    using kview_wire [OF put_kexinit_wire [OF 1(1)]] kview_wire [OF encrypt_packet_wire [OF 1(2)]] by simp_all
  moreover have "kview s' = (kview s2)\<lparr>v_sent := True, v_allowed := False, v_new := Some zero_keys\<rparr>"
    unfolding 1(3) by (simp add: kview_def upd_kex_def)
  ultimately show thesis by (intro that [of copy]) simp
qed

lemma read_markers_view:
  assumes "read_markers b s = Inr (g, b', s')"
  obtains strict where "kview s' = (kview s)\<lparr>v_strict := strict\<rparr>" "donefirstkex (kexstate s) \<Longrightarrow> strict = strict_kex (kexstate s)"
  using assms unfolding read_markers_def
  by (auto simp: kview_def upd_kex_def elim!: bindr_InrE split: if_splits)

lemma direction_fresh: "direction c h co = Inr d \<Longrightarrow> \<not> valid d"
  by (auto simp: direction_def no_algos_def split: option.splits prod.splits)

lemma negotiate_fresh:
  assumes "negotiate g s b = Inr (nk, gd, follows, b')"
  shows "algo_kex nk \<noteq> None" and "\<not> valid (recv nk)" and "\<not> valid (trans nk)"
  using assms unfolding negotiate_def Let_def
  by (auto simp: split_beta elim!: bindr_InrE dest!: direction_fresh split: if_splits)

lemma read_kex_algos_view:
  assumes "read_kex_algos g s = Inr s'"
  obtains nk strict where "kview s' = (kview s)\<lparr>v_new := Some nk, v_strict := strict\<rparr>" "algo_kex nk \<noteq> None"
    "\<not> valid (recv nk)" "\<not> valid (trans nk)" "donefirstkex (kexstate s) \<Longrightarrow> strict = strict_kex (kexstate s)"
proof -
  obtain b g2 b1 s1 nk gd fol b2 where 1: "read_markers b s = Inr (g2, b1, s1)" "negotiate g2 s1 b1 = Inr (nk, gd, fol, b2)"
    and s': "s' = (upd_kex (\<lambda>k. k\<lparr>them_firstfollows := fol \<or> them_firstfollows k,
                  our_first_follows_matches := g \<noteq> None \<and> gd \<or> our_first_follows_matches k\<rparr>) s1)
            \<lparr>payload := Some b2, ignorenext := fol \<and> \<not> gd \<or> ignorenext s1, newkeys := Some nk\<rparr>"
    using assms unfolding read_kex_algos_def by (auto simp: split_beta elim!: bindr_InrE split: option.splits)
  obtain strict where v: "kview s1 = (kview s)\<lparr>v_strict := strict\<rparr>" "donefirstkex (kexstate s) \<Longrightarrow> strict = strict_kex (kexstate s)"
    using read_markers_view [OF 1(1)] by blast
  have "kview s' = (kview s1)\<lparr>v_new := Some nk\<rparr>" unfolding s' by (simp add: kview_def upd_kex_def)
  then show thesis using that [of strict nk] v negotiate_fresh [OF 1(2)] by simp
qed

lemma recv_msg_kexinit_stages:
  assumes "recv_msg_kexinit g s = Inr s'"
  obtains s1 ident sent pl kb s2 theirs pl2 kb2 where
    "(if \<not> sentkexinit (kexstate s) then send_msg_kexinit g s else Inr s) = Inr s1" "\<not> recvkexinit (kexstate s1)"
    "remoteident s1 = Some ident" "transkexinit s1 = Some sent" "payload s1 = Some pl"
    "buf_new (of_nat (length LOCAL_IDENT) + of_nat (length (c_string ident)) + blen sent + blen pl + KEXHASHBUF_MAX_INTS) = Inr kb"
    "read_kex_algos g s1 = Inr s2" "whole_payload s2 = Inr (theirs, pl2)"
    "(if isserver s2 then put_transcript (c_string ident) LOCAL_IDENT theirs (buf_content sent) kb
      else put_transcript LOCAL_IDENT (c_string ident) (buf_content sent) theirs kb) = Inr kb2"
    "s' = (upd_kex (\<lambda>k. k\<lparr>recvkexinit := True\<rparr>) s2)\<lparr>payload := Some pl2, kexhashbuf := Some kb2, transkexinit := None,
       requirenext := (if isserver s2 then SSH_MSG_KEXDH_INIT else SSH_MSG_KEXDH_REPLY)\<rparr>"
    "strict_kex (kexstate s2) \<Longrightarrow> donefirstkex (kexstate s2) \<or> recvseq s2 = 1"
proof -
  obtain s1 where 1: "(if \<not> sentkexinit (kexstate s) then send_msg_kexinit g s else Inr s) = Inr s1"
    using assms unfolding recv_msg_kexinit_def by (elim bindr_InrE)
  note rest = assms [unfolded recv_msg_kexinit_def 1 bindr_Inr]
  then obtain ident sent pl where 2: "\<not> recvkexinit (kexstate s1)" "remoteident s1 = Some ident" "transkexinit s1 = Some sent" "payload s1 = Some pl"
    by (auto split: if_splits option.splits)
  obtain kb s2 where 3: "buf_new (of_nat (length LOCAL_IDENT) + of_nat (length (c_string ident)) + blen sent + blen pl + KEXHASHBUF_MAX_INTS) = Inr kb"
    "read_kex_algos g s1 = Inr s2"
    using rest by (auto simp: 2 Let_def elim!: bindr_InrE)
  obtain theirs pl2 where 4: "whole_payload s2 = Inr (theirs, pl2)"
    using rest by (auto simp: 2 3 Let_def elim!: bindr_InrE)
  obtain kb2 where 5: "(if isserver s2 then put_transcript (c_string ident) LOCAL_IDENT theirs (buf_content sent) kb
      else put_transcript LOCAL_IDENT (c_string ident) (buf_content sent) theirs kb) = Inr kb2"
    using rest by (simp only: 2 3 4 Let_def option.case prod.case if_False bindr_Inr) (elim bindr_InrE)
  show thesis
    by (rule that [OF 1 2 3 4 5])
      (use rest in \<open>simp_all only: 2 3 4 5 Let_def option.case prod.case if_False bindr_Inr upd_kex_def split: if_splits\<close>, auto)
qed

lemma recv_msg_kexinit_view:
  assumes "recv_msg_kexinit None s = Inr s'" and "isserver s"
  obtains nk kb strict where "kview s' = (kview s)\<lparr>v_sent := True, v_recv := True, v_new := Some nk, v_hashbuf := Some kb, v_trans := None,
      v_allowed := (dataallowed s \<and> sentkexinit (kexstate s)), v_strict := strict, v_require := SSH_MSG_KEXDH_INIT\<rparr>"
    "\<not> recvkexinit (kexstate s)" "algo_kex nk \<noteq> None" "\<not> valid (recv nk)" "\<not> valid (trans nk)"
    "donefirstkex (kexstate s) \<Longrightarrow> strict = strict_kex (kexstate s)"
proof -
  obtain s1 s2 pl kb where 1: "(if \<not> sentkexinit (kexstate s) then send_msg_kexinit None s else Inr s) = Inr s1" "\<not> recvkexinit (kexstate s1)"
    "read_kex_algos None s1 = Inr s2"
    and s': "s' = (upd_kex (\<lambda>k. k\<lparr>recvkexinit := True\<rparr>) s2)\<lparr>payload := Some pl, kexhashbuf := Some kb, transkexinit := None,
       requirenext := (if isserver s2 then SSH_MSG_KEXDH_INIT else SSH_MSG_KEXDH_REPLY)\<rparr>"
    by (rule recv_msg_kexinit_stages [OF assms(1)]) (rule that; assumption)
  obtain x y where v1: "kview s1 = (kview s)\<lparr>v_sent := True, v_allowed := (dataallowed s \<and> sentkexinit (kexstate s)), v_new := x, v_trans := y\<rparr>"
  proof (cases "sentkexinit (kexstate s)")
    case True
    then have "kview s1 = (kview s)\<lparr>v_sent := True, v_allowed := (dataallowed s \<and> sentkexinit (kexstate s)),
        v_new := newkeys s, v_trans := transkexinit s\<rparr>" using 1(1) by (simp add: kview_def)
    then show ?thesis by (rule that)
  next
    case False
    then have "send_msg_kexinit None s = Inr s1" using 1(1) by simp
    then show ?thesis by (rule send_msg_kexinit_view) (use False that in simp)
  qed
  obtain nk strict where v2: "kview s2 = (kview s1)\<lparr>v_new := Some nk, v_strict := strict\<rparr>" "algo_kex nk \<noteq> None"
    "\<not> valid (recv nk)" "\<not> valid (trans nk)" "donefirstkex (kexstate s1) \<Longrightarrow> strict = strict_kex (kexstate s1)"
    using read_kex_algos_view [OF 1(3)] by blast
  have k: "recvkexinit (kexstate s1) = recvkexinit (kexstate s)" "donefirstkex (kexstate s1) = donefirstkex (kexstate s)"
    "strict_kex (kexstate s1) = strict_kex (kexstate s)"
    using arg_cong [OF v1, of v_recv] arg_cong [OF v1, of v_done] arg_cong [OF v1, of v_strict] by simp_all
  have "isserver s2" using arg_cong [OF v1, of v_server] arg_cong [OF v2(1), of v_server] assms(2) by simp
  then have "kview s' = (kview s2)\<lparr>v_recv := True, v_hashbuf := Some kb, v_trans := None, v_require := SSH_MSG_KEXDH_INIT\<rparr>"
    unfolding s' by (simp add: kview_def upd_kex_def)
  then have "kview s' = (kview s)\<lparr>v_sent := True, v_recv := True, v_new := Some nk, v_hashbuf := Some kb, v_trans := None,
      v_allowed := (dataallowed s \<and> sentkexinit (kexstate s)), v_strict := strict, v_require := SSH_MSG_KEXDH_INIT\<rparr>"
    unfolding v2(1) v1 by simp
  then show thesis by (rule that) (use v2 1(2) k in simp_all)
qed

lemma finish_kexhashbuf_view:
  assumes "finish_kexhashbuf s = Inr s'"
  obtains sid where "kview s' = (kview s)\<lparr>v_hashbuf := None, v_id := Some sid\<rparr>" "\<And>x. session_id s = Some x \<Longrightarrow> sid = x"
    "kexhashbuf s \<noteq> None" "ses_hash s' \<noteq> None"
  using assms unfolding finish_kexhashbuf_def
  by (auto split: option.splits elim!: bindr_InrE)

definition hashed :: "sshsession \<Rightarrow> sshsession \<Rightarrow> bool" where
  "hashed s s' \<longleftrightarrow> kexhashbuf s \<noteq> None \<and> (\<exists>sid. kview s' = (kview s)\<lparr>v_hashbuf := None, v_id := Some sid\<rparr>
     \<and> (session_id s = None \<or> session_id s = Some sid))"

lemma hashedI:
  assumes "bindr (on_kexhash f s1) finish_kexhashbuf = Inr s2" and "kview s1 = kview s" and "kview s' = kview s2"
  shows "hashed s s'"
proof -
  obtain t where t: "on_kexhash f s1 = Inr t" "finish_kexhashbuf t = Inr s2" using assms(1) by (elim bindr_InrE)
  obtain kb where kb: "t = s1\<lparr>kexhashbuf := Some kb\<rparr>" "kexhashbuf s1 \<noteq> None"
    using t(1) by (auto simp: on_kexhash_def split: option.splits elim!: bindr_InrE)
  obtain sid where sid: "kview s2 = (kview t)\<lparr>v_hashbuf := None, v_id := Some sid\<rparr>" "\<And>x. session_id t = Some x \<Longrightarrow> sid = x"
    by (rule finish_kexhashbuf_view [OF t(2)]) (rule that; assumption)
  have "session_id s1 = session_id s" "kexhashbuf s1 = kexhashbuf s"
    using arg_cong [OF assms(2), of v_id] arg_cong [OF assms(2), of v_hashbuf] by simp_all
  then show ?thesis using sid kb assms(2,3) by (cases "session_id s") (auto simp: hashed_def)
qed

lemma comb_key_hashed:
  "kexdh_comb_key ops param them s = Inr s' \<Longrightarrow> hashed s s'"
  "kexcurve25519_comb_key ops cparam q s = Inr s' \<Longrightarrow> hashed s s'"
  "kexecdh_comb_key ops eparam q s = Inr s' \<Longrightarrow> hashed s s'"
  subgoal by (auto simp: kexdh_comb_key_def Let_def split: if_splits option.splits elim!: bindr_InrE [of "current_kex s"] hashedI)
  subgoal by (auto simp: kexcurve25519_comb_key_def Let_def elim!: bindr_InrE [of "kexcurve25519_derive ops cparam q"] hashedI)
  subgoal by (auto simp: kexecdh_comb_key_def Let_def split: option.splits
        elim!: bindr_InrE [of "current_kex s"] bindr_InrE [of "buf_get_ecc_raw_pubkey _ q"]
          bindr_InrE [of "dropbear_ecc_shared_secret ops _ _ eparam"] hashedI)
  done

lemma kem_part_view: "kem_part kem param pub s = Inr (k, param', s') \<Longrightarrow> kview s' = kview s"
  by (auto simp: kem_part_def split: if_splits option.splits prod.splits elim!: bindr_InrE)

lemma pqhybrid_hashed: "kexpqhybrid_comb_key ops param q s = Inr (param', s') \<Longrightarrow> hashed s s'"
proof -
  assume "kexpqhybrid_comb_key ops param q s = Inr (param', s')"
  then obtain kem pub k param1 s1 Kb f s2 where "kem_part kem param pub s = Inr (k, param1, s1)"
    "on_kexhash f (s1\<lparr>dh_K_bytes := Some Kb\<rparr>) = Inr s2" "finish_kexhashbuf s2 = Inr s'"
    unfolding kexpqhybrid_comb_key_def Let_def by (auto split: option.splits if_splits elim!: bindr_InrE)
  then show ?thesis using hashedI [of f "s1\<lparr>dh_K_bytes := Some Kb\<rparr>" s' s s'] kem_part_view by auto
qed

lemma hashed_view_cong:
  assumes "hashed s1 s2" and "kview s1 = kview s" and "kview s' = kview s2"
  shows "hashed s s'"
proof -
  have "session_id s1 = session_id s" "kexhashbuf s1 = kexhashbuf s"
    using arg_cong [OF assms(2), of v_id] arg_cong [OF assms(2), of v_hashbuf] by simp_all
  then show ?thesis using assms unfolding hashed_def by auto
qed

lemma gen_param_view:
  "gen_kexdh_param s = Inr (param, s') \<Longrightarrow> kview s' = kview s"
  "gen_kexecdh_param ops s = Inr (ek, s') \<Longrightarrow> kview s' = kview s"
  "gen_kexcurve25519_param ops s = (ck, s') \<Longrightarrow> kview s' = kview s"
  "gen_kexpqhybrid_param ops s = Inr (pk, s') \<Longrightarrow> kview s' = kview s"
  by (auto simp: gen_kexdh_param_def gen_kexecdh_param_def gen_kexcurve25519_param_def gen_kexpqhybrid_param_def Let_def
      split: option.splits prod.splits if_splits elim!: bindr_InrE)

lemma on_write_view: "on_write f s = Inr s' \<Longrightarrow> kview s' = kview s"
  by (intro kview_wire on_write_wire)

lemma put_exchange_value_hashed:
  assumes "put_exchange_value ops e q s = Inr s'"
  shows "hashed s s'"
proof -
  obtain kex where kex: "current_kex s = Inr kex" using assms unfolding put_exchange_value_def by (elim bindr_InrE)
  note rest = assms [unfolded put_exchange_value_def kex bindr_Inr]
  note rules = hashed_view_cong [OF comb_key_hashed(1) gen_param_view(1) on_write_view]
    hashed_view_cong [OF comb_key_hashed(3) gen_param_view(2) on_write_view]
    hashed_view_cong [OF comb_key_hashed(2) gen_param_view(3) on_write_view]
    hashed_view_cong [OF pqhybrid_hashed gen_param_view(4) on_write_view]
  show ?thesis
    using rest
    by (cases "kex_mode kex"; cases q) (auto split: prod.splits option.splits elim!: bindr_InrE intro: rules)
qed

lemma buf_put_sign_view: "buf_put_sign ops t d s = Inr s' \<Longrightarrow> kview s' = kview s"
  using kview_wire [OF put_wire(3)] by (fastforce simp: buf_put_sign_def elim!: bindr_InrE)

lemma send_msg_kexdh_reply_hashed:
  assumes "send_msg_kexdh_reply ops e q s = Inr s'"
  shows "hashed s s'"
proof -
  obtain s2 s3 s4 where st: "put_byte SSH_MSG_KEXDH_REPLY s = Inr s2"
    "on_write (buf_put_pub_key ops (current_hostkey s2)) s2 = Inr s3" "put_exchange_value ops e q s3 = Inr s4"
    and rest: "(case (newkeys s4, ses_hash s4) of (Some nk, Some h) \<Rightarrow> bindr (buf_put_sign ops (algo_signature nk) (buf_content h) s4) encrypt_packet
       | _ \<Rightarrow> Inl Mem_fault) = Inr s'"
    using assms unfolding send_msg_kexdh_reply_def by (elim bindr_InrE)
  have 1: "kview s3 = kview s" using on_write_view [OF st(2)] kview_wire [OF put_wire(1) [OF st(1)]] by simp
  have 2: "kview s' = kview s4" using rest buf_put_sign_view kview_wire [OF encrypt_packet_wire]
    by (fastforce split: option.splits elim!: bindr_InrE)
  show ?thesis by (rule hashed_view_cong [OF put_exchange_value_hashed [OF st(3)] 1 2])
qed

lemma read_exchange_value_view: "read_exchange_value kex s = Inr (e, q, s') \<Longrightarrow> kview s' = kview s"
  by (auto simp: read_exchange_value_def on_read_def split: if_splits option.splits elim!: bindr_InrE)

lemma gen_new_keys_view:
  assumes "gen_new_keys s = Inr s'"
  obtains nk where "kview s' = (kview s)\<lparr>v_new := Some nk\<rparr>" "valid (recv nk)" "algo_kex nk \<noteq> None"
  using assms unfolding gen_new_keys_def Let_def by (auto split: option.splits elim!: bindr_InrE)

lemma new_zstream_result: "new_zstream init z old new = Inr d \<Longrightarrow> \<exists>st. d = new\<lparr>zstream := st\<rparr>"
  by (auto simp: new_zstream_def split: if_splits option.splits elim!: bindr_InrE)

lemma switch_trans_view:
  assumes "switch_trans nk s = Inr (nk', s')"
  shows "kview s' = kview s" "kexstate s' = kexstate s" "recv nk' = recv nk" "algo_kex nk' = algo_kex nk"
  using assms by (auto simp: switch_trans_def kview_def split: if_splits elim!: bindr_InrE)

text \<open>Our NEWKEYS, when the peer's has not come yet: the keys for receiving wait.\<close>

lemma send_msg_newkeys_view:
  assumes "send_msg_newkeys s = Inr s'" and "\<not> recvnewkeys (kexstate s)"
  obtains nk where "kview s' = (kview s)\<lparr>v_sentnk := True, v_done := True, v_allowed := True, v_new := Some nk\<rparr>"
    "valid (recv nk)" "algo_kex nk \<noteq> None"
proof -
  let ?flags = "\<lambda>k. k\<lparr>sentnewkeys := True, donesecondkex := donefirstkex k \<or> donesecondkex k, donefirstkex := True\<rparr>"
  obtain s1 s2 s3 s4 where st: "put_byte SSH_MSG_NEWKEYS s = Inr s1" "encrypt_packet s1 = Inr s2"
    "gen_new_keys ((upd_kex ?flags s2)\<lparr>dataallowed := True\<rparr>) = Inr s3" "switch_keys s3 = Inr s4"
    and s': "s' = (if strict_kex (kexstate s4) then s4\<lparr>transseq := 0\<rparr> else s4)"
    using assms(1) unfolding send_msg_newkeys_def Let_def by (auto elim!: bindr_InrE)
  let ?t = "(upd_kex ?flags s2)\<lparr>dataallowed := True\<rparr>"
  have v2: "kview s2 = kview s" using kview_wire [OF put_wire(1) [OF st(1)]] kview_wire [OF encrypt_packet_wire [OF st(2)]] by simp
  obtain nk where g: "kview s3 = (kview ?t)\<lparr>v_new := Some nk\<rparr>" "valid (recv nk)" "algo_kex nk \<noteq> None"
    by (rule gen_new_keys_view [OF st(3)])
  have vt: "kview ?t = (kview s)\<lparr>v_sentnk := True, v_done := True, v_allowed := True\<rparr>"
    unfolding v2 [symmetric] by (simp add: kview_def upd_kex_def)
  have nr: "\<not> recvnewkeys (kexstate s3)" and n3: "newkeys s3 = Some nk"
    using arg_cong [OF g(1), of v_recvnk] arg_cong [OF g(1), of v_new] arg_cong [OF vt, of v_recvnk] assms(2) by simp_all
  have "bindr (switch_trans nk s3) (\<lambda>(nk, s). Inr (end_switch nk s)) = Inr s4"
    using st(4) nr n3 unfolding switch_keys_def by (simp add: switch_recv_def split: if_splits)
  then obtain nk' s5 where tr: "switch_trans nk s3 = Inr (nk', s5)" and s4: "s4 = end_switch nk' s5"
    by (auto elim!: bindr_InrE)
  note tv = switch_trans_view [OF tr]
  have "kview s' = kview s4" unfolding s' by simp
  then have "kview s' = (kview s)\<lparr>v_sentnk := True, v_done := True, v_allowed := True, v_new := Some nk'\<rparr>"
    using g(1) vt tv(1,2) nr by (simp add: s4 end_switch_def)
  then show thesis by (rule that) (use tv g in simp_all)
qed

text \<open>The peer's NEWKEYS after ours: the keys that waited come into use and the exchange is over.\<close>

definition wait_keys :: "key_context \<Rightarrow> key_context_directional" where
  "wait_keys nk = (recv nk)\<lparr>cipher_state := [], zstream := None\<rparr>"

lemma recv_msg_newkeys_view:
  assumes "recv_msg_newkeys s = Inr s'" and "sentnewkeys (kexstate s)" and "newkeys s = Some nk" and "valid (recv nk)"
  shows "kview s' = (kview s)\<lparr>v_sent := False, v_recv := False, v_sentnk := False, v_recvnk := False, v_new := None,
      v_keys := wait_keys nk\<rparr>"
proof -
  let ?s = "upd_kex (\<lambda>k. k\<lparr>recvnewkeys := True\<rparr>) s"
  obtain s1 where s1: "switch_keys ?s = Inr s1"
    and s': "s' = upd_kex (\<lambda>k. k\<lparr>recvfirstnewkeys := True\<rparr>) (if strict_kex (kexstate s1) then s1\<lparr>recvseq := 0\<rparr> else s1)"
    using assms(1) unfolding recv_msg_newkeys_def by (auto simp: Let_def elim!: bindr_InrE)
  have n: "newkeys ?s = Some nk" "recvnewkeys (kexstate ?s)" "sentnewkeys (kexstate ?s)" using assms(2,3) by (simp_all add: upd_kex_def)
  obtain d nk2 s2 where d: "gen_new_zstream_recv nk ?s = Inr d"
    "switch_trans (nk\<lparr>recv := no_algos\<rparr>) (?s\<lparr>keys := (keys ?s)\<lparr>recv := d\<rparr>\<rparr>) = Inr (nk2, s2)" "s1 = end_switch nk2 s2"
    using s1 n assms(4) unfolding switch_keys_def by (auto simp: switch_recv_def split: if_splits elim!: bindr_InrE)
  note tv = switch_trans_view [OF d(2)]
  obtain st where st: "d = (recv nk)\<lparr>zstream := st\<rparr>" using new_zstream_result d(1) unfolding gen_new_zstream_recv_def by blast
  have "kview s2 = (kview s)\<lparr>v_recvnk := True, v_keys := wait_keys nk\<rparr>"
    unfolding tv(1) by (simp add: kview_def upd_kex_def st wait_keys_def)
  moreover have "kview s1 = (kview s2)\<lparr>v_sent := False, v_recv := False, v_sentnk := False, v_recvnk := False, v_new := None\<rparr>"
    using tv(2) n(2,3) by (simp add: d(3) end_switch_def kexinitialise_def upd_kex_def kview_def)
  moreover have "kview s' = kview s1" by (simp add: s' kview_def upd_kex_def)
  ultimately show ?thesis by simp
qed

lemma send_msg_ext_info_view: "send_msg_ext_info s = Inr s' \<Longrightarrow> kview s' = kview s"
  unfolding send_msg_ext_info_def
  by (elim bindr_InrE) (auto dest!: put_wire on_write_wire encrypt_packet_wire intro!: kview_wire)

lemma recv_msg_kexdh_init_view:
  assumes "recv_msg_kexdh_init ops s = Inr s'" and "\<not> recvnewkeys (kexstate s)"
  obtains sid nk where "kview s' = (kview s)\<lparr>v_hashbuf := None, v_id := Some sid, v_sentnk := True, v_done := True, v_allowed := True,
      v_new := Some nk, v_require := SSH_MSG_NEWKEYS\<rparr>"
    "recvkexinit (kexstate s)" "kexhashbuf s \<noteq> None" "session_id s = None \<or> session_id s = Some sid" "valid (recv nk)" "algo_kex nk \<noteq> None"
proof -
  have r: "recvkexinit (kexstate s)" using assms(1) by (simp add: recv_msg_kexdh_init_def split: if_splits)
  obtain kex e q s1 where 1: "current_kex s = Inr kex" "read_exchange_value kex s = Inr (e, q, s1)"
    using assms(1) r unfolding recv_msg_kexdh_init_def by (auto elim!: bindr_InrE)
  note rest = assms(1) [unfolded recv_msg_kexdh_init_def 1 bindr_Inr prod.case]
  obtain pl where pl: "payload s1 = Some pl" "bpos pl = blen pl" using rest r by (auto simp: 1 split: option.splits if_splits)
  have "bindr (send_msg_kexdh_reply ops e q s1) (\<lambda>s. bindr (send_msg_newkeys s) (\<lambda>s.
      bindr (if \<not> donesecondkex (kexstate s) \<and> allow_ext_info s then send_msg_ext_info s else Inr s) (\<lambda>s.
      bindr (if \<not> donesecondkex (kexstate s)
             then (case newkeys s of None \<Rightarrow> Inl Mem_fault | Some nk \<Rightarrow> Inr (disable_sig_except (algo_signature nk) s))
             else Inr s) (\<lambda>s. Inr (s\<lparr>requirenext := SSH_MSG_NEWKEYS\<rparr>))))) = Inr s'"
    using rest r by (simp add: 1 pl)
  then obtain s2 s3 s4 s5 where 2: "send_msg_kexdh_reply ops e q s1 = Inr s2" "send_msg_newkeys s2 = Inr s3"
    "(if \<not> donesecondkex (kexstate s3) \<and> allow_ext_info s3 then send_msg_ext_info s3 else Inr s3) = Inr s4"
    "(if \<not> donesecondkex (kexstate s4) then (case newkeys s4 of None \<Rightarrow> Inl Mem_fault | Some nk \<Rightarrow> Inr (disable_sig_except (algo_signature nk) s4))
      else Inr s4) = Inr s5" "(Inr (s5\<lparr>requirenext := SSH_MSG_NEWKEYS\<rparr>) :: sshsession res) = Inr s'"
    by (elim bindr_InrE)
  have v1: "kview s1 = kview s" by (rule read_exchange_value_view [OF 1(2)])
  have h: "hashed s s2" by (rule hashed_view_cong [OF send_msg_kexdh_reply_hashed [OF 2(1)] v1 refl])
  then obtain sid where sid: "kview s2 = (kview s)\<lparr>v_hashbuf := None, v_id := Some sid\<rparr>" "session_id s = None \<or> session_id s = Some sid" "kexhashbuf s \<noteq> None"
    unfolding hashed_def by blast
  have nr: "\<not> recvnewkeys (kexstate s2)" using arg_cong [OF sid(1), of v_recvnk] assms(2) by simp
  obtain nk where nk: "kview s3 = (kview s2)\<lparr>v_sentnk := True, v_done := True, v_allowed := True, v_new := Some nk\<rparr>"
    "valid (recv nk)" "algo_kex nk \<noteq> None" by (rule send_msg_newkeys_view [OF 2(2) nr])
  have "kview s4 = kview s3" using 2(3) send_msg_ext_info_view by (auto split: if_splits)
  moreover have "kview s5 = kview s4" using 2(4) by (auto simp: disable_sig_except_def split: if_splits option.splits)
  ultimately have "kview s' = (kview s)\<lparr>v_hashbuf := None, v_id := Some sid, v_sentnk := True, v_done := True, v_allowed := True,
      v_new := Some nk, v_require := SSH_MSG_NEWKEYS\<rparr>" using 2(5) nk(1) sid(1) by auto
  then show thesis by (rule that) (use r sid nk in simp_all)
qed

section \<open>The dispatcher\<close>

text \<open>A packet is either not handed to a handler or only when it is the one required, if any is.\<close>

lemma recv_unimplemented_view: "recv_unimplemented s = Inr s' \<Longrightarrow> kview s' = kview s"
  unfolding recv_unimplemented_def by (elim bindr_InrE) (auto dest!: put_wire encrypt_packet_wire intro!: kview_wire)

lemma process_type_view:
  assumes "process_type tbl fs t s = Inr s'"
  obtains (kept) "kview s' = kview s"
  | (handed) u where "requirenext s = 0 \<or> requirenext s = t" "kview u = (kview s)\<lparr>v_require := 0\<rparr>" "run_handler tbl t u = Inr s'"
proof -
  have same: "kview x = (kview s)\<lparr>v_require := 0\<rparr>" if "kview x = kview s" "requirenext x = 0" for x
    using that arg_cong [OF that(1), of v_require] by (simp add: kview_def)
  show thesis
  proof (cases "\<not> fs \<and> (t = SSH_MSG_IGNORE \<or> t = SSH_MSG_DEBUG \<or> t = SSH_MSG_UNIMPLEMENTED)")
    case True
    then show ?thesis using assms kept by (simp add: process_type_def)
  next
    case False
    then have no: "(\<not> fs \<and> (t = SSH_MSG_IGNORE \<or> t = SSH_MSG_DEBUG \<or> t = SSH_MSG_UNIMPLEMENTED)) = False" by simp
    show ?thesis
    proof (cases "requirenext s \<noteq> 0 \<and> requirenext s \<noteq> t")
      case True
      then show ?thesis using assms kept False unfolding process_type_def
        by (auto simp: Let_def split: if_splits dest!: recv_unimplemented_view)
    next
      case req: False
      show ?thesis
      proof (cases "ignorenext s")
        case True
        then show ?thesis using assms kept False req unfolding process_type_def by (auto simp: Let_def split: if_splits)
      next
        case False
        define s1 where "s1 = (if \<not> (t = SSH_MSG_GLOBAL_REQUEST \<or> t = SSH_MSG_REQUEST_FAILURE \<or> t = SSH_MSG_CHANNEL_FAILURE)
                 then s\<lparr>last_packet_time_idle := monotonic_now (world s)\<rparr> else s)"
        define u where "u = (if requirenext s1 \<noteq> 0 \<and> requirenext s1 = t then s1\<lparr>requirenext := 0\<rparr> else s1)"
        have v1: "kview s1 = kview s" "requirenext s1 = requirenext s" "ignorenext s1 = ignorenext s" by (simp_all add: s1_def)
        have c: "(requirenext s1 \<noteq> 0 \<and> requirenext s1 \<noteq> t) = False" "ignorenext s1 = False" using False req v1 by simp_all
        have "process_type tbl fs t s = (if \<not> authdone (authstate u) \<and> t > MAX_UNAUTH_PACKET_TYPE
            then Inl (Exit ''Received message before userauth'') else run_handler tbl t u)"
          by (simp only: process_type_def Let_def no if_False s1_def [symmetric] c u_def [symmetric])
        then have "run_handler tbl t u = Inr s'" using assms by (auto split: if_splits)
        moreover have "kview u = (kview s)\<lparr>v_require := 0\<rparr>"
          using same [of s1] v1 req by (auto simp: u_def)
        ultimately show ?thesis using handed [of u] req by auto
      qed
    qed
  qed
qed

lemma process_packet_view:
  assumes "process_packet tbl s = Inr s'"
  obtains (kept) "kview s' = kview s"
  | (handed) t u u' where "requirenext s = 0 \<or> requirenext s = t" "kview u = (kview s)\<lparr>v_require := 0\<rparr>"
      "run_handler tbl t u = Inr u'" "kview s' = kview u'"
proof -
  let ?fs = "strict_kex (kexstate s) \<and> \<not> recvfirstnewkeys (kexstate s)"
  obtain c s1 s2 where 1: "on_read buf_getbyte s = Inr (c, s1)"
    "process_type tbl ?fs (byte_val c) (s1\<lparr>last_packet_time_keepalive_recv := monotonic_now (world s1)\<rparr>) = Inr s2"
    "s' = s2\<lparr>lastpacket := byte_val c, payload := None\<rparr>"
    using assms unfolding process_packet_def Let_def by (auto elim!: bindr_InrE split: if_splits)
  obtain b where s1: "s1 = s\<lparr>payload := b\<rparr>" using 1(1) by (auto simp: on_read_def split: option.splits elim!: bindr_InrE)
  show thesis
    using 1(2)
  proof (cases rule: process_type_view)
    case kept
    then show ?thesis using that(1) by (simp add: 1(3) s1)
  next
    case (handed u)
    then show ?thesis by (intro that(2) [of "byte_val c" u s2]) (simp_all add: 1(3) s1)
  qed
qed

section \<open>The machine\<close>

text \<open>
  A handler table: those of the key exchange under their types, and others that do not touch the
  state of the exchange. A step is a new exchange started by the server itself (\<open>checktimeouts\<close> calls
  \<open>send_msg_kexinit\<close> only when none is running), a packet going through the dispatcher, or anything that
  leaves the state of the exchange alone, such as reading and writing packets.
\<close>

definition kex_types :: "nat set" where
  "kex_types = {SSH_MSG_KEXINIT, SSH_MSG_NEWKEYS, SSH_MSG_KEXDH_INIT}"

definition kex_table :: "kex_ops \<Rightarrow> (nat \<times> handler) list \<Rightarrow> bool" where
  "kex_table ops tbl \<longleftrightarrow>
     map_of tbl SSH_MSG_KEXINIT = Some (recv_msg_kexinit None)
     \<and> map_of tbl SSH_MSG_KEXDH_INIT = Some (recv_msg_kexdh_init ops)
     \<and> map_of tbl SSH_MSG_NEWKEYS = Some recv_msg_newkeys
     \<and> (\<forall>t h. t \<notin> kex_types \<longrightarrow> map_of tbl t = Some h \<longrightarrow> (\<forall>s s'. h s = Inr s' \<longrightarrow> kview s' = kview s))"

inductive kex_step :: "(nat \<times> handler) list \<Rightarrow> sshsession \<Rightarrow> sshsession \<Rightarrow> bool" for tbl where
  rekey: "\<not> sentkexinit (kexstate s) \<Longrightarrow> send_msg_kexinit None s = Inr s' \<Longrightarrow> kex_step tbl s s'"
| packet: "process_packet tbl s = Inr s' \<Longrightarrow> kex_step tbl s s'"
| elsewhere: "kview s' = kview s \<Longrightarrow> kex_step tbl s s'"

text \<open>What the states of a running server have in common.\<close>

definition kex_inv :: "kview \<Rightarrow> bool" where
  "kex_inv v \<longleftrightarrow> v_server v
     \<and> (v_new v \<noteq> None \<longleftrightarrow> v_sent v)
     \<and> (v_recv v \<longrightarrow> v_sent v) \<and> (v_sentnk v \<longrightarrow> v_recv v) \<and> \<not> v_recvnk v
     \<and> (v_allowed v \<longleftrightarrow> (v_sent v \<longrightarrow> v_sentnk v))
     \<and> (v_hashbuf v \<noteq> None \<longleftrightarrow> v_recv v \<and> \<not> v_sentnk v)
     \<and> (v_trans v \<noteq> None \<longleftrightarrow> v_sent v \<and> \<not> v_recv v)
     \<and> (v_done v \<longrightarrow> v_id v \<noteq> None) \<and> (v_sentnk v \<longrightarrow> v_done v)
     \<and> v_require v \<in> insert 0 kex_types
     \<and> (v_recv v \<and> \<not> v_sentnk v \<longrightarrow> v_require v = SSH_MSG_KEXDH_INIT)
     \<and> (v_sentnk v \<longrightarrow> v_require v = SSH_MSG_NEWKEYS)
     \<and> (\<forall>nk. v_new v = Some nk \<longrightarrow> valid (recv nk) = v_sentnk v \<and> (v_recv v \<longrightarrow> algo_kex nk \<noteq> None))"

text \<open>The three messages of an exchange and what a step may do, on the state of the exchange alone.\<close>

inductive kex_move :: "kview \<Rightarrow> kview \<Rightarrow> bool" where
  stay: "kex_move v v"
| sent: "\<not> v_sent v \<Longrightarrow> kex_move v (v\<lparr>v_sent := True, v_allowed := False, v_new := Some zero_keys, v_trans := Some copy\<rparr>)"
| kexinit: "\<not> v_recv v \<Longrightarrow> algo_kex nk \<noteq> None \<Longrightarrow> \<not> valid (recv nk) \<Longrightarrow> (v_done v \<Longrightarrow> strict = v_strict v) \<Longrightarrow>
    kex_move v (v\<lparr>v_sent := True, v_recv := True, v_new := Some nk, v_hashbuf := Some kb, v_trans := None, v_allowed := False,
      v_strict := strict, v_require := SSH_MSG_KEXDH_INIT\<rparr>)"
| kexdh: "v_recv v \<Longrightarrow> \<not> v_sentnk v \<Longrightarrow> v_id v = None \<or> v_id v = Some sid \<Longrightarrow> valid (recv nk) \<Longrightarrow> algo_kex nk \<noteq> None \<Longrightarrow>
    kex_move v (v\<lparr>v_hashbuf := None, v_id := Some sid, v_sentnk := True, v_done := True, v_allowed := True, v_new := Some nk,
      v_require := SSH_MSG_NEWKEYS\<rparr>)"
| newkeys: "v_sentnk v \<Longrightarrow> v_new v = Some nk \<Longrightarrow>
    kex_move v (v\<lparr>v_require := 0, v_sent := False, v_recv := False, v_sentnk := False, v_recvnk := False, v_new := None,
      v_keys := wait_keys nk\<rparr>)"

inductive_cases kex_moveE: "kex_move v v'"

lemma kex_move_inv: "kex_move v v' \<Longrightarrow> kex_inv v \<Longrightarrow> kex_inv v'"
  by (induction rule: kex_move.induct) (auto simp: kex_inv_def kex_types_def zero_keys_def no_keys_def no_algos_def)

lemma handler_move:
  assumes "kex_table ops tbl" and "kex_inv (kview s)" and "requirenext s = 0 \<or> requirenext s = t"
    and u: "kview u = (kview s)\<lparr>v_require := 0\<rparr>" and "run_handler tbl t u = Inr u'"
  shows "kex_move (kview s) (kview u')"
proof -
  have f: "isserver u" "sentkexinit (kexstate u) = sentkexinit (kexstate s)" "recvkexinit (kexstate u) = recvkexinit (kexstate s)"
    "sentnewkeys (kexstate u) = sentnewkeys (kexstate s)" "recvnewkeys (kexstate u) = recvnewkeys (kexstate s)" "newkeys u = newkeys s"
    "session_id u = session_id s" "donefirstkex (kexstate u) = donefirstkex (kexstate s)" "strict_kex (kexstate u) = strict_kex (kexstate s)"
    "dataallowed u = dataallowed s"
    using arg_cong [OF u, of v_server] arg_cong [OF u, of v_sent] arg_cong [OF u, of v_recv] arg_cong [OF u, of v_sentnk]
      arg_cong [OF u, of v_recvnk] arg_cong [OF u, of v_new] arg_cong [OF u, of v_id] arg_cong [OF u, of v_done]
      arg_cong [OF u, of v_strict] arg_cong [OF u, of v_allowed] assms(2) by (simp_all add: kex_inv_def)
  consider "t = SSH_MSG_KEXINIT" | "t = SSH_MSG_KEXDH_INIT" | "t = SSH_MSG_NEWKEYS" | "t \<notin> kex_types"
    by (auto simp: kex_types_def)
  then show ?thesis
  proof cases
    case 1
    then have "recv_msg_kexinit None u = Inr u'" using assms(1,5) by (simp add: kex_table_def run_handler_found)
    then obtain nk kb strict where v: "kview u' = (kview u)\<lparr>v_sent := True, v_recv := True, v_new := Some nk, v_hashbuf := Some kb, v_trans := None,
      v_allowed := (dataallowed u \<and> sentkexinit (kexstate u)), v_strict := strict, v_require := SSH_MSG_KEXDH_INIT\<rparr>"
    "\<not> recvkexinit (kexstate u)" "algo_kex nk \<noteq> None" "\<not> valid (recv nk)" "donefirstkex (kexstate u) \<Longrightarrow> strict = strict_kex (kexstate u)"
      by (rule recv_msg_kexinit_view [OF _ f(1)]) (rule that; assumption)
    have na: "(dataallowed u \<and> sentkexinit (kexstate u)) = False" using assms(2) v(2) f by (auto simp: kex_inv_def)
    have "kex_move (kview s) ((kview s)\<lparr>v_sent := True, v_recv := True, v_new := Some nk, v_hashbuf := Some kb, v_trans := None,
        v_allowed := False, v_strict := strict, v_require := SSH_MSG_KEXDH_INIT\<rparr>)"
      using v(2-5) f by (intro kex_move.kexinit) simp_all
    then show ?thesis unfolding v(1) na u by simp
  next
    case 2
    then have k: "recv_msg_kexdh_init ops u = Inr u'" using assms(1,5) by (simp add: kex_table_def run_handler_found)
    have nr: "\<not> recvnewkeys (kexstate u)" using assms(2) f by (simp add: kex_inv_def)
    obtain sid nk where v: "kview u' = (kview u)\<lparr>v_hashbuf := None, v_id := Some sid, v_sentnk := True, v_done := True, v_allowed := True,
      v_new := Some nk, v_require := SSH_MSG_NEWKEYS\<rparr>" "recvkexinit (kexstate u)" "kexhashbuf u \<noteq> None"
      "session_id u = None \<or> session_id u = Some sid" "valid (recv nk)" "algo_kex nk \<noteq> None"
      by (rule recv_msg_kexdh_init_view [OF k nr])
    have "\<not> sentnewkeys (kexstate s)" using assms(2,3) 2 by (auto simp: kex_inv_def)
    then show ?thesis using kex_move.kexdh [of "kview s" sid nk] v f u by simp
  next
    case 3
    then have k: "recv_msg_newkeys u = Inr u'" using assms(1,5) by (simp add: kex_table_def run_handler_found)
    have "recvkexinit (kexstate u)" using k by (auto simp: recv_msg_newkeys_def switch_keys_def upd_kex_def split: if_splits)
    then have sn: "sentnewkeys (kexstate s)" using assms(2,3) 3 f by (auto simp: kex_inv_def)
    then obtain nk where nk: "newkeys s = Some nk" "valid (recv nk)" using assms(2) by (auto simp: kex_inv_def)
    then have "kview u' = (kview u)\<lparr>v_sent := False, v_recv := False, v_sentnk := False, v_recvnk := False, v_new := None,
      v_keys := wait_keys nk\<rparr>" using sn f by (intro recv_msg_newkeys_view [OF k]) simp_all
    then show ?thesis using kex_move.newkeys [of "kview s" nk] sn nk u by simp
  next
    case 4
    then have "kview u' = kview u"
      using assms(1,5) recv_unimplemented_view [of u u'] by (cases "map_of tbl t") (auto simp: kex_table_def run_handler_found run_handler_unknown)
    moreover have "requirenext s = 0" using assms(2,3) 4 by (auto simp: kex_inv_def)
    ultimately have "kview u' = kview s" using u by simp
    then show ?thesis by (simp add: kex_move.stay)
  qed
qed

lemma kex_step_move:
  assumes "kex_table ops tbl" and "kex_inv (kview s)" and "kex_step tbl s s'"
  shows "kex_move (kview s) (kview s')"
  using assms(3)
proof (cases rule: kex_step.cases)
  case rekey
  obtain copy where "kview s' = (kview s)\<lparr>v_sent := True, v_allowed := False, v_new := Some zero_keys, v_trans := Some copy\<rparr>"
    by (rule send_msg_kexinit_view [OF rekey(2)])
  then show ?thesis using kex_move.sent [of "kview s" copy] rekey(1) by simp
next
  case packet
  then show ?thesis
  proof (cases rule: process_packet_view)
    case kept
    then show ?thesis by (simp add: kex_move.stay)
  next
    case (handed t u u')
    then show ?thesis using handler_move [OF assms(1,2) handed(1-3)] by simp
  qed
next
  case elsewhere
  then show ?thesis by (simp add: kex_move.stay)
qed

definition kex_fresh :: "sshsession \<Rightarrow> bool" where
  "kex_fresh s \<longleftrightarrow> isserver s \<and> (\<exists>t. kexstate s = zero_kexstate\<lparr>lastkextime := t\<rparr>) \<and> newkeys s = None
     \<and> session_id s = None \<and> kexhashbuf s = None \<and> transkexinit s = None \<and> dataallowed s \<and> requirenext s = SSH_MSG_KEXINIT"

lemma kex_fresh_inv: "kex_fresh s \<Longrightarrow> kex_inv (kview s)"
  unfolding kex_fresh_def kex_inv_def kview_simps by (elim conjE exE) (simp add: kex_types_def zero_kexstate_def)

lemma kex_run_inv:
  assumes "kex_table ops tbl" and "rtranclp (kex_step tbl) s0 s" and "kex_inv (kview s0)"
  shows "kex_inv (kview s)"
  using assms(2,3) by (induction rule: rtranclp_induct) (auto intro: kex_move_inv [OF kex_step_move [OF assms(1)]])

lemma kex_move_id:
  assumes "kex_move v v'"
  shows "v_id v = Some sid \<Longrightarrow> v_id v' = Some sid" and "v_done v \<Longrightarrow> v_done v' \<and> v_strict v' = v_strict v"
  using assms by (auto elim: kex_moveE)

lemma kex_move_keys:
  assumes "kex_move v v'" and "v_keys v' \<noteq> v_keys v"
  shows "v_sentnk v \<and> v_new v' = None \<and> \<not> v_sent v' \<and> (\<exists>nk. v_new v = Some nk \<and> v_keys v' = wait_keys nk)"
  using assms by (auto elim: kex_moveE)

lemma recv_msg_newkeys_no_fault:
  assumes "kex_inv (kview s)"
  shows "recv_msg_newkeys s \<noteq> Inl Mem_fault"
proof -
  have z: "new_zstream i z d e \<noteq> Inl Mem_fault" for i z d e
    by (auto simp: new_zstream_def bindr_eq_Inl_iff require_def split: if_splits option.splits)
  have "switch_keys t \<noteq> Inl Mem_fault" if "newkeys t = None \<longrightarrow> \<not> sentkexinit (kexstate t)" for t
    using that z by (auto simp: switch_keys_def switch_recv_def switch_trans_def gen_new_zstream_recv_def gen_new_zstream_trans_def
        bindr_eq_Inl_iff split: option.splits if_splits)
  then show ?thesis using assms by (auto simp: recv_msg_newkeys_def bindr_eq_Inl_iff upd_kex_def kex_inv_def Let_def)
qed

section \<open>What a run of the server keeps\<close>

text \<open>
  C8. In every state a server reaches, an exchange goes through its messages in order: KEXDH_INIT is the
  only packet accepted between the peer's KEXINIT and our NEWKEYS, and NEWKEYS the only one after that;
  other data may be sent exactly when no exchange is open on our side; the new keys exist exactly
  while an exchange is running, so that taking them into use never follows a NULL pointer; and
  after the first exchange there is a session id.
\<close>

theorem kex_states_ok:
  assumes "kex_table ops tbl" and "kex_fresh s0" and "rtranclp (kex_step tbl) s0 s"
  shows "kex_inv (kview s)
    \<and> (recvkexinit (kexstate s) \<longrightarrow> sentkexinit (kexstate s)) \<and> (sentnewkeys (kexstate s) \<longrightarrow> recvkexinit (kexstate s))
    \<and> (recvkexinit (kexstate s) \<and> \<not> sentnewkeys (kexstate s) \<longrightarrow> requirenext s = SSH_MSG_KEXDH_INIT \<and> kexhashbuf s \<noteq> None)
    \<and> (sentnewkeys (kexstate s) \<longrightarrow> requirenext s = SSH_MSG_NEWKEYS)
    \<and> (dataallowed s \<longleftrightarrow> (sentkexinit (kexstate s) \<longrightarrow> sentnewkeys (kexstate s)))
    \<and> (newkeys s \<noteq> None \<longleftrightarrow> sentkexinit (kexstate s)) \<and> recv_msg_newkeys s \<noteq> Inl Mem_fault
    \<and> (donefirstkex (kexstate s) \<longrightarrow> session_id s \<noteq> None)"
  using kex_run_inv [OF assms(1,3) kex_fresh_inv [OF assms(2)]] recv_msg_newkeys_no_fault [of s]
  by (auto simp: kex_inv_def)

lemma kex_run_id:
  assumes "kex_table ops tbl" and inv: "kex_inv (kview s)" and "rtranclp (kex_step tbl) s s'"
  shows "(session_id s = Some sid \<longrightarrow> session_id s' = Some sid)
    \<and> (donefirstkex (kexstate s) \<longrightarrow> donefirstkex (kexstate s') \<and> strict_kex (kexstate s') = strict_kex (kexstate s))"
  using assms(3)
proof (induction rule: rtranclp_induct)
  case (step t u)
  have "kex_move (kview t) (kview u)" by (rule kex_step_move [OF assms(1) kex_run_inv [OF assms(1) step(1) inv] step(2)])
  then show ?case using kex_move_id [of "kview t" "kview u"] step(3) by auto
qed simp

text \<open>
  The session id is fixed once it is set, and so is, after the first exchange, whether the strict
  mode is on: from any state with the invariant, no later step changes them, whatever the peer sends.
\<close>

theorem session_id_never_changes:
  assumes "kex_table ops tbl" and inv: "kex_inv (kview s)" and "rtranclp (kex_step tbl) s s'"
  shows "(session_id s = Some sid \<longrightarrow> session_id s' = Some sid)
    \<and> (donefirstkex (kexstate s) \<longrightarrow> strict_kex (kexstate s') = strict_kex (kexstate s))"
  using kex_run_id [OF assms] by blast


text \<open>A server that starts and sends its first KEXINIT, with a table that also has the service requests.\<close>

lemma recv_msg_service_request_view: "recv_msg_service_request s = Inr s' \<Longrightarrow> kview s' = kview s"
proof -
  have "kview t' = kview t" if "send_msg_service_accept name t = Inr t'" for name t t'
    using that unfolding send_msg_service_accept_def by (elim bindr_InrE) (auto dest!: put_wire encrypt_packet_wire intro!: kview_wire)
  then show "recv_msg_service_request s = Inr s' \<Longrightarrow> kview s' = kview s"
    by (auto simp: recv_msg_service_request_def on_read_def split: option.splits if_splits elim!: bindr_InrE)
qed

definition svr_kextypes :: "kex_ops \<Rightarrow> (nat \<times> handler) list" where
  "svr_kextypes ops = [(SSH_MSG_SERVICE_REQUEST, recv_msg_service_request), (SSH_MSG_KEXINIT, recv_msg_kexinit None),
     (SSH_MSG_KEXDH_INIT, recv_msg_kexdh_init ops), (SSH_MSG_NEWKEYS, recv_msg_newkeys)]"

lemma svr_kextypes_ok: "kex_table ops (svr_kextypes ops)"
  by (auto simp: kex_table_def svr_kextypes_def kex_types_def recv_msg_service_request_view)

definition start_session :: sshsession where
  "start_session = plain_session\<lparr>requirenext := SSH_MSG_KEXINIT\<rparr>"

lemma start_session_fresh: "kex_fresh start_session"
  by (auto simp: kex_fresh_def start_session_def plain_session_def zero_session_def zero_kexstate_def)

lemma start_session_sends:
  obtains s where "send_msg_kexinit None start_session = Inr s" "sentkexinit (kexstate s)" "kex_step tbl start_session s"
proof -
  have r: "ready_to_send start_session"
    using plain_session_ok by (simp add: ready_to_send_def start_session_def trans_ok_def payload_ready_def plain_session_def zero_session_def)
  have len: "length (kexinit_message False start_session) \<le> 16384"
    by (simp add: kexinit_message_def kexinit_lists_def genrandom_def start_session_def plain_session_def zero_session_def)
  obtain s where s: "send_msg_kexinit None start_session = Inr s" by (rule send_msg_kexinit_ok [OF r len])
  moreover have "\<not> sentkexinit (kexstate start_session)" by (simp add: start_session_def plain_session_def zero_session_def zero_kexstate_def)
  moreover have "sentkexinit (kexstate s)" using s by (rule send_msg_kexinit_view) (drule arg_cong [of _ _ v_sent], simp)
  ultimately show thesis using that kex_step.rekey by blast
qed

theorem kex_states_ok_witness:
  "\<exists>s. send_msg_kexinit None start_session = Inr s \<and> sentkexinit (kexstate s) \<and> \<not> dataallowed s \<and> newkeys s \<noteq> None
    \<and> recv_msg_newkeys s \<noteq> Inl Mem_fault"
proof -
  obtain s where s: "send_msg_kexinit None start_session = Inr s" "sentkexinit (kexstate s)" "kex_step (svr_kextypes toy_ops) start_session s"
    by (rule start_session_sends)
  have "\<not> sentnewkeys (kexstate s)"
    using s(1) by (rule send_msg_kexinit_view)
      (drule arg_cong [of _ _ v_sentnk], simp add: start_session_def plain_session_def zero_session_def zero_kexstate_def)
  moreover have "rtranclp (kex_step (svr_kextypes toy_ops)) start_session s" using s(3) by (rule r_into_rtranclp)
  ultimately show ?thesis using kex_states_ok [OF svr_kextypes_ok start_session_fresh] s(1,2) by blast
qed

text \<open>A server that waits for the NEWKEYS of a second exchange, and the packet that brings it.\<close>

definition waiting_session :: sshsession where
  "waiting_session = plain_session\<lparr>requirenext := SSH_MSG_NEWKEYS, kexstate := zero_kexstate\<lparr>sentkexinit := True, recvkexinit := True,
       sentnewkeys := True, donefirstkex := True\<rparr>,
     session_id := Some \<lparr>bdata = ''first'', blen = 5, bpos = 0, bsize = 5\<rparr>,
     newkeys := Some \<lparr>recv = (toy_direction 16)\<lparr>valid := True\<rparr>, trans = no_algos, algo_kex = Some toy_kex, algo_hostkey = 0, algo_signature = 0\<rparr>,
     payload := Some (packet_of [byte_of SSH_MSG_NEWKEYS])\<rparr>"

lemma waiting_session_inv: "kex_inv (kview waiting_session)"
  unfolding kex_inv_def kview_simps
  by (simp add: waiting_session_def kex_types_def zero_kexstate_def plain_session_def zero_session_def)

lemma recv_msg_newkeys_plain:
  assumes "sentkexinit (kexstate u)" and "recvkexinit (kexstate u)" and "sentnewkeys (kexstate u)" and "newkeys u = Some nk"
    and "valid (recv nk)" and "\<not> valid (trans nk)" and "algo_comp (recv nk) = DROPBEAR_COMP_NONE" and "zstream (recv (keys u)) = None"
  shows "\<exists>s. recv_msg_newkeys u = Inr s \<and> recv (keys s) = (recv nk)\<lparr>zstream := None\<rparr>"
  using assms by (simp add: recv_msg_newkeys_def switch_keys_def switch_recv_def switch_trans_def gen_new_zstream_recv_def new_zstream_def
      end_switch_def kexinitialise_def upd_kex_def Let_def)

lemma waiting_session_steps:
  obtains s where "kex_step (svr_kextypes ops) waiting_session s" "algo_mac (recv (keys s)) = algo_mac (toy_direction 16)"
proof -
  let ?t = "svr_kextypes ops"
  have "waiting SSH_MSG_NEWKEYS [] waiting_session"
    using packet_of_ok [of "[byte_of 21]"] by (simp add: waiting_def waiting_session_def)
  moreover have "passes SSH_MSG_NEWKEYS waiting_session"
    by (simp add: passes_def waiting_session_def plain_session_def zero_session_def)
  ultimately obtain b where p: "process_packet ?t waiting_session = bindr (run_handler ?t SSH_MSG_NEWKEYS (handed SSH_MSG_NEWKEYS waiting_session b))
      (\<lambda>s. Inr (s\<lparr>lastpacket := SSH_MSG_NEWKEYS, payload := None\<rparr>))" by (rule process_packet_passes)
  have h: "kexstate (handed 21 waiting_session b) = kexstate waiting_session" "newkeys (handed 21 waiting_session b) = newkeys waiting_session"
    "keys (handed 21 waiting_session b) = no_keys"
    by (simp_all add: handed_def Let_def waiting_session_def plain_session_def zero_session_def)
  have "\<exists>s. recv_msg_newkeys (handed 21 waiting_session b) = Inr s \<and> recv (keys s) = (recv (the (newkeys waiting_session)))\<lparr>zstream := None\<rparr>"
    by (rule recv_msg_newkeys_plain)
      (unfold h, simp_all add: waiting_session_def zero_kexstate_def toy_direction_def no_algos_def no_keys_def)
  then obtain s where s: "recv_msg_newkeys (handed 21 waiting_session b) = Inr s"
    "recv (keys s) = (recv (the (newkeys waiting_session)))\<lparr>zstream := None\<rparr>" by blast
  then have "process_packet ?t waiting_session = Inr (s\<lparr>lastpacket := SSH_MSG_NEWKEYS, payload := None\<rparr>)"
    using p by (simp add: svr_kextypes_def)
  then show thesis using that [of "s\<lparr>lastpacket := SSH_MSG_NEWKEYS, payload := None\<rparr>"] kex_step.packet s(2)
    by (simp add: waiting_session_def)
qed


theorem session_id_never_changes_witness:
  "\<exists>s. kex_step (svr_kextypes toy_ops) waiting_session s
    \<and> session_id s = Some \<lparr>bdata = ''first'', blen = 5, bpos = 0, bsize = 5\<rparr> \<and> \<not> strict_kex (kexstate s)"
proof -
  obtain s where s: "kex_step (svr_kextypes toy_ops) waiting_session s" by (rule waiting_session_steps)
  have "session_id waiting_session = Some \<lparr>bdata = ''first'', blen = 5, bpos = 0, bsize = 5\<rparr>"
    "donefirstkex (kexstate waiting_session)" "\<not> strict_kex (kexstate waiting_session)"
    by (simp_all add: waiting_session_def zero_kexstate_def)
  moreover have "rtranclp (kex_step (svr_kextypes toy_ops)) waiting_session s" using s by (rule r_into_rtranclp)
  ultimately show ?thesis using session_id_never_changes [OF svr_kextypes_ok waiting_session_inv] s by blast
qed


section \<open>The transcript that is hashed\<close>

text \<open>Reading moves the position of a buffer and nothing else.\<close>

definition rewound :: "buffer \<Rightarrow> buffer" where
  "rewound b = b\<lparr>bpos := 0\<rparr>"

named_theorems moves \<open>reading keeps the bytes of a buffer\<close>

lemma moves_basic [moves]:
  "buf_incrpos b n = Inr b' \<Longrightarrow> rewound b' = rewound b"
  "buf_setpos b n = Inr b' \<Longrightarrow> rewound b' = rewound b"
  "buf_getbyte b = Inr (c, b') \<Longrightarrow> rewound b' = rewound b"
  by (auto simp: rewound_def buf_incrpos_def buf_setpos_def buf_getbyte_def split: if_splits elim!: bindr_InrE)

lemma moves_int [moves]: "buf_getint b = Inr (v, b') \<Longrightarrow> rewound b' = rewound b"
  by (auto simp: buf_getint_def elim!: bindr_InrE dest!: moves)

lemma moves_derived [moves]:
  "buf_getbool b = Inr (t, b') \<Longrightarrow> rewound b' = rewound b"
  "buf_getstring b = Inr (str, b') \<Longrightarrow> rewound b' = rewound b"
  "buf_eatstring b = Inr b' \<Longrightarrow> rewound b' = rewound b"
  by (auto simp: buf_getbool_def buf_getstring_def buf_eatstring_def split: if_splits elim!: bindr_InrE dest!: moves)

lemma moves_algos [moves]:
  "buf_has_algo b a = Inr (f, b') \<Longrightarrow> rewound b' = rewound b"
  "pick_algo err srv b as g = Inr (al, gd, b') \<Longrightarrow> rewound b' = rewound b"
  "pick_mac err srv b ca hs = Inr (h, b') \<Longrightarrow> rewound b' = rewound b"
  by (auto simp: buf_has_algo_def pick_algo_def pick_mac_def buf_match_algo_def Let_def
      split: option.splits prod.splits if_splits elim!: bindr_InrE dest!: moves)

lemma read_kex_algos_payload:
  assumes "read_kex_algos g s = Inr s'" and "payload s = Some b"
  shows "\<exists>b'. payload s' = Some b' \<and> rewound b' = rewound b" and "payload_beginning s' = payload_beginning s"
    and "isserver s' = isserver s"
proof -
  obtain b0 g2 b1 s1 nk gd fol b2 where 1: "buf_incrpos b 16 = Inr b0" "read_markers b0 s = Inr (g2, b1, s1)"
    "negotiate g2 s1 b1 = Inr (nk, gd, fol, b2)"
    and s': "s' = (upd_kex (\<lambda>k. k\<lparr>them_firstfollows := fol \<or> them_firstfollows k,
                  our_first_follows_matches := g \<noteq> None \<and> gd \<or> our_first_follows_matches k\<rparr>) s1)
            \<lparr>payload := Some b2, ignorenext := fol \<and> \<not> gd \<or> ignorenext s1, newkeys := Some nk\<rparr>"
    using assms unfolding read_kex_algos_def by (auto simp: split_beta elim!: bindr_InrE split: option.splits)
  have m: "rewound b1 = rewound b0" and f: "payload_beginning s1 = payload_beginning s" "isserver s1 = isserver s"
    using 1(2) by (auto simp: read_markers_def upd_kex_def split: if_splits elim!: bindr_InrE dest!: moves)
  have "rewound b2 = rewound b1"
    using 1(3) unfolding negotiate_def Let_def by (auto simp: split_beta elim!: bindr_InrE dest!: moves)
  then show "\<exists>b'. payload s' = Some b' \<and> rewound b' = rewound b" "payload_beginning s' = payload_beginning s" "isserver s' = isserver s"
    using m f moves(1) [OF 1(1)] by (simp_all add: s' upd_kex_def)
qed

lemma whole_payload_ok:
  assumes "payload s = Some b" and "rewound b = rewound pl" and "buf_ok pl" and "payload_beginning s \<le> blen pl"
  obtains b' where "whole_payload s = Inr (drop (unat (payload_beginning s)) (buf_content pl), b')"
proof -
  let ?p = "payload_beginning s"
  have f: "bdata b = bdata pl" "blen b = blen pl" "bsize b = bsize pl"
    using arg_cong [OF assms(2), of bdata] arg_cong [OF assms(2), of blen] arg_cong [OF assms(2), of bsize] by (simp_all add: rewound_def)
  have sp: "buf_setpos b ?p = Inr (b\<lparr>bpos := ?p\<rparr>)" using assms(4) f by (simp add: buf_setpos_def)
  have ok: "buf_is (b\<lparr>bpos := ?p\<rparr>) (buf_content pl) (unat ?p) (unat (bsize pl))"
    using assms(3,4) buf_ok_nat [OF assms(3)] f by (auto simp: buf_is_def buf_content_def word_le_nat_alt intro!: buf_okI)
  have "unat (blen pl - ?p) = unat (blen pl) - unat ?p" using assms(4) by (simp add: unat_sub)
  then have "buf_peek (b\<lparr>bpos := ?p\<rparr>) (blen pl - ?p) = Inr (drop (unat ?p) (buf_content pl))"
    using buf_is_peek [OF ok, of "blen pl - ?p"] length_buf_content [OF assms(3)] assms(4) by (simp add: word_le_nat_alt)
  then show thesis using assms(1) sp f by (intro that) (simp add: whole_payload_def)
qed

definition transcript :: "byte list \<Rightarrow> byte list \<Rightarrow> byte list \<Rightarrow> byte list \<Rightarrow> byte list" where
  "transcript V_C V_S I_C I_S = enc_string V_C @ enc_string V_S @ enc_string I_C @ enc_string I_S"

lemma appends_transcript [appends_rules]: "appends (put_transcript V_C V_S I_C I_S) (transcript V_C V_S I_C I_S)"
  unfolding put_transcript_def transcript_def by (intro appends_rules)

lemma kexhash_room:
  assumes "r \<le> 255" and "unat (blen sent) \<le> 100000000" and "unat (blen pl) \<le> 100000000"
  obtains kb where "buf_new (of_nat (length LOCAL_IDENT) + of_nat r + blen sent + blen pl + KEXHASHBUF_MAX_INTS) = Inr kb"
    "at_end kb" "buf_content kb = []" "buf_room kb = 3036 + r + unat (blen sent) + unat (blen pl)"
proof -
  let ?n = "of_nat (length LOCAL_IDENT) + of_nat r + blen sent + blen pl + KEXHASHBUF_MAX_INTS :: u32"
  have eq: "?n = of_nat (3036 + r + unat (blen sent) + unat (blen pl))"
    by (simp add: LOCAL_IDENT_def KEXHASHBUF_MAX_INTS_def MAX_PUBKEY_SIZE_def MAX_KEX_PARTS_def)
  have n: "unat ?n = 3036 + r + unat (blen sent) + unat (blen pl)"
    unfolding eq using assms by (intro unat_of_nat_u32) simp
  then show thesis using new_at_end [of ?n] assms that by auto
qed

text \<open>
  C12. What is hashed: when the algorithms of the peer's first KEXINIT of an exchange match ours, the
  message is accepted (unless it breaks the strict mode), and the buffer for the exchange hash holds
  both identification strings and both KEXINIT messages, the client's before the server's whichever
  side we are, each with its length, as RFC 4253 section 8 says; and it has room for at least 2996 bytes
  more, for the host key, the exchanged values and the secret.
\<close>

theorem kexinit_transcript:
  assumes "sentkexinit (kexstate s)" and "\<not> recvkexinit (kexstate s)" and "read_kex_algos g s = Inr s2"
    and "strict_kex (kexstate s2) \<longrightarrow> donefirstkex (kexstate s2) \<or> recvseq s2 = 1"
    and "transkexinit s = Some sent" and "buf_ok sent" and "unat (blen sent) \<le> 100000000" and "remoteident s = Some ident" and "length ident \<le> 255"
    and "payload s = Some pl" and "buf_ok pl" and "payload_beginning s \<le> blen pl" and "unat (blen pl) \<le> 100000000"
    and "ours = buf_content sent" and "theirs = drop (unat (payload_beginning s)) (buf_content pl)"
  shows "\<exists>s' kb. recv_msg_kexinit g s = Inr s' \<and> recvkexinit (kexstate s') \<and> kexhashbuf s' = Some kb \<and> at_end kb \<and> 2996 \<le> buf_room kb
    \<and> buf_content kb = (if isserver s then transcript (c_string ident) LOCAL_IDENT theirs ours
                         else transcript LOCAL_IDENT (c_string ident) ours theirs)"
proof -
  have r: "length (c_string ident) \<le> 255" using length_takeWhile_le [of "(\<noteq>) (CHR 0x00)" ident] assms(9) by (simp add: c_string_def)
  obtain kb where kb: "buf_new (of_nat (length LOCAL_IDENT) + of_nat (length (c_string ident)) + blen sent + blen pl + KEXHASHBUF_MAX_INTS) = Inr kb"
    "at_end kb" "buf_content kb = []" "buf_room kb = 3036 + length (c_string ident) + unat (blen sent) + unat (blen pl)"
    by (rule kexhash_room [OF r assms(7,13)])
  note rp = read_kex_algos_payload [OF assms(3,10)]
  obtain pl2 where th: "whole_payload s2 = Inr (theirs, pl2)"
    using rp whole_payload_ok [of s2 _ pl] assms(11,12,15) by metis
  define V where "V = (if isserver s then transcript (c_string ident) LOCAL_IDENT theirs ours else transcript LOCAL_IDENT (c_string ident) ours theirs)"
  have len: "length V + 2996 \<le> buf_room kb"
    using length_buf_content [OF assms(6)] length_buf_content [OF assms(11)] assms(14,15) kb(4)
    by (simp add: V_def transcript_def LOCAL_IDENT_def)
  have "appends (\<lambda>b. if isserver s2 then put_transcript (c_string ident) LOCAL_IDENT theirs (buf_content sent) b
      else put_transcript LOCAL_IDENT (c_string ident) (buf_content sent) theirs b) V"
    using rp(3) assms(14) by (cases "isserver s") (simp_all add: V_def appends_transcript)
  then have "\<exists>b'. (if isserver s2 then put_transcript (c_string ident) LOCAL_IDENT theirs (buf_content sent) kb
      else put_transcript LOCAL_IDENT (c_string ident) (buf_content sent) theirs kb) = Inr b' \<and> at_end b'
      \<and> buf_content b' = buf_content kb @ V \<and> buf_room b' = buf_room kb - length V"
    by (rule appends_at_end [OF _ kb(2)]) (use len in simp)
  then obtain kb2 where kb2: "(if isserver s2 then put_transcript (c_string ident) LOCAL_IDENT theirs (buf_content sent) kb
      else put_transcript LOCAL_IDENT (c_string ident) (buf_content sent) theirs kb) = Inr kb2"
    "at_end kb2" "buf_content kb2 = V" "2996 \<le> buf_room kb2" using kb(3) len by auto
  have "recv_msg_kexinit g s = Inr ((upd_kex (\<lambda>k. k\<lparr>recvkexinit := True\<rparr>) s2)
      \<lparr>payload := Some pl2, kexhashbuf := Some kb2, transkexinit := None,
       requirenext := (if isserver s2 then SSH_MSG_KEXDH_INIT else SSH_MSG_KEXDH_REPLY)\<rparr>)"
    unfolding recv_msg_kexinit_def using assms(1-5,8,10) kb(1) th kb2(1) by (simp add: Let_def upd_kex_def)
  then show ?thesis using kb2(2-4) unfolding V_def by (simp add: upd_kex_def)
qed

text \<open>Values for an evaluation: a message that offers one algorithm of each kind, and a server that knows them.\<close>

definition toy_hello :: "byte list" where
  "toy_hello = byte_of 20 # replicate 16 (byte_of 0) @ concat (map enc_string [''k'', ''s'', ''c'', ''c'', ''h'', ''h'', ''none'', ''none'', [], []]) @ replicate 5 (byte_of 0)"
definition toy_entry :: "string \<Rightarrow> 'd option \<Rightarrow> 'm option \<Rightarrow> ('d, 'm) algo_type" where
  "toy_entry n d m = \<lparr>aname = n, aval = 0, adata = d, ausable = True, amode = m\<rparr>"
definition hello_session :: sshsession where
  "hello_session = (zero_session still_world bare_libtom bare_libz plain_svr_opts plain_opts)
     \<lparr>isserver := True, kexstate := zero_kexstate\<lparr>sentkexinit := True\<rparr>, newkeys := Some zero_keys, remoteident := Some ''SSH-2.0-toy'',
      transkexinit := Some (packet_of toy_hello), payload := Some ((packet_of toy_hello)\<lparr>bpos := 1\<rparr>),
      sshkex := [toy_entry ''k'' (Some toy_kex) None], sigalgs := [toy_entry ''s'' None None],
      sshciphers := [toy_entry ''c'' (Some dropbear_nocipher) (Some dropbear_mode_none)],
      sshhashes := [toy_entry ''h'' (Some dropbear_nohash) None],
      compress_algos_c2s := ssh_nocompress, compress_algos_s2c := ssh_nocompress\<rparr>"

lemma hello_session_matches: "\<exists>s. read_kex_algos None hello_session = Inr s \<and> \<not> strict_kex (kexstate s)"
proof -
  have "case read_kex_algos None hello_session of Inr s \<Rightarrow> \<not> strict_kex (kexstate s) | _ \<Rightarrow> False" by code_simp
  then show ?thesis by (auto split: sum.splits)
qed

theorem kexinit_transcript_witness:
  "\<exists>s' kb. recv_msg_kexinit None hello_session = Inr s' \<and> kexhashbuf s' = Some kb
    \<and> buf_content kb = transcript ''SSH-2.0-toy'' ''SSH-2.0-dropbear_2026.94'' toy_hello toy_hello"
proof -
  have l: "length toy_hello = 76" by code_simp
  obtain s where s: "read_kex_algos None hello_session = Inr s" "\<not> strict_kex (kexstate s)" using hello_session_matches by blast
  have h: "sentkexinit (kexstate hello_session)" "\<not> recvkexinit (kexstate hello_session)" "transkexinit hello_session = Some (packet_of toy_hello)"
    "remoteident hello_session = Some ''SSH-2.0-toy''" "payload hello_session = Some ((packet_of toy_hello)\<lparr>bpos := 1\<rparr>)"
    "payload_beginning hello_session = 0" "isserver hello_session" by (simp_all add: hello_session_def zero_kexstate_def zero_session_def)
  have b: "buf_ok (packet_of toy_hello)" "buf_ok ((packet_of toy_hello)\<lparr>bpos := 1\<rparr>)" "unat (blen (packet_of toy_hello)) = 76"
    "buf_content (packet_of toy_hello) = toy_hello" "buf_content ((packet_of toy_hello)\<lparr>bpos := 1\<rparr>) = toy_hello"
    using l packet_of_ok(1) [of toy_hello] by (auto simp: packet_of_def buf_content_def intro!: buf_okI)
  have c: "c_string ''SSH-2.0-toy'' = ''SSH-2.0-toy''" by code_simp
  show ?thesis
    using kexinit_transcript [OF h(1,2) s(1) _ h(3) b(1) _ h(4) _ h(5) b(2) _ _ refl refl] s(2) b h(6,7) c
    by (auto simp: LOCAL_IDENT_def)
qed

end
