(* ===== verification/Session_Loop.thy ===== *)
theory Session_Loop
  imports Kex_Machine Userauth Channel
begin

text \<open>
  The life of a session, \<open>dropbear/src/common-session.c\<close> and \<open>svr-session.c\<close>: its start, the
  identification strings, the timeouts and the main loop around \<open>select\<close>, with the handler table of
  the server.

  One pass of the loop is a function of the session and of what the system does in it (\<open>tick\<close>): the
  time when \<open>select\<close> returns and its answer, whether a signal asked for termination, and the bytes
  of the identification string. Any time is allowed, also one before the timeout given to \<open>select\<close> has passed
  or after it; that the timeout is chosen well is a theorem below. The clock stands still during a pass, except while the
  identification string is awaited. The functions the loop reaches through pointers and the
  connections in progress of \<open>netio.c\<close> are the argument \<open>env\<close>.
\<close>

section \<open>Timeouts\<close>

definition AUTH_TIMEOUT :: int where
  "AUTH_TIMEOUT = 300"

definition KEX_REKEY_TIMEOUT :: int where
  "KEX_REKEY_TIMEOUT = 3600 * 8"

definition KEX_REKEY_DATA :: u32 where
  "KEX_REKEY_DATA = push_bit 30 1"

definition DEFAULT_KEEPALIVE_LIMIT :: int where
  "DEFAULT_KEEPALIVE_LIMIT = 3"

definition DROPBEAR_KEEPALIVE_STRING :: string where
  "DROPBEAR_KEEPALIVE_STRING = ''keepalive@openssh.com''"

text \<open>The largest \<open>long\<close> of the 64-bit platforms.\<close>

definition LONG_MAX :: int where
  "LONG_MAX = 2 ^ 63 - 1"

definition send_msg_keepalive :: handler where
  "send_msg_keepalive s =
     (let old_time_idle = last_packet_time_idle s in
      bindr (case get_any_ready_channel s of
               Some i \<Rightarrow> bindr (get_chan i s) (\<lambda>c. start_send_channel_request c DROPBEAR_KEEPALIVE_STRING s)
             | None \<Rightarrow> bindr (put_byte SSH_MSG_GLOBAL_REQUEST s) (put_string DROPBEAR_KEEPALIVE_STRING)) (\<lambda>s.
      bindr (put_byte 1 s) (\<lambda>s.
      bindr (encrypt_packet s) (\<lambda>s.
      Inr (s\<lparr>last_packet_time_keepalive_sent := monotonic_now (world s), last_packet_time_idle := old_time_idle\<rparr>)))))"

definition elapsed :: "int \<Rightarrow> int \<Rightarrow> int" where
  "elapsed now prev = (let del = now - prev in if del > LONG_MAX then LONG_MAX else del)"

text \<open>The middle part of \<open>checktimeouts\<close>, for a session with keepalives.\<close>

definition check_keepalive :: "int \<Rightarrow> handler" where
  "check_keepalive now s =
     (let secs = keepalive_secs (opts s) in
      bindr (if elapsed now (last_packet_time_any_sent s) \<ge> secs then send_msg_keepalive s else Inr s) (\<lambda>s.
      bindr (if elapsed now (last_packet_time_keepalive_recv s) \<ge> secs \<and> elapsed now (last_packet_time_keepalive_sent s) \<ge> secs
             then send_msg_keepalive s else Inr s) (\<lambda>s.
      if elapsed now (last_packet_time_keepalive_recv s) \<ge> secs * DEFAULT_KEEPALIVE_LIMIT
      then Inl (Exit ''Keepalive timeout'') else Inr s)))"

definition rekey_due :: "int \<Rightarrow> sshsession \<Rightarrow> bool" where
  "rekey_due now s \<longleftrightarrow>
     \<not> sentkexinit (kexstate s)
     \<and> (elapsed now (lastkextime (kexstate s)) \<ge> KEX_REKEY_TIMEOUT
        \<or> datarecv (kexstate s) + datatrans (kexstate s) \<ge> KEX_REKEY_DATA
        \<or> needrekey (kexstate s))"

definition checktimeouts :: handler where
  "checktimeouts s =
     (let now = monotonic_now (world s) in
      if isserver s \<and> \<not> authdone (authstate s) \<and> elapsed now (connect_time s) \<ge> AUTH_TIMEOUT
      then Inl (Close ''Timeout before auth'')
      else if remoteident s = None then Inr s
      else
        bindr (if rekey_due now s then send_msg_kexinit None (upd_kex (\<lambda>k. k\<lparr>needrekey := False\<rparr>) s) else Inr s) (\<lambda>s.
        bindr (if keepalive_secs (opts s) > 0 \<and> authdone (authstate s) then check_keepalive now s else Inr s) (\<lambda>s.
        if idle_timeout_secs (opts s) > 0 \<and> elapsed now (last_packet_time_idle s) \<ge> idle_timeout_secs (opts s)
        then Inl (Close ''Idle timeout'')
        else if max_duration_secs (opts s) > 0 \<and> elapsed now (connect_time s) \<ge> max_duration_secs (opts s)
        then Inl (Close ''Max duration reached'')
        else Inr s)))"

definition update_timeout :: "int \<Rightarrow> int \<Rightarrow> int \<Rightarrow> int \<Rightarrow> int" where
  "update_timeout limit now last_event timeout =
     (if last_event > 0 \<and> limit > 0 then min timeout (max 0 (limit - elapsed now last_event)) else timeout)"

definition select_timeout :: "sshsession \<Rightarrow> int" where
  "select_timeout s =
     (let now = monotonic_now (world s);
          timeout = KEX_REKEY_TIMEOUT;
          timeout = (if \<not> sentkexinit (kexstate s)
                     then update_timeout KEX_REKEY_TIMEOUT now (lastkextime (kexstate s)) timeout else timeout);
          timeout = (if needrekey (kexstate s) then 0 else timeout);
          timeout = (if \<not> authdone (authstate s) \<and> isserver s
                     then update_timeout AUTH_TIMEOUT now (connect_time s) timeout else timeout);
          timeout = (if authdone (authstate s)
                     then update_timeout (keepalive_secs (opts s)) now
                            (max (last_packet_time_keepalive_recv s) (last_packet_time_keepalive_sent s)) timeout
                     else timeout);
          timeout = update_timeout (idle_timeout_secs (opts s)) now (last_packet_time_idle s) timeout;
          timeout = update_timeout (max_duration_secs (opts s)) now (connect_time s) timeout in
      max timeout 0)"

section \<open>Identification strings\<close>

definition send_session_identification :: handler where
  "send_session_identification s =
     (let line = LOCAL_IDENT @ [byte_of 13, byte_of 10] in
      bindr (buf_new (of_nat (length line) + 1)) (\<lambda>b.
      bindr (buf_putbytes b line (of_nat (length line))) (\<lambda>b.
      writebuf_enqueue b s)))"

text \<open>
  What happens on the socket each time around the loop of \<open>ident_readln\<close>, with the time at which
  \<open>select\<close> returns: it fails, is interrupted or says that nothing came within a second; or a
  byte can be read, \<open>read\<close> is interrupted or fails, or the peer has closed the connection.
\<close>

datatype ident_event = Ident_select_error | Ident_select_intr | Ident_nothing | Ident_read_intr | Ident_read_error
  | Ident_eof | Ident_byte byte

type_synonym ident_events = "nat \<Rightarrow> int \<times> ident_event"

text \<open>
  The loop has read \<open>buf\<close> when event \<open>k\<close> is next. A result \<open>None\<close> inside is the return value -1; the outer
  \<open>None\<close> is a loop that does not end.
\<close>

partial_function (option) ident_loop :: "ident_events \<Rightarrow> nat \<Rightarrow> nat \<Rightarrow> byte list \<Rightarrow> sshsession
    \<Rightarrow> (byte list option \<times> nat \<times> sshsession) res option" where
  [code]: "ident_loop ev count k buf s =
     (if \<not> length buf < count - 1 then Some (Inr (Some buf, k, s))
      else case ev k of (t, e) \<Rightarrow>
        if e = Ident_select_intr then ident_loop ev count (Suc k) buf s
        else if e = Ident_select_error then Some (Inr (None, Suc k, s))
        else case checktimeouts (upd_world (\<lambda>w. w\<lparr>monotonic_now := t\<rparr>) s) of
          Inl f \<Rightarrow> Some (Inl f)
        | Inr s \<Rightarrow>
            (case e of
               Ident_byte c \<Rightarrow>
                 if c = byte_of 10 then Some (Inr (Some buf, Suc k, s))
                 else ident_loop ev count (Suc k) (if c = byte_of 13 then buf else buf @ [c]) s
             | Ident_read_error \<Rightarrow> Some (Inr (None, Suc k, s))
             | Ident_eof \<Rightarrow> Some (Inr (None, Suc k, s))
             | _ \<Rightarrow> ident_loop ev count (Suc k) buf s))"

definition ident_readln :: "ident_events \<Rightarrow> nat \<Rightarrow> nat \<Rightarrow> sshsession \<Rightarrow> (byte list option \<times> nat \<times> sshsession) res option" where
  "ident_readln ev count k s = (if count < 1 then Some (Inr (None, k, s)) else ident_loop ev count k [] s)"

text \<open>
  A client skips up to 49 other lines. After the end of the file \<open>errno\<close> may still be \<open>EINTR\<close> from before,
  and the loop then reads again, to the same end: this is the break for any other error.
\<close>

fun ident_lines :: "nat \<Rightarrow> ident_events \<Rightarrow> nat \<Rightarrow> sshsession \<Rightarrow> (byte list option \<times> sshsession) res option" where
  "ident_lines 0 ev k s = Some (Inr (None, s))"
| "ident_lines (Suc i) ev k s =
     (case ident_readln ev 256 k s of
        None \<Rightarrow> None
      | Some (Inl f) \<Rightarrow> Some (Inl f)
      | Some (Inr (None, k, s)) \<Rightarrow> Some (Inr (None, s))
      | Some (Inr (Some line, k, s)) \<Rightarrow>
          if length line + 1 \<ge> 4 \<and> take 4 (line @ [CHR 0x00]) = ''SSH-'' then Some (Inr (Some line, s))
          else ident_lines i ev k s)"

definition read_session_identification :: "ident_events \<Rightarrow> handler" where
  "read_session_identification ev s =
     (case ident_lines (if isserver s then 1 else 50) ev 0 s of
        None \<Rightarrow> Inl Loops
      | Some (Inl f) \<Rightarrow> Inl f
      | Some (Inr (None, s)) \<Rightarrow> Inl (Close ''Exited normally'')
      | Some (Inr (Some line, s)) \<Rightarrow>
          if take 6 (c_string line) \<noteq> ''SSH-2.'' \<and> take 9 (c_string line) \<noteq> ''SSH-1.99-''
          then Inl (Exit ''Incompatible remote version'')
          else Inr (s\<lparr>remoteident := Some (line @ [CHR 0x00])\<rparr>))"

section \<open>The start of a session\<close>

text \<open>\<open>pipefds\<close> are the descriptors of the signal pipe, \<open>None\<close> when \<open>pipe\<close> fails.\<close>

definition common_session_init :: "int \<Rightarrow> int \<Rightarrow> (int \<times> int) option \<Rightarrow> handler" where
  "common_session_init sin sout pipefds s =
     (let s = update_channel_prio (s\<lparr>sock_in := sin, sock_out := sout, maxfd := max sin sout, socket_prio := DROPBEAR_PRIO_NORMAL\<rparr>);
          now = monotonic_now (world s);
          s = s\<lparr>connect_time := now, last_packet_time_keepalive_recv := now, last_packet_time_idle := now,
                last_packet_time_any_sent := 0, last_packet_time_keepalive_sent := 0\<rparr> in
      case pipefds of
        None \<Rightarrow> Inl (Exit ''Signal pipe failed'')
      | Some (p0, p1) \<Rightarrow>
          bindr (buf_new TRANS_MAX_PAYLOAD_LEN) (\<lambda>wp.
          Inr (s\<lparr>maxfd := max (max (maxfd s) p0) p1, writepayload := wp, transseq := 0, readbuf := None, payload := None,
            recvseq := 0, writequeue := [], requirenext := SSH_MSG_KEXINIT, dataallowed := True, ignorenext := False,
            lastpacket := 0, reply_queue := [], reply_queue_len := 0, keys := no_keys, newkeys := None, session_id := None,
            kexhashbuf := None, transkexinit := None, dh_K := None, remoteident := None, chantypes := [],
            allowprivport := False\<rparr>)))"

definition svr_algos_initialise :: "sshsession \<Rightarrow> sshsession" where
  "svr_algos_initialise s =
     s\<lparr>sshkex := map (\<lambda>a. if aname a = SSH_EXT_INFO_C \<or> aname a = SSH_STRICT_KEX_C then a\<lparr>ausable := False\<rparr> else a) (sshkex s)\<rparr>"

definition svrchansess :: ChanType where
  "svrchansess = \<lparr>ct_name = ''session'', has_inithandler = True, has_check_close = True, has_reqhandler = True,
     has_closehandler = True, has_cleanup = True\<rparr>"

definition svr_chan_tcpdirect :: ChanType where
  "svr_chan_tcpdirect = \<lparr>ct_name = ''direct-tcpip'', has_inithandler = True, has_check_close = False, has_reqhandler = False,
     has_closehandler = False, has_cleanup = False\<rparr>"

definition svr_chan_streamlocal :: ChanType where
  "svr_chan_streamlocal = \<lparr>ct_name = ''direct-streamlocal@openssh.com'', has_inithandler = True, has_check_close = False,
     has_reqhandler = False, has_closehandler = False, has_cleanup = False\<rparr>"

definition svr_chantypes :: "ChanType list" where
  "svr_chantypes = [svrchansess, svr_chan_tcpdirect, svr_chan_streamlocal]"

text \<open>
  \<open>svr_session\<close> up to the main loop. The address strings are for the log, and \<open>svr_chansessinitialise\<close>
  sets up the table of child processes and the signal handler.
\<close>

definition svr_session_start :: "sshd4a_globals \<Rightarrow> int \<Rightarrow> int \<Rightarrow> (int \<times> int) option \<Rightarrow> handler" where
  "svr_session_start g sock pipe_to_parent pipefds s =
     bindr (common_session_init sock sock pipefds s) (\<lambda>s.
     bindr (svr_authinitialise g (s\<lparr>childpipe := pipe_to_parent\<rparr>)) (\<lambda>s.
     let s = (svr_algos_initialise (chaninitialise svr_chantypes s))\<lparr>isserver := True\<rparr> in
     bindr (send_session_identification s) (\<lambda>s.
     send_msg_kexinit None (kexfirstinitialise s))))"

section \<open>The main loop\<close>

record loop_env =
  env_globals :: sshd4a_globals
  env_signkeys :: signkey_ops
  env_stale :: bool
  env_kex :: kex_ops
  env_chans :: handlers
  env_global_request :: handler
  env_acceptor :: "nat \<Rightarrow> int \<Rightarrow> handler"
  env_loophandler :: handler
  env_set_connect :: "fd_set \<Rightarrow> sshsession \<Rightarrow> (fd_set \<times> sshsession) res"
  env_handle_connect :: "fd_set \<Rightarrow> handler"
  env_signal_pipe :: int

definition ignore_recv_response :: handler where
  "ignore_recv_response s = Inr s"

definition svr_packettypes :: "loop_env \<Rightarrow> (nat \<times> handler) list" where
  "svr_packettypes env =
     [(SSH_MSG_CHANNEL_DATA, recv_msg_channel_data),
      (SSH_MSG_CHANNEL_WINDOW_ADJUST, recv_msg_channel_window_adjust),
      (SSH_MSG_USERAUTH_REQUEST, recv_msg_userauth_request (env_globals env) (env_signkeys env) (env_stale env)),
      (SSH_MSG_SERVICE_REQUEST, recv_msg_service_request),
      (SSH_MSG_KEXINIT, recv_msg_kexinit None),
      (SSH_MSG_KEXDH_INIT, recv_msg_kexdh_init (env_kex env)),
      (SSH_MSG_NEWKEYS, recv_msg_newkeys),
      (SSH_MSG_GLOBAL_REQUEST, env_global_request env),
      (SSH_MSG_CHANNEL_REQUEST, recv_msg_channel_request (env_chans env)),
      (SSH_MSG_CHANNEL_OPEN, recv_msg_channel_open (env_chans env)),
      (SSH_MSG_CHANNEL_EOF, recv_msg_channel_eof (env_chans env)),
      (SSH_MSG_CHANNEL_CLOSE, recv_msg_channel_close (env_chans env)),
      (SSH_MSG_CHANNEL_SUCCESS, ignore_recv_response),
      (SSH_MSG_CHANNEL_FAILURE, ignore_recv_response),
      (SSH_MSG_REQUEST_FAILURE, ignore_recv_response),
      (SSH_MSG_REQUEST_SUCCESS, ignore_recv_response),
      (SSH_MSG_CHANNEL_OPEN_CONFIRMATION, recv_msg_channel_open_confirmation (env_chans env)),
      (SSH_MSG_CHANNEL_OPEN_FAILURE, recv_msg_channel_open_failure (env_chans env))]"

text \<open>The answer of \<open>select\<close>; after a timeout both sets are empty.\<close>

datatype select_answer = Select_error | Select_intr | Select_ready fd_set fd_set

record tick =
  t_now :: int
  t_exitflag :: bool
  t_answer :: select_answer
  t_ident :: ident_events

definition ask_fds :: "loop_env \<Rightarrow> sshsession \<Rightarrow> (fd_set \<times> fd_set \<times> sshsession) res" where
  "ask_fds env s =
     (let writequeue_has_space = (writequeue_len s \<le> 2 * TRANS_MAX_PAYLOAD_LEN) in
      bindr (require (payload s = None) Assert_failed) (\<lambda>_.
      bindr (dropbear_fd_set (env_signal_pipe env) []) (\<lambda>readfds.
      bindr (setchannelfds readfds [] writequeue_has_space s) (\<lambda>(readfds, writefds).
      bindr (env_set_connect env writefds s) (\<lambda>(writefds, s).
      bindr (if sock_in s \<noteq> -1 \<and> (remoteident s \<noteq> None \<or> writequeue s = []) \<and> writequeue_has_space
             then dropbear_fd_set (sock_in s) readfds else Inr readfds) (\<lambda>readfds.
      bindr (if sock_out s \<noteq> -1 \<and> writequeue s \<noteq> []
             then dropbear_fd_set (sock_out s) writefds else Inr writefds) (\<lambda>writefds.
      Inr (readfds, writefds, s))))))))"

text \<open>Which of the descriptors asked about are ready.\<close>

definition ready_fds :: "select_answer \<Rightarrow> fd_set \<times> fd_set \<Rightarrow> fd_set \<times> fd_set" where
  "ready_fds a fds =
     (case a of
        Select_ready r w \<Rightarrow> (filter (\<lambda>fd. fd \<in> set r) (fst fds), filter (\<lambda>fd. fd \<in> set w) (snd fds))
      | _ \<Rightarrow> ([], []))"

text \<open>The incoming side of one pass: a line or a packet is read, and a complete packet is handled.\<close>

definition read_socket :: "loop_env \<Rightarrow> tick \<Rightarrow> fd_set \<Rightarrow> handler" where
  "read_socket env t readfds s =
     (if sock_in s = -1 then Inr s
      else
        bindr (if sock_in s \<in> set readfds
               then (if remoteident s = None then read_session_identification (t_ident t) s else read_packet s)
               else Inr s) (\<lambda>s.
        if payload s \<noteq> None then process_packet (svr_packettypes env) s else Inr s))"

definition session_iteration :: "loop_env \<Rightarrow> tick \<Rightarrow> handler" where
  "session_iteration env t s =
     bindr (ask_fds env s) (\<lambda>(readfds, writefds, s).
     if t_exitflag t then Inl (Exit ''Terminated by signal'')
     else if t_answer t = Select_error then Inl (Exit ''Error in select'')
     else
       let (readfds, writefds) = ready_fds (t_answer t) (readfds, writefds);
           s = (upd_world (\<lambda>w. w\<lparr>monotonic_now := t_now t\<rparr>) s)\<lparr>channel_signal_pending := env_signal_pipe env \<in> set readfds\<rparr> in
       bindr (checktimeouts s) (\<lambda>s.
       bindr (read_socket env t readfds s) (\<lambda>s.
       bindr (maybe_flush_reply_queue s) (\<lambda>s.
       bindr (env_handle_connect env writefds s) (\<lambda>s.
       bindr (env_loophandler env s) (\<lambda>s.
       bindr (channelio (env_chans env) (env_acceptor env) readfds writefds s) (\<lambda>s.
       if sock_out s \<noteq> -1 \<and> writequeue s \<noteq> [] then write_packet s else Inr s)))))))"

fun session_loop :: "loop_env \<Rightarrow> tick list \<Rightarrow> handler" where
  "session_loop env [] s = Inr s"
| "session_loop env (t # ts) s = bindr (session_iteration env t s) (session_loop env ts)"

section \<open>Waiting for the identification string\<close>

text \<open>A session that waits for the string: without it \<open>checktimeouts\<close> looks only at the time for logging in.\<close>

definition unidentified :: "int \<Rightarrow> sshsession \<Rightarrow> bool" where
  "unidentified start s \<longleftrightarrow> isserver s \<and> \<not> authdone (authstate s) \<and> remoteident s = None \<and> connect_time s = start"

abbreviation at_time :: "int \<Rightarrow> sshsession \<Rightarrow> sshsession" where
  "at_time t s \<equiv> upd_world (\<lambda>w. w\<lparr>monotonic_now := t\<rparr>) s"

lemma elapsed_ge: "limit \<le> LONG_MAX \<Longrightarrow> elapsed now prev \<ge> limit \<longleftrightarrow> now - prev \<ge> limit"
  by (auto simp: elapsed_def Let_def)

lemma elapsed_le: "elapsed now prev \<le> now - prev"
  by (simp add: elapsed_def Let_def)

lemma checktimeouts_unidentified:
  assumes "unidentified start s"
  shows "checktimeouts (at_time t s) = (if t - start \<ge> 300 then Inl (Close ''Timeout before auth'') else Inr (at_time t s))"
proof -
  have "AUTH_TIMEOUT \<le> LONG_MAX" by (simp add: AUTH_TIMEOUT_def LONG_MAX_def)
  then show ?thesis using assms by (simp add: checktimeouts_def unidentified_def upd_world_def elapsed_ge) (simp add: AUTH_TIMEOUT_def)
qed

lemma unidentified_at_time [simp]: "unidentified start (at_time t s) = unidentified start s"
  by (simp add: unidentified_def upd_world_def)

lemma at_time_at_time [simp]: "at_time t (at_time u s) = at_time t s"
  by (simp add: upd_world_def)

lemma ident_loop_ends:
  assumes "ev n = (t, e)" and "e \<noteq> Ident_select_intr" and "t - start \<ge> 300" and "k \<le> n" and "unidentified start s"
  shows "\<exists>r. ident_loop ev count k buf s = Some r"
  using assms(4,5)
proof (induction "n - k" arbitrary: k buf s)
  case 0
  then have "k = n" by simp
  then show ?case
    using assms(1-3) 0(3) by (subst ident_loop.simps) (auto simp: checktimeouts_unidentified split: ident_event.splits)
next
  case (Suc d)
  note IH = Suc(1) [of "Suc k"]
  have "k < n" using Suc(2) by simp
  then have nxt: "\<exists>r. ident_loop ev count (Suc k) b u = Some r" if "unidentified start u" for b u
    using IH [of u b] Suc(2) that by simp
  show ?case
    using nxt Suc(4) by (subst ident_loop.simps)
      (auto simp: checktimeouts_unidentified split: ident_event.splits prod.splits if_splits)
qed

text \<open>What the loop can give: the timeout, or at most as many bytes as the buffer takes, with only the clock moved.\<close>

definition ident_outcome :: "nat \<Rightarrow> byte list \<Rightarrow> sshsession \<Rightarrow> (byte list option \<times> nat \<times> sshsession) res \<Rightarrow> bool" where
  "ident_outcome count buf s r \<longleftrightarrow>
     (remoteident s = None \<longrightarrow> length buf \<le> count - 1 \<longrightarrow>
      (case r of
         Inl f \<Rightarrow> f = Close ''Timeout before auth''
       | Inr (res, k, s') \<Rightarrow> (\<exists>t. s' = at_time t s) \<and> (case res of None \<Rightarrow> True | Some line \<Rightarrow> length line \<le> count - 1)))"

lemma same_time [simp]: "\<exists>t. s = at_time t s"
  by (rule exI [of _ "monotonic_now (world s)"]) (simp add: upd_world_def)

lemma remoteident_at_time [simp]: "remoteident (at_time t s) = remoteident s"
  by (simp add: upd_world_def)

lemma checktimeouts_no_ident:
  "remoteident s = None \<Longrightarrow> checktimeouts s = Inl (Close ''Timeout before auth'') \<or> checktimeouts s = Inr s"
  by (simp add: checktimeouts_def Let_def)

lemma ident_loop_outcome:
  assumes "ident_loop ev count k buf s = Some r"
  shows "ident_outcome count buf s r"
proof (rule ident_loop.raw_induct [where P = "\<lambda>ev count k buf s r. ident_outcome count buf s r", OF _ assms])
  fix rec :: "ident_events \<Rightarrow> nat \<Rightarrow> nat \<Rightarrow> byte list \<Rightarrow> sshsession \<Rightarrow> (byte list option \<times> nat \<times> sshsession) res option"
  fix ev count k buf s r
  assume IH: "\<And>ev count k buf s r. rec ev count k buf s = Some r \<Longrightarrow> ident_outcome count buf s r"
    and step: "(if \<not> length buf < count - 1 then Some (Inr (Some buf, k, s))
      else case ev k of (t, e) \<Rightarrow>
        if e = Ident_select_intr then rec ev count (Suc k) buf s
        else if e = Ident_select_error then Some (Inr (None, Suc k, s))
        else case checktimeouts (at_time t s) of
          Inl f \<Rightarrow> Some (Inl f)
        | Inr s \<Rightarrow>
            (case e of
               Ident_byte c \<Rightarrow>
                 if c = byte_of 10 then Some (Inr (Some buf, Suc k, s))
                 else rec ev count (Suc k) (if c = byte_of 13 then buf else buf @ [c]) s
             | Ident_read_error \<Rightarrow> Some (Inr (None, Suc k, s))
             | Ident_eof \<Rightarrow> Some (Inr (None, Suc k, s))
             | _ \<Rightarrow> rec ev count (Suc k) buf s)) = Some r"
  obtain t e where e: "ev k = (t, e)" by force
  consider "\<not> (remoteident s = None \<and> length buf < count - 1)" | "e = Ident_select_intr" | "e = Ident_select_error"
    | "remoteident s = None" "length buf < count - 1" "e \<noteq> Ident_select_intr" "e \<noteq> Ident_select_error" by blast
  then show "ident_outcome count buf s r"
  proof cases
    case 4
    then have "checktimeouts (at_time t s) = Inl (Close ''Timeout before auth'') \<or> checktimeouts (at_time t s) = Inr (at_time t s)"
      by (intro checktimeouts_no_ident) simp
    then show ?thesis
    proof (elim disjE)
      assume "checktimeouts (at_time t s) = Inr (at_time t s)"
      then show ?thesis using step e 4
        by (auto simp: ident_outcome_def split: ident_event.splits if_splits sum.splits dest!: IH)
    qed (use step e 4 in \<open>auto simp: ident_outcome_def\<close>)
  qed (use step e IH in \<open>auto simp: ident_outcome_def split: if_splits\<close>)
qed

lemma ident_lines_outcome:
  assumes "ident_lines i ev k s = Some r" and "remoteident s = None"
  shows "case r of Inl f \<Rightarrow> f = Close ''Timeout before auth''
    | Inr (res, s') \<Rightarrow> (\<exists>t. s' = at_time t s) \<and> (case res of None \<Rightarrow> True | Some line \<Rightarrow> length line \<le> 255)"
  using assms
proof (induction i arbitrary: k s)
  case (Suc i)
  obtain x where x: "ident_loop ev 256 k [] s = Some x" using Suc(2) by (auto simp: ident_readln_def split: option.splits)
  have "ident_outcome 256 [] s x" by (rule ident_loop_outcome [OF x])
  then consider "x = Inl (Close ''Timeout before auth'')" | k' t where "x = Inr (None, k', at_time t s)"
    | line k' t where "x = Inr (Some line, k', at_time t s)" "length line \<le> 255"
    using Suc(3) by (cases x) (auto simp: ident_outcome_def split: option.splits)
  then show ?case
  proof cases
    case 3
    then show ?thesis
      using Suc(2,3) Suc(1) [of k' "at_time t s"] x by (auto simp: ident_readln_def split: if_splits sum.splits)
  qed (use Suc(2) x in \<open>auto simp: ident_readln_def\<close>)
qed (auto simp del: at_time_at_time)

text \<open>
  C15. A peer cannot keep the server waiting for its identification string: once the clock has passed
  the time for logging in and \<open>select\<close> returns again (it does after a second at the latest), the wait is over, whatever
  bytes came and however slowly. Either the session ends, or a line of at most 255 bytes has been accepted that
  starts with a version the server speaks, and nothing but the clock and that line has changed.
\<close>

theorem identification_ends:
  assumes "unidentified start s" and "ev n = (t, e)" and "e \<noteq> Ident_select_intr" and "t - start \<ge> 300"
  shows "(\<exists>f. read_session_identification ev s = Inl f \<and> f \<noteq> Loops \<and> f \<noteq> Mem_fault)
    \<or> (\<exists>line t'. read_session_identification ev s = Inr ((at_time t' s)\<lparr>remoteident := Some (line @ [CHR 0x00])\<rparr>)
        \<and> length line \<le> 255 \<and> (take 6 line = ''SSH-2.'' \<or> take 9 line = ''SSH-1.99-''))"
proof -
  obtain x where "ident_loop ev 256 0 [] s = Some x" using ident_loop_ends [where ev = ev, OF assms(2-4) le0 assms(1)] by blast
  then have "\<exists>r. ident_lines (Suc 0) ev 0 s = Some r"
    by (auto simp: ident_readln_def split: sum.split prod.split option.split)
  then obtain r where r: "ident_lines (Suc 0) ev 0 s = Some r" by blast
  have c: "take n (c_string l) = p \<Longrightarrow> length p = n \<Longrightarrow> take n l = p" for n l p
    by (metis append_take_drop_id c_string_def length_take min.bounded_iff nat_le_linear take_all take_append takeWhile_eq_take take_take)
  have srv: "isserver s" "remoteident s = None" using assms(1) by (simp_all add: unidentified_def)
  note o = ident_lines_outcome [OF r srv(2)] and rd = read_session_identification_def [of ev s]
  consider "r = Inl (Close ''Timeout before auth'')" | s' where "r = Inr (None, s')"
    | line t' where "r = Inr (Some line, at_time t' s)" "length line \<le> 255"
    using o by (cases r) (auto split: option.splits)
  then show ?thesis
  proof cases
    case 3
    have "take 6 (c_string line) = ''SSH-2.'' \<longrightarrow> take 6 line = ''SSH-2.''" "take 9 (c_string line) = ''SSH-1.99-'' \<longrightarrow> take 9 line = ''SSH-1.99-''"
      using c [of 6 line "''SSH-2.''"] c [of 9 line "''SSH-1.99-''"] by simp_all
    moreover have "read_session_identification ev s = (if take 6 (c_string line) \<noteq> ''SSH-2.'' \<and> take 9 (c_string line) \<noteq> ''SSH-1.99-''
        then Inl (Exit ''Incompatible remote version'') else Inr ((at_time t' s)\<lparr>remoteident := Some (line @ [CHR 0x00])\<rparr>))"
      using 3(1) srv r by (simp add: rd del: ident_lines.simps)
    ultimately show ?thesis using 3(2) by (simp split: if_split) blast
  qed (use srv r in \<open>auto simp: rd simp del: ident_lines.simps\<close>)
qed

text \<open>Events that let the loop go on, and the bytes they bring.\<close>

fun harmless :: "ident_event \<Rightarrow> bool" where
  "harmless Ident_select_error = False"
| "harmless Ident_read_error = False"
| "harmless Ident_eof = False"
| "harmless (Ident_byte c) = (c \<noteq> byte_of 10)"
| "harmless _ = True"

fun event_bytes :: "ident_event \<Rightarrow> byte list" where
  "event_bytes (Ident_byte c) = (if c = byte_of 13 then [] else [c])"
| "event_bytes _ = []"

definition line_of :: "ident_events \<Rightarrow> nat \<Rightarrow> nat \<Rightarrow> byte list" where
  "line_of ev k n = concat (map (\<lambda>i. event_bytes (snd (ev i))) [k..<n])"

lemma line_of_step: "k < n \<Longrightarrow> line_of ev k n = event_bytes (snd (ev k)) @ line_of ev (Suc k) n"
  by (simp add: line_of_def upt_conv_Cons)

lemma ident_loop_line:
  assumes "\<forall>i<n. harmless (snd (ev i)) \<and> fst (ev i) - start < 300" and "ev n = (t, Ident_byte (byte_of 10))" and "t - start < 300"
    and "k \<le> n" and "unidentified start s" and "length (buf @ line_of ev k n) < count - 1"
  shows "ident_loop ev count k buf s = Some (Inr (Some (buf @ line_of ev k n), Suc n, at_time t s))"
  using assms(4-6)
proof (induction "n - k" arbitrary: k buf s)
  case 0
  then have "k = n" by simp
  then show ?case
    using assms(2,3) 0(3,4) by (subst ident_loop.simps) (simp add: checktimeouts_unidentified line_of_def)
next
  case (Suc d)
  have k: "k < n" using Suc(2) by simp
  obtain u e where e: "ev k = (u, e)" by force
  have h: "harmless e" "u - start < 300" using assms(1) k e by force+
  have l: "line_of ev k n = event_bytes e @ line_of ev (Suc k) n" using line_of_step [OF k, of ev] e by simp
  have nxt: "ident_loop ev count (Suc k) b v = Some (Inr (Some (b @ line_of ev (Suc k) n), Suc n, at_time t v))"
    if "unidentified start v" "length (b @ line_of ev (Suc k) n) < count - 1" for b v
    using Suc(1) [of "Suc k" v b] Suc(2) that k by simp
  show ?case
    using h nxt [of s buf] nxt [of "at_time u s" "buf @ event_bytes e"] Suc(4,5) e l
    by (subst ident_loop.simps) (cases e; auto simp: checktimeouts_unidentified)
qed

text \<open>
  C16. The identification string arrives whole however the bytes trickle in: when before the timeout
  the peer sends a line of fewer than 255 bytes, not counting carriage returns, with any delays and
  interruptions between them, it becomes the identification of the peer up to the line feed, and
  nothing but the clock changes besides. A line that starts with another version, or with
  anything but \<open>SSH-\<close>, ends the session.
\<close>

theorem identification_read:
  assumes "unidentified start s" and "\<forall>i<n. harmless (snd (ev i)) \<and> fst (ev i) - start < 300"
    and "ev n = (t, Ident_byte (byte_of 10))" and "t - start < 300" and "line = line_of ev 0 n" and "length line < 255"
    and "CHR 0x00 \<notin> set line"
  shows "read_session_identification ev s =
    (if take 4 line \<noteq> ''SSH-'' then Inl (Close ''Exited normally'')
     else if take 6 line \<noteq> ''SSH-2.'' \<and> take 9 line \<noteq> ''SSH-1.99-'' then Inl (Exit ''Incompatible remote version'')
     else Inr ((at_time t s)\<lparr>remoteident := Some (line @ [CHR 0x00])\<rparr>))"
proof -
  have "ident_readln ev 256 0 s = Some (Inr (Some line, Suc n, at_time t s))"
    using ident_loop_line [of n ev start t 0 s "[]" 256] assms by (simp add: ident_readln_def)
  moreover have "c_string line = line" using assms(7) by (auto simp: c_string_def takeWhile_eq_all_conv)
  moreover have "take 4 (line @ [CHR 0x00]) = ''SSH-'' \<longleftrightarrow> take 4 line = ''SSH-''"
    by (cases "length line \<ge> 4") (auto simp: not_le take_Cons' split: if_splits)
  moreover have "take 4 line = ''SSH-'' \<Longrightarrow> 3 \<le> length line" using arg_cong [of "take 4 line" _ length] by fastforce
  ultimately show ?thesis using assms(1) by (auto simp: read_session_identification_def unidentified_def)
qed

section \<open>Sleeping until the next deadline\<close>

lemma update_timeout_le: "update_timeout limit now last_event timeout \<le> timeout"
  by (simp add: update_timeout_def)

lemma update_timeout_mono: "t \<le> t' \<Longrightarrow> update_timeout limit now last_event t \<le> update_timeout limit now last_event t'"
  by (auto simp: update_timeout_def)

lemma update_timeout_nonneg: "0 \<le> timeout \<Longrightarrow> 0 \<le> update_timeout limit now last_event timeout"
  by (simp add: update_timeout_def)

lemma update_timeout_deadline:
  assumes "x \<le> update_timeout limit now last_event timeout" and "0 < last_event" and "0 < limit" and "limit \<le> LONG_MAX"
    and "now \<le> t" and "t < now + x"
  shows "\<not> elapsed t last_event \<ge> limit"
proof -
  have "x \<le> max 0 (limit - elapsed now last_event)" using assms(1-3) by (simp add: update_timeout_def)
  moreover have "0 < x" using assms(5,6) by simp
  ultimately have "x \<le> limit - elapsed now last_event" by simp
  then have "\<not> limit \<le> now - last_event \<and> x \<le> limit - (now - last_event)"
    using \<open>0 < x\<close> assms(4) by (simp add: elapsed_def Let_def split: if_splits)
  then show ?thesis using assms(4-6) by (simp add: elapsed_ge)
qed

text \<open>The stages of \<open>select_timeout\<close>, each at least as large as the result.\<close>

lemma select_timeout_stages:
  defines "now s \<equiv> monotonic_now (world s)"
  shows "0 \<le> select_timeout s" and "select_timeout s \<le> KEX_REKEY_TIMEOUT"
    and "needrekey (kexstate s) \<Longrightarrow> select_timeout s = 0"
    and "\<exists>u. \<not> sentkexinit (kexstate s) \<longrightarrow> select_timeout s \<le> update_timeout KEX_REKEY_TIMEOUT (now s) (lastkextime (kexstate s)) u"
    and "\<exists>u. \<not> authdone (authstate s) \<and> isserver s \<longrightarrow> select_timeout s \<le> update_timeout AUTH_TIMEOUT (now s) (connect_time s) u"
    and "\<exists>u. authdone (authstate s) \<longrightarrow> select_timeout s \<le> update_timeout (keepalive_secs (opts s)) (now s)
           (max (last_packet_time_keepalive_recv s) (last_packet_time_keepalive_sent s)) u"
    and "\<exists>u. select_timeout s \<le> update_timeout (idle_timeout_secs (opts s)) (now s) (last_packet_time_idle s) u"
    and "\<exists>u. select_timeout s \<le> update_timeout (max_duration_secs (opts s)) (now s) (connect_time s) u"
proof -
  define a where "a = (if \<not> sentkexinit (kexstate s) then update_timeout KEX_REKEY_TIMEOUT (now s) (lastkextime (kexstate s)) KEX_REKEY_TIMEOUT
    else KEX_REKEY_TIMEOUT)"
  define b where "b = (if needrekey (kexstate s) then 0 else a)"
  define c where "c = (if \<not> authdone (authstate s) \<and> isserver s then update_timeout AUTH_TIMEOUT (now s) (connect_time s) b else b)"
  define d where "d = (if authdone (authstate s) then update_timeout (keepalive_secs (opts s)) (now s)
           (max (last_packet_time_keepalive_recv s) (last_packet_time_keepalive_sent s)) c else c)"
  define e where "e = update_timeout (idle_timeout_secs (opts s)) (now s) (last_packet_time_idle s) d"
  define f where "f = update_timeout (max_duration_secs (opts s)) (now s) (connect_time s) e"
  have le: "b \<le> a" "c \<le> b" "d \<le> c" "e \<le> d" "f \<le> e" "a \<le> KEX_REKEY_TIMEOUT"
    by (simp_all add: c_def d_def e_def f_def update_timeout_le) (simp_all add: a_def b_def update_timeout_le update_timeout_nonneg KEX_REKEY_TIMEOUT_def)
  have "0 \<le> a" by (simp add: a_def update_timeout_nonneg KEX_REKEY_TIMEOUT_def)
  then have pos: "0 \<le> b" "0 \<le> c" "0 \<le> d" "0 \<le> e" "0 \<le> f"
    by (simp_all add: b_def c_def d_def e_def f_def update_timeout_nonneg)
  have "select_timeout s = max f 0"
    unfolding select_timeout_def Let_def f_def e_def d_def c_def b_def a_def now_def by (rule refl)
  then have st: "select_timeout s = f" using pos by simp
  show "0 \<le> select_timeout s" "select_timeout s \<le> KEX_REKEY_TIMEOUT" using st pos le by simp_all
  show "needrekey (kexstate s) \<Longrightarrow> select_timeout s = 0" using st pos le by (simp add: b_def)
  show "\<exists>u. \<not> sentkexinit (kexstate s) \<longrightarrow> select_timeout s \<le> update_timeout KEX_REKEY_TIMEOUT (now s) (lastkextime (kexstate s)) u"
    using st le unfolding a_def by (auto intro!: exI [of _ KEX_REKEY_TIMEOUT])
  show "\<exists>u. \<not> authdone (authstate s) \<and> isserver s \<longrightarrow> select_timeout s \<le> update_timeout AUTH_TIMEOUT (now s) (connect_time s) u"
    using st le(3-5) unfolding c_def by (auto intro!: exI [of _ b])
  show "\<exists>u. authdone (authstate s) \<longrightarrow> select_timeout s \<le> update_timeout (keepalive_secs (opts s)) (now s)
           (max (last_packet_time_keepalive_recv s) (last_packet_time_keepalive_sent s)) u"
    using st le(4,5) unfolding d_def by (auto intro!: exI [of _ c])
  show "\<exists>u. select_timeout s \<le> update_timeout (idle_timeout_secs (opts s)) (now s) (last_packet_time_idle s) u"
    using st le(5) unfolding e_def by auto
  show "\<exists>u. select_timeout s \<le> update_timeout (max_duration_secs (opts s)) (now s) (connect_time s) u"
    using st unfolding f_def by auto
qed

text \<open>The deadlines of a session are set: each event has happened, and the limits are \<open>long\<close> values.\<close>

definition deadlines_set :: "sshsession \<Rightarrow> bool" where
  "deadlines_set s \<longleftrightarrow> 0 < connect_time s \<and> 0 < lastkextime (kexstate s) \<and> 0 < last_packet_time_idle s
     \<and> 0 < max (last_packet_time_keepalive_recv s) (last_packet_time_keepalive_sent s)
     \<and> keepalive_secs (opts s) \<le> LONG_MAX \<and> idle_timeout_secs (opts s) \<le> LONG_MAX \<and> max_duration_secs (opts s) \<le> LONG_MAX"

text \<open>
  C17. The main loop never sleeps through a deadline: as long as less time has passed than \<open>select_timeout\<close>
  gave, \<open>checktimeouts\<close> has nothing to do, neither to end the session nor to start a key exchange nor to
  send a keepalive. Two things it would react to have no share in the time: the volume of data, and
  for keepalives the last packet sent and the limit of unanswered ones. The time is never negative nor
  longer than the eight hours of a key exchange.
\<close>

theorem no_deadline_missed:
  assumes "deadlines_set s" and "monotonic_now (world s) \<le> t" and "t < monotonic_now (world s) + select_timeout s"
    and "datarecv (kexstate s) + datatrans (kexstate s) < KEX_REKEY_DATA"
    and "keepalive_secs (opts s) > 0 \<longrightarrow> elapsed t (last_packet_time_any_sent s) < keepalive_secs (opts s)
      \<and> elapsed t (last_packet_time_keepalive_recv s) < keepalive_secs (opts s) * DEFAULT_KEEPALIVE_LIMIT"
  shows "checktimeouts (at_time t s) = Inr (at_time t s) \<and> 0 < select_timeout s \<and> select_timeout s \<le> 3600 * 8"
proof -
  note st = select_timeout_stages [of s]
  note past = update_timeout_deadline [OF _ _ _ _ assms(2,3)]
  have pos: "0 < select_timeout s" using assms(2,3) by simp
  have L: "KEX_REKEY_TIMEOUT \<le> LONG_MAX" "AUTH_TIMEOUT \<le> LONG_MAX" "0 < KEX_REKEY_TIMEOUT" "0 < AUTH_TIMEOUT"
    by (simp_all add: KEX_REKEY_TIMEOUT_def AUTH_TIMEOUT_def LONG_MAX_def)
  note D = assms(1) [unfolded deadlines_set_def]
  have 1: "\<not> sentkexinit (kexstate s) \<longrightarrow> \<not> elapsed t (lastkextime (kexstate s)) \<ge> KEX_REKEY_TIMEOUT"
    using st(4) past [of KEX_REKEY_TIMEOUT "lastkextime (kexstate s)"] D L by blast
  have 2: "isserver s \<and> \<not> authdone (authstate s) \<longrightarrow> \<not> elapsed t (connect_time s) \<ge> AUTH_TIMEOUT"
    using st(5) past [of AUTH_TIMEOUT "connect_time s"] D L by blast
  have "authdone (authstate s) \<and> keepalive_secs (opts s) > 0 \<longrightarrow>
      \<not> elapsed t (max (last_packet_time_keepalive_recv s) (last_packet_time_keepalive_sent s)) \<ge> keepalive_secs (opts s)"
    using st(6) past [of "keepalive_secs (opts s)" "max (last_packet_time_keepalive_recv s) (last_packet_time_keepalive_sent s)"] D by blast
  then have 3: "authdone (authstate s) \<and> keepalive_secs (opts s) > 0 \<longrightarrow> \<not> (elapsed t (last_packet_time_keepalive_recv s) \<ge> keepalive_secs (opts s)
      \<and> elapsed t (last_packet_time_keepalive_sent s) \<ge> keepalive_secs (opts s))" by (auto simp: max_def split: if_splits)
  have 4: "idle_timeout_secs (opts s) > 0 \<longrightarrow> \<not> elapsed t (last_packet_time_idle s) \<ge> idle_timeout_secs (opts s)"
    using st(7) past [of "idle_timeout_secs (opts s)" "last_packet_time_idle s"] D by blast
  have 5: "max_duration_secs (opts s) > 0 \<longrightarrow> \<not> elapsed t (connect_time s) \<ge> max_duration_secs (opts s)"
    using st(8) past [of "max_duration_secs (opts s)" "connect_time s"] D by blast
  have "\<not> rekey_due t (at_time t s)" using 1 st(3) assms(4) pos by (auto simp: rekey_due_def upd_world_def)
  then have "checktimeouts (at_time t s) = Inr (at_time t s)"
    using 2 3 4 5 assms(5) by (auto simp: checktimeouts_def check_keepalive_def Let_def upd_world_def)
  then show ?thesis using pos st(2) by (simp add: KEX_REKEY_TIMEOUT_def)
qed

text \<open>A session of 100 seconds with an idle timeout of ten minutes, five minutes for logging in.\<close>

definition timed_session :: sshsession where
  "timed_session = (zero_session still_world bare_libtom bare_libz plain_svr_opts (plain_opts\<lparr>idle_timeout_secs := 600, keepalive_secs := 60\<rparr>))
     \<lparr>isserver := True, connect_time := 10, last_packet_time_idle := 20, last_packet_time_keepalive_recv := 90,
      last_packet_time_keepalive_sent := 30, last_packet_time_any_sent := 300,
      kexstate := zero_kexstate\<lparr>lastkextime := 10\<rparr>, remoteident := Some ''SSH-2.0-x''\<rparr>"

theorem no_deadline_missed_witness:
  "deadlines_set timed_session \<and> select_timeout timed_session = 210
   \<and> checktimeouts (at_time 200 timed_session) = Inr (at_time 200 timed_session)"
proof -
  have e: "select_timeout timed_session = 210" by code_simp
  have d: "deadlines_set timed_session" by code_simp
  show ?thesis using no_deadline_missed [of timed_session 200] d e
    by (simp add: timed_session_def zero_session_def still_world_def zero_kexstate_def KEX_REKEY_DATA_def plain_opts_def
        elapsed_def Let_def LONG_MAX_def DEFAULT_KEEPALIVE_LIMIT_def)
qed

text \<open>A peer that sends its line byte by byte, one each second, and one that sends nothing.\<close>

definition slow_peer :: "string \<Rightarrow> ident_events" where
  "slow_peer line k = (int k + 100, if k mod 2 = 0 then Ident_nothing else if k div 2 < length line then Ident_byte (line ! (k div 2)) else Ident_nothing)"

definition new_session :: sshsession where
  "new_session = (zero_session still_world bare_libtom bare_libz plain_svr_opts plain_opts)\<lparr>isserver := True, connect_time := 100\<rparr>"

lemma new_session_unidentified: "unidentified 100 new_session"
  by (simp add: unidentified_def new_session_def zero_session_def zero_authstate_def)

theorem identification_ends_witness:
  "unidentified 100 new_session \<and> read_session_identification (slow_peer []) new_session \<noteq> Inl Loops"
  using identification_ends [OF new_session_unidentified, of "slow_peer []" 300 400 Ident_nothing] new_session_unidentified
  by (auto simp: slow_peer_def)

theorem identification_read_witness:
  "read_session_identification (slow_peer (''SSH-2.0-a'' @ [byte_of 13, byte_of 10])) new_session
    = Inr ((at_time 121 new_session)\<lparr>remoteident := Some (''SSH-2.0-a'' @ [CHR 0x00])\<rparr>)"
proof -
  let ?ev = "slow_peer (''SSH-2.0-a'' @ [byte_of 13, byte_of 10])"
  have "\<forall>i\<in>set [0..<21]. harmless (snd (?ev i)) \<and> fst (?ev i) - 100 < 300" by code_simp
  moreover have "line_of ?ev 0 21 = ''SSH-2.0-a''" "?ev 21 = (121, Ident_byte (byte_of 10))" by code_simp+
  ultimately show ?thesis using identification_read [OF new_session_unidentified, of 21 ?ev 121 "''SSH-2.0-a''"] by simp
qed

end
