(* ===== verification/Session_Run.thy ===== *)
theory Session_Run
  imports Session_Loop
begin

text \<open>
  The components together: what a pass of the main loop does to the state of the key exchange, and
  what follows for every run of a server from its start.
\<close>

section \<open>What leaves the key exchange alone\<close>

text \<open>The state of the exchange, the packet being handled, and whether the user is authenticated.\<close>

definition cview :: "sshsession \<Rightarrow> kview \<times> buffer option \<times> bool" where
  "cview s = (kview s, payload s, authdone (authstate s))"

named_theorems calm \<open>operations that keep \<open>cview\<close>\<close>

lemma cview_wire: "unwired s' = unwired s \<Longrightarrow> cview s' = cview s"
proof -
  assume w: "unwired s' = unwired s"
  have "payload s' = payload s" "authstate s' = authstate s" by (rule unwiredD [OF w])+
  then show ?thesis using kview_wire [OF w] by (simp add: cview_def)
qed

lemma cview_updates [simp]:
  "cview (s\<lparr>channels := a1\<rparr>) = cview s" "cview (s\<lparr>chancount := a2\<rparr>) = cview s" "cview (s\<lparr>world := a3\<rparr>) = cview s"
  "cview (upd_world f s) = cview s" "cview (s\<lparr>socket_prio := a4\<rparr>) = cview s" "cview (s\<lparr>maxfd := a5\<rparr>) = cview s"
  "cview (s\<lparr>listeners := a6\<rparr>) = cview s" "cview (s\<lparr>writequeue := a7\<rparr>) = cview s" "cview (s\<lparr>writequeue_len := a8\<rparr>) = cview s"
  "cview (s\<lparr>reply_queue := a9\<rparr>) = cview s" "cview (s\<lparr>reply_queue_len := aa\<rparr>) = cview s"
  "cview (s\<lparr>channel_signal_pending := ab\<rparr>) = cview s" "cview (s\<lparr>writepayload := ac\<rparr>) = cview s"
  "cview (s\<lparr>last_packet_time_keepalive_sent := ad\<rparr>) = cview s" "cview (s\<lparr>last_packet_time_idle := ae\<rparr>) = cview s"
  "cview (s\<lparr>remoteident := af\<rparr>) = cview s"
  by (simp_all add: cview_def kview_def upd_world_def)

lemma cview_sends [calm]:
  "on_write f s = Inr s' \<Longrightarrow> cview s' = cview s"
  "put_byte n s = Inr s' \<Longrightarrow> cview s' = cview s"
  "put_int v s = Inr s' \<Longrightarrow> cview s' = cview s"
  "put_string str s = Inr s' \<Longrightarrow> cview s' = cview s"
  "encrypt_packet s = Inr s' \<Longrightarrow> cview s' = cview s"
  by (blast intro: cview_wire dest: on_write_wire put_wire encrypt_packet_wire)+

lemma set_chan_cview [simp]: "cview (set_chan i c s) = cview s"
  by (simp add: set_chan_def)

lemma update_channel_prio_cview [simp]: "cview (update_channel_prio s) = cview s"
  by (simp add: update_channel_prio_def Let_def)

lemma upd_chan_calm [calm]: "upd_chan i f s = Inr s' \<Longrightarrow> cview s' = cview s"
  by (auto simp: upd_chan_def elim!: bindr_InrE)

lemma close_chan_fd_calm [calm]: "close_chan_fd i fd how s = Inr s' \<Longrightarrow> cview s' = cview s"
  by (auto simp: close_chan_fd_def Let_def elim!: bindr_InrE)

lemma send_msgs_calm [calm]:
  "send_msg_channel_eof i s = Inr s' \<Longrightarrow> cview s' = cview s"
  "send_msg_channel_window_adjust c incr s = Inr s' \<Longrightarrow> cview s' = cview s"
  "send_msg_channel_failure c s = Inr s' \<Longrightarrow> cview s' = cview s"
  "send_msg_channel_open_failure r reason tx lang s = Inr s' \<Longrightarrow> cview s' = cview s"
  "send_msg_channel_open_confirmation c w m s = Inr s' \<Longrightarrow> cview s' = cview s"
  by (auto simp: send_msg_channel_eof_def send_msg_channel_window_adjust_def send_msg_channel_failure_def
      send_msg_channel_open_failure_def send_msg_channel_open_confirmation_def split: if_splits elim!: bindr_InrE dest!: calm)

lemma data_calm [calm]:
  "reset_payload s = Inr s' \<Longrightarrow> cview s' = cview s"
  "read_channel_data i fd m p s = Inr s' \<Longrightarrow> cview s' = cview s"
  by (auto simp: reset_payload_def read_channel_data_def split: if_splits read_answer.splits prod.splits elim!: bindr_InrE dest!: calm)

lemma send_msg_channel_data_calm [calm]: "send_msg_channel_data i ext s = Inr s' \<Longrightarrow> cview s' = cview s"
  by (auto simp: send_msg_channel_data_def Let_def split: if_splits elim!: bindr_InrE dest!: calm)

lemma writechannel_calm [calm]:
  "writechannel_writev i fd wh more_data s = Inr (r, n, s') \<Longrightarrow> cview s' = cview s"
  "writechannel i fd wh more_data s = Inr (r, n, s') \<Longrightarrow> cview s' = cview s"
proof -
  show *: "writechannel_writev i fd wh more_data s = Inr (r, n, s') \<Longrightarrow> cview s' = cview s" for r n s'
    by (auto simp: writechannel_writev_def Let_def split: if_splits option.splits prod.splits write_answer.splits elim!: bindr_InrE dest!: calm)
  show "writechannel i fd wh more_data s = Inr (r, n, s') \<Longrightarrow> cview s' = cview s"
    by (auto simp: writechannel_def split: if_splits elim!: bindr_InrE dest!: calm *)
qed

lemma writechannel_only_calm [calm]: "writechannel_only i fd wh s = Inr s' \<Longrightarrow> cview s' = cview s"
  by (auto simp: writechannel_only_def elim!: bindr_InrE dest!: calm)

lemma flush_calm [calm]:
  "fd_read_pending fd s = Inr (p, s') \<Longrightarrow> cview s' = cview s"
  "flush_fds i s = Inr s' \<Longrightarrow> cview s' = cview s"
proof -
  show *: "fd_read_pending fd s = Inr (p, s') \<Longrightarrow> cview s' = cview s" for fd p s s'
    by (auto simp: fd_read_pending_def split: list.splits elim!: bindr_InrE)
  show "flush_fds i s = Inr s' \<Longrightarrow> cview s' = cview s"
    by (auto simp: flush_fds_def split: if_splits elim!: bindr_InrE dest!: calm *)
qed

text \<open>
  The functions of the channel types leave the exchange and the authentication alone; those that
  read the rest of a message may move the position in it.
\<close>

definition calm_chans :: "handlers \<Rightarrow> bool" where
  "calm_chans hs \<longleftrightarrow> (\<forall>ct i s.
     (\<forall>r s'. inithandler (hs ct) i s = Inr (r, s') \<longrightarrow> kview s' = kview s \<and> authdone (authstate s') = authdone (authstate s))
     \<and> (\<forall>s'. reqhandler (hs ct) i s = Inr s' \<longrightarrow> kview s' = kview s \<and> authdone (authstate s') = authdone (authstate s))
     \<and> (\<forall>r s'. type_check_close (hs ct) i s = Inr (r, s') \<longrightarrow> cview s' = cview s)
     \<and> (\<forall>s'. closehandler (hs ct) i s = Inr s' \<longrightarrow> cview s' = cview s)
     \<and> (\<forall>s'. cleanup (hs ct) i s = Inr s' \<longrightarrow> cview s' = cview s))"

lemma calm_chansD:
  assumes "calm_chans hs"
  shows "type_check_close (hs ct) i s = Inr (r, s') \<Longrightarrow> cview s' = cview s"
    and "closehandler (hs ct) i s = Inr s' \<Longrightarrow> cview s' = cview s"
    and "cleanup (hs ct) i s = Inr s' \<Longrightarrow> cview s' = cview s"
    and "inithandler (hs ct) i s = Inr (ri, s') \<Longrightarrow> kview s' = kview s \<and> authdone (authstate s') = authdone (authstate s)"
    and "reqhandler (hs ct) i s = Inr s' \<Longrightarrow> kview s' = kview s \<and> authdone (authstate s') = authdone (authstate s)"
  using assms unfolding calm_chans_def by blast+

lemma closing_calm:
  assumes "calm_chans hs"
  shows "send_msg_channel_close hs i s = Inr s' \<Longrightarrow> cview s' = cview s"
    and "remove_channel hs i s = Inr s' \<Longrightarrow> cview s' = cview s"
  by (auto simp: send_msg_channel_close_def remove_channel_def Let_def split: if_splits elim!: bindr_InrE dest!: calm calm_chansD(2,3) [OF assms])

lemma check_close_calm:
  assumes "calm_chans hs"
  shows "half_close hs a i s = Inr s' \<Longrightarrow> cview s' = cview s" and "check_close hs i s = Inr s' \<Longrightarrow> cview s' = cview s"
proof -
  show *: "half_close hs a i s = Inr s' \<Longrightarrow> cview s' = cview s" for a s
    by (auto simp: half_close_def split: if_splits elim!: bindr_InrE dest!: calm closing_calm [OF assms])
  show "check_close hs i s = Inr s' \<Longrightarrow> cview s' = cview s"
    by (auto simp: check_close_def split: if_splits elim!: bindr_InrE dest!: calm closing_calm [OF assms] calm_chansD(1) [OF assms] *)
qed

lemma on_chan_calm [calm]:
  "on_chan i test (\<lambda>c. send_msg_channel_data i e) (d, s) = Inr (d', s') \<Longrightarrow> cview s' = cview s"
  "on_chan i test (\<lambda>c. writechannel_only i (fd c) wh) (d, s) = Inr (d', s') \<Longrightarrow> cview s' = cview s"
  by (auto simp: on_chan_def split: if_splits elim!: bindr_InrE dest!: calm)

lemma chan_io_calm:
  assumes "calm_chans hs" and "chan_io hs r w i s = Inr s'"
  shows "cview s' = cview s"
  using assms(2) by (auto simp: chan_io_def split: if_splits elim!: bindr_InrE
      dest!: calm check_close_calm(2) [OF assms(1)])

lemma chans_io_calm:
  assumes "calm_chans hs"
  shows "chans_io hs r w is s = Inr s' \<Longrightarrow> cview s' = cview s"
  by (induction "is" arbitrary: s) (auto split: if_splits elim!: bindr_InrE dest!: chan_io_calm [OF assms])

definition calm_handler :: "handler \<Rightarrow> bool" where
  "calm_handler h \<longleftrightarrow> (\<forall>s s'. h s = Inr s' \<longrightarrow> cview s' = cview s \<and> (\<not> authdone (authstate s) \<longrightarrow> channels s' = channels s))"

lemma calm_handlerD:
  "calm_handler h \<Longrightarrow> h s = Inr s' \<Longrightarrow> cview s' = cview s"
  "calm_handler h \<Longrightarrow> h s = Inr s' \<Longrightarrow> \<not> authdone (authstate s) \<Longrightarrow> channels s' = channels s"
  by (simp_all add: calm_handler_def)

lemma handle_listeners_calm:
  assumes "\<And>i sock. calm_handler (acc i sock)"
  shows "handle_listeners acc r s = Inr s' \<Longrightarrow> cview s' = cview s"
proof -
  have 1: "handle_socks acc r i socks s = Inr s' \<Longrightarrow> cview s' = cview s" for i socks s s'
    by (induction socks arbitrary: s) (auto split: if_splits elim!: bindr_InrE dest!: calm_handlerD(1) [OF assms])
  have "handle_slots acc r is s = Inr s' \<Longrightarrow> cview s' = cview s" for "is" s
    by (induction "is" arbitrary: s) (auto split: if_splits option.splits elim!: bindr_InrE dest!: 1)
  then show "handle_listeners acc r s = Inr s' \<Longrightarrow> cview s' = cview s" by (simp add: handle_listeners_def)
qed

lemma channelio_calm:
  assumes "calm_chans hs" and "\<And>i sock. calm_handler (acc i sock)" and "channelio hs acc r w s = Inr s'"
  shows "cview s' = cview s"
  using assms(3) by (auto simp: channelio_def elim!: bindr_InrE dest!: chans_io_calm [OF assms(1)] handle_listeners_calm [OF assms(2)])

section \<open>Reading, writing and timeouts\<close>

lemma flush_replies_calm [calm]: "flush_replies rs s = Inr s' \<Longrightarrow> cview s' = cview s"
  by (induction rs arbitrary: s) (auto split: if_splits elim!: bindr_InrE dest!: calm)

lemma queue_calm [calm]:
  "maybe_flush_reply_queue s = Inr s' \<Longrightarrow> cview s' = cview s"
  "write_packet s = Inr s' \<Longrightarrow> cview s' = cview s"
  by (auto simp: maybe_flush_reply_queue_def write_packet_def Let_def split: if_splits prod.splits write_answer.splits elim!: bindr_InrE dest!: calm)

lemma recv_key_view: "kview (upd_recv (\<lambda>k. k\<lparr>cipher_state := st\<rparr>) s) = kview s" "kview (upd_recv (\<lambda>k. k\<lparr>zstream := z\<rparr>) s) = kview s"
  "kview (upd_kex (\<lambda>x. x\<lparr>datarecv := n x\<rparr>) s) = kview s" "kview (s\<lparr>readbuf := rb\<rparr>) = kview s" "kview (s\<lparr>payload_beginning := pb\<rparr>) = kview s"
  by (simp_all add: kview_def upd_recv_def upd_kex_def)

named_theorems reads \<open>steps of reading a packet\<close>

definition rview :: "sshsession \<Rightarrow> kview \<times> Channel option list \<times> AuthState" where
  "rview s = (kview s, channels s, authstate s)"

lemma rview_updates [simp]:
  "rview (upd_recv (\<lambda>k. k\<lparr>cipher_state := st\<rparr>) s) = rview s" "rview (upd_recv (\<lambda>k. k\<lparr>zstream := z\<rparr>) s) = rview s"
  "rview (upd_kex (\<lambda>x. x\<lparr>datarecv := n x\<rparr>) s) = rview s" "rview (s\<lparr>readbuf := rb\<rparr>) = rview s" "rview (s\<lparr>payload_beginning := pb\<rparr>) = rview s"
  "rview (s\<lparr>payload := p\<rparr>) = rview s" "rview (s\<lparr>recvseq := q\<rparr>) = rview s" "rview (s\<lparr>world := w\<rparr>) = rview s"
  by (simp_all add: rview_def kview_def upd_recv_def upd_kex_def)

lemma first_block_reads [reads]: "first_block rb s = Inr s' \<Longrightarrow> rview s' = rview s"
  by (auto simp: first_block_def size_readbuf_def Let_def split: option.splits prod.splits if_splits elim!: bindr_InrE)

lemma read_packet_init_reads [reads]: "read_packet_init s = Inr (g, s') \<Longrightarrow> rview s' = rview s"
  by (auto simp: read_packet_init_def Let_def split: option.splits prod.splits if_splits read_answer.splits elim!: bindr_InrE dest!: reads)

lemma open_packet_reads [reads]: "open_packet rb s = Inr (rb', s') \<Longrightarrow> rview s' = rview s"
  by (auto simp: open_packet_def Let_def split: option.splits prod.splits elim!: bindr_InrE)

lemma buf_decompress_reads [reads]: "buf_decompress s b n = Inr (p, s') \<Longrightarrow> rview s' = rview s"
  by (auto simp: buf_decompress_def Let_def split: option.splits prod.splits if_splits elim!: bindr_InrE)

lemma take_payload_reads [reads]: "take_payload rb s = Inr s' \<Longrightarrow> rview s' = rview s"
  by (auto simp: take_payload_def Let_def split: if_splits elim!: bindr_InrE dest!: reads)

lemma read_packet_reads: "read_packet s = Inr s' \<Longrightarrow> rview s' = rview s"
  by (auto simp: read_packet_def decrypt_packet_def Let_def split: option.splits prod.splits if_splits read_answer.splits
      elim!: bindr_InrE dest!: reads)

lemma read_session_identification_frame:
  assumes "read_session_identification ev s = Inr s'" and "remoteident s = None"
  obtains t line where "s' = (at_time t s)\<lparr>remoteident := Some line\<rparr>"
proof -
  obtain line u where 1: "ident_lines (if isserver s then 1 else 50) ev 0 s = Some (Inr (Some line, u))"
    and s': "s' = u\<lparr>remoteident := Some (line @ [CHR 0x00])\<rparr>"
    using assms(1) unfolding read_session_identification_def by (auto split: option.splits sum.splits if_splits)
  obtain t where "u = at_time t s" using ident_lines_outcome [OF 1 assms(2)] by auto
  then show thesis using that s' by blast
qed

lemma read_session_identification_calm:
  assumes "read_session_identification ev s = Inr s'" and "remoteident s = None"
  shows "cview s' = cview s"
  by (rule read_session_identification_frame [OF assms]) simp

lemma keepalive_calm [calm]:
  "send_msg_keepalive s = Inr s' \<Longrightarrow> cview s' = cview s"
  "check_keepalive now s = Inr s' \<Longrightarrow> cview s' = cview s"
proof -
  show *: "send_msg_keepalive s = Inr s' \<Longrightarrow> cview s' = cview s" for s s'
    by (auto simp: send_msg_keepalive_def start_send_channel_request_def Let_def split: option.splits elim!: bindr_InrE dest!: calm)
  show "check_keepalive now s = Inr s' \<Longrightarrow> cview s' = cview s"
    by (auto simp: check_keepalive_def Let_def split: if_splits elim!: bindr_InrE dest!: *)
qed

text \<open>A step of the machine that keeps the packet and the authentication.\<close>

definition smooth :: "(nat \<times> handler) list \<Rightarrow> sshsession \<Rightarrow> sshsession \<Rightarrow> bool" where
  "smooth tbl s s' \<longleftrightarrow> rtranclp (kex_step tbl) s s' \<and> snd (cview s') = snd (cview s)"

lemma smooth_calm: "cview s' = cview s \<Longrightarrow> smooth tbl s s'"
  by (auto simp: smooth_def cview_def intro!: r_into_rtranclp kex_step.elsewhere)

lemma smooth_trans [trans]: "smooth tbl s s' \<Longrightarrow> smooth tbl s' s'' \<Longrightarrow> smooth tbl s s''"
  by (auto simp: smooth_def)

lemma send_msg_kexinit_smooth:
  assumes "send_msg_kexinit None s = Inr s'" and "\<not> sentkexinit (kexstate s)"
  shows "smooth tbl s s'"
proof -
  obtain s1 copy s2 where 1: "put_kexinit False s = Inr s1" "encrypt_packet (s1\<lparr>transkexinit := Some copy\<rparr>) = Inr s2"
    "s' = (upd_kex (\<lambda>k. k\<lparr>sentkexinit := True\<rparr>) s2)\<lparr>dataallowed := False, newkeys := Some zero_keys\<rparr>"
    using assms(1) unfolding send_msg_kexinit_def by (auto simp: Let_def elim!: bindr_InrE)
  have "cview s1 = cview s" "cview s2 = cview (s1\<lparr>transkexinit := Some copy\<rparr>)"
    using cview_wire [OF put_kexinit_wire [OF 1(1)]] cview_wire [OF encrypt_packet_wire [OF 1(2)]] by simp_all
  then have "snd (cview s') = snd (cview s)" unfolding 1(3) by (auto simp: cview_def upd_kex_def)
  then show ?thesis using kex_step.rekey [OF assms(2,1)] by (auto simp: smooth_def)
qed

lemma checktimeouts_smooth:
  assumes "checktimeouts s = Inr s'"
  shows "smooth tbl s s'"
proof (cases "remoteident s = None")
  case True
  then have "s' = s" using checktimeouts_no_ident [OF True] assms by auto
  then show ?thesis by (simp add: smooth_calm)
next
  case False
  let ?now = "monotonic_now (world s)"
  obtain s1 where 1: "(if rekey_due ?now s then send_msg_kexinit None (upd_kex (\<lambda>k. k\<lparr>needrekey := False\<rparr>) s) else Inr s) = Inr s1"
    "(if keepalive_secs (opts s1) > 0 \<and> authdone (authstate s1) then check_keepalive ?now s1 else Inr s1) = Inr s'"
    using assms False unfolding checktimeouts_def Let_def by (auto split: if_splits elim!: bindr_InrE)
  have c: "cview (upd_kex (\<lambda>k. k\<lparr>needrekey := False\<rparr>) s) = cview s" by (simp add: cview_def kview_def upd_kex_def)
  have "smooth tbl s s1"
  proof (cases "rekey_due ?now s")
    case True
    then have "send_msg_kexinit None (upd_kex (\<lambda>k. k\<lparr>needrekey := False\<rparr>) s) = Inr s1" "\<not> sentkexinit (kexstate s)"
      using 1(1) by (simp_all add: rekey_due_def)
    then show ?thesis using smooth_trans [OF smooth_calm [OF c] send_msg_kexinit_smooth] by (simp add: upd_kex_def)
  qed (use 1(1) in \<open>simp add: smooth_calm\<close>)
  moreover have "cview s' = cview s1" using 1(2) by (auto split: if_splits dest!: calm)
  ultimately show ?thesis using smooth_trans smooth_calm by blast
qed

section \<open>The handlers of the server\<close>

text \<open>The key exchange keeps the channels and the authentication.\<close>

definition aview :: "sshsession \<Rightarrow> Channel option list \<times> AuthState" where
  "aview s = (channels s, authstate s)"

named_theorems keeps_chans \<open>steps of the key exchange keep \<open>aview\<close>\<close>

lemma aview_wire: "unwired s' = unwired s \<Longrightarrow> aview s' = aview s"
proof -
  assume w: "unwired s' = unwired s"
  have "channels s' = channels s" "authstate s' = authstate s" by (rule unwiredD [OF w])+
  then show ?thesis by (simp add: aview_def)
qed

lemma aview_updates [simp]:
  "aview (s\<lparr>payload := a1\<rparr>) = aview s" "aview (s\<lparr>world := a2\<rparr>) = aview s" "aview (upd_world f s) = aview s" "aview (upd_kex g s) = aview s"
  "aview (s\<lparr>transkexinit := a3\<rparr>) = aview s" "aview (s\<lparr>newkeys := a4\<rparr>) = aview s" "aview (s\<lparr>dataallowed := a5\<rparr>) = aview s"
  "aview (s\<lparr>keys := a6\<rparr>) = aview s" "aview (s\<lparr>dh_K := a7\<rparr>) = aview s" "aview (s\<lparr>dh_K_bytes := a8\<rparr>) = aview s"
  "aview (s\<lparr>ses_hash := a9\<rparr>) = aview s" "aview (s\<lparr>session_id := aa\<rparr>) = aview s" "aview (s\<lparr>kexhashbuf := ab\<rparr>) = aview s"
  "aview (s\<lparr>requirenext := ac\<rparr>) = aview s" "aview (s\<lparr>ignorenext := ad\<rparr>) = aview s" "aview (s\<lparr>allow_ext_info := ae\<rparr>) = aview s"
  "aview (s\<lparr>sigalgs := af\<rparr>) = aview s" "aview (s\<lparr>recvseq := ag\<rparr>) = aview s" "aview (s\<lparr>transseq := ag\<rparr>) = aview s"
  "aview (s\<lparr>remoteident := ah\<rparr>) = aview s" "aview (s\<lparr>writepayload := ai\<rparr>) = aview s"
  "aview (s\<lparr>lastpacket := aj\<rparr>) = aview s" "aview (s\<lparr>last_packet_time_idle := ak\<rparr>) = aview s" "aview (s\<lparr>last_packet_time_keepalive_recv := ak\<rparr>) = aview s"
  "aview (s\<lparr>readbuf := al\<rparr>) = aview s" "aview (s\<lparr>payload_beginning := am\<rparr>) = aview s" "aview (upd_recv h s) = aview s"
  "aview (s\<lparr>channel_signal_pending := an\<rparr>) = aview s" "aview (s\<lparr>writequeue := ao\<rparr>) = aview s" "aview (s\<lparr>writequeue_len := ap\<rparr>) = aview s"
  "aview (s\<lparr>reply_queue := aq\<rparr>) = aview s" "aview (s\<lparr>reply_queue_len := ar\<rparr>) = aview s"
  "aview (s\<lparr>last_packet_time_keepalive_sent := as\<rparr>) = aview s"
  by (simp_all add: aview_def upd_defs)

lemma aview_sends [keeps_chans]:
  "on_write fw s = Inr s' \<Longrightarrow> aview s' = aview s" "put_byte n s = Inr s' \<Longrightarrow> aview s' = aview s" "put_int v s = Inr s' \<Longrightarrow> aview s' = aview s"
  "put_string str s = Inr s' \<Longrightarrow> aview s' = aview s" "encrypt_packet s = Inr s' \<Longrightarrow> aview s' = aview s"
  "put_kexinit b s = Inr s' \<Longrightarrow> aview s' = aview s"
  by (blast intro: aview_wire dest: on_write_wire put_wire encrypt_packet_wire put_kexinit_wire)+

lemma on_read_keeps [keeps_chans]: "on_read fr s = Inr (x, s') \<Longrightarrow> aview s' = aview s"
  by (auto simp: on_read_def split: option.splits elim!: bindr_InrE)

lemma send_msg_kexinit_keeps [keeps_chans]: "send_msg_kexinit None s = Inr s' \<Longrightarrow> aview s' = aview s"
  by (auto simp: send_msg_kexinit_def Let_def elim!: bindr_InrE dest!: keeps_chans)

lemma read_kex_algos_keeps [keeps_chans]: "read_kex_algos g s = Inr s' \<Longrightarrow> aview s' = aview s"
  by (auto simp: read_kex_algos_def read_markers_def split: option.splits prod.splits if_splits elim!: bindr_InrE)

lemma recv_msg_kexinit_keeps [keeps_chans]: "recv_msg_kexinit None s = Inr s' \<Longrightarrow> aview s' = aview s"
  by (erule recv_msg_kexinit_stages) (auto split: if_splits dest!: keeps_chans)

lemma hash_keeps [keeps_chans]:
  "on_kexhash fh s = Inr s' \<Longrightarrow> aview s' = aview s" "finish_kexhashbuf s = Inr s' \<Longrightarrow> aview s' = aview s"
  by (auto simp: on_kexhash_def finish_kexhashbuf_def split: option.splits elim!: bindr_InrE)

lemma param_keeps [keeps_chans]:
  "gen_kexdh_param s = Inr (param, s') \<Longrightarrow> aview s' = aview s" "gen_kexecdh_param ops s = Inr (ek, s') \<Longrightarrow> aview s' = aview s"
  "gen_kexcurve25519_param ops s = (ck, s') \<Longrightarrow> aview s' = aview s" "gen_kexpqhybrid_param ops s = Inr (pk, s') \<Longrightarrow> aview s' = aview s"
  "kem_part kem pq pub s = Inr (k, pq', s') \<Longrightarrow> aview s' = aview s"
  by (auto simp: gen_kexdh_param_def gen_kexecdh_param_def gen_kexcurve25519_param_def gen_kexpqhybrid_param_def kem_part_def Let_def
      split: option.splits prod.splits if_splits elim!: bindr_InrE)

lemma comb_keeps [keeps_chans]:
  "kexdh_comb_key ops dp them s = Inr s' \<Longrightarrow> aview s' = aview s" "kexcurve25519_comb_key ops cp q s = Inr s' \<Longrightarrow> aview s' = aview s"
  "kexecdh_comb_key ops ep q s = Inr s' \<Longrightarrow> aview s' = aview s" "kexpqhybrid_comb_key ops pp q s = Inr (pp', s') \<Longrightarrow> aview s' = aview s"
  by (auto simp: kexdh_comb_key_def kexcurve25519_comb_key_def kexecdh_comb_key_def kexpqhybrid_comb_key_def Let_def
      split: option.splits if_splits elim!: bindr_InrE dest!: keeps_chans)

lemma put_exchange_value_keeps [keeps_chans]:
  "put_exchange_value ops e q s = Inr s' \<Longrightarrow> aview s' = aview s"
  by (auto simp: put_exchange_value_def split: option.splits prod.splits dropbear_kex_mode.splits if_splits
      elim!: bindr_InrE dest!: keeps_chans)

lemma reply_keeps [keeps_chans]:
  "buf_put_sign ops t d s = Inr s' \<Longrightarrow> aview s' = aview s"
  "send_msg_kexdh_reply ops e q s = Inr s' \<Longrightarrow> aview s' = aview s"
  "send_msg_ext_info s = Inr s' \<Longrightarrow> aview s' = aview s"
  "read_exchange_value kex s = Inr (ev, qv, s') \<Longrightarrow> aview s' = aview s"
proof -
  show *: "buf_put_sign ops t d s = Inr s' \<Longrightarrow> aview s' = aview s" for t d s s'
    by (auto simp: buf_put_sign_def elim!: bindr_InrE dest!: keeps_chans)
  show "send_msg_kexdh_reply ops e q s = Inr s' \<Longrightarrow> aview s' = aview s"
    by (auto simp: send_msg_kexdh_reply_def split: option.splits elim!: bindr_InrE dest!: keeps_chans *)
  show "send_msg_ext_info s = Inr s' \<Longrightarrow> aview s' = aview s"
    by (auto simp: send_msg_ext_info_def elim!: bindr_InrE dest!: keeps_chans)
  show "read_exchange_value kex s = Inr (ev, qv, s') \<Longrightarrow> aview s' = aview s"
    by (auto simp: read_exchange_value_def split: if_splits option.splits elim!: bindr_InrE dest!: keeps_chans)
qed

lemma keys_keep [keeps_chans]:
  "gen_new_keys s = Inr s' \<Longrightarrow> aview s' = aview s"
  "switch_recv nk s = Inr (nk', s') \<Longrightarrow> aview s' = aview s"
  "switch_trans nk s = Inr (nk', s') \<Longrightarrow> aview s' = aview s"
  by (auto simp: gen_new_keys_def switch_recv_def switch_trans_def Let_def split: option.splits if_splits elim!: bindr_InrE)

lemma end_switch_keeps [simp]: "aview (end_switch nk s) = aview s"
  by (simp add: end_switch_def kexinitialise_def)

lemma newkeys_keep [keeps_chans]:
  "switch_keys s = Inr s' \<Longrightarrow> aview s' = aview s"
  "send_msg_newkeys s = Inr s' \<Longrightarrow> aview s' = aview s"
  "recv_msg_newkeys s = Inr s' \<Longrightarrow> aview s' = aview s"
proof -
  show *: "switch_keys s = Inr s' \<Longrightarrow> aview s' = aview s" for s s'
    by (auto simp: switch_keys_def split: if_splits option.splits elim!: bindr_InrE dest!: keeps_chans)
  show "send_msg_newkeys s = Inr s' \<Longrightarrow> aview s' = aview s" "recv_msg_newkeys s = Inr s' \<Longrightarrow> aview s' = aview s"
    by (auto simp: send_msg_newkeys_def recv_msg_newkeys_def Let_def split: if_splits elim!: bindr_InrE dest!: keeps_chans *)
qed

lemma kexdh_init_keeps [keeps_chans]: "recv_msg_kexdh_init ops s = Inr s' \<Longrightarrow> aview s' = aview s"
  by (auto simp: recv_msg_kexdh_init_def disable_sig_except_def split: if_splits option.splits elim!: bindr_InrE dest!: keeps_chans)

lemma other_keeps [keeps_chans]:
  "recv_unimplemented s = Inr s' \<Longrightarrow> aview s' = aview s"
  "recv_msg_service_request s = Inr s' \<Longrightarrow> aview s' = aview s"
  by (auto simp: recv_unimplemented_def recv_msg_service_request_def send_msg_service_accept_def split: if_splits
      elim!: bindr_InrE dest!: keeps_chans)

text \<open>Requests for authentication keep the exchange and the channels.\<close>

definition uview :: "sshsession \<Rightarrow> kview \<times> Channel option list" where
  "uview s = (kview s, channels s)"

named_theorems keeps_kex \<open>steps of authentication keep \<open>uview\<close>\<close>

lemma uview_wire: "unwired s' = unwired s \<Longrightarrow> uview s' = uview s"
  using aview_wire [of s' s] kview_wire [of s' s] by (simp add: aview_def uview_def)

lemma uview_updates [simp]:
  "uview (upd_auth f s) = uview s" "uview (s\<lparr>authstate := a1\<rparr>) = uview s" "uview (s\<lparr>world := a2\<rparr>) = uview s" "uview (upd_world g s) = uview s"
  "uview (s\<lparr>svr_opts := a3\<rparr>) = uview s" "uview (s\<lparr>allowprivport := a4\<rparr>) = uview s" "uview (s\<lparr>payload := a5\<rparr>) = uview s"
  by (simp_all add: uview_def kview_def upd_defs)

lemma uview_sends [keeps_kex]:
  "on_write fw s = Inr s' \<Longrightarrow> uview s' = uview s" "put_byte n s = Inr s' \<Longrightarrow> uview s' = uview s" "put_int v s = Inr s' \<Longrightarrow> uview s' = uview s"
  "put_string str s = Inr s' \<Longrightarrow> uview s' = uview s" "encrypt_packet s = Inr s' \<Longrightarrow> uview s' = uview s"
  by (blast intro: uview_wire dest: on_write_wire put_wire encrypt_packet_wire)+

lemma on_read_uview [keeps_kex]: "on_read fr s = Inr (x, s') \<Longrightarrow> uview s' = uview s"
  by (auto simp: on_read_def split: option.splits elim!: bindr_InrE)

lemma auth_replies_keep [keeps_kex]:
  "send_msg_userauth_failure p i s = Inr s' \<Longrightarrow> uview s' = uview s"
  "send_msg_userauth_success s = Inr s' \<Longrightarrow> uview s' = uview s"
  "send_msg_userauth_pk_ok sa kb s = Inr s' \<Longrightarrow> uview s' = uview s"
  "send_banner s = Inr s' \<Longrightarrow> uview s' = uview s"
  by (auto simp: send_msg_userauth_failure_def send_msg_userauth_success_def send_msg_userauth_pk_ok_def send_banner_def
      send_msg_userauth_banner_def sleep_after_failure_def Let_def split: if_splits option.splits prod.splits elim!: bindr_InrE dest!: keeps_kex)

lemma fill_passwd_keeps [keeps_kex]: "fill_passwd g u s = Inr s' \<Longrightarrow> uview s' = uview s"
  by (auto simp: fill_passwd_def Let_def split: prod.splits elim!: bindr_InrE)

lemma checkusername_keeps [keeps_kex]: "checkusername g u s = Inr (v, s') \<Longrightarrow> uview s' = uview s"
  by (auto simp: checkusername_def split: if_splits option.splits elim!: bindr_InrE dest!: keeps_kex)

lemma signed_data_keeps [keeps_kex]: "signed_data s = Inr (d, s') \<Longrightarrow> uview s' = uview s"
  by (auto simp: signed_data_def Let_def split: option.splits elim!: bindr_InrE)

lemma pubkey_keeps [keeps_kex]:
  "pubkey_verified po s = Inr s' \<Longrightarrow> uview s' = uview s"
  "bad_key s = Inr s' \<Longrightarrow> uview s' = uview s"
  by (auto simp: pubkey_verified_def bad_key_def Let_def split: if_splits elim!: bindr_InrE dest!: keeps_kex)

lemma verify_request_keeps [keeps_kex]: "verify_request ops st kt po s = Inr s' \<Longrightarrow> uview s' = uview s"
  by (auto simp: verify_request_def split: if_splits elim!: bindr_InrE dest!: keeps_kex)

lemma svr_auth_pubkey_keeps [keeps_kex]: "svr_auth_pubkey g ops st v s = Inr s' \<Longrightarrow> uview s' = uview s"
  by (auto simp: svr_auth_pubkey_def pubkey_attempt_def Let_def split: if_splits option.splits elim!: bindr_InrE dest!: keeps_kex)

lemma sshd4a_password_keeps [keeps_kex]: "sshd4a_svr_auth_password g pw s = Inr (a, b, s') \<Longrightarrow> uview s' = uview s"
  by (auto simp: sshd4a_svr_auth_password_def Let_def split: option.splits list.splits prod.splits elim!: bindr_InrE)

lemma svr_auth_password_keeps [keeps_kex]: "svr_auth_password g v s = Inr s' \<Longrightarrow> uview s' = uview s"
  by (auto simp: svr_auth_password_def split: if_splits option.splits elim!: bindr_InrE dest!: keeps_kex)

lemma userauth_keeps: "recv_msg_userauth_request g ops st s = Inr s' \<Longrightarrow> uview s' = uview s"
  by (auto simp: recv_msg_userauth_request_def try_method_def gettime_wrapper_def Let_def split: if_splits elim!: bindr_InrE dest!: keeps_kex)

lemma userauth_again: "recv_msg_userauth_request g ops st s = Inr s' \<Longrightarrow> authdone (authstate s) \<Longrightarrow> authdone (authstate s')"
  by (auto simp: recv_msg_userauth_request_def gettime_wrapper_def Let_def upd_auth_def)

text \<open>The messages about channels keep the exchange and do not undo the authentication.\<close>

definition hview :: "sshsession \<Rightarrow> kview \<times> bool" where
  "hview s = (kview s, authdone (authstate s))"

lemma hview_cview: "cview s' = cview s \<Longrightarrow> hview s' = hview s"
  by (simp add: hview_def cview_def)

lemmas mild = calm [THEN hview_cview]

lemma on_read_hview: "on_read fr s = Inr (x, s') \<Longrightarrow> hview s' = hview s"
  by (auto simp: on_read_def hview_def split: option.splits elim!: bindr_InrE)

lemma hview_updates [simp]: "hview (set_chan i c s) = hview s" "hview (update_channel_prio s) = hview s" "hview (s\<lparr>channels := a, chancount := b\<rparr>) = hview s"
  by (auto intro: hview_cview)

lemma getchannel_hview: "getchannel s = Inr (i, s') \<Longrightarrow> hview s' = hview s" "getchannel_msg k s = Inr (i, s') \<Longrightarrow> hview s' = hview s"
  by (auto simp: getchannel_def getchannel_msg_def split: if_splits option.splits elim!: bindr_InrE dest!: on_read_hview)

lemmas milds = mild on_read_hview getchannel_hview

lemma store_data_hview: "store_data i wh n s = Inr s' \<Longrightarrow> hview s' = hview s"
proof (induction i wh n s rule: store_data.induct)
  case (1 i wh n s)
  show ?case
  proof (cases "n = 0")
    case False
    then obtain c cb room d u cb' where st: "get_chan i s = Inr c" "chan_buf wh c = Some cb" "cbuf_writelen cb = Inr room" "min room n \<noteq> 0"
      "on_read (\<lambda>b. bindr (buf_peek b (min room n)) (\<lambda>d. bindr (buf_incrpos b (min room n)) (\<lambda>b. Inr (d, b)))) s = Inr (d, u)"
      "cbuf_write cb d = Inr cb'" "store_data i wh (n - min room n) (set_chan i (set_chan_buf wh cb' c) u) = Inr s'"
      using 1(2) by (subst (asm) store_data.simps) (auto simp: Let_def split: option.splits if_splits elim!: bindr_InrE)
    have "hview s' = hview (set_chan i (set_chan_buf wh cb' c) u)" using 1(1) [OF False st(1-3) refl st(4,5) refl st(6,7)] .
    then show ?thesis using on_read_hview [OF st(5)] by simp
  qed (use 1(2) in \<open>simp add: store_data.simps\<close>)
qed

lemma channel_data_hview: "recv_msg_channel_data s = Inr s' \<Longrightarrow> hview s' = hview s"
  by (auto simp: recv_msg_channel_data_def common_recv_msg_channel_data_def split: if_splits option.splits
      elim!: bindr_InrE dest!: milds store_data_hview)

lemma window_adjust_hview: "recv_msg_channel_window_adjust s = Inr s' \<Longrightarrow> hview s' = hview s"
  by (auto simp: recv_msg_channel_window_adjust_def elim!: bindr_InrE dest!: milds)

lemma inithandler_hview: "calm_chans hs \<Longrightarrow> inithandler (hs ct) i s = Inr (r, s') \<Longrightarrow> hview s' = hview s"
  and reqhandler_hview: "calm_chans hs \<Longrightarrow> reqhandler (hs ct) i s = Inr s' \<Longrightarrow> hview s' = hview s"
  using calm_chansD(4,5) by (auto simp: hview_def)

lemma newchannel_hview: "newchannel r ct w m s = Inr (c, s') \<Longrightarrow> hview s' = hview s"
  by (auto simp: newchannel_def Let_def split: if_splits elim!: bindr_InrE)

lemma channel_msgs_hview:
  assumes "calm_chans hs"
  shows "recv_msg_channel_request hs s = Inr s' \<Longrightarrow> hview s' = hview s"
    and "recv_msg_channel_open hs s = Inr s' \<Longrightarrow> hview s' = hview s"
    and "recv_msg_channel_eof hs s = Inr s' \<Longrightarrow> hview s' = hview s"
    and "recv_msg_channel_close hs s = Inr s' \<Longrightarrow> hview s' = hview s"
    and "recv_msg_channel_open_confirmation hs s = Inr s' \<Longrightarrow> hview s' = hview s"
    and "recv_msg_channel_open_failure hs s = Inr s' \<Longrightarrow> hview s' = hview s"
proof -
  note c = milds reqhandler_hview [OF assms] inithandler_hview [OF assms] newchannel_hview
    closing_calm(2) [OF assms, THEN hview_cview] check_close_calm(2) [OF assms, THEN hview_cview]
  show "recv_msg_channel_request hs s = Inr s' \<Longrightarrow> hview s' = hview s"
    by (auto simp: recv_msg_channel_request_def split: if_splits elim!: bindr_InrE dest!: c)
  have "create_channel hs ct r w m s = Inr s' \<Longrightarrow> hview s' = hview s" for ct r w m s
    by (auto simp: create_channel_def Let_def split: if_splits option.splits elim!: bindr_InrE dest!: c)
  then show "recv_msg_channel_open hs s = Inr s' \<Longrightarrow> hview s' = hview s"
    by (fastforce simp: recv_msg_channel_open_def Let_def split: if_splits option.splits elim!: bindr_InrE dest!: c)
  show "recv_msg_channel_eof hs s = Inr s' \<Longrightarrow> hview s' = hview s" "recv_msg_channel_close hs s = Inr s' \<Longrightarrow> hview s' = hview s"
    by (auto simp: recv_msg_channel_eof_def recv_msg_channel_close_def elim!: bindr_InrE dest!: c)
  show "recv_msg_channel_open_confirmation hs s = Inr s' \<Longrightarrow> hview s' = hview s"
    "recv_msg_channel_open_failure hs s = Inr s' \<Longrightarrow> hview s' = hview s"
    by (auto simp: recv_msg_channel_open_confirmation_def recv_msg_channel_open_failure_def split: if_splits elim!: bindr_InrE dest!: c)
qed

text \<open>What the functions outside the model promise.\<close>

definition calm_env :: "loop_env \<Rightarrow> bool" where
  "calm_env env \<longleftrightarrow> calm_chans (env_chans env) \<and> (\<forall>i sock. calm_handler (env_acceptor env i sock))
     \<and> calm_handler (env_loophandler env) \<and> (\<forall>w. calm_handler (env_handle_connect env w))
     \<and> (\<forall>w s w' s'. env_set_connect env w s = Inr (w', s') \<longrightarrow> cview s' = cview s \<and> (\<not> authdone (authstate s) \<longrightarrow> channels s' = channels s))
     \<and> (\<forall>s s'. env_global_request env s = Inr s' \<longrightarrow> hview s' = hview s)"

lemma calm_envD:
  assumes "calm_env env"
  shows "calm_chans (env_chans env)" and "calm_handler (env_acceptor env i sock)" and "calm_handler (env_loophandler env)"
    and "calm_handler (env_handle_connect env w)" and "env_set_connect env w s = Inr (w', s') \<Longrightarrow> cview s' = cview s"
    and "env_set_connect env w s = Inr (w', s') \<Longrightarrow> \<not> authdone (authstate s) \<Longrightarrow> channels s' = channels s"
    and "env_global_request env s = Inr s' \<Longrightarrow> hview s' = hview s"
  using assms unfolding calm_env_def by blast+

lemma svr_packettypes_kex_table:
  assumes "calm_env env"
  shows "kex_table (env_kex env) (svr_packettypes env)"
proof -
  note hs = channel_msgs_hview [OF calm_envD(1) [OF assms]] channel_data_hview window_adjust_hview calm_envD(7) [OF assms]
  have k: "hview s' = hview s \<Longrightarrow> kview s' = kview s" "uview s' = uview s \<Longrightarrow> kview s' = kview s" for s s'
    by (simp_all add: hview_def uview_def)
  show ?thesis
    by (auto simp: kex_table_def svr_packettypes_def kex_types_def ignore_recv_response_def recv_msg_service_request_view
        split: if_splits intro: k dest!: hs userauth_keeps)
qed

text \<open>Nobody who is not authenticated has a channel.\<close>

definition guarded :: "sshsession \<Rightarrow> bool" where
  "guarded s \<longleftrightarrow> authdone (authstate s) \<or> (\<forall>c \<in> set (channels s). c = None)"

lemma guarded_aview: "aview s' = aview s \<Longrightarrow> guarded s' = guarded s"
  by (simp add: guarded_def aview_def)

lemma handler_guarded:
  assumes "calm_env env" and "run_handler (svr_packettypes env) t s = Inr s'" and "guarded s" and "authdone (authstate s) \<or> t \<le> 60"
  shows "guarded s'"
proof -
  note hs = channel_msgs_hview [OF calm_envD(1) [OF assms(1)]] channel_data_hview window_adjust_hview calm_envD(7) [OF assms(1)]
  have h: "hview s' = hview s \<Longrightarrow> authdone (authstate s) \<Longrightarrow> guarded s'" by (simp add: hview_def guarded_def)
  have u: "uview s' = uview s \<Longrightarrow> (authdone (authstate s) \<Longrightarrow> authdone (authstate s')) \<Longrightarrow> guarded s'"
    using assms(3) by (auto simp: uview_def guarded_def)
  have a: "aview s' = aview s \<Longrightarrow> guarded s'" using guarded_aview assms(3) by blast
  show ?thesis
    using assms(2,4) by (auto simp: svr_packettypes_def ignore_recv_response_def assms(3) split: if_splits
        intro: h a u dest: hs keeps_chans userauth_keeps userauth_again)
qed

lemma process_packet_handed:
  assumes "process_packet tbl s = Inr s'"
  obtains "aview s' = aview s"
    | t u u' where "run_handler tbl t u = Inr u'" "aview u = aview s" "aview s' = aview u'" "authdone (authstate s) \<or> t \<le> 60"
proof -
  let ?f = "strict_kex (kexstate s) \<and> \<not> recvfirstnewkeys (kexstate s)"
  obtain c s1 s2 where 1: "on_read buf_getbyte s = Inr (c, s1)"
    "process_type tbl ?f (byte_val c) (s1\<lparr>last_packet_time_keepalive_recv := monotonic_now (world s1)\<rparr>) = Inr s2"
    and s': "s' = s2\<lparr>lastpacket := byte_val c, payload := None\<rparr>"
    using assms unfolding process_packet_def Let_def by (auto split: if_splits elim!: bindr_InrE)
  have a1: "aview s1 = aview s" using 1(1) by (rule on_read_keeps)
  have a2: "aview s' = aview s2" unfolding s' by simp
  have ad: "authstate u = authstate s" if "aview u = aview s" for u using that by (simp add: aview_def)
  obtain s0 where s0: "process_type tbl ?f (byte_val c) s0 = Inr s2" "aview s0 = aview s" using 1(2) a1 by simp
  consider "aview s2 = aview s" | u where "run_handler tbl (byte_val c) u = Inr s2" "aview u = aview s" "authdone (authstate u) \<or> byte_val c \<le> 60"
    using s0 unfolding process_type_def Let_def MAX_UNAUTH_PACKET_TYPE_def by (auto split: if_splits dest!: other_keeps)
  then show thesis
  proof cases
    case 1
    then show thesis using that(1) a2 by simp
  next
    case (2 u)
    show thesis by (rule that(2) [OF 2(1,2) a2]) (use 2(3) ad [OF 2(2)] in simp)
  qed
qed

lemma process_packet_guarded:
  assumes "calm_env env" and "process_packet (svr_packettypes env) s = Inr s'" and "guarded s"
  shows "guarded s'"
  using assms(2)
proof (cases rule: process_packet_handed)
  case 1
  then show ?thesis using assms(3) guarded_aview by blast
next
  case (2 t u u')
  have "authdone (authstate u) \<or> t \<le> 60" using 2(2,4) by (simp add: aview_def)
  then show ?thesis using handler_guarded [OF assms(1) 2(1)] 2(2,3) assms(3) guarded_aview by blast
qed

section \<open>A pass of the loop\<close>

text \<open>A relation between states that every part of a pass respects.\<close>

definition passes_ok :: "loop_env \<Rightarrow> sshsession \<Rightarrow> sshsession \<Rightarrow> bool" where
  "passes_ok env s s' \<longleftrightarrow> rtranclp (kex_step (svr_packettypes env)) s s' \<and> (guarded s \<longrightarrow> guarded s') \<and> (payload s = None \<longrightarrow> payload s' = None)"

lemma passes_ok_trans: "passes_ok env s s' \<Longrightarrow> passes_ok env s' s'' \<Longrightarrow> passes_ok env s s''"
  by (auto simp: passes_ok_def)

lemma passes_ok_calm:
  assumes "cview s' = cview s" and "\<not> authdone (authstate s) \<Longrightarrow> channels s' = channels s"
  shows "passes_ok env s s'"
proof -
  have "smooth (svr_packettypes env) s s'" using assms(1) by (rule smooth_calm)
  then show ?thesis using assms by (auto simp: passes_ok_def smooth_def guarded_def cview_def)
qed

lemma calm_handler_ok: "calm_handler h \<Longrightarrow> h s = Inr s' \<Longrightarrow> passes_ok env s s'"
  by (rule passes_ok_calm) (auto dest: calm_handlerD)

lemma queue_keeps [keeps_chans]:
  "maybe_flush_reply_queue s = Inr s' \<Longrightarrow> aview s' = aview s"
  "write_packet s = Inr s' \<Longrightarrow> aview s' = aview s"
  "send_msg_keepalive s = Inr s' \<Longrightarrow> aview s' = aview s"
proof -
  have *: "flush_replies rs s = Inr s' \<Longrightarrow> aview s' = aview s" for rs s s'
    by (induction rs arbitrary: s) (auto split: if_splits elim!: bindr_InrE dest!: keeps_chans)
  show "maybe_flush_reply_queue s = Inr s' \<Longrightarrow> aview s' = aview s"
    by (auto simp: maybe_flush_reply_queue_def split: if_splits elim!: bindr_InrE dest!: *)
  show "write_packet s = Inr s' \<Longrightarrow> aview s' = aview s"
    by (auto simp: write_packet_def Let_def split: if_splits prod.splits write_answer.splits elim!: bindr_InrE)
  show "send_msg_keepalive s = Inr s' \<Longrightarrow> aview s' = aview s"
    by (auto simp: send_msg_keepalive_def start_send_channel_request_def Let_def split: option.splits elim!: bindr_InrE dest!: keeps_chans)
qed

lemma checktimeouts_keeps: "checktimeouts s = Inr s' \<Longrightarrow> aview s' = aview s"
  by (auto simp: checktimeouts_def check_keepalive_def Let_def split: if_splits elim!: bindr_InrE dest!: keeps_chans)

lemma aview_channels: "aview s' = aview s \<Longrightarrow> channels s' = channels s"
  by (simp add: aview_def)

lemma loop_parts_ok:
  "maybe_flush_reply_queue s = Inr s' \<Longrightarrow> passes_ok env s s'"
  "write_packet s = Inr s' \<Longrightarrow> passes_ok env s s'"
  "checktimeouts s = Inr s' \<Longrightarrow> passes_ok env s s'"
proof -
  show "maybe_flush_reply_queue s = Inr s' \<Longrightarrow> passes_ok env s s'" "write_packet s = Inr s' \<Longrightarrow> passes_ok env s s'"
    by (rule passes_ok_calm; blast dest: calm queue_keeps aview_channels)+
  show "checktimeouts s = Inr s' \<Longrightarrow> passes_ok env s s'"
    using checktimeouts_smooth [of s s' "svr_packettypes env"] checktimeouts_keeps [of s s'] guarded_aview [of s' s]
    by (auto simp: passes_ok_def smooth_def cview_def)
qed

lemma no_channels_io:
  assumes "\<forall>c \<in> set (channels s). c = None"
  shows "chans_io hs r w is s = Inr s"
  using assms by (induction "is") (auto simp: all_set_conv_all_nth)

lemma channelio_ok:
  assumes "calm_env env" and "channelio (env_chans env) (env_acceptor env) r w s = Inr s'" and "guarded s"
  shows "passes_ok env s s'"
proof (rule passes_ok_calm)
  note acc = calm_envD(2) [OF assms(1)]
  show cv: "cview s' = cview s" by (rule channelio_calm [OF calm_envD(1) [OF assms(1)] acc assms(2)])
  assume "\<not> authdone (authstate s)"
  then have h: "handle_listeners (env_acceptor env) r s = Inr s'" and na: "\<not> authdone (authstate s)"
    using assms(2,3) no_channels_io [of s] by (auto simp: channelio_def guarded_def)
  have keep: "cview u' = cview u \<Longrightarrow> \<not> authdone (authstate u) \<Longrightarrow> \<not> authdone (authstate u')" for u u' by (simp add: cview_def)
  have 1: "handle_socks (env_acceptor env) r i socks u = Inr u' \<Longrightarrow> \<not> authdone (authstate u) \<Longrightarrow> channels u' = channels u \<and> \<not> authdone (authstate u')"
    for i socks u u'
  proof (induction socks arbitrary: u)
    case (Cons sock socks)
    then show ?case using calm_handlerD [OF acc [of i sock], of u] keep by (fastforce split: if_splits elim!: bindr_InrE)
  qed simp
  have "handle_slots (env_acceptor env) r is u = Inr s' \<Longrightarrow> \<not> authdone (authstate u) \<Longrightarrow> channels s' = channels u" for "is" u
  proof (induction "is" arbitrary: u)
    case (Cons i "is")
    then show ?case using 1 by (fastforce split: if_splits option.splits elim!: bindr_InrE)
  qed simp
  then show "channels s' = channels s" using h na by (simp add: handle_listeners_def)
qed

lemma process_packet_payload: "process_packet tbl s = Inr s' \<Longrightarrow> payload s' = None"
  by (auto simp: process_packet_def Let_def split: if_splits elim!: bindr_InrE)

lemma read_packet_keeps: "read_packet s = Inr s' \<Longrightarrow> aview s' = aview s"
  by (drule read_packet_reads) (simp add: rview_def aview_def)

lemma read_session_identification_keeps:
  assumes "read_session_identification ev s = Inr s'" and "remoteident s = None"
  shows "aview s' = aview s"
  by (rule read_session_identification_frame [OF assms]) simp

lemma read_socket_ok:
  assumes "calm_env env" and "read_socket env t r s = Inr s'"
  shows "passes_ok env s s'"
proof (cases "sock_in s = -1")
  case True
  then show ?thesis using assms(2) by (simp add: read_socket_def passes_ok_calm)
next
  case False
  then obtain u where u: "(if sock_in s \<in> set r then (if remoteident s = None then read_session_identification (t_ident t) s else read_packet s)
      else Inr s) = Inr u" "(if payload u \<noteq> None then process_packet (svr_packettypes env) u else Inr u) = Inr s'"
    using assms(2) by (auto simp: read_socket_def elim!: bindr_InrE)
  have v: "kview u = kview s" "aview u = aview s"
    using u(1) read_session_identification_calm [of "t_ident t" s u] read_session_identification_keeps read_packet_reads [of s u] read_packet_keeps
    by (auto simp: cview_def rview_def split: if_splits)
  have 1: "kex_step (svr_packettypes env) s u" by (rule kex_step.elsewhere [OF v(1)])
  have 2: "s' = u \<and> payload s' = None \<or> process_packet (svr_packettypes env) u = Inr s'" using u(2) by (auto split: if_splits)
  then show ?thesis
  proof
    assume "s' = u \<and> payload s' = None"
    then show ?thesis using 1 guarded_aview [OF v(2)] by (auto simp: passes_ok_def)
  next
    assume p: "process_packet (svr_packettypes env) u = Inr s'"
    have "rtranclp (kex_step (svr_packettypes env)) s s'" using 1 kex_step.packet [OF p] by (meson converse_rtranclp_into_rtranclp r_into_rtranclp)
    then show ?thesis using process_packet_guarded [OF assms(1) p] guarded_aview [OF v(2)] process_packet_payload [OF p] by (simp add: passes_ok_def)
  qed
qed

lemma ask_fds_ok:
  assumes "calm_env env" and "ask_fds env s = Inr (r, w, s')"
  shows "passes_ok env s s'" and "payload s = None"
  using assms(2) calm_envD(5,6) [OF assms(1)] unfolding ask_fds_def Let_def
  by (auto simp: require_def split: if_splits elim!: bindr_InrE intro!: passes_ok_calm)

lemma session_iteration_ok:
  assumes "calm_env env" and "session_iteration env t s = Inr s'" and "guarded s"
  shows "rtranclp (kex_step (svr_packettypes env)) s s'" and "guarded s'" and "payload s' = None"
proof -
  obtain r w u where a: "ask_fds env s = Inr (r, w, u)" using assms(2) unfolding session_iteration_def by (elim bindr_InrE) auto
  obtain rd wd where rd: "ready_fds (t_answer t) (r, w) = (rd, wd)" by force
  let ?u = "(at_time (t_now t) u)\<lparr>channel_signal_pending := env_signal_pipe env \<in> set rd\<rparr>"
  obtain s1 s2 s3 s4 s5 s6 where st: "checktimeouts ?u = Inr s1" "read_socket env t rd s1 = Inr s2" "maybe_flush_reply_queue s2 = Inr s3"
    "env_handle_connect env wd s3 = Inr s4" "env_loophandler env s4 = Inr s5" "channelio (env_chans env) (env_acceptor env) rd wd s5 = Inr s6"
    and l: "(if sock_out s6 \<noteq> -1 \<and> writequeue s6 \<noteq> [] then write_packet s6 else Inr s6) = Inr s'"
    using assms(2) a rd unfolding session_iteration_def by (auto simp: Let_def split: if_splits elim!: bindr_InrE)
  note ok = ask_fds_ok [OF assms(1) a]
  have "passes_ok env u ?u" by (rule passes_ok_calm) (simp_all add: upd_world_def)
  then have p5: "passes_ok env s s5"
    using ok(1) loop_parts_ok(3) [OF st(1), of env] read_socket_ok [OF assms(1) st(2)] loop_parts_ok(1) [OF st(3), of env]
      calm_handler_ok [OF calm_envD(4) [OF assms(1)] st(4), of env] calm_handler_ok [OF calm_envD(3) [OF assms(1)] st(5), of env]
    by (blast intro: passes_ok_trans)
  then have "guarded s5" using assms(3) by (simp add: passes_ok_def)
  then have p6: "passes_ok env s s6" using p5 channelio_ok [OF assms(1) st(6)] passes_ok_trans by blast
  have "passes_ok env s6 s'" using l loop_parts_ok(2) [of s6 s' env] by (auto simp: passes_ok_calm split: if_splits)
  then have "passes_ok env s s'" using p6 passes_ok_trans by blast
  then show "rtranclp (kex_step (svr_packettypes env)) s s'" "guarded s'" "payload s' = None"
    using assms(3) ok(2) by (simp_all add: passes_ok_def)
qed

text \<open>The loop is a run of the machine of the prelude, and what a pass keeps is an invariant of it.\<close>

lemma session_loop_run: "session_loop env ticks s = run (\<lambda>s t. session_iteration env t s) s ticks"
proof -
  have "session_loop env ticks = (\<lambda>s. run (\<lambda>s t. session_iteration env t s) s ticks)"
    by (induction ticks) (rule ext, simp)+
  then show ?thesis by simp
qed

definition loop_inv :: "loop_env \<Rightarrow> sshsession \<Rightarrow> sshsession \<Rightarrow> bool" where
  "loop_inv env s0 s \<longleftrightarrow> calm_env env \<and> rtranclp (kex_step (svr_packettypes env)) s0 s \<and> guarded s \<and> payload s = None"

interpretation passes: invariant_machine "\<lambda>s t. session_iteration env t s" "loop_inv env s0" for env s0
proof
  fix s t s' assume "loop_inv env s0 s" "session_iteration env t s = Inr s'"
  then show "loop_inv env s0 s'" using session_iteration_ok [of env t s s'] by (auto simp: loop_inv_def)
qed

lemma session_loop_ok:
  assumes "calm_env env" and "session_loop env ticks s = Inr s'" and "guarded s" and "payload s = None"
  shows "rtranclp (kex_step (svr_packettypes env)) s s' \<and> guarded s' \<and> payload s' = None"
  using passes.run_inv [of env s s ticks s'] assms by (simp add: session_loop_run loop_inv_def)

section \<open>The start\<close>

lemma svr_authinitialise_frame:
  assumes "svr_authinitialise g s = Inr s'"
  shows "s' = s\<lparr>authstate := authstate s', world := world s'\<rparr>" and "\<not> authdone (authstate s')"
  using assms
  by (auto simp: svr_authinitialise_def sshd4a_svr_authinitialise_def Let_def upd_auth_def zero_authstate_def split: prod.splits if_splits
      elim!: bindr_InrE)

lemma send_session_identification_wire: "send_session_identification s = Inr s' \<Longrightarrow> unwired s' = unwired s"
  by (auto simp: send_session_identification_def Let_def elim!: bindr_InrE dest!: writebuf_enqueue_wire)

text \<open>The session before its first KEXINIT is one the machine of the key exchange starts from.\<close>

lemma svr_session_start_ok:
  assumes "svr_session_start g sock cp pipefds s0 = Inr s" and "kexstate s0 = zero_kexstate"
  obtains u where "kex_fresh u" "kex_step tbl u s" "channels s = [None]" "\<not> authdone (authstate s)" "payload s = None"
proof -
  obtain s1 s2 s3 where st: "common_session_init sock sock pipefds s0 = Inr s1" "svr_authinitialise g (s1\<lparr>childpipe := cp\<rparr>) = Inr s2"
    "send_session_identification ((svr_algos_initialise (chaninitialise svr_chantypes s2))\<lparr>isserver := True\<rparr>) = Inr s3"
    "send_msg_kexinit None (kexfirstinitialise s3) = Inr s"
    using assms(1) unfolding svr_session_start_def Let_def by (elim bindr_InrE) auto
  define a w where "a = authstate s2" and "w = world s2"
  have s2: "s2 = s1\<lparr>childpipe := cp, authstate := a, world := w\<rparr>" "\<not> authdone a"
    unfolding a_def w_def by (rule svr_authinitialise_frame [OF st(2)])+
  have s1: "newkeys s1 = None" "session_id s1 = None" "kexhashbuf s1 = None" "transkexinit s1 = None" "dataallowed s1"
    "requirenext s1 = SSH_MSG_KEXINIT" "payload s1 = None" "kexstate s1 = zero_kexstate"
    using st(1) assms(2) by (auto simp: common_session_init_def Let_def update_channel_prio_def split: option.splits elim!: bindr_InrE)
  let ?t = "(svr_algos_initialise (chaninitialise svr_chantypes s2))\<lparr>isserver := True\<rparr>"
  note w = send_session_identification_wire [OF st(3)]
  have cv: "cview s3 = cview ?t" "aview s3 = aview ?t" "kview s3 = kview ?t" using cview_wire [OF w] aview_wire [OF w] kview_wire [OF w] by simp_all
  have t: "newkeys ?t = None" "session_id ?t = None" "kexhashbuf ?t = None" "transkexinit ?t = None" "dataallowed ?t"
    "requirenext ?t = SSH_MSG_KEXINIT" "payload ?t = None" "isserver ?t" "channels ?t = [None]" "authstate ?t = a"
    using s1 by (simp_all add: svr_algos_initialise_def chaninitialise_def listeners_initialise_def s2(1))
  have k3: "\<exists>n. kexstate s3 = zero_kexstate\<lparr>datatrans := n\<rparr>"
  proof -
    have "kexstate (unwired s3) = kexstate (unwired ?t)" using w by simp
    then show ?thesis using s1(8) by (cases "kexstate s3")
      (auto simp: unwired_def svr_algos_initialise_def chaninitialise_def listeners_initialise_def s2(1) zero_kexstate_def)
  qed
  have f3: "newkeys s3 = None" "session_id s3 = None" "kexhashbuf s3 = None" "transkexinit s3 = None" "dataallowed s3"
    "requirenext s3 = SSH_MSG_KEXINIT" "isserver s3" "payload s3 = None" "channels s3 = [None]" "authstate s3 = a"
    using arg_cong [OF cv(3), of v_new] arg_cong [OF cv(3), of v_id] arg_cong [OF cv(3), of v_hashbuf] arg_cong [OF cv(3), of v_trans]
      arg_cong [OF cv(3), of v_allowed] arg_cong [OF cv(3), of v_require] arg_cong [OF cv(3), of v_server] cv(1,2) t
    by (simp_all add: cview_def aview_def)
  define u where "u = kexfirstinitialise s3"
  have u: "kex_fresh u" "payload u = None" "channels u = [None]" "authstate u = a"
    using f3 k3 by (auto simp: u_def kexfirstinitialise_def kex_setup_compress_def kexinitialise_def kex_fresh_def upd_kex_def zero_kexstate_def)
  have ns: "\<not> sentkexinit (kexstate u)" using u(1) by (auto simp: kex_fresh_def zero_kexstate_def)
  note snd = st(4) [folded u_def]
  have "smooth tbl u s" by (rule send_msg_kexinit_smooth [OF snd ns])
  moreover have "aview s = aview u" using snd by (rule send_msg_kexinit_keeps)
  ultimately show thesis using that [OF u(1) kex_step.rekey [OF ns snd]] u(2-4) s2(2) by (simp add: smooth_def cview_def aview_def)
qed

section \<open>Every run of a server\<close>

text \<open>
  C9. The order of the key exchange in the running server: from the start of a session, through any
  number of passes of the main loop and whatever the peer, the clock and the system do in them, the
  invariant of the exchange holds after each pass, no packet is left over (so that the assertion at the
  head of the loop never fails), and a session id that is set stays the same.
\<close>

theorem server_run_keeps_exchange:
  assumes "calm_env env" and "kexstate s0 = zero_kexstate" and "svr_session_start g sock cp pipefds s0 = Inr s"
    and "session_loop env ticks1 s = Inr s1" and "session_loop env ticks2 s1 = Inr s2"
  shows "kex_inv (kview s1) \<and> payload s1 = None \<and> (session_id s1 = Some sid \<longrightarrow> session_id s2 = Some sid)"
proof -
  let ?tbl = "svr_packettypes env"
  note tbl = svr_packettypes_kex_table [OF assms(1)]
  obtain u where u: "kex_fresh u" "kex_step ?tbl u s" "channels s = [None]" "\<not> authdone (authstate s)" "payload s = None"
    by (rule svr_session_start_ok [OF assms(3,2)])
  have g: "guarded s" using u(3) by (simp add: guarded_def)
  note 1 = session_loop_ok [OF assms(1,4) g u(5)]
  then have 2: "rtranclp (kex_step ?tbl) s1 s2" using session_loop_ok [OF assms(1,5)] by blast
  have "rtranclp (kex_step ?tbl) u s1" using 1 u(2) by (blast intro: converse_rtranclp_into_rtranclp)
  then have inv: "kex_inv (kview s1)" by (rule kex_run_inv [OF tbl _ kex_fresh_inv [OF u(1)]])
  show ?thesis using inv 1 kex_run_id [OF tbl inv 2] by blast
qed


text \<open>A server with no algorithms, no configuration files and callbacks that do nothing, from its start.\<close>

definition idle_handlers :: handlers where
  "idle_handlers ct = \<lparr>inithandler = (\<lambda>i s. Inr (0, s)), type_check_close = (\<lambda>i s. Inr (True, s)), reqhandler = (\<lambda>i. Inr),
     closehandler = (\<lambda>i. Inr), cleanup = (\<lambda>i. Inr)\<rparr>"

definition idle_env :: loop_env where
  "idle_env = \<lparr>env_globals = some_globals, env_signkeys = easy_ops, env_stale = False, env_kex = toy_ops, env_chans = idle_handlers,
     env_global_request = Inr, env_acceptor = (\<lambda>i sock. Inr), env_loophandler = Inr, env_set_connect = (\<lambda>w s. Inr (w, s)),
     env_handle_connect = (\<lambda>w. Inr), env_signal_pipe = 3\<rparr>"

lemma idle_env_calm: "calm_env idle_env"
  by (auto simp: calm_env_def calm_chans_def calm_handler_def idle_env_def idle_handlers_def)

definition blank_session :: sshsession where
  "blank_session = zero_session still_world bare_libtom bare_libz plain_svr_opts plain_opts"

lemma blank_auth: "svr_authinitialise some_globals s = Inr (s\<lparr>authstate := zero_authstate\<rparr>)" if "conf_files (world s) = (\<lambda>_. None)"
proof -
  have "\<exists>p. sshd4a_conf_file some_globals AUTHORIZED_USERS_FILE = Inr p" by (simp add: sshd4a_conf_file_def sprintf_into_def)
  then show ?thesis using that
    by (auto simp: svr_authinitialise_def sshd4a_svr_authinitialise_def sshd4a_enable_public_key_auth_def sshd4a_enable_password_file_def
        config_file_exists_def some_globals_def sshd4a_enable_single_use_passwords_def upd_auth_def zero_authstate_def AUTH_TYPE_PUBKEY_def Let_def)
qed

lemma identification_sent: "\<exists>b. send_session_identification s = Inr (s\<lparr>writequeue := writequeue s @ [b], writequeue_len := writequeue_len s + blen b\<rparr>)"
proof -
  have "case bindr (buf_new (of_nat (length (LOCAL_IDENT @ [byte_of 13, byte_of 10])) + 1)) (\<lambda>b.
      bindr (buf_putbytes b (LOCAL_IDENT @ [byte_of 13, byte_of 10]) (of_nat (length (LOCAL_IDENT @ [byte_of 13, byte_of 10])))) (\<lambda>b.
      buf_setpos b 0)) of Inr b \<Rightarrow> True | Inl _ \<Rightarrow> False" by code_simp
  then show ?thesis by (auto simp: send_session_identification_def writebuf_enqueue_def Let_def split: sum.splits elim!: bindr_InrE)
qed

definition quiet_tick :: tick where
  "quiet_tick = \<lparr>t_now = 101, t_exitflag = False, t_answer = Select_ready [] [], t_ident = slow_peer []\<rparr>"

lemma quiet_pass:
  assumes "sock_in s = -1" "sock_out s = -1" "remoteident s = None" "connect_time s = 100" "channels s = [None]" "listeners s = [None]"
    "authstate s = zero_authstate" "payload s = None" "\<not> dataallowed s"
  shows "session_loop idle_env [quiet_tick] s = Inr ((at_time 101 s)\<lparr>channel_signal_pending := False\<rparr>)"
  by (simp add: session_iteration_def ask_fds_def setchannelfds_def set_listener_fds_def dropbear_fd_set_def FD_SETSIZE_def
      ready_fds_def checktimeouts_def elapsed_def LONG_MAX_def AUTH_TIMEOUT_def read_socket_def maybe_flush_reply_queue_def channelio_def
      handle_listeners_def idle_env_def quiet_tick_def assms Let_def upd_world_def zero_authstate_def)

lemma blank_start:
  obtains s where "svr_session_start some_globals (-1) 5 (Some (3, 4)) blank_session = Inr s"
    "session_loop idle_env [quiet_tick] s = Inr ((at_time 101 s)\<lparr>channel_signal_pending := False\<rparr>)"
    "authstate s = zero_authstate"
proof -
  let ?wp = "\<lparr>bdata = replicate 16384 (CHR 0x00), blen = 0, bpos = 0, bsize = 16384\<rparr> :: buffer"
  have wp: "buf_new TRANS_MAX_PAYLOAD_LEN = Inr ?wp" using buf_new_Inr [of 16384] by (simp add: TRANS_MAX_PAYLOAD_LEN_def)
  obtain s1 where s1: "common_session_init (-1) (-1) (Some (3, 4)) blank_session = Inr s1" "writepayload s1 = ?wp" "keys s1 = no_keys"
    "reply_queue_len s1 = 0" "world s1 = still_world" "libtom s1 = bare_libtom" "libz s1 = bare_libz" "sshkex s1 = []" "sigalgs s1 = []"
    "sshciphers s1 = []" "sshhashes s1 = []" "sock_in s1 = -1" "sock_out s1 = -1" "opts s1 = plain_opts" "remoteident s1 = None" "connect_time s1 = 100"
    "payload s1 = None"
    by (simp add: common_session_init_def wp blank_session_def zero_session_def update_channel_prio_def Let_def still_world_def)
  define t where "t = (svr_algos_initialise (chaninitialise svr_chantypes (s1\<lparr>childpipe := 5, authstate := zero_authstate\<rparr>)))\<lparr>isserver := True\<rparr>"
  obtain b where b: "send_session_identification t = Inr (t\<lparr>writequeue := writequeue t @ [b], writequeue_len := writequeue_len t + blen b\<rparr>)"
    using identification_sent by blast
  define u where "u = kexfirstinitialise (t\<lparr>writequeue := writequeue t @ [b], writequeue_len := writequeue_len t + blen b\<rparr>)"
  note d = u_def t_def kexfirstinitialise_def kex_setup_compress_def kexinitialise_def upd_kex_def svr_algos_initialise_def chaninitialise_def
    listeners_initialise_def
  have u: "writepayload u = ?wp" "keys u = no_keys" "reply_queue_len u = 0" "libtom u = bare_libtom" "libz u = bare_libz" "world u = still_world"
    "sshkex u = []" "sigalgs u = []" "sshciphers u = []" "sshhashes u = []" "compress_algos_c2s u = ssh_nocompress" "compress_algos_s2c u = ssh_compress"
    "sock_in u = -1" "sock_out u = -1" "remoteident u = None" "connect_time u = 100" "channels u = [None]" "listeners u = [None]"
    "authstate u = zero_authstate" "isserver u" "payload u = None"
    using s1 by (simp_all add: d plain_opts_def)
  have r: "ready_to_send u" using plain_session_ok u
    by (simp add: ready_to_send_def trans_ok_def payload_ready_def plain_session_def zero_session_def)
  have len: "length (kexinit_message False u) \<le> 16384"
    by (simp add: kexinit_message_def kexinit_lists_def genrandom_def u ssh_compress_def ssh_nocompress_def comp_entry_def)
  obtain s where s: "send_msg_kexinit None u = Inr s" by (rule send_msg_kexinit_ok [OF r len])
  have start: "svr_session_start some_globals (-1) 5 (Some (3, 4)) blank_session = Inr s"
    unfolding svr_session_start_def s1(1) using s b blank_auth [of "s1\<lparr>childpipe := 5\<rparr>"] s1(5)
    by (simp add: u_def t_def still_world_def)
  obtain v copy where v: "sends (kexinit_message False u) (u\<lparr>world := snd (genrandom 16 (world u)), transkexinit := Some copy\<rparr>) v"
    "s = (upd_kex (\<lambda>k. k\<lparr>sentkexinit := True\<rparr>) v)\<lparr>dataallowed := False, newkeys := Some zero_keys\<rparr>"
    by (rule send_msg_kexinit_ok [OF r len]) (use s that in simp)
  have w: "unwired v = unwired (u\<lparr>world := snd (genrandom 16 (world u)), transkexinit := Some copy\<rparr>)" using v(1) by (simp add: sends_def)
  note k = unwiredD [OF w]
  have "listeners v = [None]" using arg_cong [OF w, of listeners] u by (simp add: unwired_def)
  then have f: "sock_in s = -1" "sock_out s = -1" "remoteident s = None" "connect_time s = 100" "channels s = [None]" "listeners s = [None]"
    "authstate s = zero_authstate" "payload s = None" "\<not> dataallowed s"
    unfolding v(2) using u by (simp_all add: upd_kex_def k)
  show thesis by (rule that [OF start quiet_pass f(7)]) (rule f)+
qed

theorem server_run_keeps_exchange_witness:
  "\<exists>s s1. svr_session_start some_globals (-1) 5 (Some (3, 4)) blank_session = Inr s \<and> session_loop idle_env [quiet_tick] s = Inr s1
    \<and> kex_inv (kview s1) \<and> payload s1 = None"
proof -
  obtain s where s: "svr_session_start some_globals (-1) 5 (Some (3, 4)) blank_session = Inr s"
    "session_loop idle_env [quiet_tick] s = Inr ((at_time 101 s)\<lparr>channel_signal_pending := False\<rparr>)"
    by (rule blank_start)
  have "kexstate blank_session = zero_kexstate" by (simp add: blank_session_def zero_session_def)
  moreover have "session_loop idle_env [] ((at_time 101 s)\<lparr>channel_signal_pending := False\<rparr>) = Inr ((at_time 101 s)\<lparr>channel_signal_pending := False\<rparr>)"
    by simp
  ultimately show ?thesis using server_run_keeps_exchange [OF idle_env_calm _ s] s by blast
qed


end
