(* ===== verification/Spec2Isabelle.thy ===== *)
theory Spec2Isabelle
  imports Prelude Buffer Circbuffer Queue Algo Session Packet Packet_Recv Process_Packet Sshd4a Svr_Auth Pubkey_Options Pubkey
    Userauth Listener Channel Channel_Data Channel_Life Kex Svr_Kex Kex_Machine Session_Loop Session_Run
begin

text \<open>
  Verification of the SSH server of Sshd4a: the Dropbear server under
  \<open>src/app/src/main/cpp/dropbear/src\<close> as it is configured for Android by \<open>localoptions.h\<close>, with the
  authentication that Sshd4a adds in \<open>jni-dropbear.c\<close>. File names below are relative to that directory.

  \<^bold>\<open>The program.\<close> A process serves one connection. \<open>svr_session\<close> (\<open>svr-session.c\<close>) sets up the global \<open>ses\<close>
  (\<open>session.h\<close>) and enters \<open>session_loop\<close> (\<open>common-session.c\<close>), which waits in \<open>select\<close>, checks the timeouts, reads a
  packet (\<open>packet.c\<close>) and hands it to \<open>process_packet\<close> (\<open>process-packet.c\<close>), which finds the handler of its type in
  a table: key exchange (\<open>common-kex.c\<close>, \<open>svr-kex.c\<close>), authentication (\<open>svr-auth.c\<close> and the files of its
  methods) and channels (\<open>common-channel.c\<close>). Then the loop moves data between the channels and their local
  descriptors. Everything a handler sends is built in \<open>ses.writepayload\<close>, sealed by \<open>encrypt_packet\<close> and
  queued.

  \<^bold>\<open>The model.\<close> The session is one record, \<open>sshsession\<close> in the theory \<open>Session\<close>, with the fields of the C structure;
  a handler is a function from a session to a result, \<open>Inl\<close> of a failure or \<open>Inr\<close> of the new session. A failure
  says which way the process ends: \<open>dropbear_exit\<close>, \<open>dropbear_close\<close>, a failed assertion, an access outside of a block or through
  NULL (\<open>Mem_fault\<close>), or a loop that does not end (\<open>Loops\<close>). Integers of the C code are 32-bit words where they may
  wrap around. What the process sees of the system (clock, random bytes, answers of system calls, files) is the
  record \<open>world\<close> in the session, or an argument of a pass of the main loop.

  \<^bold>\<open>Theories\<close>, in the order of the code's layers:
  \<^item> \<open>Prelude\<close>: failures, results, memory blocks, C strings; the locales of machines that keep an invariant and
    stay in memory.
  \<^item> \<open>Buffer\<close> (\<open>buffer.c\<close>), \<open>Circbuffer\<close> (\<open>circbuffer.c\<close>), \<open>Queue\<close> (\<open>queue.c\<close>): memory safety of every sequence of
    operations, round trips of the SSH encodings (locale \<open>buf_codec\<close>), refinement of abstract queues (locales
    \<open>byte_fifo\<close>, \<open>fifo_queue\<close>).
  \<^item> \<open>Algo\<close> (\<open>common-algo.c\<close>): name lists are read back as written; the negotiation picks the first match.
  \<^item> \<open>Session\<close> (\<open>session.h\<close>, \<open>kex.h\<close>, \<open>auth.h\<close>, \<open>channel.h\<close>, \<open>runopts.h\<close>): the state.
  \<^item> \<open>Packet\<close>, \<open>Packet_Recv\<close> (\<open>packet.c\<close>, the queue of \<open>netio.c\<close>): what is sent is well formed and padded; replies wait
    for the end of a key exchange and keep their order; whatever arrives, reading stays in its
    buffers; a sealed packet is received with its payload.
  \<^item> \<open>Process_Packet\<close> (\<open>process-packet.c\<close>, \<open>svr-service.c\<close>): before authentication, and during a strict key exchange, only
    the allowed messages get through.
  \<^item> \<open>Kex\<close>, \<open>Svr_Kex\<close>, \<open>Kex_Machine\<close> (\<open>common-kex.c\<close>, \<open>svr-kex.c\<close>, \<open>kex-dh.c\<close>, \<open>kex-ecdh.c\<close>, \<open>kex-x25519.c\<close>, \<open>kex-pqhybrid.c\<close>, parts of
    \<open>dbrandom.c\<close> and \<open>ecc.c\<close>): both sides hash the same transcript and derive the same keys; random
    exponents are found; as a state machine (\<open>kex_step\<close>) the exchange keeps its order, the session id stays,
    and receiving switches to new keys only at NEWKEYS.
  \<^item> \<open>Sshd4a\<close> (\<open>jni-dropbear.c\<close>), \<open>Svr_Auth\<close> (\<open>svr-auth.c\<close>, \<open>svr-authpasswd.c\<close>), \<open>Pubkey_Options\<close> (\<open>svr-authpubkeyoptions.c\<close>), \<open>Pubkey\<close>
    (\<open>svr-authpubkey.c\<close>, \<open>signkey.c\<close>), \<open>Userauth\<close> (the request handler): who can log in and how, how often one can
    try, what the options of a key allow, how \<open>authorized_keys\<close> is searched.
  \<^item> \<open>Listener\<close> (\<open>listener.c\<close>), \<open>Channel\<close> (\<open>common-channel.c\<close>), \<open>Channel_Data\<close>, \<open>Channel_Life\<close>: data of a channel arrives
    complete and in order (locale \<open>stream_machine\<close>), windows are respected, opening and closing are
    answered.
  \<^item> \<open>Session_Loop\<close>, \<open>Session_Run\<close> (\<open>common-session.c\<close>, \<open>svr-session.c\<close>): identification strings, timeouts, the
    main loop; the components composed: from the start of a session every run keeps the key exchange in order,
    and nobody gets a channel without logging in.

  \<^bold>\<open>Parameters.\<close> Functions behind pointers or in libraries are arguments or fields: the ciphers, hashes and MACs of
  libtomcrypt (\<open>libtom\<close>, the cipher modes), zlib (\<open>libz\<close>), the formats and algorithms of keys (\<open>signkey_ops\<close>,
  \<open>kex_ops\<close>), the functions of channel types and listeners (\<open>handlers\<close>, \<open>loop_env\<close>). A theorem that needs something of
  them says so in a named hypothesis, and its witness has concrete functions that meet it.

  \<^bold>\<open>Loops.\<close> Loops over data are recursive functions. Two loops may run on: drawing random numbers below a
  bound, and waiting for the identification string. They are \<open>partial_function (option)\<close>, not ending is \<open>None\<close>, and the
  theorems \<open>random_number_found\<close> and \<open>identification_ends\<close> show that they end. The main loop runs for a given list of
  passes, of any length.

  \<^bold>\<open>Not modelled.\<close> The processes and terminals of a session channel (\<open>svr-chansession.c\<close>, \<open>sshpty.c\<close>) and the sockets of
  forwarding (\<open>svr-tcpfwd.c\<close>, \<open>svr-streamfwd.c\<close>, \<open>tcp-accept.c\<close>): calls of the operating system, behind the functions of
  channel types and listeners. The number theory of the keys (\<open>rsa.c\<close>, \<open>ecdsa.c\<close>, \<open>ed25519.c\<close>) and the libraries under
  them: a different subject, and parameters here. The command line (\<open>svr-runopts.c\<close>): its result is the record of
  options. Accepting connections and forking (\<open>svr-main.c\<close>). The client programs, the vendored OpenSSH and
  rsync, and the Java application, which are not part of the server.
\<close>

end
